(* ===== verification/Prelude.thy ===== *)
theory Prelude
  imports Main "HOL-Library.Word" "HOL-Library.Char_ord" "HOL-Library.List_Lexorder"
begin

unbundle bit_operations_syntax

text \<open>
  Shared vocabulary of the development: machine integers, Rust's \<open>Result\<close> as a sum type with
  its sequencing operator, the ASCII classes of \<open>u8\<close> and \<open>char\<close>, and the slice and string
  operations of the standard library that several crates use. A Rust \<open>str\<close> is the list of its
  UTF-8 bytes, a HOL \<open>string\<close>, so that \<open>len\<close>, \<open>as_bytes\<close>, equality and \<open>Ord\<close> are those
  of the list; raw data are lists of \<open>8 word\<close>.
\<close>

section \<open>Integers and results\<close>

type_synonym u8 = "8 word"
type_synonym u16 = "16 word"
type_synonym u32 = "32 word"
type_synonym u64 = "64 word"
type_synonym bytes = "u8 list"
type_synonym ('a, 'e) result = "'e + 'a"

named_theorems rust_std \<open>definitions of the standard library operations\<close>
named_theorems result_simps \<open>inversion of sequenced results\<close>

abbreviation Ok :: "'a \<Rightarrow> ('a, 'e) result" where
  "Ok \<equiv> Inr"

abbreviation Err :: "'e \<Rightarrow> ('a, 'e) result" where
  "Err \<equiv> Inl"

text \<open>The question-mark operator: stop at the first error.\<close>

definition and_then :: "('a, 'e) result \<Rightarrow> ('a \<Rightarrow> ('b, 'e) result) \<Rightarrow> ('b, 'e) result" where
  "and_then r f = (case r of Inl e \<Rightarrow> Inl e | Inr x \<Rightarrow> f x)"

definition map_err :: "('e \<Rightarrow> 'd) \<Rightarrow> ('a, 'e) result \<Rightarrow> ('a, 'd) result" where
  "map_err g r = (case r of Inl e \<Rightarrow> Inl (g e) | Inr x \<Rightarrow> Inr x)"

definition ok_or :: "'a option \<Rightarrow> 'e \<Rightarrow> ('a, 'e) result" where
  "ok_or x e = (case x of None \<Rightarrow> Inl e | Some y \<Rightarrow> Inr y)"

definition is_ok :: "('a, 'e) result \<Rightarrow> bool" where
  "is_ok r = (case r of Inl _ \<Rightarrow> False | Inr _ \<Rightarrow> True)"

definition ok :: "('a, 'e) result \<Rightarrow> 'a option" where
  "ok r = (case r of Inl _ \<Rightarrow> None | Inr x \<Rightarrow> Some x)"

lemma and_then_simps [simp]:
  "and_then (Inl e) f = Inl e"
  "and_then (Inr x) f = f x"
  by (simp_all add: and_then_def)

lemma and_then_eq_Inr [simp, result_simps]:
  "and_then r f = Inr y \<longleftrightarrow> (\<exists>x. r = Inr x \<and> f x = Inr y)"
  by (cases r) auto

lemma and_then_eq_Inl [result_simps]:
  "and_then r f = Inl e \<longleftrightarrow> r = Inl e \<or> (\<exists>x. r = Inr x \<and> f x = Inl e)"
  by (cases r) auto

lemma and_then_cong [fundef_cong]:
  "r = r' \<Longrightarrow> (\<And>x. r' = Inr x \<Longrightarrow> f x = f' x) \<Longrightarrow> and_then r f = and_then r' f'"
  by (cases r') auto

lemma map_err_simps [simp]:
  "map_err g (Inl e) = Inl (g e)"
  "map_err g (Inr x) = Inr x"
  by (simp_all add: map_err_def)

lemma map_err_eq_Inr [simp, result_simps]: "map_err g r = Inr y \<longleftrightarrow> r = Inr y"
  by (cases r) auto

lemma map_err_eq_Inl [result_simps]: "map_err g r = Inl d \<longleftrightarrow> (\<exists>e. r = Inl e \<and> d = g e)"
  by (cases r) auto

lemma ok_or_simps [simp]:
  "ok_or None e = Inl e"
  "ok_or (Some x) e = Inr x"
  by (simp_all add: ok_or_def)

lemma ok_or_eq_Inr [simp, result_simps]: "ok_or x e = Inr y \<longleftrightarrow> x = Some y"
  by (cases x) auto

lemma ok_or_eq_Inl [simp, result_simps]: "ok_or x e = Inl d \<longleftrightarrow> x = None \<and> e = d"
  by (cases x) auto

lemma is_ok_simps [simp]:
  "is_ok (Inr x)"
  "\<not> is_ok (Inl e)"
  by (simp_all add: is_ok_def)

lemma is_ok_iff [result_simps]: "is_ok r \<longleftrightarrow> (\<exists>x. r = Inr x)"
  by (cases r) auto

lemma ok_simps [simp]:
  "ok (Inl e) = None"
  "ok (Inr x) = Some x"
  by (simp_all add: ok_def)

lemma ok_eq_Some [simp, result_simps]: "ok r = Some x \<longleftrightarrow> r = Inr x"
  by (cases r) auto

text \<open>Collecting an iterator of results into a result of a vector.\<close>

fun collect :: "('a, 'e) result list \<Rightarrow> ('a list, 'e) result" where
  "collect [] = Inr []"
| "collect (r # rs) = and_then r (\<lambda>x. and_then (collect rs) (\<lambda>xs. Inr (x # xs)))"

lemma collect_eq_Inr: "collect rs = Inr xs \<longleftrightarrow> rs = map Inr xs"
  by (induction rs arbitrary: xs) (auto simp: Cons_eq_map_conv)

lemma collect_map_Inr [simp]: "collect (map Inr xs) = Inr xs"
  by (simp add: collect_eq_Inr)

text \<open>A loop over a list whose body may fail and threads a state.\<close>

fun fold_res :: "('a \<Rightarrow> 's \<Rightarrow> ('s, 'e) result) \<Rightarrow> 'a list \<Rightarrow> 's \<Rightarrow> ('s, 'e) result" where
  "fold_res f [] s = Inr s"
| "fold_res f (x # xs) s = and_then (f x s) (fold_res f xs)"

lemma fold_res_cong [fundef_cong]:
  "xs = ys \<Longrightarrow> s = t \<Longrightarrow> (\<And>x s. x \<in> set ys \<Longrightarrow> f x s = g x s) \<Longrightarrow> fold_res f xs s = fold_res g ys t"
proof (induction xs arbitrary: ys s t)
  case (Cons x xs)
  have "fold_res f xs u = fold_res g xs u" for u
    using Cons by (intro Cons.IH) auto
  moreover have "f x s = g x t"
    using Cons.prems by auto
  ultimately show ?case
    using Cons.prems by (cases "g x t") auto
qed simp

lemma fold_res_append:
  "fold_res f (xs @ ys) s = and_then (fold_res f xs s) (fold_res f ys)"
proof (induction xs arbitrary: s)
  case (Cons x xs)
  then show ?case by (cases "f x s") auto
qed simp

text \<open>
  The invariant rule of such a loop, as an interface: a step that keeps an invariant and, when it
  fails, fails with an error of a given kind. Every loop of the development that is written with
  \<^const>\<open>fold_res\<close> instantiates it.
\<close>

locale fallible_loop =
  fixes step :: "'a \<Rightarrow> 's \<Rightarrow> ('s, 'e) result"
    and inv :: "'s \<Rightarrow> bool"
    and admissible :: "'a \<Rightarrow> bool"
  assumes step_inv: "admissible x \<Longrightarrow> inv s \<Longrightarrow> step x s = Inr t \<Longrightarrow> inv t"
begin

lemma loop_inv:
  "list_all admissible xs \<Longrightarrow> inv s \<Longrightarrow> fold_res step xs s = Inr t \<Longrightarrow> inv t"
  by (induction xs arbitrary: s) (auto intro: step_inv)

lemma loop_prefix_inv:
  assumes "list_all admissible (xs @ ys)" and "inv s" and "fold_res step (xs @ ys) s = Inr t"
  obtains u where "fold_res step xs s = Inr u" and "inv u" and "fold_res step ys u = Inr t"
  using assms loop_inv [of xs s] by (auto simp: fold_res_append)

end

section \<open>ASCII classes\<close>

definition byte_of :: "char \<Rightarrow> u8" where
  [rust_std]: "byte_of c = of_char c"

definition byte_val :: "char \<Rightarrow> nat" where
  "byte_val c = of_char c"

definition is_ascii_whitespace :: "char \<Rightarrow> bool" where
  [rust_std]: "is_ascii_whitespace c \<longleftrightarrow> c \<in> {CHR '' '', CHR 0x09, CHR 0x0A, CHR 0x0C, CHR 0x0D}"

definition is_ascii_digit :: "char \<Rightarrow> bool" where
  [rust_std]: "is_ascii_digit c \<longleftrightarrow> 48 \<le> byte_val c \<and> byte_val c \<le> 57"

definition is_ascii_uppercase :: "char \<Rightarrow> bool" where
  [rust_std]: "is_ascii_uppercase c \<longleftrightarrow> 65 \<le> byte_val c \<and> byte_val c \<le> 90"

definition is_ascii_lowercase :: "char \<Rightarrow> bool" where
  [rust_std]: "is_ascii_lowercase c \<longleftrightarrow> 97 \<le> byte_val c \<and> byte_val c \<le> 122"

definition is_ascii_alphabetic :: "char \<Rightarrow> bool" where
  [rust_std]: "is_ascii_alphabetic c \<longleftrightarrow> is_ascii_uppercase c \<or> is_ascii_lowercase c"

definition is_ascii_alphanumeric :: "char \<Rightarrow> bool" where
  [rust_std]: "is_ascii_alphanumeric c \<longleftrightarrow> is_ascii_alphabetic c \<or> is_ascii_digit c"

definition is_ascii_hexdigit :: "char \<Rightarrow> bool" where
  [rust_std]: "is_ascii_hexdigit c \<longleftrightarrow>
     is_ascii_digit c \<or> 65 \<le> byte_val c \<and> byte_val c \<le> 70 \<or> 97 \<le> byte_val c \<and> byte_val c \<le> 102"

definition to_ascii_lowercase :: "char \<Rightarrow> char" where
  [rust_std]: "to_ascii_lowercase c = (if is_ascii_uppercase c then char_of (byte_val c + 32) else c)"

definition eq_ignore_ascii_case :: "string \<Rightarrow> string \<Rightarrow> bool" where
  [rust_std]: "eq_ignore_ascii_case s t \<longleftrightarrow> map to_ascii_lowercase s = map to_ascii_lowercase t"

lemma byte_val_less [simp]: "byte_val c < 256"
  by (simp add: byte_val_def)

lemma char_of_byte_val [simp]: "char_of (byte_val c) = c"
  by (simp add: byte_val_def)

lemma byte_val_char_of: "n < 256 \<Longrightarrow> byte_val (char_of n) = n"
  by (simp add: byte_val_def)

lemma byte_val_inject [simp]: "byte_val c = byte_val d \<longleftrightarrow> c = d"
  by (simp add: byte_val_def)

lemma unat_u8_less: "unat (b :: u8) < 256"
  using unsigned_less [of b] by simp

lemma unat_u16_less: "unat (w :: u16) < 65536"
  using unsigned_less [of w] by simp

lemma unat_byte_of [simp]: "unat (byte_of c) = byte_val c"
proof -
  have "(of_char c :: u8) = of_nat (of_char c)"
    by (simp only: of_nat_of_char)
  then show ?thesis
    by (simp add: byte_of_def byte_val_def unat_of_nat)
qed

section \<open>Strings and slices\<close>

fun strip_prefix :: "'a list \<Rightarrow> 'a list \<Rightarrow> 'a list option" where
  "strip_prefix [] s = Some s"
| "strip_prefix (p # ps) [] = None"
| "strip_prefix (p # ps) (c # s) = (if p = c then strip_prefix ps s else None)"

definition strip_suffix :: "'a list \<Rightarrow> 'a list \<Rightarrow> 'a list option" where
  "strip_suffix suf s = map_option rev (strip_prefix (rev suf) (rev s))"

definition starts_with :: "'a list \<Rightarrow> 'a list \<Rightarrow> bool" where
  "starts_with p s \<longleftrightarrow> strip_prefix p s \<noteq> None"

text \<open>\<open>iter().position(p)\<close>: the index of the first element with a property.\<close>

fun find_position :: "('a \<Rightarrow> bool) \<Rightarrow> 'a list \<Rightarrow> nat option" where
  "find_position p [] = None"
| "find_position p (x # xs) = (if p x then Some 0 else map_option Suc (find_position p xs))"

text \<open>\<open>windows(n).position(|w| w == pat)\<close>: the first occurrence of a nonempty pattern.\<close>

fun find_window :: "'a list \<Rightarrow> 'a list \<Rightarrow> nat option" where
  "find_window pat [] = None"
| "find_window pat (x # xs) =
     (if starts_with pat (x # xs) then Some 0 else map_option Suc (find_window pat xs))"

definition trim_ascii_start :: "string \<Rightarrow> string" where
  "trim_ascii_start s = dropWhile is_ascii_whitespace s"

lemma strip_prefix_eq_Some: "strip_prefix p s = Some r \<longleftrightarrow> s = p @ r"
  by (induction p s rule: strip_prefix.induct) auto

lemma strip_prefix_append [simp]: "strip_prefix p (p @ r) = Some r"
  by (simp add: strip_prefix_eq_Some)

lemma strip_suffix_eq_Some: "strip_suffix p s = Some r \<longleftrightarrow> s = r @ p"
proof
  assume "strip_suffix p s = Some r"
  then have "rev s = rev p @ rev r"
    by (auto simp: strip_suffix_def strip_prefix_eq_Some)
  then have "rev (rev s) = rev (rev p @ rev r)" by simp
  then show "s = r @ p" by simp
qed (simp add: strip_suffix_def)

lemma starts_with_iff: "starts_with p s \<longleftrightarrow> (\<exists>r. s = p @ r)"
  by (auto simp: starts_with_def strip_prefix_eq_Some)

lemma find_position_eq_Some:
  "find_position p xs = Some i \<longleftrightarrow> i < length xs \<and> p (xs ! i) \<and> (\<forall>j<i. \<not> p (xs ! j))"
proof (induction xs arbitrary: i)
  case (Cons x xs)
  show ?case
    by (cases i) (auto simp: Cons All_less_Suc2)
qed simp

lemma find_position_eq_None: "find_position p xs = None \<longleftrightarrow> (\<forall>x\<in>set xs. \<not> p x)"
  by (induction xs) auto

lemma find_window_Some:
  "find_window pat xs = Some i \<Longrightarrow> i < length xs \<and> starts_with pat (drop i xs)"
  by (induction pat xs arbitrary: i rule: find_window.induct)
    (auto split: if_splits)

lemma find_window_first:
  "find_window pat xs = Some i \<Longrightarrow> j < i \<Longrightarrow> \<not> starts_with pat (drop j xs)"
proof (induction pat xs arbitrary: i j rule: find_window.induct)
  case (2 pat x xs)
  then show ?case by (cases j) (auto split: if_splits)
qed simp

lemma find_window_None:
  "find_window pat xs = None \<Longrightarrow> j < length xs \<Longrightarrow> \<not> starts_with pat (drop j xs)"
proof (induction pat xs arbitrary: j rule: find_window.induct)
  case (2 pat x xs)
  then show ?case by (cases j) (auto split: if_splits)
qed simp

section \<open>Bytes of integers\<close>

definition u16_from_be :: "u8 \<Rightarrow> u8 \<Rightarrow> u16" where
  [rust_std]: "u16_from_be hi lo = ucast hi * 256 + ucast lo"

definition u16_to_be :: "u16 \<Rightarrow> u8 \<times> u8" where
  [rust_std]: "u16_to_be w = (ucast (drop_bit 8 w), ucast w)"

text \<open>\<open>from_be_bytes\<close> on a slice of any width, as the natural number it denotes.\<close>

fun be_nat :: "bytes \<Rightarrow> nat" where
  "be_nat [] = 0"
| "be_nat (b # bs) = unat b * 256 ^ length bs + be_nat bs"

lemma be_nat_less: "be_nat bs < 256 ^ length bs"
proof (induction bs)
  case (Cons b bs)
  have "unat b * 256 ^ length bs + be_nat bs < (unat b + 1) * 256 ^ length bs"
    using Cons by simp
  also have "\<dots> \<le> 256 * 256 ^ length bs"
    using unat_u8_less [of b] by (intro mult_le_mono1) simp
  finally show ?case by simp
qed simp

lemma unat_ucast_u8 [simp]: "unat (ucast (w :: 'a::len word) :: u8) = unat w mod 256"
  by (simp add: unsigned_ucast_eq take_bit_eq_mod)

lemma unat_ucast_u8_u16 [simp]: "unat (ucast (b :: u8) :: u16) = unat b"
  using unat_u8_less [of b] by (simp add: unsigned_ucast_eq take_bit_eq_mod)

lemma unat_u16_from_be: "unat (u16_from_be hi lo) = unat hi * 256 + unat lo"
proof -
  have hi: "unat hi < 256" and lo: "unat lo < 256"
    by (rule unat_u8_less)+
  have 1: "unat (ucast hi * 256 :: u16) = unat hi * 256"
    using hi by (simp add: unat_word_ariths)
  show ?thesis
    using hi lo by (simp add: u16_from_be_def unat_word_ariths 1)
qed

lemma u16_be_roundtrip: "(case u16_to_be w of (hi, lo) \<Rightarrow> u16_from_be hi lo) = w"
proof -
  have w: "unat w < 65536" by (rule unat_u16_less)
  have "unat (drop_bit 8 w) = unat w div 256"
    by (subst unat_drop_bit_eq) (simp add: drop_bit_eq_div)
  then have "unat (ucast (drop_bit 8 w) :: u8) = unat w div 256"
    using w by simp
  moreover have "unat (ucast w :: u8) = unat w mod 256"
    by simp
  ultimately have "unat (u16_from_be (ucast (drop_bit 8 w)) (ucast w)) = unat w"
    by (simp add: unat_u16_from_be)
  then show ?thesis by (simp add: u16_to_be_def word_unat_eq_iff)
qed

section \<open>Bit fields of a byte\<close>

lemma and_mask_5: "unat (w AND 0x1f :: u8) = unat w mod 32"
proof -
  have "w AND 0x1f = take_bit 5 w"
    by (simp add: take_bit_eq_mask mask_eq_exp_minus_1)
  then show ?thesis by (subst \<open>_ = _\<close>, subst unsigned_take_bit_eq) (simp add: take_bit_eq_mod)
qed

lemma and_mask_2: "unat (w AND 0x03 :: u8) = unat w mod 4"
proof -
  have "w AND 0x03 = take_bit 2 w"
    by (simp add: take_bit_eq_mask mask_eq_exp_minus_1)
  then show ?thesis by (subst \<open>_ = _\<close>, subst unsigned_take_bit_eq) (simp add: take_bit_eq_mod)
qed

lemma unat_drop_bit_u8: "unat (drop_bit n w :: u8) = unat w div 2 ^ n"
  by (subst unat_drop_bit_eq) (simp add: drop_bit_eq_div)

section \<open>Formatting of integers\<close>

text \<open>The digits of a number in a base, most significant first, and the two alphabets of hexadecimal.\<close>

fun nat_digits :: "nat \<Rightarrow> nat \<Rightarrow> nat list" where
  "nat_digits b n = (if n < b \<or> b < 2 then [n] else nat_digits b (n div b) @ [n mod b])"

declare nat_digits.simps [simp del]

definition digit_lower :: "nat \<Rightarrow> char" where
  "digit_lower d = char_of (if d < 10 then 48 + d else 87 + d)"

definition digit_upper :: "nat \<Rightarrow> char" where
  "digit_upper d = char_of (if d < 10 then 48 + d else 55 + d)"

definition format_dec :: "nat \<Rightarrow> string" where
  "format_dec n = map digit_lower (nat_digits 10 n)"

definition format_hex :: "nat \<Rightarrow> string" where
  "format_hex n = map digit_lower (nat_digits 16 n)"

definition format_hex_upper :: "nat \<Rightarrow> string" where
  "format_hex_upper n = map digit_upper (nat_digits 16 n)"

text \<open>The width flag \<open>0w\<close>: zeros in front up to the width.\<close>

definition zero_pad :: "nat \<Rightarrow> string \<Rightarrow> string" where
  "zero_pad w s = replicate (w - length s) CHR ''0'' @ s"

definition horner :: "nat \<Rightarrow> nat list \<Rightarrow> nat" where
  "horner b ds = foldl (\<lambda>a d. a * b + d) 0 ds"

lemma nat_digits_not_Nil [simp]: "nat_digits b n \<noteq> []"
  by (subst nat_digits.simps) simp

lemma nat_digits_less: "2 \<le> b \<Longrightarrow> d \<in> set (nat_digits b n) \<Longrightarrow> d < b"
proof (induction b n rule: nat_digits.induct)
  case (1 b n)
  then show ?case
    by (subst (asm) (2) nat_digits.simps) (auto split: if_splits)
qed

lemma horner_snoc [simp]: "horner b (ds @ [d]) = horner b ds * b + d"
  by (simp add: horner_def)

lemma horner_single [simp]: "horner b [d] = d"
  by (simp add: horner_def)

lemma horner_nat_digits: "horner b (nat_digits b n) = n"
proof (induction b n rule: nat_digits.induct)
  case (1 b n)
  then show ?case
    by (cases "n < b \<or> b < 2") (auto simp: nat_digits.simps [of b n])
qed

lemma length_nat_digits: "2 \<le> b \<Longrightarrow> n < b ^ Suc k \<Longrightarrow> length (nat_digits b n) \<le> Suc k"
proof (induction k arbitrary: n)
  case 0
  then show ?case by (simp add: nat_digits.simps)
next
  case (Suc k)
  then have "n div b < b ^ Suc k" by (simp add: less_mult_imp_div_less mult.commute)
  with Suc show ?case by (subst nat_digits.simps) auto
qed

lemma horner_zeros: "horner b (replicate k 0 @ ds) = horner b ds"
  by (induction k) (simp_all add: horner_def)

lemma length_zero_pad: "length s \<le> w \<Longrightarrow> length (zero_pad w s) = w"
  by (simp add: zero_pad_def)

lemma zero_pad_Cons: "zero_pad w (map f ds) = map f (replicate (w - length ds) 0 @ ds)"
  if "f 0 = CHR ''0''"
  by (simp add: zero_pad_def that)

section \<open>Big-endian bytes of a number\<close>

primrec be_bytes :: "nat \<Rightarrow> nat \<Rightarrow> bytes" where
  "be_bytes 0 n = []"
| "be_bytes (Suc k) n = of_nat (n div 256 ^ k) # be_bytes k (n mod 256 ^ k)"

lemma length_be_bytes [simp]: "length (be_bytes k n) = k"
  by (induction k arbitrary: n) auto

lemma be_nat_be_bytes [simp]: "n < 256 ^ k \<Longrightarrow> be_nat (be_bytes k n) = n"
proof (induction k arbitrary: n)
  case (Suc k)
  then have "n div 256 ^ k < 256" by (simp add: less_mult_imp_div_less mult.commute)
  then have "unat (of_nat (n div 256 ^ k) :: u8) = n div 256 ^ k" by (simp add: unat_of_nat)
  with Suc.IH [of "n mod 256 ^ k"] show ?case
    using div_mult_mod_eq [of n "256 ^ k"] by (simp only: be_bytes.simps be_nat.simps length_be_bytes) simp
qed simp

lemma be_bytes_be_nat [simp]: "be_bytes (length bs) (be_nat bs) = bs"
proof (induction bs)
  case (Cons b bs)
  have "(unat b * 256 ^ length bs + be_nat bs) div 256 ^ length bs = unat b"
    "(unat b * 256 ^ length bs + be_nat bs) mod 256 ^ length bs = be_nat bs"
    using be_nat_less [of bs] by simp_all
  with Cons show ?case by simp
qed simp

end
