(* ===== verification/Edid.thy ===== *)
theory Edid
  imports Prelude
begin

unbundle bit_operations_syntax

text \<open>
  The EDID parser of \<^verbatim>\<open>crates/ddccontrol-edid/src/lib.rs\<close>: the fixed fields of the base block,
  the text descriptors of a complete block and the check of a PnP identifier. Bytes are \<open>8 word\<close>s,
  so that the arithmetic of the manufacturer letters is that of the code; the lemmas show that it
  never wraps, which letters it yields, and what the descriptor texts can be.
\<close>

section \<open>Data\<close>

definition EDID_BLOCK_LEN :: nat where "EDID_BLOCK_LEN = 128"
definition EDID_MIN_PARSE_LEN :: nat where "EDID_MIN_PARSE_LEN = 0x17"
definition EDID_HEADER :: bytes where
  "EDID_HEADER = [0x00, 0xff, 0xff, 0xff, 0xff, 0xff, 0xff, 0x00]"
definition DESCRIPTOR_START :: nat where "DESCRIPTOR_START = 0x36"
definition DESCRIPTOR_LEN :: nat where "DESCRIPTOR_LEN = 18"
definition DESCRIPTOR_TEXT_LEN :: nat where "DESCRIPTOR_TEXT_LEN = 13"

lemmas edid_consts = EDID_BLOCK_LEN_def EDID_MIN_PARSE_LEN_def DESCRIPTOR_START_def
  DESCRIPTOR_LEN_def DESCRIPTOR_TEXT_LEN_def

lemma length_EDID_HEADER [simp]: "length EDID_HEADER = 8"
  by (simp add: EDID_HEADER_def)

record edid_info =
  serial_number :: u32
  manufacture_week :: u8
  manufacture_year :: u16
  edid_version :: u8
  edid_revision :: u8
  max_width_cm :: u8
  max_height_cm :: u8
  monitor_name :: string
  serial_ascii :: string

record edid =
  edid_pnp_id :: string
  digital_input :: bool
  edid_raw :: bytes
  edid_details :: edid_info

datatype edid_error = TooShort nat | InvalidHeader

section \<open>Operations\<close>

definition edid_char :: "u8 \<Rightarrow> char" where
  "edid_char b = char_of (unat b)"

definition u16_from_le :: "u8 \<Rightarrow> u8 \<Rightarrow> u16" where
  [rust_std]: "u16_from_le lo hi = u16_from_be hi lo"

definition u32_from_le :: "u8 \<Rightarrow> u8 \<Rightarrow> u8 \<Rightarrow> u8 \<Rightarrow> u32" where
  [rust_std]: "u32_from_le a b c d = of_nat (be_nat [d, c, b, a])"

definition parse_descriptor_text :: "bytes \<Rightarrow> string" where
  "parse_descriptor_text input =
     (let body = takeWhile (\<lambda>b. \<not> (b = 0x0a \<or> b = 0x0d)) (take DESCRIPTOR_TEXT_LEN input);
          normal = map (\<lambda>b. if 0x20 \<le> b \<and> b \<le> 0x7e then b else 0x20) body
      in map edid_char (rev (dropWhile (\<lambda>b. b = 0x20) (rev normal))))"

definition parse_descriptor :: "bytes \<Rightarrow> nat \<Rightarrow> edid_info \<Rightarrow> edid_info" where
  "parse_descriptor input i info =
     (let start = DESCRIPTOR_START + i * DESCRIPTOR_LEN;
          d = take DESCRIPTOR_LEN (drop start input)
      in if d ! 0 \<noteq> 0 \<or> d ! 1 \<noteq> 0 \<or> d ! 2 \<noteq> 0 \<or> d ! 4 \<noteq> 0 then info
         else if d ! 3 = 0xfc then info\<lparr>monitor_name := parse_descriptor_text (drop 5 d)\<rparr>
         else if d ! 3 = 0xff then info\<lparr>serial_ascii := parse_descriptor_text (drop 5 d)\<rparr>
         else info)"

definition parse_descriptors :: "bytes \<Rightarrow> edid_info \<Rightarrow> edid_info" where
  "parse_descriptors input info = fold (parse_descriptor input) [0..<4] info"

definition edid_manufacturer :: "bytes \<Rightarrow> bytes" where
  "edid_manufacturer input =
     [(drop_bit 2 (input ! 8) AND 0x1f) + 65 - 1,
      push_bit 3 (input ! 8 AND 0x03) + drop_bit 5 (input ! 9) + 65 - 1,
      (input ! 9 AND 0x1f) + 65 - 1]"

definition edid_parse :: "bytes \<Rightarrow> (edid, edid_error) result" where
  "edid_parse input =
     (if length input < EDID_MIN_PARSE_LEN then Err (TooShort (length input))
      else if take (length EDID_HEADER) input \<noteq> EDID_HEADER then Err InvalidHeader
      else
        let product_code = u16_from_le (input ! 10) (input ! 11);
            pnp_id = map edid_char (edid_manufacturer input)
                     @ zero_pad 4 (format_hex_upper (unat product_code));
            info = \<lparr>serial_number = u32_from_le (input ! 0x0c) (input ! 0x0d) (input ! 0x0e) (input ! 0x0f),
                    manufacture_week = input ! 0x10,
                    manufacture_year = ucast (input ! 0x11) + 1990,
                    edid_version = input ! 0x12,
                    edid_revision = input ! 0x13,
                    max_width_cm = input ! 0x15,
                    max_height_cm = input ! 0x16,
                    monitor_name = [],
                    serial_ascii = []\<rparr>;
            info = (if EDID_BLOCK_LEN \<le> length input then parse_descriptors input info else info)
        in Ok \<lparr>edid_pnp_id = pnp_id,
               digital_input = (input ! 0x14 AND 0x80 \<noteq> 0),
               edid_raw = take (min (length input) EDID_BLOCK_LEN) input,
               edid_details = info\<rparr>)"

definition is_valid_pnp_id :: "string \<Rightarrow> bool" where
  "is_valid_pnp_id ident \<longleftrightarrow>
     length ident = 7 \<and> list_all is_ascii_uppercase (take 3 ident)
     \<and> list_all is_ascii_hexdigit (drop 3 ident)"

section \<open>The PnP identifier\<close>

text \<open>The three five-bit letters of the manufacturer word, as numbers.\<close>

definition letter_codes :: "bytes \<Rightarrow> nat list" where
  "letter_codes input =
     (let w = unat (input ! 8) * 256 + unat (input ! 9)
      in [w div 1024 mod 32, w div 32 mod 32, w mod 32])"

lemma unat_push_3: "unat w < 32 \<Longrightarrow> unat (push_bit 3 w :: u8) = unat w * 8"
  by (simp add: push_bit_eq_mult unat_word_ariths)

lemma unat_add_A: "unat x < 32 \<Longrightarrow> unat (x + 65 - 1 :: u8) = unat x + 64"
proof -
  assume "unat x < 32"
  then have "unat (x + 64) = unat x + 64" by (simp add: unat_word_ariths)
  moreover have "x + 65 - 1 = x + 64" by simp
  ultimately show ?thesis by metis
qed

lemma unat_letter: "unat x = n \<Longrightarrow> n < 32 \<Longrightarrow> unat (x + 65 - 1 :: u8) = n + 64"
  by (subst unat_add_A) simp_all

lemma letter_split:
  assumes "(b :: nat) < 256"
  shows "(a mod 4) * 8 + b div 32 = (a * 256 + b) div 32 mod 32"
proof -
  define q r y where "q = a div 4" and "r = a mod 4" and "y = b div 32"
  have a: "a = 4 * q + r" and r: "r < 4" and y: "y < 8"
    using assms by (auto simp: q_def r_def y_def)
  have "(a * 256 + b) div 32 = a * 8 + y"
    using div_mult_self3 [of 32 "a * 8" b] by (simp add: y_def)
  also have "a * 8 + y = 32 * q + (r * 8 + y)" by (simp add: a)
  also have "\<dots> mod 32 = r * 8 + y" using r y by (simp only: mod_mult_self4) simp
  finally show ?thesis by (simp add: r_def y_def)
qed

lemma middle_letter:
  "unat (push_bit 3 (a AND 0x03) + drop_bit 5 b :: u8) = (unat a * 256 + unat b) div 32 mod 32"
proof -
  have b: "unat b < 256" by (rule unat_u8_less)
  have p: "unat (push_bit 3 (a AND 0x03)) = (unat a mod 4) * 8"
  proof -
    have "unat (a AND 0x03) < 32" by (simp add: and_mask_2)
    then show ?thesis by (subst unat_push_3) (simp_all only: and_mask_2)
  qed
  have "unat (push_bit 3 (a AND 0x03) + drop_bit 5 b) = (unat a mod 4) * 8 + unat b div 32"
    using b by (simp only: unat_word_ariths p unat_drop_bit_u8) simp
  also have "\<dots> = (unat a * 256 + unat b) div 32 mod 32"
    using b by (rule letter_split)
  finally show ?thesis .
qed

lemma edid_manufacturer_codes: "map unat (edid_manufacturer input) = map ((+) 64) (letter_codes input)"
proof -
  let ?a = "unat (input ! 8)" and ?b = "unat (input ! 9)"
  have b: "?b < 256" and a: "?a < 256" by (rule unat_u8_less)+
  have "(?a * 256 + ?b) div 1024 mod 32 = ?a div 4 mod 32"
    using b by (simp add: div_mult2_eq [of _ 256 4, simplified])
  moreover have "(?a * 256 + ?b) mod 32 = ?b mod 32"
    using mod_mult_self3 [of "?a * 8" 32 ?b] by (simp add: mult.assoc)
  moreover have "unat ((drop_bit 2 (input ! 8) AND 0x1f) + 65 - 1) = ?a div 4 mod 32 + 64"
    by (rule unat_letter) (simp_all only: and_mask_5 unat_drop_bit_u8, simp_all)
  moreover have "unat ((input ! 9 AND 0x1f) + 65 - 1) = ?b mod 32 + 64"
    by (rule unat_letter [OF and_mask_5]) simp
  moreover have "unat (push_bit 3 (input ! 8 AND 0x03) + drop_bit 5 (input ! 9) + 65 - 1)
      = (?a * 256 + ?b) div 32 mod 32 + 64"
    by (rule unat_letter [OF middle_letter]) simp
  ultimately show ?thesis
    unfolding edid_manufacturer_def letter_codes_def Let_def list.map by (simp only: add.commute)
qed

lemma edid_char_eq: "map edid_char bs = map char_of (map unat bs)"
  by (simp add: edid_char_def)

lemma edid_letters: "map edid_char (edid_manufacturer input) = map (\<lambda>n. char_of (64 + n)) (letter_codes input)"
  by (simp add: edid_char_eq edid_manufacturer_codes)

lemma letter_codes_less: "list_all (\<lambda>n. n < 32) (letter_codes input)"
  by (simp add: letter_codes_def Let_def)

lemma letter_uppercase: "(n :: nat) < 32 \<Longrightarrow> is_ascii_uppercase (char_of (64 + n)) \<longleftrightarrow> 1 \<le> n \<and> n \<le> 26"
  by (auto simp: is_ascii_uppercase_def byte_val_char_of)

lemma digit_upper_hex: "d < 16 \<Longrightarrow> is_ascii_hexdigit (digit_upper d)"
  by (auto simp: is_ascii_hexdigit_def is_ascii_digit_def digit_upper_def byte_val_char_of)

lemma product_code_text:
  fixes w :: u16
  defines "t \<equiv> zero_pad 4 (format_hex_upper (unat w))"
  shows "length t = 4" and "list_all is_ascii_hexdigit t"
    and "\<exists>ds. t = map digit_upper ds \<and> list_all (\<lambda>d. d < 16) ds \<and> horner 16 ds = unat w"
proof -
  let ?ds = "nat_digits 16 (unat w)"
  have l: "length ?ds \<le> 4"
    using length_nat_digits [of 16 "unat w" 3] unat_u16_less [of w] by simp
  have t: "t = map digit_upper (replicate (4 - length ?ds) 0 @ ?ds)"
    unfolding t_def format_hex_upper_def by (rule zero_pad_Cons) (simp add: digit_upper_def flip: byte_val_inject, simp add: byte_val_def)
  have d: "list_all (\<lambda>d. d < 16) (replicate (4 - length ?ds) 0 @ ?ds)"
    by (auto simp: list_all_iff dest: nat_digits_less [rotated])
  show "length t = 4" using l by (simp add: t)
  show "list_all is_ascii_hexdigit t"
    using d by (auto simp: t list_all_iff digit_upper_hex)
  show "\<exists>ds. t = map digit_upper ds \<and> list_all (\<lambda>d. d < 16) ds \<and> horner 16 ds = unat w"
    using t d horner_zeros horner_nat_digits by metis
qed

section \<open>Descriptor texts\<close>

definition is_printable :: "char \<Rightarrow> bool" where
  "is_printable c \<longleftrightarrow> 32 \<le> byte_val c \<and> byte_val c \<le> 126"

lemma byte_val_edid_char [simp]: "byte_val (edid_char b) = unat b"
  using unat_u8_less [of b] by (simp add: edid_char_def byte_val_char_of)

lemma dropWhile_trailing:
  "\<exists>n. xs = rev (dropWhile (\<lambda>b. b = s) (rev xs)) @ replicate n s"
proof (induction xs rule: rev_induct)
  case (snoc x xs)
  then obtain n where n: "xs = rev (dropWhile (\<lambda>b. b = s) (rev xs)) @ replicate n s" by blast
  show ?case
  proof (cases "x = s")
    case True
    with n have "xs @ [x] = rev (dropWhile (\<lambda>b. b = s) (rev (xs @ [x]))) @ replicate (Suc n) s"
      by (simp flip: replicate_append_same)
    then show ?thesis by blast
  qed (simp add: exI [of _ 0])
qed simp

text \<open>The normalised body of a descriptor, before trailing blanks are cut.\<close>

definition descriptor_body :: "bytes \<Rightarrow> string" where
  "descriptor_body input =
     map (\<lambda>b. if 32 \<le> unat b \<and> unat b \<le> 126 then char_of (unat b) else CHR '' '')
       (takeWhile (\<lambda>b. b \<noteq> 10 \<and> b \<noteq> 13) (take 13 input))"

lemma parse_descriptor_text_eq:
  "parse_descriptor_text input = rev (dropWhile (\<lambda>c. c = CHR '' '') (rev (descriptor_body input)))"
proof -
  let ?body = "takeWhile (\<lambda>b. b \<noteq> 10 \<and> b \<noteq> 13) (take 13 input)"
  let ?f = "\<lambda>b. if 0x20 \<le> b \<and> b \<le> 0x7e then b else (0x20 :: u8)"
  have sp: "edid_char b = CHR '' '' \<longleftrightarrow> b = 0x20" for b
    by (simp add: word_unat_eq_iff flip: byte_val_inject) (simp add: byte_val_def)
  have "edid_char (?f b) = (if 32 \<le> unat b \<and> unat b \<le> 126 then char_of (unat b) else CHR '' '')" for b
    using sp [of "0x20"] by (auto simp: word_le_nat_alt edid_char_def)
  then have "descriptor_body input = map edid_char (map ?f ?body)"
    by (simp add: descriptor_body_def)
  moreover have "rev (dropWhile (\<lambda>c. c = CHR '' '') (rev (map edid_char xs)))
      = map edid_char (rev (dropWhile (\<lambda>b. b = 0x20) (rev xs)))" for xs
    by (simp add: rev_map dropWhile_map comp_def sp)
  ultimately show ?thesis
    by (simp only: parse_descriptor_text_def Let_def edid_consts de_Morgan_disj)
qed

lemma parse_descriptor_text_good:
  "length (parse_descriptor_text input) \<le> 13 \<and> list_all is_printable (parse_descriptor_text input)
   \<and> list_all (\<lambda>c. c \<noteq> CHR '' '') (take 1 (rev (parse_descriptor_text input)))
   \<and> (\<exists>n. descriptor_body input = parse_descriptor_text input @ replicate n CHR '' '')"
proof -
  obtain n where n: "descriptor_body input = parse_descriptor_text input @ replicate n CHR '' ''"
    using dropWhile_trailing parse_descriptor_text_eq by metis
  have "length (descriptor_body input) \<le> 13"
    using length_takeWhile_le [of _ "take 13 input"] by (fastforce simp: descriptor_body_def)
  moreover have "list_all is_printable (descriptor_body input)"
    by (auto simp: descriptor_body_def list_all_iff is_printable_def byte_val_char_of)
      (simp_all add: byte_val_def)
  moreover have "list_all (\<lambda>c. c \<noteq> CHR '' '') (take 1 (dropWhile (\<lambda>c. c = CHR '' '') xs))" for xs
    by (induction xs) auto
  then have "list_all (\<lambda>c. c \<noteq> CHR '' '') (take 1 (rev (parse_descriptor_text input)))"
    by (simp only: parse_descriptor_text_eq rev_rev_ident)
  ultimately show ?thesis by (auto simp: n)
qed

section \<open>Parsing\<close>

text \<open>The texts of the display descriptors with a given tag, in the order of the block.\<close>

definition descriptor_texts :: "u8 \<Rightarrow> bytes \<Rightarrow> string list" where
  "descriptor_texts tag input =
     map (\<lambda>d. parse_descriptor_text (drop 5 d))
       (filter (\<lambda>d. d ! 0 = 0 \<and> d ! 1 = 0 \<and> d ! 2 = 0 \<and> d ! 3 = tag \<and> d ! 4 = 0)
          (map (\<lambda>i. take 18 (drop (54 + i * 18) input)) [0..<4]))"

lemma parse_descriptor_fields:
  "monitor_name (fold (parse_descriptor input) is info) =
     last (monitor_name info #
       map (\<lambda>d. parse_descriptor_text (drop 5 d))
         (filter (\<lambda>d. d ! 0 = 0 \<and> d ! 1 = 0 \<and> d ! 2 = 0 \<and> d ! 3 = 0xfc \<and> d ! 4 = 0)
            (map (\<lambda>i. take 18 (drop (54 + i * 18) input)) is)))"
  "serial_ascii (fold (parse_descriptor input) is info) =
     last (serial_ascii info #
       map (\<lambda>d. parse_descriptor_text (drop 5 d))
         (filter (\<lambda>d. d ! 0 = 0 \<and> d ! 1 = 0 \<and> d ! 2 = 0 \<and> d ! 3 = 0xff \<and> d ! 4 = 0)
            (map (\<lambda>i. take 18 (drop (54 + i * 18) input)) is)))"
  by (induction "is" arbitrary: info) (simp_all add: parse_descriptor_def Let_def edid_consts)

lemma parse_descriptors_fields:
  "monitor_name (parse_descriptors input info) = last (monitor_name info # descriptor_texts 0xfc input)"
  "serial_ascii (parse_descriptors input info) = last (serial_ascii info # descriptor_texts 0xff input)"
  unfolding parse_descriptors_def descriptor_texts_def by (rule parse_descriptor_fields)+

lemma parse_descriptors_keeps [simp]:
  "serial_number (parse_descriptors input info) = serial_number info"
  "manufacture_year (parse_descriptors input info) = manufacture_year info"
  "manufacture_week (parse_descriptors input info) = manufacture_week info"
  "edid_version (parse_descriptors input info) = edid_version info"
  "edid_revision (parse_descriptors input info) = edid_revision info"
  "max_width_cm (parse_descriptors input info) = max_width_cm info"
  "max_height_cm (parse_descriptors input info) = max_height_cm info"
proof -
  have "f (fold (parse_descriptor input) is info) = f info"
    if "\<And>i info. f (parse_descriptor input i info) = f info" for f :: "edid_info \<Rightarrow> 'z" and "is"
    by (induction "is" arbitrary: info) (simp_all add: that)
  note keeps = this [unfolded parse_descriptor_def Let_def]
  show "serial_number (parse_descriptors input info) = serial_number info"
    "manufacture_year (parse_descriptors input info) = manufacture_year info"
    "manufacture_week (parse_descriptors input info) = manufacture_week info"
    "edid_version (parse_descriptors input info) = edid_version info"
    "edid_revision (parse_descriptors input info) = edid_revision info"
    "max_width_cm (parse_descriptors input info) = max_width_cm info"
    "max_height_cm (parse_descriptors input info) = max_height_cm info"
    unfolding parse_descriptors_def parse_descriptor_def Let_def by (rule keeps, simp)+
qed

lemma edid_year: "unat (ucast (b :: u8) + 1990 :: u16) = unat b + 1990"
  using unat_u8_less [of b] by (simp add: unat_word_ariths)

lemma unat_u32_from_le: "unat (u32_from_le a b c d) = be_nat [d, c, b, a]"
proof -
  have "be_nat [d, c, b, a] < 2 ^ LENGTH(32)"
    using be_nat_less [of "[d, c, b, a]"] by (simp del: be_nat.simps)
  then show ?thesis by (simp only: u32_from_le_def unat_of_nat mod_less)
qed

lemma take_4_drop:
  "n + 4 \<le> length xs \<Longrightarrow> take 4 (drop n xs) = [xs ! n, xs ! (n + 1), xs ! (n + 2), xs ! (n + 3)]"
  by (rule nth_equalityI) (auto simp: less_Suc_eq numeral_eq_Suc)

lemma unat_u16_from_le: "unat (u16_from_le lo hi) = unat lo + 256 * unat hi"
  by (simp add: u16_from_le_def unat_u16_from_be)

lemma edid_pnp_valid:
  assumes "length t = 4" and "list_all is_ascii_hexdigit t"
  shows "is_valid_pnp_id (map (\<lambda>n. char_of (64 + n)) (letter_codes input) @ t)
         = list_all (\<lambda>n. 1 \<le> n \<and> n \<le> 26) (letter_codes input)"
proof -
  have "length (letter_codes input) = 3" by (simp add: letter_codes_def Let_def)
  with assms letter_codes_less [of input] show ?thesis
    by (simp add: is_valid_pnp_id_def list_all_iff letter_uppercase)
qed

lemma edid_parse_fields:
  "case edid_parse input of
     Inl e \<Rightarrow> e = TooShort (length input) \<and> length input < 23
            \<or> e = InvalidHeader \<and> 23 \<le> length input \<and> take 8 input \<noteq> EDID_HEADER
   | Inr d \<Rightarrow> 23 \<le> length input \<and> take 8 input = EDID_HEADER \<and> edid_raw d = take 128 input
       \<and> (\<exists>ds. edid_pnp_id d = map (\<lambda>n. char_of (64 + n)) (letter_codes input) @ map digit_upper ds
             \<and> length ds = 4 \<and> list_all (\<lambda>x. x < 16) ds
             \<and> horner 16 ds = unat (input ! 10) + 256 * unat (input ! 11))
       \<and> is_valid_pnp_id (edid_pnp_id d) = list_all (\<lambda>n. 1 \<le> n \<and> n \<le> 26) (letter_codes input)
       \<and> unat (serial_number (edid_details d)) = be_nat (rev (take 4 (drop 12 input)))
       \<and> unat (manufacture_year (edid_details d)) = 1990 + unat (input ! 17)"
proof (cases "23 \<le> length input \<and> take 8 input = EDID_HEADER")
  case True
  let ?w = "u16_from_le (input ! 10) (input ! 11)"
  let ?t = "zero_pad 4 (format_hex_upper (unat ?w))"
  obtain ds where ds: "?t = map digit_upper ds" "list_all (\<lambda>x. x < 16) ds"
    "horner 16 ds = unat (input ! 10) + 256 * unat (input ! 11)"
    using product_code_text(3) [of ?w] by (auto simp: unat_u16_from_le)
  have len: "length ds = 4" using product_code_text(1) [of ?w] ds(1) by simp
  have bytes: "rev (take 4 (drop 12 input)) = [input ! 15, input ! 14, input ! 13, input ! 12]"
    using True take_4_drop [of 12 input] by simp
  obtain d where d: "edid_parse input = Inr d" and raw: "edid_raw d = take 128 input"
    and pnp: "edid_pnp_id d = map (\<lambda>n. char_of (64 + n)) (letter_codes input) @ ?t"
    and ser: "serial_number (edid_details d)
                = u32_from_le (input ! 12) (input ! 13) (input ! 14) (input ! 15)"
    and year: "manufacture_year (edid_details d) = ucast (input ! 17) + 1990"
    using True by (simp add: edid_parse_def edid_consts Let_def edid_letters min_def)
  have "is_valid_pnp_id (edid_pnp_id d) = list_all (\<lambda>n. 1 \<le> n \<and> n \<le> 26) (letter_codes input)"
    unfolding pnp by (rule edid_pnp_valid [OF product_code_text(1,2)])
  moreover have "unat (serial_number (edid_details d)) = be_nat (rev (take 4 (drop 12 input)))"
    by (simp only: ser unat_u32_from_le bytes)
  ultimately show ?thesis
    using True d raw ds len edid_year [of "input ! 17"] pnp year by auto
next
  case False
  then show ?thesis
    by (auto simp: edid_parse_def edid_consts)
qed

text \<open>The numbers of one byte.\<close>

lemma edid_parse_bytes:
  assumes "edid_parse input = Ok d"
  shows "manufacture_week (edid_details d) = input ! 16" "edid_version (edid_details d) = input ! 18"
    "edid_revision (edid_details d) = input ! 19" "max_width_cm (edid_details d) = input ! 21"
    "max_height_cm (edid_details d) = input ! 22" "digital_input d \<longleftrightarrow> bit (input ! 20) 7"
proof -
  have bit7: "b AND 0x80 \<noteq> 0 \<longleftrightarrow> bit b 7" for b :: u8
    using and_exp_eq_0_iff_not_bit [of b 7] by simp
  have "case edid_parse input of Inl _ \<Rightarrow> True
    | Inr d \<Rightarrow> manufacture_week (edid_details d) = input ! 16 \<and> edid_version (edid_details d) = input ! 18
        \<and> edid_revision (edid_details d) = input ! 19 \<and> max_width_cm (edid_details d) = input ! 21
        \<and> max_height_cm (edid_details d) = input ! 22 \<and> digital_input d = (input ! 20 AND 0x80 \<noteq> 0)"
    unfolding edid_parse_def Let_def by simp
  with assms bit7 show "manufacture_week (edid_details d) = input ! 16" "edid_version (edid_details d) = input ! 18"
    "edid_revision (edid_details d) = input ! 19" "max_width_cm (edid_details d) = input ! 21"
    "max_height_cm (edid_details d) = input ! 22" "digital_input d \<longleftrightarrow> bit (input ! 20) 7"
    by simp_all
qed

text \<open>
  C10: the EDID parser rejects a buffer of fewer than 23 bytes, then a wrong header, and otherwise
  keeps at most the base block and returns the PnP identifier spelled by the three five-bit letters
  and the four hexadecimal digits of the little-endian product code, together with the serial number
  and the year, without any wrap-around. The identifier is valid exactly if all letters are A to Z.
\<close>

theorem edid_parse_correct:
  "case edid_parse input of
     Inl e \<Rightarrow> e = TooShort (length input) \<and> length input < 23
            \<or> e = InvalidHeader \<and> 23 \<le> length input \<and> take 8 input \<noteq> EDID_HEADER
   | Inr d \<Rightarrow> 23 \<le> length input \<and> take 8 input = EDID_HEADER \<and> edid_raw d = take 128 input
       \<and> (\<exists>ds. edid_pnp_id d = map (\<lambda>n. char_of (64 + n)) (letter_codes input) @ map digit_upper ds
             \<and> length ds = 4 \<and> list_all (\<lambda>x. x < 16) ds
             \<and> horner 16 ds = unat (input ! 10) + 256 * unat (input ! 11))
       \<and> is_valid_pnp_id (edid_pnp_id d) = list_all (\<lambda>n. 1 \<le> n \<and> n \<le> 26) (letter_codes input)
       \<and> unat (serial_number (edid_details d)) = be_nat (rev (take 4 (drop 12 input)))
       \<and> unat (manufacture_year (edid_details d)) = 1990 + unat (input ! 17)"
  by (rule edid_parse_fields)

text \<open>
  A partial block has no descriptor texts; from a complete one the last name and serial
  descriptors win. Every text is the printable body up to the first line end with its trailing
  blanks cut, at most 13 characters long.
\<close>

theorem edid_descriptor_texts:
  "case edid_parse input of
     Inl e \<Rightarrow> True
   | Inr d \<Rightarrow>
       monitor_name (edid_details d) =
         (if length input < 128 then [] else last ([] # descriptor_texts 0xfc input))
       \<and> serial_ascii (edid_details d) =
         (if length input < 128 then [] else last ([] # descriptor_texts 0xff input))
       \<and> length (parse_descriptor_text bs) \<le> 13 \<and> list_all is_printable (parse_descriptor_text bs)
       \<and> list_all (\<lambda>c. c \<noteq> CHR '' '') (take 1 (rev (parse_descriptor_text bs)))
       \<and> (\<exists>n. descriptor_body bs = parse_descriptor_text bs @ replicate n CHR '' '')"
  using parse_descriptor_text_good [of bs]
  by (auto simp: edid_parse_def edid_consts Let_def parse_descriptors_fields not_less split: sum.splits)

end
