(* ===== verification/Protocol.thy ===== *)
theory Protocol
  imports Prelude
begin

text \<open>
  The DDC/CI wire format of \<^verbatim>\<open>crates/ddccontrol-protocol/src/lib.rs\<close>: request frames, reply
  frames with their XOR checksum, and the two reply payloads the program reads. The lemmas show that
  a request checksums to zero at the monitor, that exactly the well-formed replies are accepted, and
  that a reply with one damaged byte never is.
\<close>

unbundle bit_operations_syntax

section \<open>Model\<close>

definition MAX_PAYLOAD_LEN :: nat where "MAX_PAYLOAD_LEN = 127"
definition FRAME_OVERHEAD :: nat where "FRAME_OVERHEAD = 3"
definition MAX_FRAME_LEN :: nat where "MAX_FRAME_LEN = MAX_PAYLOAD_LEN + FRAME_OVERHEAD"
definition HOST_ADDRESS :: u8 where "HOST_ADDRESS = 0x51"
definition LENGTH_FLAG :: u8 where "LENGTH_FLAG = 0x80"
definition REPLY_CHECKSUM_SEED :: u8 where "REPLY_CHECKSUM_SEED = 0x50"

datatype protocol_error =
    InvalidAddress
  | PayloadTooLong
  | TruncatedFrame
  | UnexpectedAddress
  | PayloadExceedsLimit
  | InvalidChecksum
  | InvalidReplyLength
  | UnexpectedCommand
  | UnexpectedControl
  | UnexpectedOffset

record frame =
  frame_bytes :: bytes
  frame_len :: nat

record reply =
  reply_payload :: bytes
  missing_length_flag :: bool

record vcp_reply =
  vcp_supported :: bool
  vcp_value :: u16
  vcp_maximum :: u16

definition frame_as_bytes :: "frame \<Rightarrow> bytes" where
  "frame_as_bytes f = take (frame_len f) (frame_bytes f)"

definition frame_length :: "nat \<Rightarrow> (nat, protocol_error) result" where
  "frame_length payload_len =
     (if payload_len > MAX_PAYLOAD_LEN then Err PayloadTooLong
      else Ok (payload_len + FRAME_OVERHEAD))"

definition wire_address :: "u8 \<Rightarrow> (u8, protocol_error) result" where
  "wire_address address =
     (if address > 0x7f then Err InvalidAddress else Ok (push_bit 1 address))"

definition checksum :: "u8 \<Rightarrow> bytes \<Rightarrow> u8" where
  "checksum seed bs = foldl (XOR) seed bs"

text \<open>\<open>dst[start..start + src.len()].copy_from_slice(src)\<close>.\<close>

definition copy_from_slice :: "'a list \<Rightarrow> nat \<Rightarrow> 'a list \<Rightarrow> 'a list" where
  "copy_from_slice dst start src = take start dst @ src @ drop (start + length src) dst"

definition build_frame :: "u8 \<Rightarrow> bytes \<Rightarrow> (frame, protocol_error) result" where
  "build_frame address payload =
     and_then (wire_address address) (\<lambda>seed.
     and_then (frame_length (length payload)) (\<lambda>len.
       let bs = replicate MAX_FRAME_LEN 0;
           bs = bs[0 := HOST_ADDRESS];
           bs = bs[1 := LENGTH_FLAG OR of_nat (length payload)];
           bs = copy_from_slice bs 2 payload;
           bs = bs[len - 1 := checksum seed (take (len - 1) bs)]
       in Ok \<lparr>frame_bytes = bs, frame_len = len\<rparr>))"

definition parse_frame :: "u8 \<Rightarrow> bytes \<Rightarrow> nat \<Rightarrow> (reply, protocol_error) result" where
  "parse_frame address input payload_limit =
     and_then (wire_address address) (\<lambda>expected_address.
       if length input < FRAME_OVERHEAD then Err TruncatedFrame
       else if input ! 0 \<noteq> expected_address then Err UnexpectedAddress
       else
         let payload_len = unat (input ! 1 AND NOT LENGTH_FLAG)
         in if payload_len > payload_limit then Err PayloadExceedsLimit
            else
              let len = payload_len + FRAME_OVERHEAD
              in if length input < len then Err TruncatedFrame
                 else if checksum REPLY_CHECKSUM_SEED (take len input) \<noteq> 0 then Err InvalidChecksum
                 else Ok \<lparr>reply_payload = take (len - 1 - 2) (drop 2 input),
                          missing_length_flag = (input ! 1 AND LENGTH_FLAG = 0)\<rparr>)"

definition parse_vcp_reply :: "bytes \<Rightarrow> u8 \<Rightarrow> (vcp_reply, protocol_error) result" where
  "parse_vcp_reply payload control =
     (if length payload \<noteq> 8 then Err InvalidReplyLength
      else if payload ! 0 \<noteq> 0x02 then Err UnexpectedCommand
      else if payload ! 2 \<noteq> control then Err UnexpectedControl
      else Ok \<lparr>vcp_supported = (payload ! 1 = 0),
               vcp_value = u16_from_be (payload ! 6) (payload ! 7),
               vcp_maximum = u16_from_be (payload ! 4) (payload ! 5)\<rparr>)"

definition parse_caps_reply :: "bytes \<Rightarrow> u16 \<Rightarrow> (bytes, protocol_error) result" where
  "parse_caps_reply payload offset =
     (if \<not> (3 \<le> length payload \<and> length payload \<le> MAX_PAYLOAD_LEN) then Err InvalidReplyLength
      else if payload ! 0 \<noteq> 0xe3 then Err UnexpectedCommand
      else if u16_from_be (payload ! 1) (payload ! 2) \<noteq> offset then Err UnexpectedOffset
      else Ok (drop 3 payload))"

lemmas protocol_consts =
  MAX_PAYLOAD_LEN_def FRAME_OVERHEAD_def MAX_FRAME_LEN_def
  HOST_ADDRESS_def LENGTH_FLAG_def REPLY_CHECKSUM_SEED_def

section \<open>The checksum\<close>

text \<open>
  What the frame format needs of a checksum: appending the checksum of a message makes the total
  zero, and the total is zero for no other last byte; changing one byte changes the total.
\<close>

locale byte_checksum =
  fixes total :: "u8 \<Rightarrow> bytes \<Rightarrow> u8"
  assumes total_snoc: "total seed (bs @ [c]) = 0 \<longleftrightarrow> c = total seed bs"
    and total_update: "i < length bs \<Longrightarrow> bs ! i \<noteq> c \<Longrightarrow> total seed (bs[i := c]) \<noteq> total seed bs"
begin

lemma total_close: "total seed (bs @ [total seed bs]) = 0"
  by (simp add: total_snoc)

lemma damaged_nonzero:
  "total seed bs = 0 \<Longrightarrow> i < length bs \<Longrightarrow> bs ! i \<noteq> c \<Longrightarrow> total seed (bs[i := c]) \<noteq> 0"
  using total_update by metis

end

lemma checksum_append: "checksum seed (xs @ ys) = checksum (checksum seed xs) ys"
  by (simp add: checksum_def)

lemma checksum_xor_seed: "checksum (a XOR s) bs = a XOR checksum s bs"
  by (induction bs arbitrary: s) (simp_all add: checksum_def xor.assoc)

lemma checksum_Cons: "checksum seed (b # bs) = b XOR checksum seed bs"
  using checksum_xor_seed [of b seed bs] by (simp add: checksum_def xor.commute)

lemma xor_cancel: "(x :: u8) XOR y = x XOR z \<longleftrightarrow> y = z"
proof
  assume "x XOR y = x XOR z"
  then have "x XOR (x XOR y) = x XOR (x XOR z)" by simp
  then show "y = z" by (simp add: xor.assoc [symmetric])
qed simp

lemma xor_eq_0: "(x :: u8) XOR y = 0 \<longleftrightarrow> y = x"
  using xor_cancel [of x y x] by simp

lemma checksum_update:
  "i < length bs \<Longrightarrow> bs ! i \<noteq> c \<Longrightarrow> checksum seed (bs[i := c]) \<noteq> checksum seed bs"
proof (induction bs arbitrary: i)
  case (Cons b bs)
  show ?case
  proof (cases i)
    case 0
    with Cons.prems show ?thesis
      by (auto simp: checksum_Cons xor.commute [of _ "checksum seed bs"] xor_cancel)
  next
    case (Suc j)
    with Cons show ?thesis by (simp add: checksum_Cons xor_cancel)
  qed
qed simp

interpretation xor_sum: byte_checksum checksum
proof unfold_locales
  show "checksum seed (bs @ [c]) = 0 \<longleftrightarrow> c = checksum seed bs" for seed bs c
    by (simp add: checksum_append) (simp add: checksum_def xor_eq_0)
qed (rule checksum_update)

section \<open>Length bytes and addresses\<close>

lemma not_flag: "NOT LENGTH_FLAG = 127"
  by (simp add: LENGTH_FLAG_def)

lemma and_127: "unat (w AND 127 :: u8) = unat w mod 128"
proof -
  have "w AND 127 = take_bit 7 w"
    by (simp add: take_bit_eq_mask mask_eq_exp_minus_1)
  moreover have "unat (take_bit 7 w) = unat w mod 128"
    by (subst unsigned_take_bit_eq) (simp add: take_bit_eq_mod)
  ultimately show ?thesis by simp
qed

lemma length_byte_split: "(w :: u8) = (w AND LENGTH_FLAG) OR (w AND NOT LENGTH_FLAG)"
  by (rule bit_eqI) (auto simp: bit_simps)

lemma flag_bit_cases: "(w :: u8) AND LENGTH_FLAG = 0 \<or> w AND LENGTH_FLAG = LENGTH_FLAG"
proof -
  have "LENGTH_FLAG = 2 ^ 7" by (simp add: LENGTH_FLAG_def)
  moreover have "w AND 2 ^ 7 = 0 \<or> w AND 2 ^ 7 = 2 ^ 7"
    by (cases "bit w 7") (auto intro!: bit_eqI simp: bit_simps simp del: power_numeral)
  ultimately show ?thesis by simp
qed

lemma length_byte_make:
  assumes "n < 128" and "f = 0 \<or> f = LENGTH_FLAG"
  shows "unat ((f OR of_nat n) AND NOT LENGTH_FLAG) = n"
    and "(f OR of_nat n) AND LENGTH_FLAG = f"
proof -
  have n: "unat (of_nat n :: u8) = n" using assms(1) by (simp add: unat_of_nat)
  have low: "of_nat n AND 127 = (of_nat n :: u8)"
    using assms(1) by (simp add: word_unat_eq_iff and_127 n)
  have "(0x80 OR of_nat n) AND 127 = (0x80 AND 127) OR (of_nat n AND 127 :: u8)"
    by (rule bit.conj_disj_distrib2)
  then have "(f OR of_nat n) AND 127 = of_nat n"
    using assms(2) low by (auto simp: LENGTH_FLAG_def)
  then show "unat ((f OR of_nat n) AND NOT LENGTH_FLAG) = n"
    by (simp add: not_flag n)
  have "of_nat n AND 0x80 = (of_nat n AND 127) AND (0x80 :: u8)" by (simp add: low)
  also have "\<dots> = 0" by (simp add: and.assoc)
  finally have high: "of_nat n AND 0x80 = (0 :: u8)" .
  have "(0x80 OR of_nat n) AND 0x80 = (0x80 AND 0x80) OR (of_nat n AND 0x80 :: u8)"
    by (rule bit.conj_disj_distrib2)
  with assms(2) high show "(f OR of_nat n) AND LENGTH_FLAG = f"
    by (auto simp: LENGTH_FLAG_def)
qed

lemma wire_address_Ok: "wire_address a = Inr w \<longleftrightarrow> unat a < 128 \<and> w = push_bit 1 a"
  by (auto simp: wire_address_def word_less_nat_alt)

section \<open>Request frames\<close>

text \<open>The bytes a request is meant to consist of.\<close>

definition request_spec :: "u8 \<Rightarrow> bytes \<Rightarrow> bytes" where
  "request_spec address payload =
     (let body = [HOST_ADDRESS, LENGTH_FLAG OR of_nat (length payload)] @ payload
      in body @ [checksum (push_bit 1 address) body])"

lemma frame_buffer:
  assumes "length payload \<le> 127"
  shows "copy_from_slice ((replicate MAX_FRAME_LEN 0)[0 := a, 1 := b]) 2 payload
         = [a, b] @ payload @ replicate (128 - length payload) (0 :: u8)"
proof -
  have "replicate MAX_FRAME_LEN 0 = 0 # 0 # replicate 128 (0 :: u8)"
    by (simp add: protocol_consts flip: replicate_Suc)
  then have "(replicate MAX_FRAME_LEN 0)[0 := a, 1 := b] = [a, b] @ replicate 128 0"
    by simp
  then show ?thesis by (simp add: copy_from_slice_def)
qed

lemma build_frame_eq:
  assumes "unat address < 128" and "length payload \<le> 127"
  shows "\<exists>f. build_frame address payload = Inr f \<and> frame_len f = length payload + 3
           \<and> length (frame_bytes f) = MAX_FRAME_LEN
           \<and> frame_as_bytes f = request_spec address payload"
proof -
  let ?n = "length payload"
  let ?body = "[HOST_ADDRESS, LENGTH_FLAG OR of_nat ?n] @ payload"
  let ?seed = "push_bit 1 address"
  let ?buf = "?body @ replicate (128 - ?n) 0"
  have w: "wire_address address = Inr ?seed" using assms(1) by (simp add: wire_address_Ok)
  have l: "frame_length ?n = Inr (?n + 3)"
    using assms(2) by (simp add: frame_length_def protocol_consts)
  have t: "take (?n + 3 - 1) ?buf = ?body" by simp
  have r: "replicate (128 - ?n) (0 :: u8) = 0 # replicate (127 - ?n) 0"
    using assms(2) by (simp add: Suc_diff_le flip: replicate_Suc)
  have u: "?buf[?n + 3 - 1 := c] = ?body @ c # replicate (127 - ?n) 0" for c
    unfolding r by (simp add: list_update_append)
  have "build_frame address payload =
      Inr \<lparr>frame_bytes = ?body @ checksum ?seed ?body # replicate (127 - ?n) 0, frame_len = ?n + 3\<rparr>"
    unfolding build_frame_def w l and_then_simps Let_def frame_buffer [OF assms(2)]
      append_assoc [symmetric] t u by simp
  then show ?thesis
    using assms(2) by (simp add: frame_as_bytes_def request_spec_def Let_def protocol_consts numeral_3_eq_3)
qed

text \<open>
  C1: \<open>build_frame\<close> rejects an address over 0x7f first and a payload over 127 bytes next, and
  otherwise returns host address, flagged length, payload and a checksum that makes the XOR of the
  destination address and the whole frame zero.
\<close>

theorem build_frame_correct:
  "case build_frame address payload of
     Inl e \<Rightarrow> e = InvalidAddress \<and> 128 \<le> unat address
            \<or> e = PayloadTooLong \<and> unat address < 128 \<and> 127 < length payload
   | Inr f \<Rightarrow> unat address < 128 \<and> length payload \<le> 127
            \<and> frame_as_bytes f = request_spec address payload
            \<and> length (frame_as_bytes f) = length payload + 3
            \<and> checksum (push_bit 1 address) (frame_as_bytes f) = 0"
proof (cases "unat address < 128 \<and> length payload \<le> 127")
  case True
  then obtain f where f: "build_frame address payload = Inr f"
    and s: "frame_as_bytes f = request_spec address payload"
    using build_frame_eq by blast
  have "checksum (push_bit 1 address) (request_spec address payload) = 0"
    unfolding request_spec_def Let_def by (rule xor_sum.total_close)
  moreover have "length (request_spec address payload) = length payload + 3"
    by (simp add: request_spec_def Let_def)
  ultimately show ?thesis using True by (simp only: f s sum.case)
next
  case False
  then show ?thesis
    by (auto simp: build_frame_def wire_address_def frame_length_def protocol_consts
        word_less_nat_alt not_less split: sum.splits)
qed

section \<open>Reply frames\<close>

text \<open>A well-formed reply of a monitor, with or without bit 7 of its length byte.\<close>

definition reply_spec :: "u8 \<Rightarrow> bool \<Rightarrow> bytes \<Rightarrow> bytes" where
  "reply_spec address missing payload =
     (let body = [push_bit 1 address,
                  (if missing then 0 else LENGTH_FLAG) OR of_nat (length payload)] @ payload
      in body @ [checksum REPLY_CHECKSUM_SEED body])"

lemma take_reply_body:
  assumes "n + 3 \<le> length input"
  shows "take (n + 3) input = ([input ! 0, input ! 1] @ take n (drop 2 input)) @ [input ! (n + 2)]"
proof -
  obtain a b xs where i: "input = a # b # xs"
    using assms by (cases input; cases "tl input") auto
  with assms have "n < length xs" by simp
  then have "take (Suc n) xs = take n xs @ [xs ! n]" by (rule take_Suc_conv_app_nth)
  then show ?thesis by (simp add: i numeral_3_eq_3)
qed

text \<open>The four checks of \<open>parse_frame\<close> after the address, as one condition.\<close>

lemma parse_frame_Ok:
  "parse_frame address input limit = Inr r \<longleftrightarrow>
     unat address < 128 \<and> 3 \<le> length input \<and> input ! 0 = push_bit 1 address \<and>
     (let n = unat (input ! 1 AND NOT LENGTH_FLAG)
      in n \<le> limit \<and> n + 3 \<le> length input \<and> checksum REPLY_CHECKSUM_SEED (take (n + 3) input) = 0
         \<and> r = \<lparr>reply_payload = take n (drop 2 input),
                 missing_length_flag = (input ! 1 AND LENGTH_FLAG = 0)\<rparr>)"
  by (auto simp: parse_frame_def wire_address_Ok Let_def FRAME_OVERHEAD_def not_less)

lemma parse_frame_sound:
  assumes "parse_frame address input limit = Inr r"
  shows "unat address < 128 \<and> length (reply_payload r) \<le> min limit 127
    \<and> (\<exists>padding. input = reply_spec address (missing_length_flag r) (reply_payload r) @ padding)"
proof -
  define n where "n = unat (input ! 1 AND NOT LENGTH_FLAG)"
  define p where "p = take n (drop 2 input)"
  from assms have a: "unat address < 128" "input ! 0 = push_bit 1 address" "n \<le> limit"
    and len: "n + 3 \<le> length input"
    and sum: "checksum REPLY_CHECKSUM_SEED (take (n + 3) input) = 0"
    and r: "r = \<lparr>reply_payload = p, missing_length_flag = (input ! 1 AND LENGTH_FLAG = 0)\<rparr>"
    by (auto simp: parse_frame_Ok Let_def n_def p_def)
  have n127: "n \<le> 127" by (simp add: n_def not_flag and_127)
  have lp: "length p = n" using len by (simp add: p_def)
  have "of_nat n = input ! 1 AND NOT LENGTH_FLAG" by (simp add: n_def)
  then have b1: "(if input ! 1 AND LENGTH_FLAG = 0 then 0 else LENGTH_FLAG) OR of_nat n = input ! 1"
    using length_byte_split [of "input ! 1"] flag_bit_cases [of "input ! 1"] by auto
  have "input ! (n + 2) = checksum REPLY_CHECKSUM_SEED ([input ! 0, input ! 1] @ p)"
    using sum unfolding take_reply_body [OF len] xor_sum.total_snoc p_def [symmetric] .
  then have "take (n + 3) input = reply_spec address (missing_length_flag r) (reply_payload r)"
    unfolding take_reply_body [OF len] p_def [symmetric]
    by (simp add: reply_spec_def Let_def r lp b1 [simplified] a)
  then have "input = reply_spec address (missing_length_flag r) (reply_payload r) @ drop (n + 3) input"
    by (metis append_take_drop_id)
  with a n127 lp show ?thesis by (auto simp: r)
qed

lemma parse_frame_complete:
  assumes "unat address < 128" and "length payload \<le> min limit 127"
  shows "parse_frame address (reply_spec address missing payload @ padding) limit
         = Inr \<lparr>reply_payload = payload, missing_length_flag = missing\<rparr>"
proof -
  define f where "f = (if missing then 0 else LENGTH_FLAG)"
  define body where "body = [push_bit 1 address, f OR of_nat (length payload)] @ payload"
  let ?input = "reply_spec address missing payload @ padding"
  have i: "?input = body @ checksum REPLY_CHECKSUM_SEED body # padding"
    by (simp add: reply_spec_def Let_def body_def f_def)
  have f: "f = 0 \<or> f = LENGTH_FLAG" by (simp add: f_def)
  have n: "unat (?input ! 1 AND NOT LENGTH_FLAG) = length payload"
    using length_byte_make(1) [OF _ f] assms(2) by (simp add: i body_def)
  have m: "(?input ! 1 AND LENGTH_FLAG = 0) = missing"
    using length_byte_make(2) [OF _ f, of "length payload"] assms(2)
    by (simp add: i body_def f_def LENGTH_FLAG_def)
  have "take (length payload + 3) ?input = body @ [checksum REPLY_CHECKSUM_SEED body]"
    by (simp add: i body_def numeral_3_eq_3)
  then have "checksum REPLY_CHECKSUM_SEED (take (length payload + 3) ?input) = 0"
    by (simp only: xor_sum.total_close)
  then show ?thesis
    unfolding parse_frame_Ok Let_def n m using assms by (simp add: i body_def)
qed

text \<open>
  C2: \<open>parse_frame\<close> accepts exactly the well-formed replies: it returns a payload and flag if and
  only if the address is seven bits wide, the payload fits the caller's limit and the seven-bit
  length, and the input is that reply's frame followed by any padding.
\<close>

theorem parse_frame_accepts_iff:
  "parse_frame address input limit = Inr r \<longleftrightarrow>
     unat address < 128 \<and> length (reply_payload r) \<le> min limit 127
     \<and> (\<exists>padding. input = reply_spec address (missing_length_flag r) (reply_payload r) @ padding)"
proof
  assume "unat address < 128 \<and> length (reply_payload r) \<le> min limit 127
    \<and> (\<exists>padding. input = reply_spec address (missing_length_flag r) (reply_payload r) @ padding)"
  then show "parse_frame address input limit = Inr r"
    using parse_frame_complete [of address "reply_payload r" limit "missing_length_flag r"] by auto
qed (rule parse_frame_sound)

text \<open>
  C3: damage to one byte of an accepted reply, other than its length byte, is always detected: a
  changed address byte as an unexpected address, a changed payload or checksum byte as an invalid
  checksum.
\<close>

theorem damaged_reply_rejected:
  assumes "parse_frame address input limit = Inr r"
    and "i < length (reply_payload r) + 3" and "i \<noteq> 1" and "input ! i \<noteq> c"
  shows "parse_frame address (input[i := c]) limit
         = Inl (if i = 0 then UnexpectedAddress else InvalidChecksum)"
proof -
  define n where "n = unat (input ! 1 AND NOT LENGTH_FLAG)"
  from assms(1) have a: "wire_address address = Inr (push_bit 1 address)"
      "input ! 0 = push_bit 1 address" "n \<le> limit"
    and len: "n + 3 \<le> length input"
    and sum: "checksum REPLY_CHECKSUM_SEED (take (n + 3) input) = 0"
    and r: "reply_payload r = take n (drop 2 input)"
    by (auto simp: parse_frame_Ok wire_address_Ok Let_def n_def)
  have i: "i < n + 3" using assms(2) len by (simp add: r)
  then have "checksum REPLY_CHECKSUM_SEED ((take (n + 3) input)[i := c]) \<noteq> 0"
    using sum len assms(4) by (intro xor_sum.damaged_nonzero) auto
  moreover have "input[i := c] ! 1 = input ! 1" using assms(3) by simp
  ultimately show ?thesis
    using a len assms(4) i
    by (auto simp: nth_list_update parse_frame_def Let_def FRAME_OVERHEAD_def take_update_swap n_def)
qed

theorem damaged_reply_rejected_witness:
  "parse_frame 0x37 ([0x6e, 0x80, 0xbe][2 := 0]) 8 = Inl InvalidChecksum"
proof -
  have "parse_frame 0x37 [0x6e, 0x80, 0xbe] 8 = Inr \<lparr>reply_payload = [], missing_length_flag = False\<rparr>"
    by (simp add: parse_frame_def wire_address_def FRAME_OVERHEAD_def LENGTH_FLAG_def
        REPLY_CHECKSUM_SEED_def checksum_def)
  from damaged_reply_rejected [OF this, of 2 0] show ?thesis by simp
qed

end
