(* ===== verification/Protocol_Ffi.thy ===== *)
theory Protocol_Ffi
  imports Protocol
begin

text \<open>
  The C interface to the wire format, \<^verbatim>\<open>crates/ddccontrol-db/src/protocol.rs\<close>. A pointer is an
  option: \<open>None\<close> is null, \<open>Some\<close> holds the bytes the caller made readable or writable there. An
  output buffer is passed in with its old contents and returned with the new ones, so that an
  untouched output is an equation. The C integers of the results are mathematical integers; all of
  them lie between -4 and 130. The safety conditions of the functions' documentation are the
  hypothesis \<open>spans\<close> of the theorems.
\<close>

section \<open>Operations\<close>

fun status :: "protocol_error \<Rightarrow> int" where
  "status UnexpectedAddress = -2"
| "status PayloadTooLong = -3"
| "status TruncatedFrame = -3"
| "status PayloadExceedsLimit = -3"
| "status InvalidChecksum = -4"
| "status _ = -1"

definition c_address :: "u32 \<Rightarrow> (u8, int) result" where
  "c_address v = (if v > 0x7f then Err (-1) else Ok (ucast v))"

text \<open>\<open>unwrap_or_else(|error| error)\<close>\<close>

definition status_of :: "(int, int) result \<Rightarrow> int" where
  "status_of r = (case r of Inl e \<Rightarrow> e | Inr n \<Rightarrow> n)"

text \<open>\<open>slice::from_raw_parts\<close> and \<open>ptr::copy_nonoverlapping\<close>\<close>

definition raw_slice :: "bytes option \<Rightarrow> nat \<Rightarrow> bytes" where
  "raw_slice p n = take n (the p)"

definition raw_copy :: "bytes \<Rightarrow> bytes option \<Rightarrow> nat \<Rightarrow> bytes option" where
  "raw_copy src dst n = map_option (\<lambda>d. take n src @ drop n d) dst"

definition ddccontrol_ddcci_frame_length :: "nat \<Rightarrow> int" where
  "ddccontrol_ddcci_frame_length payload_len =
     (case frame_length payload_len of Inr n \<Rightarrow> int n | Inl e \<Rightarrow> status e)"

definition ddccontrol_ddcci_build_frame ::
  "u32 \<Rightarrow> bytes option \<Rightarrow> nat \<Rightarrow> bytes option \<Rightarrow> nat \<Rightarrow> int \<times> bytes option" where
  "ddccontrol_ddcci_build_frame addr p payload_len frm frame_capacity =
     (let r = and_then (c_address addr) (\<lambda>a.
              and_then (map_err status (frame_length payload_len)) (\<lambda>len.
                if frm = None \<or> frame_capacity < len \<or> (p = None \<and> payload_len \<noteq> 0) then Err (-1)
                else
                  let body = (if payload_len = 0 then [] else raw_slice p payload_len)
                  in and_then (map_err status (build_frame a body)) (\<lambda>built.
                       Ok (int len, raw_copy (frame_as_bytes built) frm len))))
      in case r of Inl e \<Rightarrow> (e, frm) | Inr (n, out) \<Rightarrow> (n, out))"

definition ddccontrol_ddcci_parse_frame ::
  "u32 \<Rightarrow> bytes option \<Rightarrow> nat \<Rightarrow> bytes option \<Rightarrow> nat \<Rightarrow> int option
     \<Rightarrow> int \<times> bytes option \<times> int option" where
  "ddccontrol_ddcci_parse_frame addr frm frm_len out payload_capacity flag =
     (let r = and_then (c_address addr) (\<lambda>a.
                if frm = None \<or> (out = None \<and> payload_capacity \<noteq> 0) then Err (-1)
                else
                  let input = raw_slice frm (min frm_len MAX_FRAME_LEN)
                  in and_then (map_err status (parse_frame a input payload_capacity)) (\<lambda>rep.
                       let body = reply_payload rep;
                           out' = (if body \<noteq> [] then raw_copy body out (length body) else out);
                           flag' = (if flag \<noteq> None
                                    then Some (if missing_length_flag rep then 1 else 0) else flag)
                       in Ok (int (length body), out', flag')))
      in case r of Inl e \<Rightarrow> (e, out, flag) | Inr res \<Rightarrow> res)"

definition ddccontrol_ddcci_parse_vcp ::
  "bytes option \<Rightarrow> nat \<Rightarrow> u8 \<Rightarrow> u16 option \<Rightarrow> u16 option \<Rightarrow> int \<times> u16 option \<times> u16 option" where
  "ddccontrol_ddcci_parse_vcp p payload_len control val_out max_out =
     (let r = (if p = None \<or> payload_len \<noteq> 8 then Err (-1)
               else and_then (map_err (\<lambda>_. -1) (parse_vcp_reply (raw_slice p payload_len) control)) (\<lambda>rep.
                 Ok (if vcp_supported rep then 1 else 0,
                     (if val_out \<noteq> None then Some (vcp_value rep) else val_out),
                     (if max_out \<noteq> None then Some (vcp_maximum rep) else max_out))))
      in case r of Inl e \<Rightarrow> (e, val_out, max_out) | Inr res \<Rightarrow> res)"

definition ddccontrol_ddcci_parse_caps_reply :: "bytes option \<Rightarrow> nat \<Rightarrow> u32 \<Rightarrow> int" where
  "ddccontrol_ddcci_parse_caps_reply p payload_len offset =
     status_of
       (if p = None \<or> \<not> (3 \<le> payload_len \<and> payload_len \<le> MAX_PAYLOAD_LEN) then Err (-1)
        else if 65535 < unat offset then Err (-1)
        else case parse_caps_reply (raw_slice p payload_len) (ucast offset) of
               Inr fragment \<Rightarrow> Ok (int (length fragment))
             | Inl _ \<Rightarrow> Err (-1))"

section \<open>Outputs\<close>

text \<open>The part of the safety contract the proofs need: a non-null pointer covers \<open>n\<close> bytes.\<close>

definition spans :: "bytes option \<Rightarrow> nat \<Rightarrow> bool" where
  "spans p n \<longleftrightarrow> (case p of None \<Rightarrow> True | Some b \<Rightarrow> n \<le> length b)"

lemma c_address_Ok: "c_address v = Inr a \<longleftrightarrow> unat v \<le> 127 \<and> a = ucast v"
  by (auto simp: c_address_def word_less_nat_alt not_less)

lemma c_address_small: "unat v \<le> 127 \<Longrightarrow> unat (ucast v :: u8) < 128"
  by simp

lemma frame_length_Ok: "frame_length n = Inr m \<longleftrightarrow> n \<le> 127 \<and> m = n + 3"
  by (auto simp: frame_length_def protocol_consts)

lemma status_negative [simp]: "status e < 0"
  by (cases e) auto

lemma c_address_Err: "c_address v = Inl e \<Longrightarrow> e < 0"
  by (auto simp: c_address_def split: if_splits)

lemma frame_length_cases: "frame_length n = (if n \<le> 127 then Inr (n + 3) else Inl PayloadTooLong)"
  by (simp add: frame_length_def protocol_consts)

text \<open>
  C12: the C entry point that builds a frame succeeds exactly for a seven-bit address, a payload of
  at most 127 readable bytes and a buffer that holds the frame; then it returns the frame's length
  and writes exactly that many bytes, the frame of the wire format. In every other case it returns a
  negative status and leaves the buffer as it was.
\<close>

theorem ffi_build_frame_correct:
  assumes "spans p payload_len" and "frm = Some old" and "length old = capacity"
  shows "case ddccontrol_ddcci_build_frame addr p payload_len frm capacity of (n, frm') \<Rightarrow>
     (if unat addr \<le> 127 \<and> payload_len + 3 \<le> min capacity 130 \<and> (p = None \<longrightarrow> payload_len = 0)
      then n = int (payload_len + 3)
         \<and> frm' = Some (request_spec (ucast addr) (take payload_len (case_option [] id p))
                         @ drop (payload_len + 3) old)
      else n < 0 \<and> frm' = frm)"
proof (cases "unat addr \<le> 127 \<and> payload_len + 3 \<le> min capacity 130 \<and> (p = None \<longrightarrow> payload_len = 0)")
  case True
  let ?body = "take payload_len (case_option [] id p)"
  have len: "length ?body = payload_len"
    using True assms(1) by (auto simp: spans_def split: option.splits)
  have body: "(if payload_len = 0 then [] else raw_slice p payload_len) = ?body"
    using True by (auto simp: raw_slice_def split: option.splits)
  obtain f where f: "build_frame (ucast addr) ?body = Inr f"
    and s: "frame_as_bytes f = request_spec (ucast addr) ?body"
    using build_frame_eq [of "ucast addr" ?body] True len by auto
  have "length (frame_as_bytes f) = payload_len + 3"
    by (simp only: s request_spec_def Let_def) (simp only: length_append len, simp)
  moreover have "c_address addr = Inr (ucast addr)" using True by (simp add: c_address_Ok)
  moreover have "frame_length payload_len = Inr (payload_len + 3)" using True by (simp add: frame_length_Ok)
  ultimately show ?thesis
    using True assms(2) body f s
    by (auto simp: ddccontrol_ddcci_build_frame_def raw_copy_def)
next
  case False
  show ?thesis
  proof (cases "unat addr \<le> 127 \<and> payload_len \<le> 127")
    case True
    with False have bad: "capacity < payload_len + 3 \<or> (p = None \<and> payload_len \<noteq> 0)" by auto
    have "c_address addr = Inr (ucast addr)" using True by (simp add: c_address_Ok)
    then have "ddccontrol_ddcci_build_frame addr p payload_len frm capacity = (-1, frm)"
      using True bad unfolding ddccontrol_ddcci_build_frame_def frame_length_cases by auto
    with False show ?thesis by (simp only: prod.case if_False) simp
  next
    case rejected: False
    have "ddccontrol_ddcci_build_frame addr p payload_len frm capacity \<in> {(-1, frm), (-3, frm)}"
      using rejected unfolding ddccontrol_ddcci_build_frame_def frame_length_cases
      by (cases "unat addr \<le> 127") (auto simp: c_address_def word_less_nat_alt)
    then show ?thesis
      by (elim insertE emptyE) (simp_all only: prod.case if_not_P [OF False], simp_all)
  qed
qed

theorem ffi_build_frame_correct_witness:
  "ddccontrol_ddcci_build_frame 0x37 (Some [0xf3]) 1 (Some [9, 9, 9, 9, 9]) 5
     = (4, Some (request_spec 0x37 [0xf3] @ [9]))"
  using ffi_build_frame_correct 
    [where p = "Some [0xf3]" and payload_len = 1 and frm = "Some [9, 9, 9, 9, 9]" and capacity = 5
       and addr = "0x37"]
  by (auto simp: spans_def split: prod.splits)

text \<open>
  C13: the C entry point that parses a reply never writes past the caller's payload buffer. On a
  negative status both outputs are as before; otherwise the status is the payload's length, the
  payload of a well-formed reply at the head of the first 130 bytes read fills the head of the
  buffer, and the flag is stored if it was asked for.
\<close>

theorem ffi_parse_frame_correct:
  assumes "case out of Some old \<Rightarrow> length old = capacity | None \<Rightarrow> capacity = 0"
  shows "case ddccontrol_ddcci_parse_frame addr frm frm_len out capacity flag of (n, out', flag') \<Rightarrow>
     (if n < 0 then out' = out \<and> flag' = flag
      else \<exists>body missing padding.
             nat n = length body \<and> length body \<le> capacity
             \<and> take (min frm_len 130) (the frm) = reply_spec (ucast addr) missing body @ padding
             \<and> out' = map_option (\<lambda>old. body @ drop (length body) old) out
             \<and> map_option length out' = map_option length out
             \<and> flag' = map_option (\<lambda>_. if missing then 1 else 0) flag)"
proof (cases "c_address addr")
  case (Inr a)
  show ?thesis
  proof (cases "frm = None \<or> (out = None \<and> capacity \<noteq> 0)")
    case True
    with Inr show ?thesis by (auto simp: ddccontrol_ddcci_parse_frame_def)
  next
    case False
    let ?input = "raw_slice frm (min frm_len MAX_FRAME_LEN)"
    show ?thesis
    proof (cases "parse_frame a ?input capacity")
      case (Inr r)
      then have r: "length (reply_payload r) \<le> capacity"
        "\<exists>padding. ?input = reply_spec a (missing_length_flag r) (reply_payload r) @ padding"
        using parse_frame_sound by auto
      have a: "a = ucast addr" using \<open>c_address addr = Inr a\<close> by (simp add: c_address_Ok)
      have "(if reply_payload r \<noteq> [] then raw_copy (reply_payload r) out (length (reply_payload r)) else out)
          = map_option (\<lambda>old. reply_payload r @ drop (length (reply_payload r)) old) out"
        by (cases out) (auto simp: raw_copy_def)
      moreover have "(if flag \<noteq> None then Some (if missing_length_flag r then 1 else 0) else flag)
          = map_option (\<lambda>_. if missing_length_flag r then 1 else 0 :: int) flag"
        by (cases flag) auto
      ultimately have "ddccontrol_ddcci_parse_frame addr frm frm_len out capacity flag =
          (int (length (reply_payload r)),
           map_option (\<lambda>old. reply_payload r @ drop (length (reply_payload r)) old) out,
           map_option (\<lambda>_. if missing_length_flag r then 1 else 0) flag)"
        using Inr \<open>c_address addr = Inr a\<close> False
        by (simp add: ddccontrol_ddcci_parse_frame_def Let_def)
      moreover have "map_option length (map_option (\<lambda>old. reply_payload r @ drop (length (reply_payload r)) old) out)
          = map_option length out"
        using assms r(1) by (cases out) auto
      moreover obtain padding where "take (min frm_len 130) (the frm)
          = reply_spec (ucast addr) (missing_length_flag r) (reply_payload r) @ padding"
        using r(2) by (auto simp: a raw_slice_def protocol_consts)
      ultimately show ?thesis
        using r(1) by (simp only: prod.case of_nat_less_0_iff if_False nat_int) blast
    next
      case (Inl e)
      with \<open>c_address addr = Inr a\<close> False show ?thesis
        by (simp add: ddccontrol_ddcci_parse_frame_def Let_def)
    qed
  qed
next
  case (Inl e)
  then show ?thesis by (simp add: ddccontrol_ddcci_parse_frame_def c_address_Err)
qed

theorem ffi_parse_frame_correct_witness:
  "case ddccontrol_ddcci_parse_frame 0x37 (Some [0x6e, 0x80, 0xbe]) 3 (Some [7]) 1 None of
     (n, out', flag') \<Rightarrow> n = 0 \<and> out' = Some [7] \<and> flag' = None"
proof -
  have "parse_frame 0x37 [0x6e, 0x80, 0xbe] 1 = Inr \<lparr>reply_payload = [], missing_length_flag = False\<rparr>"
    by (simp add: parse_frame_def wire_address_def FRAME_OVERHEAD_def LENGTH_FLAG_def
        REPLY_CHECKSUM_SEED_def checksum_def)
  then have "ddccontrol_ddcci_parse_frame 0x37 (Some [0x6e, 0x80, 0xbe]) 3 (Some [7]) 1 None
      = (0, Some [7], None)"
    by (simp add: ddccontrol_ddcci_parse_frame_def c_address_def raw_slice_def protocol_consts)
  with ffi_parse_frame_correct 
    [where out = "Some [7]" and capacity = 1 and addr = "0x37" and frm = "Some [0x6e, 0x80, 0xbe]"
       and frm_len = 3 and flag = None]
  show ?thesis by simp
qed

end
