(* ===== verification/Utf8.thy ===== *)
theory Utf8
  imports Prelude
begin

text \<open>
  The characters of a Rust \<open>str\<close>. A \<open>str\<close> is its UTF-8 bytes; \<open>chars()\<close> is the decoder
  below, \<open>String::push\<close> the encoder, and \<open>str::from_utf8\<close> succeeds where the decoder does.
  The decoder accepts the shortest form of Unicode scalar values only, and the two are inverse to
  each other. The character classes of \<open>char\<close> that the crates use are here too.
\<close>

section \<open>Encoding and decoding\<close>

definition is_scalar :: "nat \<Rightarrow> bool" where
  "is_scalar n \<longleftrightarrow> n < 0xd800 \<or> 0xe000 \<le> n \<and> n < 0x110000"

definition cont_byte :: "nat \<Rightarrow> char" where
  "cont_byte n = char_of (128 + n mod 64)"

definition utf8_encode :: "nat \<Rightarrow> string" where
  "utf8_encode n =
     (if n < 0x80 then [char_of n]
      else if n < 0x800 then [char_of (192 + n div 64), cont_byte n]
      else if n < 0x10000 then
        [char_of (224 + n div 64 div 64), cont_byte (n div 64), cont_byte n]
      else
        [char_of (240 + n div 64 div 64 div 64), cont_byte (n div 64 div 64), cont_byte (n div 64),
         cont_byte n])"

definition is_cont :: "char \<Rightarrow> bool" where
  "is_cont c \<longleftrightarrow> 128 \<le> byte_val c \<and> byte_val c < 192"

text \<open>Six more bits from a continuation byte.\<close>

definition join :: "nat \<Rightarrow> char \<Rightarrow> nat" where
  "join n c = n * 64 + (byte_val c - 128)"

definition next_char :: "string \<Rightarrow> (nat \<times> string) option" where
  "next_char s =
     (case s of
        [] \<Rightarrow> None
      | a # s1 \<Rightarrow>
          if byte_val a < 128 then Some (byte_val a, s1)
          else case s1 of
            [] \<Rightarrow> None
          | b # s2 \<Rightarrow>
              if \<not> is_cont b then None
              else if 192 \<le> byte_val a \<and> byte_val a < 224 then
                (let n = join (byte_val a - 192) b
                 in if 0x80 \<le> n then Some (n, s2) else None)
              else case s2 of
                [] \<Rightarrow> None
              | c # s3 \<Rightarrow>
                  if \<not> is_cont c then None
                  else if 224 \<le> byte_val a \<and> byte_val a < 240 then
                    (let n = join (join (byte_val a - 224) b) c
                     in if 0x800 \<le> n \<and> is_scalar n then Some (n, s3) else None)
                  else case s3 of
                    [] \<Rightarrow> None
                  | d # s4 \<Rightarrow>
                      if is_cont d \<and> 240 \<le> byte_val a \<and> byte_val a < 248 then
                        (let n = join (join (join (byte_val a - 240) b) c) d
                         in if 0x10000 \<le> n \<and> is_scalar n then Some (n, s4) else None)
                      else None)"

lemma next_char_shorter: "next_char s = Some (n, r) \<Longrightarrow> length r < length s"
  by (auto simp: next_char_def Let_def split: list.splits if_splits)

function utf8_decode :: "string \<Rightarrow> nat list option" where
  "utf8_decode s =
     (if s = [] then Some []
      else case next_char s of
        None \<Rightarrow> None
      | Some (n, r) \<Rightarrow> map_option ((#) n) (utf8_decode r))"
  by pat_completeness auto
termination
  by (relation "measure length") (auto dest: next_char_shorter)

declare utf8_decode.simps [simp del]

definition from_utf8 :: "string \<Rightarrow> bool" where
  "from_utf8 s \<longleftrightarrow> utf8_decode s \<noteq> None"

text \<open>\<open>chars()\<close>; every \<open>str\<close> is valid, the other case does not arise.\<close>

definition str_chars :: "string \<Rightarrow> nat list" where
  "str_chars s = (case utf8_decode s of Some cs \<Rightarrow> cs | None \<Rightarrow> [])"

text \<open>
  \<open>String::from_utf8_lossy\<close>: every maximal part that begins a character but does not complete it,
  and every other byte that begins none, becomes the replacement character.
\<close>

definition second_ok :: "nat \<Rightarrow> nat \<Rightarrow> bool" where
  "second_ok a b \<longleftrightarrow>
     (if a = 0xe0 then 0xa0 \<le> b \<and> b < 0xc0
      else if a = 0xed then 0x80 \<le> b \<and> b < 0xa0
      else if a = 0xf0 then 0x90 \<le> b \<and> b < 0xc0
      else if a = 0xf4 then 0x80 \<le> b \<and> b < 0x90
      else 0xe1 \<le> a \<and> a < 0xf4 \<and> 0x80 \<le> b \<and> b < 0xc0)"

definition invalid_len :: "string \<Rightarrow> nat" where
  "invalid_len s =
     (case s of
        a # b # r \<Rightarrow>
          if \<not> second_ok (byte_val a) (byte_val b) then 1
          else (case r of c # _ \<Rightarrow> if 0xf0 \<le> byte_val a \<and> is_cont c then 3 else 2 | [] \<Rightarrow> 2)
      | _ \<Rightarrow> 1)"

definition REPLACEMENT :: string where
  "REPLACEMENT = utf8_encode 0xfffd"

function utf8_lossy :: "string \<Rightarrow> string" where
  "utf8_lossy s =
     (if s = [] then []
      else case next_char s of
             Some (n, r) \<Rightarrow> utf8_encode n @ utf8_lossy r
           | None \<Rightarrow> REPLACEMENT @ utf8_lossy (drop (invalid_len s) s))"
  by pat_completeness auto
termination
  by (relation "measure length") (auto dest: next_char_shorter simp: invalid_len_def split: list.splits)

declare utf8_lossy.simps [simp del]

section \<open>Character classes\<close>

definition is_whitespace :: "nat \<Rightarrow> bool" where
  "is_whitespace n \<longleftrightarrow>
     9 \<le> n \<and> n \<le> 13 \<or> n = 0x20 \<or> n = 0x85 \<or> n = 0xa0 \<or> n = 0x1680 \<or> 0x2000 \<le> n \<and> n \<le> 0x200a
     \<or> n = 0x2028 \<or> n = 0x2029 \<or> n = 0x202f \<or> n = 0x205f \<or> n = 0x3000"

definition is_control :: "nat \<Rightarrow> bool" where
  "is_control n \<longleftrightarrow> n < 0x20 \<or> 0x7f \<le> n \<and> n < 0xa0"

text \<open>\<open>str::trim\<close> removes Unicode white space.\<close>

definition str_trim :: "string \<Rightarrow> string" where
  [rust_std]: "str_trim s =
     concat (map utf8_encode (rev (dropWhile is_whitespace (rev (dropWhile is_whitespace (str_chars s))))))"

section \<open>Round trips\<close>

lemma byte_val_cont [simp]: "byte_val (cont_byte n) = 128 + n mod 64"
  by (simp add: cont_byte_def byte_val_char_of)

lemma is_cont_cont_byte [simp]: "is_cont (cont_byte n)"
  by (simp add: is_cont_def)

lemma join_cont_byte [simp]: "join (n div 64) (cont_byte n) = n"
  by (simp add: join_def)

lemma join_parts:
  assumes "is_cont c"
  shows "join n c div 64 = n" and "cont_byte (join n c) = c"
proof -
  define k where "k = byte_val c - 128"
  have k: "k < 64" "128 + k = byte_val c" using assms by (auto simp: is_cont_def k_def)
  then show "join n c div 64 = n" by (simp add: join_def k_def [symmetric])
  show "cont_byte (join n c) = c" using k by (simp add: join_def cont_byte_def k_def [symmetric])
qed

lemma next_char_encode:
  assumes "is_scalar n"
  shows "next_char (utf8_encode n @ s) = Some (n, s)"
proof -
  have n: "n < 0x110000" using assms by (auto simp: is_scalar_def)
  consider (1) "n < 0x80" | (2) "0x80 \<le> n" "n < 0x800" | (3) "0x800 \<le> n" "n < 0x10000"
    | (4) "0x10000 \<le> n" by linarith
  then show ?thesis
  proof cases
    case 1
    then show ?thesis by (simp add: utf8_encode_def next_char_def byte_val_char_of)
  next
    case 2
    then have "n div 64 < 32" by auto
    with 2 show ?thesis by (simp add: utf8_encode_def next_char_def Let_def byte_val_char_of)
  next
    case 3
    then have "n div 64 div 64 < 16" by auto
    with 3 assms show ?thesis by (simp add: utf8_encode_def next_char_def Let_def byte_val_char_of)
  next
    case 4
    with n have "n div 64 div 64 div 64 < 5" by auto
    with 4 assms show ?thesis by (simp add: utf8_encode_def next_char_def Let_def byte_val_char_of)
  qed
qed

lemma lead_char: "k \<le> byte_val a \<Longrightarrow> char_of (k + (byte_val a - k)) = a"
  by simp

lemma join_less: "is_cont c \<Longrightarrow> n < m \<Longrightarrow> join n c < m * 64"
  by (auto simp: join_def is_cont_def)

lemma next_char_Some:
  assumes "next_char s = Some (n, r)"
  shows "is_scalar n \<and> s = utf8_encode n @ r"
proof -
  obtain a s1 where s: "s = a # s1" using assms by (cases s) (auto simp: next_char_def)
  consider (1) "byte_val a < 128" "n = byte_val a" "r = s1"
    | (2) b where "s1 = b # r" "is_cont b" "192 \<le> byte_val a" "byte_val a < 224"
        "n = join (byte_val a - 192) b" "0x80 \<le> n"
    | (3) b c where "s1 = b # c # r" "is_cont b" "is_cont c" "224 \<le> byte_val a" "byte_val a < 240"
        "n = join (join (byte_val a - 224) b) c" "0x800 \<le> n" "is_scalar n"
    | (4) b c d where "s1 = b # c # d # r" "is_cont b" "is_cont c" "is_cont d" "240 \<le> byte_val a"
        "n = join (join (join (byte_val a - 240) b) c) d" "0x10000 \<le> n" "is_scalar n"
    using assms by (auto simp: next_char_def s Let_def split: list.splits if_splits)
  then show ?thesis
  proof cases
    case 1
    then show ?thesis by (simp add: s is_scalar_def utf8_encode_def)
  next
    case 2
    have "n < 32 * 64" unfolding 2 by (rule join_less) (use 2 in auto)
    with 2 show ?thesis by (simp add: s utf8_encode_def is_scalar_def join_parts)
  next
    case 3
    have "n < 16 * 64 * 64" unfolding 3 by (intro join_less) (use 3 in auto)
    with 3 show ?thesis by (simp add: s utf8_encode_def join_parts)
  next
    case 4
    then show ?thesis by (simp add: s utf8_encode_def join_parts)
  qed
qed

lemma utf8_encode_not_Nil [simp]: "utf8_encode n \<noteq> []"
  by (simp add: utf8_encode_def)

lemma utf8_decode_encode:
  "list_all is_scalar cs \<Longrightarrow> utf8_decode (concat (map utf8_encode cs)) = Some cs"
  by (induction cs) (simp_all add: utf8_decode.simps [of "_ @ _"] next_char_encode, simp add: utf8_decode.simps)

lemma utf8_decode_Some:
  "utf8_decode s = Some cs \<Longrightarrow> list_all is_scalar cs \<and> s = concat (map utf8_encode cs)"
proof (induction s arbitrary: cs rule: utf8_decode.induct)
  case (1 s)
  show ?case
  proof (cases "s = []")
    case True
    with "1.prems" show ?thesis by (simp add: utf8_decode.simps)
  next
    case False
    with "1.prems" obtain n r ds where "next_char s = Some (n, r)" "utf8_decode r = Some ds" "cs = n # ds"
      by (subst (asm) utf8_decode.simps) (auto split: option.splits)
    with False "1.IH" next_char_Some show ?thesis by fastforce
  qed
qed

lemma utf8_decode_iff:
  "utf8_decode s = Some cs \<longleftrightarrow> list_all is_scalar cs \<and> s = concat (map utf8_encode cs)"
  using utf8_decode_Some utf8_decode_encode by metis

lemma str_chars_encode [simp]:
  "list_all is_scalar cs \<Longrightarrow> str_chars (concat (map utf8_encode cs)) = cs"
  by (simp add: str_chars_def utf8_decode_encode)

lemma from_utf8E:
  assumes "from_utf8 s"
  obtains cs where "list_all is_scalar cs" and "s = concat (map utf8_encode cs)" and "str_chars s = cs"
  using assms utf8_decode_Some by (fastforce simp: from_utf8_def str_chars_def)

text \<open>ASCII text is its own sequence of characters.\<close>

lemma utf8_decode_ascii: "list_all (\<lambda>c. byte_val c < 128) s \<Longrightarrow> utf8_decode s = Some (map byte_val s)"
  by (induction s) (simp_all add: utf8_decode.simps next_char_def)

lemma str_chars_ascii: "list_all (\<lambda>c. byte_val c < 128) s \<Longrightarrow> str_chars s = map byte_val s"
  by (simp add: str_chars_def utf8_decode_ascii)

lemma from_utf8_ascii: "list_all (\<lambda>c. byte_val c < 128) s \<Longrightarrow> from_utf8 s"
  by (simp add: from_utf8_def utf8_decode_ascii)

lemma from_utf8_append: "from_utf8 a \<Longrightarrow> from_utf8 b \<Longrightarrow> from_utf8 (a @ b)"
proof -
  assume "from_utf8 a" "from_utf8 b"
  then obtain as bs where "list_all is_scalar as" "a = concat (map utf8_encode as)" "list_all is_scalar bs" "b = concat (map utf8_encode bs)"
    by (metis from_utf8E)
  then have "utf8_decode (a @ b) = Some (as @ bs)" using utf8_decode_encode [of "as @ bs"] by simp
  then show ?thesis by (simp add: from_utf8_def)
qed

lemma from_utf8_concat: "list_all from_utf8 xs \<Longrightarrow> from_utf8 (concat xs)"
  by (induction xs) (simp_all add: from_utf8_append from_utf8_ascii)

lemma from_utf8_encode: "is_scalar n \<Longrightarrow> from_utf8 (utf8_encode n)"
  using utf8_decode_encode [of "[n]"] by (simp add: from_utf8_def)

lemma utf8_lossy_valid: "from_utf8 s \<Longrightarrow> utf8_lossy s = s"
proof -
  have "list_all is_scalar cs \<Longrightarrow> utf8_lossy (concat (map utf8_encode cs)) = concat (map utf8_encode cs)" for cs
    by (induction cs) (simp_all add: utf8_lossy.simps [of "_ @ _"] next_char_encode, simp add: utf8_lossy.simps)
  then show "from_utf8 s \<Longrightarrow> utf8_lossy s = s" by (metis from_utf8E)
qed

end
