(* ===== verification/Edid_Ffi.thy ===== *)
theory Edid_Ffi
  imports Edid Protocol_Ffi Cbor_Value
begin

text \<open>
  The C interface of the EDID parser, \<open>ddccontrol_edid_parse\<close> and \<open>edid_to_c\<close> of
  \<^verbatim>\<open>crates/ddccontrol-db/src/lib.rs\<close>. As in the interface of the wire format, a pointer is an option,
  and the output is passed in with its old contents; an array of \<open>c_char\<close> is its bytes.
\<close>

record c_edid_info =
  ei_serial_number :: u32
  ei_manufacture_week :: int
  ei_manufacture_year :: int
  ei_version :: int
  ei_revision :: int
  ei_max_width_cm :: int
  ei_max_height_cm :: int
  ei_monitor_name :: bytes
  ei_serial_ascii :: bytes

record c_edid_result =
  er_pnpid :: bytes
  er_digital :: u8
  er_edid :: bytes
  er_edid_len :: int
  er_info :: c_edid_info

definition EDID_TEXT_LEN :: nat where "EDID_TEXT_LEN = 14"

text \<open>An array of zeros whose head is overwritten, by a loop over both or by \<open>copy_from_slice\<close>.\<close>

definition filled :: "nat \<Rightarrow> bytes \<Rightarrow> bytes" where
  "filled n bs = take n bs @ replicate (n - length bs) 0"

definition text_to_c :: "string \<Rightarrow> bytes" where
  "text_to_c t = filled EDID_TEXT_LEN (str_bytes t)"

definition edid_to_c :: "edid \<Rightarrow> c_edid_result" where
  "edid_to_c parsed =
     (let info = edid_details parsed
      in \<lparr>er_pnpid = filled 8 (str_bytes (edid_pnp_id parsed)), er_digital = (if digital_input parsed then 0x80 else 0),
          er_edid = filled EDID_BLOCK_LEN (edid_raw parsed), er_edid_len = int (length (edid_raw parsed)),
          er_info =
            \<lparr>ei_serial_number = serial_number info, ei_manufacture_week = uint (manufacture_week info),
             ei_manufacture_year = uint (manufacture_year info), ei_version = uint (edid_version info),
             ei_revision = uint (edid_revision info), ei_max_width_cm = uint (max_width_cm info),
             ei_max_height_cm = uint (max_height_cm info), ei_monitor_name = text_to_c (monitor_name info),
             ei_serial_ascii = text_to_c (serial_ascii info)\<rparr>\<rparr>)"

definition ddccontrol_edid_parse :: "bytes option \<Rightarrow> nat \<Rightarrow> c_edid_result option \<Rightarrow> int \<times> c_edid_result option" where
  "ddccontrol_edid_parse buf len res =
     (if buf = None \<or> res = None then (-1, res)
      else case edid_parse (raw_slice buf (min len EDID_BLOCK_LEN)) of
             Inl _ \<Rightarrow> (-1, res)
           | Inr parsed \<Rightarrow> (0, Some (edid_to_c parsed)))"

section \<open>The texts\<close>

text \<open>What a C program reads from an array of characters.\<close>

definition c_text :: "bytes \<Rightarrow> string" where
  "c_text bs = bytes_str (takeWhile (\<lambda>b. b \<noteq> 0) bs)"

lemma length_filled: "length bs \<le> n \<Longrightarrow> length (filled n bs) = n"
  by (simp add: filled_def)

lemma c_text_filled:
  assumes "length t < n" and "list_all (\<lambda>c. byte_val c \<noteq> 0) t"
  shows "c_text (filled n (str_bytes t)) = t" and "0 \<in> set (filled n (str_bytes t))"
proof -
  have "byte_of c \<noteq> 0" if "c \<in> set t" for c
  proof
    assume "byte_of c = 0"
    then have "byte_val c = 0" by (metis unat_byte_of unat_0)
    with that assms(2) show False by (auto simp: list_all_iff)
  qed
  then have "takeWhile (\<lambda>b. b \<noteq> 0) (str_bytes t @ xs) = str_bytes t @ takeWhile (\<lambda>b. b \<noteq> 0) xs" for xs
    unfolding str_bytes_def by (intro takeWhile_append2) auto
  then have "takeWhile (\<lambda>b. b \<noteq> 0) (str_bytes t @ replicate (n - length t) 0) = str_bytes t"
    using assms(1) by (cases "n - length t") simp_all
  with assms(1) show "c_text (filled n (str_bytes t)) = t"
    by (simp add: c_text_def filled_def)
  show "0 \<in> set (filled n (str_bytes t))" using assms(1) by (simp add: filled_def)
qed

definition small_text :: "nat \<Rightarrow> string \<Rightarrow> bool" where
  "small_text n t \<longleftrightarrow> length t < n \<and> list_all (\<lambda>c. byte_val c \<noteq> 0) t"

lemma c_text_small: "small_text n t \<Longrightarrow> c_text (filled n (str_bytes t)) = t \<and> length (filled n (str_bytes t)) = n"
  using c_text_filled(1) length_filled [of "str_bytes t" n] by (simp add: small_text_def)

lemma descriptor_small: "small_text 14 (last ([] # descriptor_texts tag input))"
proof -
  have "small_text 14 t" if "t \<in> set ([] # descriptor_texts tag input)" for t
  proof (cases "t = []")
    case False
    with that obtain bs where t: "t = parse_descriptor_text bs" by (auto simp: descriptor_texts_def)
    have "byte_val c \<noteq> 0" if "is_printable c" for c using that by (simp add: is_printable_def)
    with parse_descriptor_text_good [of bs] show ?thesis by (auto simp: t small_text_def list_all_iff)
  qed (simp add: small_text_def)
  moreover have "last ([] # descriptor_texts tag input) \<in> set ([] # descriptor_texts tag input)" by (intro last_in_set) simp
  ultimately show ?thesis by blast
qed

lemma parsed_small:
  assumes "edid_parse input = Ok d"
  shows "small_text 8 (edid_pnp_id d)" "small_text 14 (monitor_name (edid_details d))" "small_text 14 (serial_ascii (edid_details d))"
    and "length (edid_raw d) \<le> 128"
proof -
  obtain ds where ds: "edid_pnp_id d = map (\<lambda>n. char_of (64 + n)) (letter_codes input) @ map digit_upper ds" "length ds = 4"
      "list_all (\<lambda>x. x < 16) ds"
    and raw: "edid_raw d = take 128 input"
    using edid_parse_fields [of input] assms by auto
  have "byte_val (char_of (64 + n)) \<noteq> 0" if "n < 32" for n :: nat
    using that by (simp add: byte_val_char_of)
  moreover have "byte_val (digit_upper x) \<noteq> 0" if "x < 16" for x
    using digit_upper_hex [OF that] by (auto simp: is_ascii_hexdigit_def is_ascii_digit_def)
  moreover have "length (letter_codes input) = 3" by (simp add: letter_codes_def Let_def)
  ultimately show "small_text 8 (edid_pnp_id d)"
    using ds letter_codes_less [of input] by (auto simp: small_text_def list_all_iff)
  show "small_text 14 (monitor_name (edid_details d))" "small_text 14 (serial_ascii (edid_details d))"
    using edid_descriptor_texts [of input "[]"] assms descriptor_small [of _ input] by (auto simp: small_text_def)
  show "length (edid_raw d) \<le> 128" by (simp add: raw)
qed

text \<open>An array that is filled with a text shorter than it.\<close>

lemma filled_small:
  assumes "small_text n t"
  shows "filled n (str_bytes t) = str_bytes t @ replicate (n - length t) 0
    \<and> last (str_bytes t @ replicate (n - length t) 0) = 0"
proof -
  obtain k where "n - length t = Suc k" using assms by (cases "n - length t") (simp_all add: small_text_def)
  with assms show ?thesis by (simp add: filled_def small_text_def)
qed

text \<open>
  C11: the C entry point that parses an EDID leaves the result alone and returns -1 unless the first
  128 bytes it was given parse. Otherwise it returns 0 and stores every field of the parsed block: the
  serial number, the year, the week, the version, the revision and the size as they are, each from its
  own byte of the block; the digital flag as 80 or 0; the block itself, with its length, at the head of an
  array of 128 bytes that is zero after it; and the identifier and the two texts in arrays of 8 and 14
  bytes which hold the text and then zeros, the last of them always a NUL, so that a C program reads
  back exactly the parsed texts, which a partial block does not have and a complete one takes from its
  last descriptors of each kind.
\<close>

theorem ffi_edid_parse_correct:
  "case ddccontrol_edid_parse buf len res of (st, out) \<Rightarrow>
     (if buf \<noteq> None \<and> res \<noteq> None \<and> is_ok (edid_parse (take (min len 128) (the buf)))
      then st = 0
        \<and> (\<exists>d r. edid_parse (take (min len 128) (the buf)) = Ok d \<and> out = Some r
             \<and> length (er_pnpid r) = 8 \<and> length (er_edid r) = 128
             \<and> length (ei_monitor_name (er_info r)) = 14 \<and> length (ei_serial_ascii (er_info r)) = 14
             \<and> last (er_pnpid r) = 0 \<and> last (ei_monitor_name (er_info r)) = 0 \<and> last (ei_serial_ascii (er_info r)) = 0
             \<and> er_pnpid r = str_bytes (edid_pnp_id d) @ replicate (8 - length (edid_pnp_id d)) 0
             \<and> ei_monitor_name (er_info r)
                 = str_bytes (monitor_name (edid_details d)) @ replicate (14 - length (monitor_name (edid_details d))) 0
             \<and> ei_serial_ascii (er_info r)
                 = str_bytes (serial_ascii (edid_details d)) @ replicate (14 - length (serial_ascii (edid_details d))) 0
             \<and> c_text (er_pnpid r) = edid_pnp_id d
             \<and> c_text (ei_monitor_name (er_info r)) = monitor_name (edid_details d)
             \<and> c_text (ei_serial_ascii (er_info r)) = serial_ascii (edid_details d)
             \<and> monitor_name (edid_details d)
                 = (if min len (length (the buf)) < 128 then [] else last ([] # descriptor_texts 0xfc (take 128 (the buf))))
             \<and> serial_ascii (edid_details d)
                 = (if min len (length (the buf)) < 128 then [] else last ([] # descriptor_texts 0xff (take 128 (the buf))))
             \<and> er_edid_len r = int (length (edid_raw d)) \<and> take (nat (er_edid_len r)) (er_edid r) = edid_raw d
             \<and> er_edid r = edid_raw d @ replicate (128 - length (edid_raw d)) 0
             \<and> er_digital r = (if digital_input d then 0x80 else 0) \<and> (digital_input d \<longleftrightarrow> bit (the buf ! 20) 7)
             \<and> ei_serial_number (er_info r) = serial_number (edid_details d)
             \<and> ei_manufacture_year (er_info r) = uint (manufacture_year (edid_details d))
             \<and> ei_manufacture_week (er_info r) = uint (manufacture_week (edid_details d))
             \<and> ei_version (er_info r) = uint (edid_version (edid_details d))
             \<and> ei_revision (er_info r) = uint (edid_revision (edid_details d))
             \<and> ei_max_width_cm (er_info r) = uint (max_width_cm (edid_details d))
             \<and> ei_max_height_cm (er_info r) = uint (max_height_cm (edid_details d))
             \<and> ei_manufacture_week (er_info r) = uint (the buf ! 16)
             \<and> ei_version (er_info r) = uint (the buf ! 18) \<and> ei_revision (er_info r) = uint (the buf ! 19)
             \<and> ei_max_width_cm (er_info r) = uint (the buf ! 21) \<and> ei_max_height_cm (er_info r) = uint (the buf ! 22))
      else st = -1 \<and> out = res)"
proof (cases "buf = None \<or> res = None")
  case False
  then obtain bs r0 where b: "buf = Some bs" "res = Some r0" by auto
  let ?input = "take (min len 128) bs"
  show ?thesis
  proof (cases "edid_parse ?input")
    case (Inr d)
    have len: "23 \<le> length ?input" using edid_parse_fields [of ?input] Inr by simp
    then have nth: "?input ! i = bs ! i" if "i < 23" for i using that by simp
    have call: "ddccontrol_edid_parse buf len res = (0, Some (edid_to_c d))"
      using Inr b by (simp add: ddccontrol_edid_parse_def raw_slice_def edid_consts)
    have raw: "filled 128 (edid_raw d) = edid_raw d @ replicate (128 - length (edid_raw d)) 0"
      using parsed_small(4) [OF Inr] by (simp add: filled_def)
    note small = parsed_small(1-3) [OF Inr]
    have texts: "monitor_name (edid_details d) = (if min len (length bs) < 128 then [] else last ([] # descriptor_texts 0xfc (take 128 bs)))"
      "serial_ascii (edid_details d) = (if min len (length bs) < 128 then [] else last ([] # descriptor_texts 0xff (take 128 bs)))"
      using edid_descriptor_texts [of ?input "[]"] Inr by (auto simp: min_def split: if_splits)
    show ?thesis
      using b Inr c_text_small [OF small(1)] c_text_small [OF small(2)] c_text_small [OF small(3)]
        filled_small [OF small(1)] filled_small [OF small(2)] filled_small [OF small(3)]
        parsed_small(4) [OF Inr] edid_parse_bytes [OF Inr] nth texts
      unfolding call
      by (simp add: edid_to_c_def Let_def text_to_c_def EDID_TEXT_LEN_def edid_consts raw)
  qed (use b in \<open>simp add: ddccontrol_edid_parse_def raw_slice_def edid_consts\<close>)
qed (auto simp: ddccontrol_edid_parse_def)

end
