(* ===== verification/Cbor_Preflight.thy ===== *)
theory Cbor_Preflight
  imports Cbor_Value
begin

text \<open>
  The byte-level check that runs before the CBOR decoder, \<open>Preflight\<close> and \<open>preflight\<close> of
  \<^verbatim>\<open>crates/ddccontrol-db-format/src/lib.rs\<close>. Its state is the position, the bytes not yet read
  and the number of items seen. Errors are the messages of the code. The main result is that the
  check accepts exactly the deterministic encodings of the values within the limits of the format.
\<close>

section \<open>Limits\<close>

definition MAX_FILE :: nat where "MAX_FILE = 256 * 1024 * 1024"
definition MAX_TEXT :: nat where "MAX_TEXT = 1024 * 1024"
definition MAX_BYTES :: nat where "MAX_BYTES = 16 * 1024 * 1024"
definition MAX_ITEMS :: nat where "MAX_ITEMS = 4000000"
definition MAX_CONTAINER :: nat where "MAX_CONTAINER = 1000000"
definition MAX_DEPTH :: nat where "MAX_DEPTH = 64"

lemmas cbor_limits = MAX_FILE_def MAX_TEXT_def MAX_BYTES_def MAX_ITEMS_def MAX_CONTAINER_def MAX_DEPTH_def

section \<open>The check\<close>

type_synonym preflight_state = "nat \<times> bytes \<times> nat"
type_synonym 'a checked = "('a, string) result"

abbreviation pf_pos :: "preflight_state \<Rightarrow> nat" where "pf_pos q \<equiv> fst q"
abbreviation pf_rest :: "preflight_state \<Rightarrow> bytes" where "pf_rest q \<equiv> fst (snd q)"
abbreviation pf_items :: "preflight_state \<Rightarrow> nat" where "pf_items q \<equiv> snd (snd q)"

fun pf_take :: "nat \<Rightarrow> preflight_state \<Rightarrow> (bytes \<times> preflight_state) checked" where
  "pf_take n (pos, bs, items) =
     (if 2 ^ 64 \<le> pos + n then Err ''CBOR length overflow''
      else if length bs < n then Err ''truncated CBOR''
      else Ok (take n bs, (pos + n, drop n bs, items)))"

definition pf_argument :: "u8 \<Rightarrow> preflight_state \<Rightarrow> ((nat \<times> nat) \<times> preflight_state) checked" where
  "pf_argument info q =
     (if info \<le> 23 then Ok ((unat info, 0), q)
      else if info = 24 then and_then (pf_take 1 q) (\<lambda>(bs, q). Ok ((be_nat bs, 24), q))
      else if info = 25 then and_then (pf_take 2 q) (\<lambda>(bs, q). Ok ((be_nat bs, 256), q))
      else if info = 26 then and_then (pf_take 4 q) (\<lambda>(bs, q). Ok ((be_nat bs, 65536), q))
      else if info = 27 then and_then (pf_take 8 q) (\<lambda>(bs, q). Ok ((be_nat bs, 2 ^ 32), q))
      else Err ''CBOR indefinite/reserved length is forbidden'')"

function (sequential) pf_item :: "nat \<Rightarrow> preflight_state \<Rightarrow> preflight_state checked"
  and pf_loop :: "bool \<Rightarrow> nat \<Rightarrow> nat \<Rightarrow> bytes option \<Rightarrow> preflight_state \<Rightarrow> preflight_state checked" where
  "pf_item depth (pos, bs, items) =
     (if depth > MAX_DEPTH \<or> items \<ge> MAX_ITEMS then Err ''CBOR nesting/item limit exceeded''
      else
        and_then (pf_take 1 (pos, bs, items + 1)) (\<lambda>(head, q).
          let major = drop_bit 5 (head ! 0);
              info = head ! 0 AND 31
          in if major = 7 then
               (if 20 \<le> info \<and> info \<le> 22 then Ok q
                else Err ''CBOR floating point/simple value is forbidden'')
             else if major = 6 then Err ''CBOR tags are forbidden''
             else
               and_then (pf_argument info q) (\<lambda>((argument, minimum), q).
                 if argument < minimum then Err ''CBOR argument is not shortest form''
                 else if major \<le> 1 then Ok q
                 else if major = 2 \<or> major = 3 then
                   (let maximum = (if major = 2 then MAX_BYTES else MAX_TEXT)
                    in if argument > maximum then Err ''CBOR string limit exceeded''
                       else and_then (pf_take argument q) (\<lambda>(content, q).
                              if major = 3 \<and> \<not> from_utf8 (bytes_str content) then Err ''CBOR invalid UTF-8''
                              else Ok q))
                 else if major = 4 \<or> major = 5 then
                   (let count = argument * (if major = 5 then 2 else 1)
                    in if 2 ^ 64 \<le> count then Err ''CBOR length overflow''
                       else if argument > MAX_CONTAINER \<or> count > MAX_ITEMS - pf_items q
                               \<or> count > length (pf_rest q)
                       then Err ''CBOR container/item limit or truncated container''
                       else pf_loop (major = 5) argument depth None q)
                 else Err ''CBOR invalid major type'')))"
| "pf_loop is_map 0 depth previous q = Ok q"
| "pf_loop is_map (Suc n) depth previous q =
     (if is_map then
        (case pf_rest q of
           [] \<Rightarrow> Err ''truncated CBOR map key''
         | b # _ \<Rightarrow>
             if drop_bit 5 b \<noteq> 0 \<and> drop_bit 5 b \<noteq> 3
             then Err ''CBOR map keys must be unsigned integers or text''
             else
               and_then (pf_item (depth + 1) q) (\<lambda>q1.
                 let encoded = take (pf_pos q1 - pf_pos q) (pf_rest q)
                 in if (case previous of None \<Rightarrow> False | Some key \<Rightarrow> key \<ge> encoded)
                    then Err ''CBOR duplicate or non-bytewise-ordered map key''
                    else and_then (pf_item (depth + 1) q1) (\<lambda>q2.
                           pf_loop is_map n depth (Some encoded) q2)))
      else and_then (pf_item (depth + 1) q) (\<lambda>q1. pf_loop is_map n depth previous q1))"
  by pat_completeness auto
termination
  by (relation "measures
    [case_sum (\<lambda>(d, _). if d > MAX_DEPTH then 0 else 2 * (MAX_DEPTH + 2 - d))
              (\<lambda>(_, _, d, _). max 1 (2 * (MAX_DEPTH + 2 - d) - 1)),
     case_sum (\<lambda>_. 0) (\<lambda>(_, n, _). n)]") auto

definition preflight :: "bytes \<Rightarrow> unit checked" where
  "preflight bs =
     (if length bs > MAX_FILE then Err ''CBOR file limit exceeded''
      else and_then (pf_item 0 (0, bs, 0)) (\<lambda>q.
             if pf_pos q \<noteq> length bs then Err ''CBOR extra bytes after root value'' else Ok ()))"

declare pf_take.simps [simp del] pf_item.simps [simp del] pf_loop.simps [simp del]

section \<open>Values within the limits\<close>

definition key_ok :: "cbor \<Rightarrow> bool" where
  "key_ok k \<longleftrightarrow> (case k of CInteger i \<Rightarrow> 0 \<le> i | CText _ \<Rightarrow> True | _ \<Rightarrow> False)"

fun within :: "nat \<Rightarrow> cbor \<Rightarrow> bool" where
  "within d (CInteger i) \<longleftrightarrow> d \<le> MAX_DEPTH \<and> - (2 ^ 64) \<le> i \<and> i < 2 ^ 64"
| "within d (CBytes bs) \<longleftrightarrow> d \<le> MAX_DEPTH \<and> length bs \<le> MAX_BYTES"
| "within d (CText s) \<longleftrightarrow> d \<le> MAX_DEPTH \<and> length s \<le> MAX_TEXT \<and> from_utf8 s"
| "within d (CBool b) \<longleftrightarrow> d \<le> MAX_DEPTH"
| "within d CNull \<longleftrightarrow> d \<le> MAX_DEPTH"
| "within d (CArray vs) \<longleftrightarrow> d \<le> MAX_DEPTH \<and> length vs \<le> MAX_CONTAINER \<and> (\<forall>v\<in>set vs. within (d + 1) v)"
| "within d (CMap es) \<longleftrightarrow> d \<le> MAX_DEPTH \<and> length es \<le> MAX_CONTAINER
     \<and> (\<forall>e\<in>set es. key_ok (fst e) \<and> within (d + 1) (fst e) \<and> within (d + 1) (snd e))
     \<and> sorted_wrt (<) (map (\<lambda>e. enc (fst e)) es)"
| "within d (CFloat _) \<longleftrightarrow> False"
| "within d (CTag _ _) \<longleftrightarrow> False"

text \<open>\<open>q'\<close> is the state after reading \<open>bs\<close> with \<open>n\<close> items from \<open>q\<close>.\<close>

definition pf_after :: "bytes \<Rightarrow> nat \<Rightarrow> preflight_state \<Rightarrow> preflight_state \<Rightarrow> bool" where
  "pf_after bs n q q' \<longleftrightarrow> pf_rest q = bs @ pf_rest q' \<and> pf_pos q' = pf_pos q + length bs
     \<and> pf_items q' = pf_items q + n"

lemma pf_after_Nil [simp]: "pf_after [] 0 q q"
  by (simp add: pf_after_def)

lemma pf_after_trans:
  "pf_after bs n q q1 \<Longrightarrow> pf_after cs m q1 q2 \<Longrightarrow> pf_after (bs @ cs) (n + m) q q2"
  by (auto simp: pf_after_def)

lemma pf_take_Ok:
  "pf_take n q = Inr (bs, q') \<longleftrightarrow>
     pf_pos q + n < 2 ^ 64 \<and> length bs = n \<and> pf_after bs 0 q q'"
  by (cases q; cases q') (auto simp: pf_take.simps pf_after_def)

text \<open>What the argument of a head promises.\<close>

lemma pf_argument_sound:
  assumes "pf_argument (h AND 31) q = Inr ((n, m), q')" and "m \<le> n"
  shows "\<exists>tl. enc_head (unat (drop_bit 5 h)) n = h # tl \<and> pf_after tl 0 q q' \<and> n < 2 ^ 64"
proof -
  let ?i = "unat (h AND 31)"
  have h: "h = of_nat (unat (drop_bit 5 h) * 32 + ?i)" by (rule head_split [symmetric])
  have small: "be_nat bs < 256 ^ k" "be_bytes k (be_nat bs) = bs" if "length bs = k" for bs k
    using be_nat_less [of bs] be_bytes_be_nat [of bs] that by auto
  consider (0) "?i \<le> 23" "n = ?i" "q' = q"
    | (1) bs where "?i = 24" "length bs = 1" "n = be_nat bs" "m = 24" "pf_after bs 0 q q'"
    | (2) bs where "?i = 25" "length bs = 2" "n = be_nat bs" "m = 256" "pf_after bs 0 q q'"
    | (3) bs where "?i = 26" "length bs = 4" "n = be_nat bs" "m = 65536" "pf_after bs 0 q q'"
    | (4) bs where "?i = 27" "length bs = 8" "n = be_nat bs" "m = 2 ^ 32" "pf_after bs 0 q q'"
    using assms(1)
    by (auto simp: pf_argument_def pf_take_Ok word_le_nat_alt word_unat_eq_iff split: if_splits)
  then show ?thesis
  proof cases
    case 0
    with h show ?thesis by (intro exI [of _ "[]"]) (simp add: enc_head_def)
  next
    case 1
    with assms(2) h small [of bs 1] show ?thesis
      by (intro exI [of _ bs]) (simp add: enc_head_def)
  next
    case 2
    with assms(2) h small [of bs 2] show ?thesis
      by (intro exI [of _ bs]) (simp add: enc_head_def)
  next
    case 3
    with assms(2) h small [of bs 4] show ?thesis
      by (intro exI [of _ bs]) (simp add: enc_head_def)
  next
    case 4
    with assms(2) h small [of bs 8] show ?thesis
      by (intro exI [of _ bs]) (simp add: enc_head_def)
  qed
qed

lemma pf_argument_bytes:
  assumes "unat info = i" and "(i, k, m) \<in> {(24, 1, 24), (25, 2, 256), (26, 4, 65536), (27, 8, 2 ^ 32)}"
    and "length bs = k" and "pos + k < 2 ^ 64"
  shows "pf_argument info (pos, bs @ r, items) = Inr ((be_nat bs, m), (pos + k, r, items))"
proof -
  have i: "info = of_nat i" by (simp add: assms(1) [symmetric])
  have t: "pf_take k (pos, bs @ r, items) = Inr (bs, (pos + k, r, items))"
    using assms(3,4) by (simp add: pf_take.simps)
  have "i = 24 \<and> k = 1 \<and> m = 24 \<or> i = 25 \<and> k = 2 \<and> m = 256 \<or> i = 26 \<and> k = 4 \<and> m = 65536
      \<or> i = 27 \<and> k = 8 \<and> m = 2 ^ 32"
    using assms(2) by simp
  then show ?thesis using t by (elim disjE) (simp_all add: pf_argument_def i)
qed

lemma pf_argument_complete:
  assumes "n < 2 ^ 64" and "M < 8" and "pos + length (enc_head M n @ r) < 2 ^ 64"
  shows "\<exists>h tl m. enc_head M n = h # tl \<and> unat (drop_bit 5 h) = M \<and> m \<le> n
     \<and> pf_argument (h AND 31) (pos + 1, tl @ r, items)
        = Inr ((n, m), (pos + length (enc_head M n), r, items))"
proof (cases "n < 24")
  case True
  let ?h = "of_nat (M * 32 + n) :: u8"
  have "unat (?h AND 31) = n" using True by (intro unat_head assms) simp
  then have "pf_argument (?h AND 31) (pos + 1, [] @ r, items) = Inr ((n, 0), (pos + 1, r, items))"
    using True by (simp add: pf_argument_def word_le_nat_alt)
  moreover have "unat (drop_bit 5 ?h) = M" using True by (intro unat_head assms) simp
  ultimately show ?thesis
    using True by (intro exI [of _ ?h] exI [of _ "[]"] exI [of _ 0]) (simp add: enc_head_def)
next
  case False
  define i k m where "i = (if n < 2 ^ 8 then 24 else if n < 2 ^ 16 then 25 else if n < 2 ^ 32 then 26 else 27 :: nat)"
    and "k = (if n < 2 ^ 8 then 1 else if n < 2 ^ 16 then 2 else if n < 2 ^ 32 then 4 else 8 :: nat)"
    and "m = (if n < 2 ^ 8 then 24 else if n < 2 ^ 16 then 256 else if n < 2 ^ 32 then 65536 else 2 ^ 32 :: nat)"
  let ?h = "of_nat (M * 32 + i) :: u8"
  have e: "enc_head M n = ?h # be_bytes k n" using False by (simp add: enc_head_def i_def k_def)
  have ikm: "(i, k, m) \<in> {(24, 1, 24), (25, 2, 256), (26, 4, 65536), (27, 8, 2 ^ 32)}"
    by (simp add: i_def k_def m_def)
  have h: "unat (drop_bit 5 ?h) = M" "unat (?h AND 31) = i"
    by (rule unat_head, rule assms, simp add: i_def)+
  have "n < 256 ^ k" using assms(1) by (simp add: k_def)
  then have "pf_argument (?h AND 31) (pos + 1, be_bytes k n @ r, items) = Inr ((n, m), (pos + 1 + k, r, items))"
    using pf_argument_bytes [OF h(2) ikm, of "be_bytes k n" "pos + 1"] assms(3) e by simp
  moreover have "m \<le> n" using False by (simp add: m_def)
  ultimately show ?thesis using e h(1) by auto
qed


section \<open>Accepted bytes are encodings\<close>

definition reads :: "nat \<Rightarrow> preflight_state \<Rightarrow> preflight_state \<Rightarrow> bool" where
  "reads d q q' \<longleftrightarrow>
     (\<exists>v. within d v \<and> pf_after (enc v) (item_count v) q q' \<and> pf_items q' \<le> MAX_ITEMS)"

definition array_items :: "cbor list \<Rightarrow> nat" where
  "array_items vs = sum_list (map item_count vs)"

definition map_items :: "(cbor \<times> cbor) list \<Rightarrow> nat" where
  "map_items es = sum_list (map (\<lambda>(k, v). item_count k + item_count v) es)"

definition map_bytes :: "(cbor \<times> cbor) list \<Rightarrow> bytes" where
  "map_bytes es = concat (map (\<lambda>(k, v). enc k @ enc v) es)"

lemma item_count_pos: "1 \<le> item_count v"
  by (cases v) auto

text \<open>The first byte of an encoding tells its major type.\<close>

lemma enc_head_major:
  assumes "M < 8" and "enc_head M n = h # t"
  shows "unat (drop_bit 5 h) = M"
proof -
  let ?k = "if n < 24 then n else if n < 2 ^ 8 then 24 else if n < 2 ^ 16 then 25 else if n < 2 ^ 32 then 26 else 27"
  have "h = of_nat (M * 32 + ?k)" using assms(2) by (auto simp: enc_head_def split: if_splits)
  moreover have "?k < 32" by simp
  ultimately show ?thesis using unat_head(1) [OF assms(1)] by blast
qed

lemma enc_head_append:
  assumes "M < 8"
  shows "unat (drop_bit 5 (hd (enc_head M n @ bs))) = M"
  using enc_head_major [OF assms] by (cases "enc_head M n") auto

lemma enc_major:
  "within d v \<Longrightarrow> unat (drop_bit 5 (hd (enc v))) =
     (case v of CInteger i \<Rightarrow> if 0 \<le> i then 0 else 1 | CBytes _ \<Rightarrow> 2 | CText _ \<Rightarrow> 3 | CArray _ \<Rightarrow> 4
      | CMap _ \<Rightarrow> 5 | _ \<Rightarrow> 7)"
  using enc_head_append [of _ _ "[]"] by (cases v) (simp_all add: enc_head_append unat_drop_bit_u8)

lemma key_major:
  assumes "within d k" and "enc k @ r = b # s" and "\<not> (drop_bit 5 b \<noteq> 0 \<and> drop_bit 5 b \<noteq> 3)"
  shows "key_ok k"
proof -
  have "b = hd (enc k)" using assms(2) by (cases "enc k") auto
  moreover have "unat (drop_bit 5 b) = 0 \<or> unat (drop_bit 5 b) = 3" using assms(3) by auto
  ultimately show ?thesis
    using enc_major [OF assms(1)] by (auto simp: key_ok_def split: cbor.splits if_splits)
qed

lemma loop_array_sound:
  assumes item: "\<And>q q'. pf_item (d + 1) q = Inr q' \<Longrightarrow> reads (d + 1) q q'"
  shows "pf_loop False n d prev q = Inr q' \<Longrightarrow> pf_items q \<le> MAX_ITEMS \<Longrightarrow>
     \<exists>vs. length vs = n \<and> (\<forall>v\<in>set vs. within (d + 1) v)
        \<and> pf_after (concat (map enc vs)) (array_items vs) q q' \<and> pf_items q' \<le> MAX_ITEMS"
proof (induction n arbitrary: q)
  case 0
  then show ?case by (simp add: pf_loop.simps array_items_def)
next
  case (Suc n)
  from Suc.prems obtain q1 where 1: "pf_item (d + 1) q = Inr q1" and 2: "pf_loop False n d prev q1 = Inr q'"
    by (auto simp: pf_loop.simps)
  from item [OF 1] obtain v where v: "within (d + 1) v" "pf_after (enc v) (item_count v) q q1"
    and le: "pf_items q1 \<le> MAX_ITEMS" by (auto simp: reads_def)
  from Suc.IH [OF 2 le] obtain vs where "length vs = n" "\<forall>v\<in>set vs. within (d + 1) v"
    "pf_after (concat (map enc vs)) (array_items vs) q1 q'" "pf_items q' \<le> MAX_ITEMS" by blast
  with v show ?case
    by (intro exI [of _ "v # vs"]) (auto simp: array_items_def intro: pf_after_trans)
qed

lemma loop_map_sound:
  assumes item: "\<And>q q'. pf_item (d + 1) q = Inr q' \<Longrightarrow> reads (d + 1) q q'"
  shows "pf_loop True n d prev q = Inr q' \<Longrightarrow> pf_items q \<le> MAX_ITEMS \<Longrightarrow>
     \<exists>es. length es = n
        \<and> (\<forall>e\<in>set es. key_ok (fst e) \<and> within (d + 1) (fst e) \<and> within (d + 1) (snd e))
        \<and> sorted_wrt (<) (map (\<lambda>e. enc (fst e)) es)
        \<and> (\<forall>p\<in>set_option prev. \<forall>e\<in>set es. p < enc (fst e))
        \<and> pf_after (map_bytes es) (map_items es) q q' \<and> pf_items q' \<le> MAX_ITEMS"
proof (induction n arbitrary: q prev)
  case 0
  then show ?case by (simp add: pf_loop.simps map_items_def map_bytes_def)
next
  case (Suc n)
  from Suc.prems obtain b s where b: "pf_rest q = b # s"
    and major: "\<not> (drop_bit 5 b \<noteq> 0 \<and> drop_bit 5 b \<noteq> 3)"
    by (auto simp: pf_loop.simps split: list.splits if_splits)
  define encoded where "encoded q1 = take (pf_pos q1 - pf_pos q) (pf_rest q)" for q1 :: preflight_state
  from Suc.prems obtain q1 q2 where 1: "pf_item (d + 1) q = Inr q1"
    and order: "\<forall>p\<in>set_option prev. p < encoded q1"
    and 2: "pf_item (d + 1) q1 = Inr q2" and 3: "pf_loop True n d (Some (encoded q1)) q2 = Inr q'"
    by (auto simp: pf_loop.simps Let_def encoded_def b not_le split: if_splits option.splits)
  from item [OF 1] obtain k where k: "within (d + 1) k" "pf_after (enc k) (item_count k) q q1"
    by (auto simp: reads_def)
  from item [OF 2] obtain v where v: "within (d + 1) v" "pf_after (enc v) (item_count v) q1 q2"
    and le: "pf_items q2 \<le> MAX_ITEMS" by (auto simp: reads_def)
  have e: "encoded q1 = enc k" using k(2) by (simp add: encoded_def pf_after_def)
  have "enc k @ pf_rest q1 = b # s" using k(2) b by (simp add: pf_after_def)
  then have ok: "key_ok k" by (rule key_major [OF k(1) _ major])
  from Suc.IH [OF 3 le] obtain es where es: "length es = n"
    "\<forall>e\<in>set es. key_ok (fst e) \<and> within (d + 1) (fst e) \<and> within (d + 1) (snd e)"
    "sorted_wrt (<) (map (\<lambda>e. enc (fst e)) es)" "\<forall>x\<in>set es. enc k < enc (fst x)"
    "pf_after (map_bytes es) (map_items es) q2 q'" "pf_items q' \<le> MAX_ITEMS"
    by (auto simp: e)
  have "pf_after ((enc k @ enc v) @ map_bytes es) ((item_count k + item_count v) + map_items es) q q'"
    by (intro pf_after_trans [OF pf_after_trans [OF k(2) v(2)] es(5)])
  moreover have "\<forall>p\<in>set_option prev. \<forall>x\<in>set ((k, v) # es). p < enc (fst x)"
    using order es(4) by (auto simp: e intro: order.strict_trans)
  ultimately show ?case
    using es k(1) v(1) ok
    by (intro exI [of _ "(k, v) # es"]) (auto simp: map_items_def map_bytes_def)
qed

lemma pf_after_item:
  "pf_take 1 (pos, bs, Suc items) = Inr ([h], q1) \<Longrightarrow> pf_after t 0 q1 q2 \<Longrightarrow> pf_after (h # t) 1 (pos, bs, items) q2"
  by (cases bs) (auto simp: pf_take.simps pf_after_def split: if_splits)

text \<open>The ways \<open>item\<close> can succeed.\<close>

lemma pf_item_Ok:
  assumes "pf_item d q = Inr q'"
  obtains (simple) h where "d \<le> MAX_DEPTH" "pf_items q < MAX_ITEMS"
        "h = 0xf4 \<or> h = 0xf5 \<or> h = 0xf6" "pf_after [h] 1 q q'"
    | (int) M n where "d \<le> MAX_DEPTH" "pf_items q < MAX_ITEMS"
        "M \<le> 1" "n < 2 ^ 64" "pf_after (enc_head M n) 1 q q'"
    | (byte_str) bs where "d \<le> MAX_DEPTH" "pf_items q < MAX_ITEMS"
        "length bs \<le> MAX_BYTES" "pf_after (enc_head 2 (length bs) @ bs) 1 q q'"
    | (text_str) bs where "d \<le> MAX_DEPTH" "pf_items q < MAX_ITEMS"
        "length bs \<le> MAX_TEXT" "from_utf8 (bytes_str bs)" "pf_after (enc_head 3 (length bs) @ bs) 1 q q'"
    | (container) m n q1 where "d \<le> MAX_DEPTH" "pf_items q < MAX_ITEMS"
        "n \<le> MAX_CONTAINER" "pf_after (enc_head (if m then 5 else 4) n) 1 q q1"
        "pf_loop m n d None q1 = Inr q'"
proof -
  obtain pos bs items where q: "q = (pos, bs, items)" by (cases q) auto
  note unf = pf_item.simps [of d pos bs items]
  from assms have lim: "d \<le> MAX_DEPTH" "pf_items q < MAX_ITEMS"
    by (auto simp: unf q split: if_splits)
  from assms lim obtain hs q1 where "pf_take 1 (pos, bs, Suc items) = Inr (hs, q1)"
    by (auto simp: unf q)
  moreover from this obtain h where "hs = [h]"
    by (auto simp: pf_take_Ok length_Suc_conv)
  ultimately have t: "pf_take 1 (pos, bs, Suc items) = Inr ([h], q1)" by simp
  let ?M = "unat (drop_bit 5 h)"
  show ?thesis
  proof (cases "drop_bit 5 h = 7")
    case True
    then have h: "20 \<le> unat (h AND 31) \<and> unat (h AND 31) \<le> 22" "q' = q1"
      using assms lim t by (auto simp: unf q Let_def word_le_nat_alt split: if_splits)
    have "h = of_nat (7 * 32 + unat (h AND 31))" using head_split [of h] True by simp
    moreover have "unat (h AND 31) = 20 \<or> unat (h AND 31) = 21 \<or> unat (h AND 31) = 22"
      using h(1) by linarith
    ultimately have "h = of_nat (7 * 32 + 20) \<or> h = of_nat (7 * 32 + 21) \<or> h = of_nat (7 * 32 + 22)"
      by metis
    then have "h = 0xf4 \<or> h = 0xf5 \<or> h = 0xf6" by simp
    then show ?thesis
      using pf_after_item [OF t pf_after_Nil] by (intro simple [OF lim]) (simp_all add: q h(2))
  next
    case False
    from assms lim t False obtain n m q2 where a: "pf_argument (h AND 31) q1 = Inr ((n, m), q2)" "m \<le> n"
      by (auto simp: unf q Let_def not_less split: if_splits)
    from pf_argument_sound [OF a] obtain u where u: "enc_head ?M n = h # u" "pf_after u 0 q1 q2" "n < 2 ^ 64"
      by blast
    have after: "pf_after (enc_head ?M n) 1 q q2" using pf_after_item [OF t u(2)] by (simp add: q u(1))
    have major: "?M < 8" by (rule head_major_less)
    have after_take: "pf_after (enc_head ?M n @ bs') 1 q q3" if "pf_take n q2 = Inr (bs', q3)" for bs' q3
      using that pf_after_trans [OF after, of bs' 0 q3] by (auto simp: pf_take_Ok)
    consider (1) "?M \<le> 1" "q' = q2"
      | (2) bs' where "?M = 2" "n \<le> MAX_BYTES" "pf_take n q2 = Inr (bs', q')"
      | (3) bs' where "?M = 3" "n \<le> MAX_TEXT" "pf_take n q2 = Inr (bs', q')" "from_utf8 (bytes_str bs')"
      | (4) m where "?M = (if m then 5 else 4)" "n \<le> MAX_CONTAINER" "pf_loop m n d None q2 = Inr q'"
      using assms lim False a t
      by (auto simp: unf q Let_def word_unat_eq_iff word_le_nat_alt not_less split: if_splits)
    then show ?thesis
    proof cases
      case 1
      with u(3) after show ?thesis by (intro int [OF lim]) simp_all
    next
      case (2 bs')
      with after_take [OF 2(3)] show ?thesis by (intro byte_str [OF lim, of bs']) (auto simp: pf_take_Ok)
    next
      case (3 bs')
      with after_take [OF 3(3)] show ?thesis by (intro text_str [OF lim, of bs']) (auto simp: pf_take_Ok)
    next
      case (4 m)
      with after show ?thesis by (intro container [OF lim, of n m q2]) simp_all
    qed
  qed
qed

lemma pf_item_sound_step:
  assumes item: "\<And>q q'. pf_item (d + 1) q = Inr q' \<Longrightarrow> reads (d + 1) q q'"
    and "pf_item d q = Inr q'"
  shows "reads d q q'"
proof -
  have leaf: "reads d q q'" if "within d v" "item_count v = 1" "pf_after (enc v) 1 q q'" "pf_items q < MAX_ITEMS" for v
    using that by (auto simp: reads_def pf_after_def)
  from assms(2) show ?thesis
  proof (cases rule: pf_item_Ok)
    case simple
    then show ?thesis
      using leaf [of "CBool False"] leaf [of "CBool True"] leaf [of CNull] by auto
  next
    case (int M n)
    have "M = 0 \<or> M = 1" using int(3) by linarith
    moreover have "int n < 2 ^ 64" using int(4) by (metis of_nat_less_iff of_nat_numeral of_nat_power)
    ultimately show ?thesis
      using leaf [of "CInteger (int n)"] leaf [of "CInteger (- 1 - int n)"] int(1,2,5) by auto
  next
    case (byte_str bs)
    then show ?thesis using leaf [of "CBytes bs"] by simp
  next
    case (text_str bs)
    then show ?thesis using leaf [of "CText (bytes_str bs)"] by simp
  next
    case (container m n q1)
    have i1: "pf_items q1 \<le> MAX_ITEMS" using container(2,4) by (simp add: pf_after_def)
    show ?thesis
    proof (cases m)
      case True
      with loop_map_sound [OF item, of n None q1 q'] container(5) i1 obtain es where es: "length es = n"
        "\<forall>e\<in>set es. key_ok (fst e) \<and> within (d + 1) (fst e) \<and> within (d + 1) (snd e)"
        "sorted_wrt (<) (map (\<lambda>e. enc (fst e)) es)"
        "pf_after (map_bytes es) (map_items es) q1 q'" "pf_items q' \<le> MAX_ITEMS" by auto
      have "pf_after (enc (CMap es)) (item_count (CMap es)) q q'"
        using pf_after_trans [OF container(4) es(4)] True es(1) by (simp add: map_bytes_def map_items_def)
      with es container(1,3) show ?thesis unfolding reads_def by (intro exI [of _ "CMap es"]) simp
    next
      case False
      with loop_array_sound [OF item, of n None q1 q'] container(5) i1 obtain vs where vs: "length vs = n"
        "\<forall>v\<in>set vs. within (d + 1) v" "pf_after (concat (map enc vs)) (array_items vs) q1 q'"
        "pf_items q' \<le> MAX_ITEMS" by auto
      have "pf_after (enc (CArray vs)) (item_count (CArray vs)) q q'"
        using pf_after_trans [OF container(4) vs(3)] False vs(1) by (simp add: array_items_def)
      with vs container(1,3) show ?thesis unfolding reads_def by (intro exI [of _ "CArray vs"]) simp
    qed
  qed
qed

lemma pf_item_sound: "pf_item d q = Inr q' \<Longrightarrow> reads d q q'"
proof (induction "MAX_DEPTH + 1 - d" arbitrary: d q q')
  case 0
  then show ?case by (auto elim: pf_item_Ok)
next
  case (Suc k)
  have "reads (d + 1) q q'" if "pf_item (d + 1) q = Inr q'" for q q'
    by (rule Suc.hyps(1) [OF _ that]) (use Suc.hyps(2) in simp)
  then show ?case using Suc.prems by (rule pf_item_sound_step)
qed

section \<open>Encodings are accepted\<close>

definition accepted :: "nat \<Rightarrow> cbor \<Rightarrow> bool" where
  "accepted d v \<longleftrightarrow>
     (\<forall>pos r items. items + item_count v \<le> MAX_ITEMS \<longrightarrow> pos + length (enc v @ r) < 2 ^ 64
        \<longrightarrow> pf_item d (pos, enc v @ r, items) = Inr (pos + length (enc v), r, items + item_count v))"

lemma acceptedD:
  "accepted d v \<Longrightarrow> items + item_count v \<le> MAX_ITEMS \<Longrightarrow> pos + length (enc v @ r) < 2 ^ 64
     \<Longrightarrow> pf_item d (pos, enc v @ r, items) = Inr (pos + length (enc v), r, items + item_count v)"
  by (simp add: accepted_def)

lemma enc_first:
  assumes "within d k" and "key_ok k"
  obtains b t where "enc k = b # t" and "\<not> (drop_bit 5 b \<noteq> 0 \<and> drop_bit 5 b \<noteq> 3)"
proof -
  obtain b t where e: "enc k = b # t" by (cases "enc k") simp_all
  then have "unat (drop_bit 5 b) = 0 \<or> unat (drop_bit 5 b) = 3"
    using enc_major [OF assms(1)] assms(2) by (auto simp: key_ok_def split: cbor.splits)
  then have "\<not> (drop_bit 5 b \<noteq> 0 \<and> drop_bit 5 b \<noteq> 3)" by (auto simp: word_unat_eq_iff)
  with e that show ?thesis by blast
qed

lemma loop_array_complete:
  "\<forall>v\<in>set vs. accepted (d + 1) v \<Longrightarrow> items + array_items vs \<le> MAX_ITEMS
     \<Longrightarrow> pos + length (concat (map enc vs) @ r) < 2 ^ 64
     \<Longrightarrow> pf_loop False (length vs) d prev (pos, concat (map enc vs) @ r, items)
         = Inr (pos + length (concat (map enc vs)), r, items + array_items vs)"
proof (induction vs arbitrary: pos items)
  case Nil
  then show ?case by (simp add: pf_loop.simps array_items_def)
next
  case (Cons v vs)
  have i: "items + item_count v + array_items vs \<le> MAX_ITEMS"
    using Cons.prems(2) by (simp add: array_items_def)
  have "pf_item (d + 1) (pos, enc v @ concat (map enc vs) @ r, items)
      = Inr (pos + length (enc v), concat (map enc vs) @ r, items + item_count v)"
    using Cons.prems i by (intro acceptedD) auto
  moreover have "pf_loop False (length vs) d prev (pos + length (enc v), concat (map enc vs) @ r, items + item_count v)
      = Inr (pos + length (enc v) + length (concat (map enc vs)), r, items + item_count v + array_items vs)"
    using Cons.prems i by (intro Cons.IH) auto
  ultimately show ?case by (simp add: pf_loop.simps array_items_def add.assoc)
qed

lemma loop_map_complete:
  "\<forall>e\<in>set es. key_ok (fst e) \<and> within (d + 1) (fst e) \<and> accepted (d + 1) (fst e) \<and> accepted (d + 1) (snd e)
     \<Longrightarrow> sorted_wrt (<) (map (\<lambda>e. enc (fst e)) es) \<Longrightarrow> \<forall>p\<in>set_option prev. \<forall>e\<in>set es. p < enc (fst e)
     \<Longrightarrow> items + map_items es \<le> MAX_ITEMS \<Longrightarrow> pos + length (map_bytes es @ r) < 2 ^ 64
     \<Longrightarrow> pf_loop True (length es) d prev (pos, map_bytes es @ r, items)
         = Inr (pos + length (map_bytes es), r, items + map_items es)"
proof (induction es arbitrary: pos items prev)
  case Nil
  then show ?case by (simp add: pf_loop.simps map_items_def map_bytes_def)
next
  case (Cons e es)
  obtain k v where e: "e = (k, v)" by fastforce
  have bytes: "map_bytes (e # es) = enc k @ enc v @ map_bytes es" by (simp add: map_bytes_def e)
  have i: "items + item_count k + item_count v + map_items es \<le> MAX_ITEMS"
    using Cons.prems(4) by (simp add: map_items_def e)
  have len: "pos + length (enc k) + length (enc v) + length (map_bytes es @ r) < 2 ^ 64"
    using Cons.prems(5) by (simp add: bytes)
  obtain b t where b: "enc k = b # t" "\<not> (drop_bit 5 b \<noteq> 0 \<and> drop_bit 5 b \<noteq> 3)"
    using Cons.prems(1) e by (auto elim: enc_first)
  have 1: "pf_item (d + 1) (pos, enc k @ enc v @ map_bytes es @ r, items)
      = Inr (pos + length (enc k), enc v @ map_bytes es @ r, items + item_count k)"
    using Cons.prems(1) i len e by (intro acceptedD) auto
  have 2: "pf_item (d + 1) (pos + length (enc k), enc v @ map_bytes es @ r, items + item_count k)
      = Inr (pos + length (enc k) + length (enc v), map_bytes es @ r, items + item_count k + item_count v)"
    using Cons.prems(1) i len e by (intro acceptedD) auto
  have 3: "pf_loop True (length es) d (Some (enc k))
        (pos + length (enc k) + length (enc v), map_bytes es @ r, items + item_count k + item_count v)
      = Inr (pos + length (enc k) + length (enc v) + length (map_bytes es), r,
             items + item_count k + item_count v + map_items es)"
    using Cons.prems(1,2) i len e by (intro Cons.IH) auto
  have order: "(case prev of None \<Rightarrow> False | Some key \<Rightarrow> key \<ge> enc k) = False"
    using Cons.prems(3) e by (auto split: option.splits)
  have "pf_loop True (length (e # es)) d prev (pos, enc k @ enc v @ map_bytes es @ r, items)
      = Inr (pos + length (enc k) + length (enc v) + length (map_bytes es), r,
             items + item_count k + item_count v + map_items es)"
    using b(2) 1 2 3 order [unfolded b(1)]
    by (cases prev) (simp_all add: pf_loop.simps b(1) Let_def)
  then show ?case by (simp add: bytes [unfolded e] map_items_def e add.assoc)
qed

text \<open>One step of \<open>item\<close> over a head.\<close>

lemma pf_item_head:
  assumes "n < 2 ^ 64" and "M < 6" and "d \<le> MAX_DEPTH" and "items < MAX_ITEMS"
    and "pos + length (enc_head M n @ r) < 2 ^ 64"
  shows "pf_item d (pos, enc_head M n @ r, items) =
     (let q = (pos + length (enc_head M n), r, items + 1)
      in if M \<le> 1 then Ok q
         else if M = 2 \<or> M = 3 then
           if n > (if M = 2 then MAX_BYTES else MAX_TEXT) then Err ''CBOR string limit exceeded''
           else and_then (pf_take n q) (\<lambda>(content, q).
                  if M = 3 \<and> \<not> from_utf8 (bytes_str content) then Err ''CBOR invalid UTF-8'' else Ok q)
         else if 2 ^ 64 \<le> n * (if M = 5 then 2 else 1) then Err ''CBOR length overflow''
         else if n > MAX_CONTAINER \<or> n * (if M = 5 then 2 else 1) > MAX_ITEMS - (items + 1)
                 \<or> n * (if M = 5 then 2 else 1) > length r
         then Err ''CBOR container/item limit or truncated container''
         else pf_loop (M = 5) n d None q)"
proof -
  obtain h t m where h: "enc_head M n = h # t" "unat (drop_bit 5 h) = M" "m \<le> n"
    and a: "pf_argument (h AND 31) (pos + 1, t @ r, items + 1)
        = Inr ((n, m), (pos + length (enc_head M n), r, items + 1))"
    using pf_argument_complete [OF assms(1) _ assms(5), of "items + 1"] assms(2) by fastforce
  have t: "pf_take 1 (pos, (h # t) @ r, items + 1) = Inr ([h], (pos + 1, t @ r, items + 1))"
    using assms(5) by (simp add: pf_take.simps h(1))
  have eq: "drop_bit 5 h = of_nat M" using h(2) by (simp add: h(2) [symmetric])
  have "M = 0 \<or> M = 1 \<or> M = 2 \<or> M = 3 \<or> M = 4 \<or> M = 5" using assms(2) by linarith
  then show ?thesis
    using assms(3,4) t a h(3) unfolding pf_item.simps h(1)
    by (elim disjE) (simp_all add: eq Let_def word_le_nat_alt)
qed

lemma array_items_length: "length vs \<le> array_items vs"
proof (induction vs)
  case (Cons v vs)
  then show ?case using item_count_pos [of v] by (simp add: array_items_def)
qed (simp add: array_items_def)

lemma map_items_length: "length es * 2 \<le> map_items es"
proof (induction es)
  case (Cons e es)
  then show ?case using item_count_pos [of "fst e"] item_count_pos [of "snd e"]
    by (simp add: map_items_def case_prod_unfold)
qed (simp add: map_items_def)

lemma array_bytes_length: "length vs \<le> length (concat (map enc vs))"
proof (induction vs)
  case (Cons v vs)
  then show ?case using enc_length_pos [of v] by (simp del: enc_not_Nil length_greater_0_conv)
qed simp

lemma map_bytes_length: "length es * 2 \<le> length (map_bytes es)"
proof (induction es)
  case (Cons e es)
  then show ?case using enc_length_pos [of "fst e"] enc_length_pos [of "snd e"]
    by (simp add: map_bytes_def case_prod_unfold del: enc_not_Nil length_greater_0_conv)
qed (simp add: map_bytes_def)

lemma within_accepted: "within d v \<Longrightarrow> accepted d v"
proof (induction v arbitrary: d)
  case (CInteger i)
  then have "nat i < 2 ^ 64" "nat (- 1 - i) < 2 ^ 64" by (auto simp: nat_less_iff)
  with CInteger show ?case by (auto simp: accepted_def pf_item_head)
next
  case (CBytes bs)
  then have "length bs < 2 ^ 64" by (simp add: cbor_limits)
  with CBytes show ?case by (auto simp: accepted_def pf_item_head Let_def pf_take.simps)
next
  case (CText s)
  then have "length s < 2 ^ 64" by (simp add: cbor_limits)
  with CText show ?case by (auto simp: accepted_def pf_item_head Let_def pf_take.simps)
next
  case (CArray vs)
  then have n: "length vs < 2 ^ 64" "length vs \<le> MAX_CONTAINER" "d \<le> MAX_DEPTH" by (auto simp: cbor_limits)
  have acc: "\<forall>v\<in>set vs. accepted (d + 1) v" using CArray by auto
  show ?case
    unfolding accepted_def
  proof (intro allI impI)
    fix pos r items
    assume i: "items + item_count (CArray vs) \<le> MAX_ITEMS" and len: "pos + length (enc (CArray vs) @ r) < 2 ^ 64"
    have "pf_loop False (length vs) d None
        (pos + length (enc_head 4 (length vs)), concat (map enc vs) @ r, items + 1)
      = Inr (pos + length (enc_head 4 (length vs)) + length (concat (map enc vs)), r, items + 1 + array_items vs)"
      using i len by (intro loop_array_complete [OF acc]) (auto simp: array_items_def)
    then show "pf_item d (pos, enc (CArray vs) @ r, items)
        = Inr (pos + length (enc (CArray vs)), r, items + item_count (CArray vs))"
      using n i len array_items_length [of vs] array_bytes_length [of vs]
      by (simp add: pf_item_head Let_def array_items_def add.assoc)
  qed
next
  case (CMap es)
  then have n: "length es * 2 < 2 ^ 64" "length es \<le> MAX_CONTAINER" "d \<le> MAX_DEPTH" by (auto simp: cbor_limits)
  have acc: "\<forall>e\<in>set es. key_ok (fst e) \<and> within (d + 1) (fst e) \<and> accepted (d + 1) (fst e) \<and> accepted (d + 1) (snd e)"
    using CMap by fastforce
  have sorted: "sorted_wrt (<) (map (\<lambda>e. enc (fst e)) es)" using CMap.prems by simp
  show ?case
    unfolding accepted_def
  proof (intro allI impI)
    fix pos r items
    assume i: "items + item_count (CMap es) \<le> MAX_ITEMS" and len: "pos + length (enc (CMap es) @ r) < 2 ^ 64"
    have "pf_loop True (length es) d None (pos + length (enc_head 5 (length es)), map_bytes es @ r, items + 1)
      = Inr (pos + length (enc_head 5 (length es)) + length (map_bytes es), r, items + 1 + map_items es)"
      using i len by (intro loop_map_complete [OF acc sorted]) (auto simp: map_items_def map_bytes_def)
    then show "pf_item d (pos, enc (CMap es) @ r, items)
        = Inr (pos + length (enc (CMap es)), r, items + item_count (CMap es))"
      using n i len map_items_length [of es] map_bytes_length [of es]
      by (simp add: pf_item_head Let_def map_items_def map_bytes_def add.assoc)
  qed
next
  case (CBool b)
  then show ?case
    by (auto simp: accepted_def pf_item.simps pf_take.simps Let_def)
next
  case CNull
  then show ?case by (auto simp: accepted_def pf_item.simps pf_take.simps Let_def)
qed simp_all


lemma preflight_Ok:
  "preflight bs = Inr u \<longleftrightarrow>
     length bs \<le> MAX_FILE \<and> (\<exists>v. within 0 v \<and> item_count v \<le> MAX_ITEMS \<and> bs = enc v)"
proof
  assume p: "preflight bs = Inr u"
  then obtain q where "pf_item 0 (0, bs, 0) = Inr q" "pf_pos q = length bs" and l: "length bs \<le> MAX_FILE"
    by (auto simp: preflight_def not_less split: if_splits)
  from pf_item_sound [OF this(1)] this(2) obtain v where "within 0 v" "item_count v \<le> MAX_ITEMS" "bs = enc v"
    by (auto simp: reads_def pf_after_def)
  with l show "length bs \<le> MAX_FILE \<and> (\<exists>v. within 0 v \<and> item_count v \<le> MAX_ITEMS \<and> bs = enc v)" by blast
next
  assume "length bs \<le> MAX_FILE \<and> (\<exists>v. within 0 v \<and> item_count v \<le> MAX_ITEMS \<and> bs = enc v)"
  then obtain v where v: "within 0 v" "item_count v \<le> MAX_ITEMS" "bs = enc v" and l: "length bs \<le> MAX_FILE"
    by blast
  have "pf_item 0 (0, enc v @ [], 0) = Inr (0 + length (enc v), [], 0 + item_count v)"
    using v l by (intro acceptedD [OF within_accepted]) (simp_all add: cbor_limits)
  with v(3) l show "preflight bs = Inr u" by (simp add: preflight_def)
qed

section \<open>An encoding determines its value\<close>

lemma enc_head_inject:
  assumes "enc_head M n @ r = enc_head M' n' @ s" and "M < 8" "M' < 8" "n < 2 ^ 64" "n' < 2 ^ 64"
    and "length (enc_head M n @ r) < 2 ^ 64"
  shows "M = M' \<and> n = n' \<and> r = s"
proof -
  obtain h t m where h: "enc_head M n = h # t" "unat (drop_bit 5 h) = M"
    "pf_argument (h AND 31) (1, t @ r, 0) = Inr ((n, m), (length (enc_head M n), r, 0))"
    using pf_argument_complete [OF assms(4,2), of 0 r 0] assms(6) by auto
  obtain h' t' m' where h': "enc_head M' n' = h' # t'" "unat (drop_bit 5 h') = M'"
    "pf_argument (h' AND 31) (1, t' @ s, 0) = Inr ((n', m'), (length (enc_head M' n'), s, 0))"
    using pf_argument_complete [OF assms(5,3), of 0 s 0] assms(1,6) by auto
  have "h = h'" "t @ r = t' @ s" using assms(1) h(1) h'(1) by auto
  with h(2,3) h'(2,3) show ?thesis by auto
qed

lemma within_64: "within d v \<Longrightarrow> case v of CInteger i \<Rightarrow> nat i < 2 ^ 64 \<and> nat (- 1 - i) < 2 ^ 64
    | CBytes bs \<Rightarrow> length bs < 2 ^ 64 | CText s \<Rightarrow> length s < 2 ^ 64 | CArray vs \<Rightarrow> length vs < 2 ^ 64
    | CMap es \<Rightarrow> length es < 2 ^ 64 | _ \<Rightarrow> True"
  by (cases v) (auto simp: cbor_limits nat_less_iff)

definition determined :: "cbor \<Rightarrow> bool" where
  "determined v \<longleftrightarrow> (\<forall>d e w r s. within d v \<longrightarrow> within e w \<longrightarrow> length (enc v @ r) < 2 ^ 64
     \<longrightarrow> enc v @ r = enc w @ s \<longrightarrow> v = w \<and> r = s)"

lemma determinedD:
  "determined v \<Longrightarrow> within d v \<Longrightarrow> within e w \<Longrightarrow> length (enc v @ r) < 2 ^ 64 \<Longrightarrow> enc v @ r = enc w @ s
     \<Longrightarrow> v = w \<and> r = s"
  unfolding determined_def by blast

lemma arrays_determined:
  "\<forall>v\<in>set vs. determined v \<and> within d v \<Longrightarrow> \<forall>w\<in>set ws. within e w \<Longrightarrow> length vs = length ws
     \<Longrightarrow> length (concat (map enc vs) @ r) < 2 ^ 64
     \<Longrightarrow> concat (map enc vs) @ r = concat (map enc ws) @ s \<Longrightarrow> vs = ws \<and> r = s"
proof (induction vs arbitrary: ws)
  case (Cons v vs)
  then obtain w ws' where ws: "ws = w # ws'" by (cases ws) auto
  have eq: "enc v @ concat (map enc vs) @ r = enc w @ concat (map enc ws') @ s"
    using Cons.prems(5) by (simp add: ws)
  have len: "length (enc v @ concat (map enc vs) @ r) < 2 ^ 64"
    using Cons.prems(4) by simp
  have "v = w \<and> concat (map enc vs) @ r = concat (map enc ws') @ s"
    using Cons.prems(1,2) by (intro determinedD [OF _ _ _ len eq]) (auto simp: ws)
  with Cons.IH [of ws'] Cons.prems show ?case by (auto simp: ws)
qed auto

lemma maps_determined:
  "\<forall>p\<in>set es. determined (fst p) \<and> determined (snd p) \<and> within d (fst p) \<and> within d (snd p)
     \<Longrightarrow> \<forall>p\<in>set fs. within e (fst p) \<and> within e (snd p) \<Longrightarrow> length es = length fs
     \<Longrightarrow> length (map_bytes es @ r) < 2 ^ 64
     \<Longrightarrow> map_bytes es @ r = map_bytes fs @ s \<Longrightarrow> es = fs \<and> r = s"
proof (induction es arbitrary: fs)
  case Nil
  then show ?case by (simp add: map_bytes_def)
next
  case (Cons p es)
  obtain k v where p: "p = (k, v)" by fastforce
  obtain l w fs' where fs: "fs = (l, w) # fs'" using Cons.prems(3) by (cases fs) auto
  have eq: "enc k @ enc v @ map_bytes es @ r = enc l @ enc w @ map_bytes fs' @ s"
    using Cons.prems(5) by (simp add: map_bytes_def p fs)
  have len: "length (enc k @ enc v @ map_bytes es @ r) < 2 ^ 64"
    using Cons.prems(4) by (simp add: map_bytes_def p)
  have 1: "k = l \<and> enc v @ map_bytes es @ r = enc w @ map_bytes fs' @ s"
    using Cons.prems(1,2) by (intro determinedD [OF _ _ _ len eq]) (auto simp: p fs)
  have len2: "length (enc v @ map_bytes es @ r) < 2 ^ 64" using len by simp
  have 2: "v = w \<and> map_bytes es @ r = map_bytes fs' @ s"
    using Cons.prems(1,2) by (intro determinedD [OF _ _ _ len2 conjunct2 [OF 1]]) (auto simp: p fs)
  from Cons.IH [of fs'] Cons.prems 1 2 len show ?case by (auto simp: p fs)
qed

text \<open>The parts of an encoding: major type, argument and content.\<close>

fun major_arg :: "cbor \<Rightarrow> nat \<times> nat" where
  "major_arg (CInteger i) = (if 0 \<le> i then (0, nat i) else (1, nat (- 1 - i)))"
| "major_arg (CBytes bs) = (2, length bs)"
| "major_arg (CText s) = (3, length s)"
| "major_arg (CArray vs) = (4, length vs)"
| "major_arg (CMap es) = (5, length es)"
| "major_arg (CBool b) = (7, if b then 21 else 20)"
| "major_arg CNull = (7, 22)"
| "major_arg (CFloat _) = (7, 27)"
| "major_arg (CTag t _) = (6, t)"

fun content :: "cbor \<Rightarrow> bytes" where
  "content (CBytes bs) = bs"
| "content (CText s) = str_bytes s"
| "content (CArray vs) = concat (map enc vs)"
| "content (CMap es) = map_bytes es"
| "content _ = []"

lemma enc_parts:
  "within d v \<Longrightarrow> enc v = enc_head (fst (major_arg v)) (snd (major_arg v)) @ content v
     \<and> fst (major_arg v) < 8 \<and> snd (major_arg v) < 2 ^ 64"
  using within_64 [of d v] by (cases v) (auto simp: map_bytes_def enc_head_def [of 7])

lemma enc_same_head:
  assumes "within d v" and "within e w" and "length (enc v @ r) < 2 ^ 64" and "enc v @ r = enc w @ s"
  shows "major_arg v = major_arg w \<and> content v @ r = content w @ s"
proof -
  note v = enc_parts [OF assms(1)] and w = enc_parts [OF assms(2)]
  have "enc_head (fst (major_arg v)) (snd (major_arg v)) @ (content v @ r)
      = enc_head (fst (major_arg w)) (snd (major_arg w)) @ (content w @ s)"
    using assms(4) v w by (metis append_assoc)
  moreover have "length (enc_head (fst (major_arg v)) (snd (major_arg v)) @ (content v @ r)) < 2 ^ 64"
    using assms(3) v by (metis append_assoc)
  ultimately show ?thesis using enc_head_inject v w by (metis prod_eqI)
qed

lemma determinedI:
  assumes "\<And>d e w r s. within d v \<Longrightarrow> within e w \<Longrightarrow> major_arg v = major_arg w
      \<Longrightarrow> length (content v @ r) < 2 ^ 64 \<Longrightarrow> content v @ r = content w @ s \<Longrightarrow> v = w \<and> r = s"
  shows "determined v"
  unfolding determined_def
proof (intro allI impI)
  fix d e w r s
  assume a: "within d v" "within e w" "length (enc v @ r) < 2 ^ 64" "enc v @ r = enc w @ s"
  have "length (content v @ r) < 2 ^ 64" using enc_parts [OF a(1)] a(3) by auto
  with assms a(1,2) enc_same_head [OF a] show "v = w \<and> r = s" by blast
qed

lemma enc_determined: "determined v"
proof (induction v)
  case (CArray vs)
  show ?case
  proof (rule determinedI)
    fix d e w r s
    assume a: "within d (CArray vs)" "within e w" "major_arg (CArray vs) = major_arg w"
      "length (content (CArray vs) @ r) < 2 ^ 64" "content (CArray vs) @ r = content w @ s"
    then obtain ws where w: "w = CArray ws" by (cases w) (auto split: if_splits)
    have "vs = ws \<and> r = s"
      by (rule arrays_determined [of vs "d + 1" ws "e + 1"]) (use a(1-3) CArray w in auto, use a(4,5) w in simp_all)
    then show "CArray vs = w \<and> r = s" by (simp add: w)
  qed
next
  case (CMap es)
  show ?case
  proof (rule determinedI)
    fix d e w r s
    assume a: "within d (CMap es)" "within e w" "major_arg (CMap es) = major_arg w"
      "length (content (CMap es) @ r) < 2 ^ 64" "content (CMap es) @ r = content w @ s"
    then obtain fs where w: "w = CMap fs" by (cases w) (auto split: if_splits)
    have "\<forall>p\<in>set es. determined (fst p) \<and> determined (snd p) \<and> within (d + 1) (fst p) \<and> within (d + 1) (snd p)"
      using CMap a(1) by fastforce
    then have "es = fs \<and> r = s"
      by (rule maps_determined [of es "d + 1" fs "e + 1"]) (use a(2,3) w in auto, use a(4,5) w in simp_all)
    then show "CMap es = w \<and> r = s" by (simp add: w)
  qed
next
  case (CText t)
  show ?case
    by (rule determinedI, case_tac w)
      (auto split: if_splits dest: arg_cong [where f = bytes_str] simp: append_eq_append_conv)
qed (rule determinedI, case_tac w, auto split: if_splits)+

lemma enc_inject:
  assumes "within d v" and "within e w" and "length (enc v) \<le> MAX_FILE" and "enc v = enc w"
  shows "v = w"
  using determinedD [OF enc_determined assms(1,2), of "[]" "[]"] assms(3,4) by (simp add: cbor_limits)

text \<open>
  C16: the preflight check accepts a byte string exactly if it is at most the file limit long and is
  the deterministic encoding of a value that respects the limits of nesting, items, strings and
  containers, has only unsigned and text keys in strictly increasing bytewise order, and holds no tag
  and no floating point; and then it is the encoding of one value only.
\<close>

theorem preflight_accepts_iff:
  "preflight bs = Inr () \<longleftrightarrow>
     length bs \<le> MAX_FILE \<and> (\<exists>!v. within 0 v \<and> item_count v \<le> MAX_ITEMS \<and> bs = enc v)"
proof
  assume "preflight bs = Inr ()"
  then obtain v where "length bs \<le> MAX_FILE" "within 0 v" "item_count v \<le> MAX_ITEMS" "bs = enc v"
    using preflight_Ok by blast
  moreover from this have "w = v" if "within 0 w" "bs = enc w" for w
    using enc_inject that by metis
  ultimately show "length bs \<le> MAX_FILE \<and> (\<exists>!v. within 0 v \<and> item_count v \<le> MAX_ITEMS \<and> bs = enc v)"
    by blast
qed (use preflight_Ok in blast)

end
