(* ===== verification/Cbor_Codec.thy ===== *)
theory Cbor_Codec
  imports Cbor_Preflight "HOL-Library.Monad_Syntax" "HOL-Library.Multiset"
begin

text \<open>
  What the database format relies on in the \<open>ciborium\<close> crate, as the locale \<open>cbor_codec\<close>: the
  reader returns the value of a deterministic encoding and the writer produces it. The crate is not
  part of the sources, so its reader and writer are parameters of the definitions that use them; a
  reader of this theory shows that the laws can be met. The functions \<open>value\<close> and \<open>encode\<close> of
  \<^verbatim>\<open>crates/ddccontrol-db-format\<close> (\<open>lib.rs\<close> and \<open>writing.rs\<close>) are here, with the round
  trip between them.
\<close>

section \<open>A reader\<close>

definition read_head :: "bytes \<Rightarrow> (nat \<times> nat \<times> bytes) option" where
  "read_head bs =
     (case bs of
        [] \<Rightarrow> None
      | h # r \<Rightarrow>
          (let major = unat (drop_bit 5 h);
               info = unat (h AND 31);
               k = (if info = 24 then 1 else if info = 25 then 2 else if info = 26 then 4 else 8)
           in if info < 24 then Some (major, info, r)
              else if info < 28 \<and> k \<le> length r then Some (major, be_nat (take k r), drop k r)
              else None))"

fun pair_up :: "'a list \<Rightarrow> ('a \<times> 'a) list" where
  "pair_up (k # v # r) = (k, v) # pair_up r"
| "pair_up _ = []"

fun read_item :: "nat \<Rightarrow> bytes \<Rightarrow> (cbor \<times> bytes) option"
  and read_items :: "nat \<Rightarrow> nat \<Rightarrow> bytes \<Rightarrow> (cbor list \<times> bytes) option" where
  "read_item 0 bs = None"
| "read_item (Suc fuel) bs =
     do {
       (major, n, r) \<leftarrow> read_head bs;
       if major = 0 then Some (CInteger (int n), r)
       else if major = 1 then Some (CInteger (- 1 - int n), r)
       else if major = 2 \<and> n \<le> length r then Some (CBytes (take n r), drop n r)
       else if major = 3 \<and> n \<le> length r then Some (CText (bytes_str (take n r)), drop n r)
       else if major = 4 then do { (vs, r') \<leftarrow> read_items fuel n r; Some (CArray vs, r') }
       else if major = 5 then do { (vs, r') \<leftarrow> read_items fuel (2 * n) r; Some (CMap (pair_up vs), r') }
       else if major = 7 \<and> n = 20 then Some (CBool False, r)
       else if major = 7 \<and> n = 21 then Some (CBool True, r)
       else if major = 7 \<and> n = 22 then Some (CNull, r)
       else None
     }"
| "read_items fuel 0 bs = Some ([], bs)"
| "read_items fuel (Suc n) bs =
     do {
       (v, r) \<leftarrow> read_item fuel bs;
       (vs, r') \<leftarrow> read_items fuel n r;
       Some (v # vs, r')
     }"


definition read_value :: "bytes \<Rightarrow> cbor checked" where
  "read_value bs =
     (case read_item (MAX_DEPTH + 1) bs of Some (v, []) \<Rightarrow> Ok v | _ \<Rightarrow> Err ''CBOR decode'')"

lemma read_head_enc:
  assumes "M < 8" and "n < 2 ^ 64"
  shows "read_head (enc_head M n @ r) = Some (M, n, r)"
proof (cases "n < 24")
  case True
  then show ?thesis
    using unat_head [OF assms(1), of n] by (simp add: enc_head_def read_head_def Let_def del: of_nat_add of_nat_mult)
next
  case False
  define i k where "i = (if n < 2 ^ 8 then 24 else if n < 2 ^ 16 then 25 else if n < 2 ^ 32 then 26 else 27 :: nat)"
    and "k = (if n < 2 ^ 8 then 1 else if n < 2 ^ 16 then 2 else if n < 2 ^ 32 then 4 else 8 :: nat)"
  have e: "enc_head M n = of_nat (M * 32 + i) # be_bytes k n" using False by (simp add: enc_head_def i_def k_def)
  have "n < 256 ^ k" using assms(2) by (simp add: k_def)
  then have b: "be_nat (be_bytes k n) = n" by simp
  have ik: "(if i = 24 then 1 else if i = 25 then 2 else if i = 26 then 4 else 8) = k" "\<not> i < 24" "i < 28"
    by (simp_all add: i_def k_def)
  show ?thesis
    using unat_head [OF assms(1), of i] ik b
    by (simp add: e read_head_def Let_def del: of_nat_add of_nat_mult)
qed

lemma read_items_array:
  "\<forall>v\<in>set vs. \<forall>r. read_item fuel (enc v @ r) = Some (v, r)
     \<Longrightarrow> read_items fuel (length vs) (concat (map enc vs) @ r) = Some (vs, r)"
  by (induction vs) auto

lemma read_items_map:
  "\<forall>e\<in>set es. \<forall>r. read_item fuel (enc (fst e) @ r) = Some (fst e, r) \<and> read_item fuel (enc (snd e) @ r) = Some (snd e, r)
     \<Longrightarrow> \<exists>vs. read_items fuel (2 * length es) (map_bytes es @ r) = Some (vs, r) \<and> pair_up vs = es"
proof (induction es)
  case (Cons e es)
  then obtain vs where "read_items fuel (2 * length es) (map_bytes es @ r) = Some (vs, r)" "pair_up vs = es"
    by auto
  with Cons.prems show ?case
    by (intro exI [of _ "fst e # snd e # vs"]) (simp add: map_bytes_def case_prod_unfold)
qed (simp add: map_bytes_def)

lemma read_item_enc:
  "within d v \<Longrightarrow> MAX_DEPTH < fuel + d \<Longrightarrow> read_item fuel (enc v @ r) = Some (v, r)"
proof (induction v arbitrary: d fuel r)
  case (CArray vs)
  then obtain f where f: "fuel = Suc f" by (cases fuel) auto
  have "\<forall>v\<in>set vs. \<forall>r. read_item f (enc v @ r) = Some (v, r)" using CArray f by auto
  moreover have "length vs < 2 ^ 64" using within_64 [OF CArray.prems(1)] by simp
  ultimately show ?case using f by (simp add: read_head_enc read_items_array)
next
  case (CMap es)
  then obtain f where f: "fuel = Suc f" by (cases fuel) auto
  have "\<forall>e\<in>set es. \<forall>r. read_item f (enc (fst e) @ r) = Some (fst e, r) \<and> read_item f (enc (snd e) @ r) = Some (snd e, r)"
    using CMap f by fastforce
  from read_items_map [OF this, of r] obtain vs where
    "read_items f (2 * length es) (map_bytes es @ r) = Some (vs, r)" "pair_up vs = es" by blast
  moreover have "length es < 2 ^ 64" using within_64 [OF CMap.prems(1)] by simp
  ultimately show ?case using f by (simp add: read_head_enc map_bytes_def)
next
  case (CInteger i)
  then obtain f where f: "fuel = Suc f" by (cases fuel) auto
  have "nat i < 2 ^ 64" "nat (- 1 - i) < 2 ^ 64" using within_64 [OF CInteger.prems(1)] by simp_all
  then show ?case using f by (simp add: read_head_enc)
next
  case (CBytes bs)
  then obtain f where f: "fuel = Suc f" by (cases fuel) auto
  have "length bs < 2 ^ 64" using within_64 [OF CBytes.prems(1)] by simp
  then show ?case using f by (simp add: read_head_enc)
next
  case (CText s)
  then obtain f where f: "fuel = Suc f" by (cases fuel) auto
  have "length s < 2 ^ 64" using within_64 [OF CText.prems(1)] by simp
  then show ?case using f by (simp add: read_head_enc)
next
  case (CBool b)
  then obtain f where f: "fuel = Suc f" by (cases fuel) auto
  show ?case using f read_head_enc [of 7 "if b then 21 else 20" r] enc_parts [OF CBool.prems(1)]
    by (cases b) simp_all
next
  case CNull
  then obtain f where f: "fuel = Suc f" by (cases fuel) auto
  show ?case using f read_head_enc [of 7 22 r] enc_parts [OF CNull.prems(1)] by simp
qed simp_all

lemma read_value_enc: "within 0 v \<Longrightarrow> read_value (enc v) = Inr v"
  using read_item_enc [of 0 v "MAX_DEPTH + 1" "[]"] by (simp add: read_value_def)

section \<open>The contract of the codec\<close>

locale cbor_codec =
  fixes from_reader :: "bytes \<Rightarrow> cbor checked"
    and into_writer :: "cbor \<Rightarrow> bytes"
  assumes reader_law: "within 0 v \<Longrightarrow> from_reader (enc v) = Inr v"
    and writer_law: "within d v \<Longrightarrow> into_writer v = enc v"

interpretation model_codec: cbor_codec read_value enc
  by unfold_locales (simp_all add: read_value_enc)

section \<open>Decoding and encoding\<close>

definition cbor_value :: "(bytes \<Rightarrow> cbor checked) \<Rightarrow> bytes \<Rightarrow> cbor checked" where
  "cbor_value from_reader bs = and_then (preflight bs) (\<lambda>_. from_reader bs)"

definition cbor_uint :: "cbor \<Rightarrow> nat checked" where
  "cbor_uint v =
     (case v of
        CInteger i \<Rightarrow> if 0 \<le> i \<and> i < 2 ^ 64 then Ok (nat i) else Err ''CBOR expected unsigned integer''
      | _ \<Rightarrow> Err ''CBOR expected unsigned integer'')"

definition is_text :: "cbor \<Rightarrow> bool" where
  "is_text v \<longleftrightarrow> (case v of CText _ \<Rightarrow> True | _ \<Rightarrow> False)"

fun adjacent_equal :: "'a list \<Rightarrow> bool" where
  "adjacent_equal (x # y # r) \<longleftrightarrow> x = y \<or> adjacent_equal (y # r)"
| "adjacent_equal _ \<longleftrightarrow> False"

function (sequential) canonical :: "(cbor \<Rightarrow> bytes) \<Rightarrow> cbor \<Rightarrow> nat \<Rightarrow> nat \<Rightarrow> (cbor \<times> nat) checked"
  and canonical_entries :: "(cbor \<Rightarrow> bytes) \<Rightarrow> (cbor \<times> cbor) list \<Rightarrow> nat \<Rightarrow> nat
        \<Rightarrow> ((bytes \<times> cbor \<times> cbor) list \<times> nat) checked"
  and canonical_list :: "(cbor \<Rightarrow> bytes) \<Rightarrow> cbor list \<Rightarrow> nat \<Rightarrow> nat \<Rightarrow> (cbor list \<times> nat) checked" where
  "canonical into_writer v depth items =
     (if depth > MAX_DEPTH \<or> items \<ge> MAX_ITEMS then Err ''CBOR nesting/item limit exceeded''
      else case v of
        CMap entries \<Rightarrow>
          if length entries > MAX_CONTAINER then Err ''CBOR container limit exceeded''
          else and_then (canonical_entries into_writer entries (depth + 1) (items + 1)) (\<lambda>(res, items).
                 let res = sort_key fst res
                 in if adjacent_equal (map fst res) then Err ''CBOR duplicate map key''
                    else Ok (CMap (map snd res), items))
      | CArray vs \<Rightarrow>
          if length vs > MAX_CONTAINER then Err ''CBOR container limit exceeded''
          else and_then (canonical_list into_writer vs (depth + 1) (items + 1)) (\<lambda>(vs, items).
                 Ok (CArray vs, items))
      | CBytes bs \<Rightarrow>
          if length bs \<le> MAX_BYTES then Ok (v, items + 1)
          else Err ''CBOR forbidden value or string limit exceeded''
      | CText t \<Rightarrow>
          if length t \<le> MAX_TEXT then Ok (v, items + 1)
          else Err ''CBOR forbidden value or string limit exceeded''
      | CInteger _ \<Rightarrow> Ok (v, items + 1)
      | CBool _ \<Rightarrow> Ok (v, items + 1)
      | CNull \<Rightarrow> Ok (v, items + 1)
      | _ \<Rightarrow> Err ''CBOR forbidden value or string limit exceeded'')"
| "canonical_entries into_writer [] depth items = Ok ([], items)"
| "canonical_entries into_writer ((key, v) # es) depth items =
     (if \<not> is_text key \<and> \<not> is_ok (cbor_uint key)
      then Err ''CBOR map keys must be unsigned integers or text''
      else and_then (canonical into_writer key depth items) (\<lambda>(key, items).
           and_then (canonical into_writer v depth items) (\<lambda>(v, items).
           and_then (canonical_entries into_writer es depth items) (\<lambda>(res, items).
             Ok ((into_writer key, key, v) # res, items)))))"
| "canonical_list into_writer [] depth items = Ok ([], items)"
| "canonical_list into_writer (v # vs) depth items =
     and_then (canonical into_writer v depth items) (\<lambda>(v, items).
     and_then (canonical_list into_writer vs depth items) (\<lambda>(vs, items).
       Ok (v # vs, items)))"
  by pat_completeness auto
termination
  by (relation "measure (\<lambda>x. case x of
        Inl (_, v, _) \<Rightarrow> size v
      | Inr (Inl (_, es, _)) \<Rightarrow> size_list (size_prod size size) es
      | Inr (Inr (_, vs, _)) \<Rightarrow> size_list size vs)") auto

declare canonical.simps [simp del]

text \<open>The bounded writer fails as soon as the total would pass the file limit.\<close>

definition encode :: "(cbor \<Rightarrow> bytes) \<Rightarrow> cbor \<Rightarrow> bytes checked" where
  "encode into_writer v =
     and_then (canonical into_writer v 0 0) (\<lambda>(v, _).
       let out = into_writer v
       in if length out > MAX_FILE then Err ''CBOR file limit exceeded'' else Ok out)"

section \<open>The round trip\<close>

text \<open>
  What the Rust types guarantee of a value: an integer has at most 64 bits and a sign, a text is
  valid UTF-8.
\<close>

fun typed :: "cbor \<Rightarrow> bool" where
  "typed (CInteger i) \<longleftrightarrow> - (2 ^ 64) \<le> i \<and> i < 2 ^ 64"
| "typed (CText s) \<longleftrightarrow> from_utf8 s"
| "typed (CArray vs) \<longleftrightarrow> (\<forall>v\<in>set vs. typed v)"
| "typed (CMap es) \<longleftrightarrow> (\<forall>e\<in>set es. typed (fst e) \<and> typed (snd e))"
| "typed (CTag t v) \<longleftrightarrow> typed v"
| "typed _ \<longleftrightarrow> True"

lemma within_typed: "within d v \<Longrightarrow> typed v"
  by (induction v arbitrary: d) fastforce+

lemma key_ok_uint: "typed k \<Longrightarrow> is_text k \<or> is_ok (cbor_uint k) \<longleftrightarrow> key_ok k"
  by (cases k) (auto simp: is_text_def cbor_uint_def key_ok_def)

lemma adjacent_strict:
  "sorted (xs :: 'a::linorder list) \<Longrightarrow> \<not> adjacent_equal xs \<longleftrightarrow> sorted_wrt (<) xs"
proof (induction xs rule: adjacent_equal.induct)
  case (1 x y r)
  then show ?case by (auto simp: less_le)
qed auto

definition canon_ok :: "(cbor \<Rightarrow> bytes) \<Rightarrow> cbor \<Rightarrow> bool" where
  "canon_ok w v \<longleftrightarrow> (\<forall>d i v' i'. canonical w v d i = Inr (v', i') \<longrightarrow> typed v
     \<longrightarrow> within d v' \<and> i' = i + item_count v' \<and> i' \<le> MAX_ITEMS \<and> (key_ok v \<longrightarrow> v' = v))"

lemma canon_okD:
  "canon_ok w v \<Longrightarrow> canonical w v d i = Inr (v', i') \<Longrightarrow> typed v
     \<Longrightarrow> within d v' \<and> i' = i + item_count v' \<and> i' \<le> MAX_ITEMS \<and> (key_ok v \<longrightarrow> v' = v)"
  by (simp add: canon_ok_def)

lemma canonical_list_sound:
  "\<forall>v\<in>set vs. canon_ok w v \<and> typed v \<Longrightarrow> canonical_list w vs d i = Inr (vs', i') \<Longrightarrow> i \<le> MAX_ITEMS
     \<Longrightarrow> length vs' = length vs \<and> (\<forall>v\<in>set vs'. within d v) \<and> i' = i + array_items vs' \<and> i' \<le> MAX_ITEMS"
proof (induction vs arbitrary: i vs')
  case (Cons v vs)
  from Cons.prems(2) obtain u j us where 1: "canonical w v d i = Inr (u, j)"
    and 2: "canonical_list w vs d j = Inr (us, i')" and "vs' = u # us" by auto
  moreover have u: "within d u" "j = i + item_count u" "j \<le> MAX_ITEMS"
    using canon_okD [OF _ 1] Cons.prems(1) by auto
  ultimately show ?case using Cons.IH [OF _ 2 u(3)] Cons.prems(1) by (auto simp: array_items_def)
qed (auto simp: array_items_def)

lemma canonical_entries_sound:
  assumes w: "\<And>d v. within d v \<Longrightarrow> w v = enc v"
  shows "\<forall>e\<in>set es. canon_ok w (fst e) \<and> canon_ok w (snd e) \<and> typed (fst e) \<and> typed (snd e)
     \<Longrightarrow> canonical_entries w es d i = Inr (res, i') \<Longrightarrow> i \<le> MAX_ITEMS
     \<Longrightarrow> length res = length es \<and> i' = i + map_items (map snd res) \<and> i' \<le> MAX_ITEMS
       \<and> (\<forall>x\<in>set res. fst x = enc (fst (snd x)) \<and> key_ok (fst (snd x)) \<and> within d (fst (snd x)) \<and> within d (snd (snd x)))"
proof (induction es arbitrary: i res)
  case (Cons e es)
  obtain k v where e: "e = (k, v)" by fastforce
  from Cons.prems(2) obtain k' j v' l r where ok: "is_text k \<or> is_ok (cbor_uint k)"
    and 1: "canonical w k d i = Inr (k', j)" and 2: "canonical w v d j = Inr (v', l)"
    and 3: "canonical_entries w es d l = Inr (r, i')" and res: "res = (w k', k', v') # r"
    by (auto simp: e split: if_splits)
  have key: "key_ok k" using ok key_ok_uint Cons.prems(1) by (simp add: e)
  have k: "within d k'" "j = i + item_count k'" "k' = k" "j \<le> MAX_ITEMS"
    using canon_okD [OF _ 1] Cons.prems(1) key by (auto simp: e)
  have v: "within d v'" "l = j + item_count v'" "l \<le> MAX_ITEMS"
    using canon_okD [OF _ 2] Cons.prems(1) by (auto simp: e)
  show ?case
    using Cons.IH [OF _ 3 v(3)] Cons.prems(1) k v key w [OF k(1)]
    by (auto simp: e res map_items_def case_prod_unfold)
qed (auto simp: map_items_def)

lemma map_items_sort: "map_items (map snd (sort_key f res)) = map_items (map snd res)"
proof -
  have "mset (map (\<lambda>(k, v). item_count k + item_count v) (map snd (sort_key f res)))
      = mset (map (\<lambda>(k, v). item_count k + item_count v) (map snd res))" by simp
  then show ?thesis unfolding map_items_def by (metis sum_mset_sum_list)
qed

lemma canonical_sound:
  assumes w: "\<And>d v. within d v \<Longrightarrow> w v = enc v"
  shows "canon_ok w v"
proof (induction v)
  case (CArray vs)
  show ?case
    unfolding canon_ok_def
  proof (intro allI impI)
    fix d i v' i'
    assume c: "canonical w (CArray vs) d i = Inr (v', i')" and t: "typed (CArray vs)"
    then obtain us where d: "d \<le> MAX_DEPTH" "i < MAX_ITEMS" "length vs \<le> MAX_CONTAINER"
      and us: "canonical_list w vs (d + 1) (i + 1) = Inr (us, i')" and v': "v' = CArray us"
      by (auto simp: canonical.simps [of w "CArray vs"] split: if_splits)
    have "length us = length vs \<and> (\<forall>v\<in>set us. within (d + 1) v) \<and> i' = i + 1 + array_items us \<and> i' \<le> MAX_ITEMS"
      using canonical_list_sound [OF _ us] CArray t d(2) by auto
    with d v' show "within d v' \<and> i' = i + item_count v' \<and> i' \<le> MAX_ITEMS \<and> (key_ok (CArray vs) \<longrightarrow> v' = CArray vs)"
      by (simp add: array_items_def key_ok_def)
  qed
next
  case (CMap es)
  show ?case
    unfolding canon_ok_def
  proof (intro allI impI)
    fix d i v' i'
    assume c: "canonical w (CMap es) d i = Inr (v', i')" and t: "typed (CMap es)"
    then obtain res where d: "d \<le> MAX_DEPTH" "i < MAX_ITEMS" "length es \<le> MAX_CONTAINER"
      and res: "canonical_entries w es (d + 1) (i + 1) = Inr (res, i')"
      and strict: "\<not> adjacent_equal (map fst (sort_key fst res))"
      and v': "v' = CMap (map snd (sort_key fst res))"
      by (auto simp: canonical.simps [of w "CMap es"] Let_def split: if_splits)
    have "\<forall>e\<in>set es. canon_ok w (fst e) \<and> canon_ok w (snd e) \<and> typed (fst e) \<and> typed (snd e)"
      using CMap t by fastforce
    then have "length res = length es \<and> i' = i + 1 + map_items (map snd res) \<and> i' \<le> MAX_ITEMS
        \<and> (\<forall>x\<in>set res. fst x = enc (fst (snd x)) \<and> key_ok (fst (snd x))
             \<and> within (d + 1) (fst (snd x)) \<and> within (d + 1) (snd (snd x)))"
      using d(2) by (intro canonical_entries_sound [OF _ _ res]) (simp_all add: w)
    then have r: "length res = length es" "i' = i + 1 + map_items (map snd res)" "i' \<le> MAX_ITEMS"
      "\<forall>x\<in>set res. fst x = enc (fst (snd x)) \<and> key_ok (fst (snd x)) \<and> within (d + 1) (fst (snd x)) \<and> within (d + 1) (snd (snd x))"
      by auto
    have "map fst (sort_key fst res) = map (\<lambda>e. enc (fst e)) (map snd (sort_key fst res))"
      using r(4) by simp
    moreover have "sorted_wrt (<) (map fst (sort_key fst res))"
      using adjacent_strict [of "map fst (sort_key fst res)"] strict by simp
    ultimately have "sorted_wrt (<) (map (\<lambda>e. enc (fst e)) (map snd (sort_key fst res)))" by (simp only:)
    with r d show "within d v' \<and> i' = i + item_count v' \<and> i' \<le> MAX_ITEMS \<and> (key_ok (CMap es) \<longrightarrow> v' = CMap es)"
      using map_items_sort [of fst res] by (auto simp: v' key_ok_def map_items_def)
  qed
qed (auto simp: canon_ok_def canonical.simps key_ok_def split: if_splits)

text \<open>A value that respects the limits is canonical already.\<close>

definition canon_fix :: "(cbor \<Rightarrow> bytes) \<Rightarrow> nat \<Rightarrow> cbor \<Rightarrow> bool" where
  "canon_fix w d v \<longleftrightarrow> (\<forall>i. i + item_count v \<le> MAX_ITEMS \<longrightarrow> canonical w v d i = Inr (v, i + item_count v))"

lemma canonical_list_fix:
  "\<forall>v\<in>set vs. canon_fix w d v \<Longrightarrow> i + array_items vs \<le> MAX_ITEMS
     \<Longrightarrow> canonical_list w vs d i = Inr (vs, i + array_items vs)"
  by (induction vs arbitrary: i) (auto simp: array_items_def canon_fix_def)

lemma canonical_entries_fix:
  "\<forall>e\<in>set es. canon_fix w d (fst e) \<and> canon_fix w d (snd e) \<and> key_ok (fst e) \<and> typed (fst e) \<and> w (fst e) = enc (fst e)
     \<Longrightarrow> i + map_items es \<le> MAX_ITEMS
     \<Longrightarrow> canonical_entries w es d i = Inr (map (\<lambda>e. (enc (fst e), e)) es, i + map_items es)"
proof (induction es arbitrary: i)
  case (Cons e es)
  obtain k v where e: "e = (k, v)" by fastforce
  have ok: "is_text k \<or> is_ok (cbor_uint k)" using key_ok_uint Cons.prems(1) by (simp add: e)
  have "canonical w k d i = Inr (k, i + item_count k)"
    "canonical w v d (i + item_count k) = Inr (v, i + item_count k + item_count v)"
    "canonical_entries w es d (i + item_count k + item_count v)
      = Inr (map (\<lambda>e. (enc (fst e), e)) es, i + item_count k + item_count v + map_items es)"
    using Cons.prems Cons.IH by (auto simp: canon_fix_def e map_items_def)
  with ok Cons.prems(1) show ?case by (auto simp: e map_items_def)
qed (simp add: map_items_def)

lemma canonical_fix:
  assumes w: "\<And>d v. within d v \<Longrightarrow> w v = enc v"
  shows "within d v \<Longrightarrow> canon_fix w d v"
proof (induction v arbitrary: d)
  case (CArray vs)
  then have "\<forall>v\<in>set vs. canon_fix w (d + 1) v" by auto
  with CArray.prems canonical_list_fix [of vs w "d + 1"] show ?case
    by (auto simp: canon_fix_def canonical.simps [of w "CArray vs"] array_items_def)
next
  case (CMap es)
  let ?res = "map (\<lambda>e. (enc (fst e), e)) es"
  have es: "\<forall>e\<in>set es. canon_fix w (d + 1) (fst e) \<and> canon_fix w (d + 1) (snd e) \<and> key_ok (fst e)
      \<and> typed (fst e) \<and> w (fst e) = enc (fst e)"
    using CMap w within_typed by fastforce
  have strict: "sorted_wrt (<) (map fst ?res)" using CMap.prems by (simp add: comp_def)
  then have "sorted (map fst ?res)" using strict_sorted_iff by blast
  then have "sort_key fst ?res = ?res" "\<not> adjacent_equal (map fst ?res)"
    using strict by (simp_all only: sorted_sort_id sort_key_id_if_sorted adjacent_strict)
  with CMap.prems canonical_entries_fix [OF es] show ?case
    by (auto simp: canon_fix_def canonical.simps [of w "CMap es"] map_items_def Let_def comp_def)
qed (auto simp: canon_fix_def canonical.simps)

context cbor_codec
begin

lemma value_Ok:
  "cbor_value from_reader bs = Inr v \<longleftrightarrow>
     within 0 v \<and> item_count v \<le> MAX_ITEMS \<and> bs = enc v \<and> length bs \<le> MAX_FILE"
proof
  assume "cbor_value from_reader bs = Inr v"
  then obtain u where "within 0 u" "item_count u \<le> MAX_ITEMS" "bs = enc u" "length bs \<le> MAX_FILE"
    "from_reader bs = Inr v" by (auto simp: cbor_value_def preflight_Ok)
  with reader_law show "within 0 v \<and> item_count v \<le> MAX_ITEMS \<and> bs = enc v \<and> length bs \<le> MAX_FILE" by auto
next
  assume a: "within 0 v \<and> item_count v \<le> MAX_ITEMS \<and> bs = enc v \<and> length bs \<le> MAX_FILE"
  then have "preflight bs = Inr ()" using preflight_Ok by blast
  with a reader_law show "cbor_value from_reader bs = Inr v" by (simp add: cbor_value_def)
qed

lemma writer_canonical: "canon_ok into_writer v"
  by (rule canonical_sound) (rule writer_law)

lemma writer_fix: "within d v \<Longrightarrow> canon_fix into_writer d v"
  by (rule canonical_fix [rotated]) (assumption, rule writer_law)

lemma encode_within:
  "within 0 v \<Longrightarrow> item_count v \<le> MAX_ITEMS \<Longrightarrow> length (enc v) \<le> MAX_FILE \<Longrightarrow> encode into_writer v = Inr (enc v)"
  using writer_fix [of 0 v] writer_law [of 0 v] by (simp add: encode_def canon_fix_def Let_def)

lemma encode_Ok:
  assumes "typed v" and "encode into_writer v = Inr bs"
  obtains v' n where "canonical into_writer v 0 0 = Inr (v', n)" and "cbor_value from_reader bs = Inr v'"
proof -
  from assms(2) obtain v' n where c: "canonical into_writer v 0 0 = Inr (v', n)"
    and b: "bs = into_writer v'" "length bs \<le> MAX_FILE"
    by (auto simp: encode_def Let_def split: if_splits)
  have "within 0 v' \<and> n = item_count v' \<and> n \<le> MAX_ITEMS"
    using canon_okD [OF writer_canonical c assms(1)] by simp
  then have "cbor_value from_reader bs = Inr v'" using b writer_law by (auto simp: value_Ok)
  with c that show ?thesis by blast
qed

lemma decode_encode: "cbor_value from_reader bs = Inr v \<Longrightarrow> encode into_writer v = Inr bs"
  using encode_within by (auto simp: value_Ok)

end

text \<open>
  C17: encoding and decoding are inverse to each other, for any reader and writer that obey the
  codec's laws: whatever \<open>encode\<close> returns passes the preflight check and decodes to the canonical
  form of the value; and whatever decodes is encoded to the very same bytes again.
\<close>

theorem encode_value_roundtrip:
  assumes "cbor_codec from_reader into_writer" and "typed v"
  shows "(case encode into_writer v of
            Inl _ \<Rightarrow> True
          | Inr bs \<Rightarrow> preflight bs = Inr ()
              \<and> (\<exists>v' n. canonical into_writer v 0 0 = Inr (v', n) \<and> cbor_value from_reader bs = Inr v'))
    \<and> (cbor_value from_reader input = Inr v \<longrightarrow> encode into_writer v = Inr input)"
proof (intro conjI impI)
  show "case encode into_writer v of
            Inl _ \<Rightarrow> True
          | Inr bs \<Rightarrow> preflight bs = Inr ()
              \<and> (\<exists>v' n. canonical into_writer v 0 0 = Inr (v', n) \<and> cbor_value from_reader bs = Inr v')"
  proof (cases "encode into_writer v")
    case (Inr bs)
    then obtain v' n where "canonical into_writer v 0 0 = Inr (v', n)" "cbor_value from_reader bs = Inr v'"
      using cbor_codec.encode_Ok [OF assms] by metis
    then show ?thesis using Inr by (auto simp: cbor_value_def)
  qed simp
qed (rule cbor_codec.decode_encode [OF assms(1)])

theorem encode_value_roundtrip_witness:
  "case encode enc (CMap [(CText ''b'', CInteger 5), (CInteger 7, CNull)]) of
     Inl _ \<Rightarrow> False | Inr bs \<Rightarrow> bs = [0xa2, 0x07, 0xf6, 0x61, 0x62, 0x05] \<and> preflight bs = Inr ()"
proof -
  let ?v = "CMap [(CText ''b'', CInteger 5), (CInteger 7, CNull)]"
  have "encode enc ?v = Inr [0xa2, 0x07, 0xf6, 0x61, 0x62, 0x05]"
    by (simp add: encode_def canonical.simps cbor_limits enc_head_def is_text_def cbor_uint_def str_bytes_def
        byte_of_def Let_def)
  moreover have "from_utf8 ''b''" by (rule from_utf8_ascii) (simp add: byte_val_def)
  then have "typed ?v" by simp
  ultimately show ?thesis using encode_value_roundtrip [OF model_codec.cbor_codec_axioms, of ?v "[]"] by simp
qed

end
