(* ===== verification/Btree_Map.thy ===== *)
theory Btree_Map
  imports Prelude
begin

text \<open>
  \<open>std::collections::BTreeMap\<close> as the strictly sorted list of its entries, which is what its
  iterators show. The contract the crates rely on (what a lookup returns after an insertion or a
  removal, iteration in key order, at most one entry per key) is the locale \<open>ordered_map\<close>; the
  sorted lists are an interpretation of it, and the two loops of the program that fill a map from a
  sequence are studied once inside the locale.
\<close>

section \<open>The interface\<close>

locale ordered_map =
  fixes empty :: "'m"
    and insert :: "'k::linorder \<Rightarrow> 'v \<Rightarrow> 'm \<Rightarrow> 'm"
    and remove :: "'k \<Rightarrow> 'm \<Rightarrow> 'm"
    and get :: "'m \<Rightarrow> 'k \<Rightarrow> 'v option"
    and entries :: "'m \<Rightarrow> ('k \<times> 'v) list"
    and invar :: "'m \<Rightarrow> bool"
  assumes invar_empty: "invar empty"
    and invar_insert: "invar m \<Longrightarrow> invar (insert k v m)"
    and invar_remove: "invar m \<Longrightarrow> invar (remove k m)"
    and get_empty: "get empty = Map.empty"
    and get_insert: "invar m \<Longrightarrow> get (insert k v m) = (get m)(k \<mapsto> v)"
    and get_remove: "invar m \<Longrightarrow> get (remove k m) = (get m)(k := None)"
    and entries_sorted: "invar m \<Longrightarrow> sorted_wrt (<) (map fst (entries m))"
    and entries_get: "invar m \<Longrightarrow> get m = map_of (entries m)"
begin

text \<open>Filling a map from a sequence of pairs: the last pair of a key wins.\<close>

lemma invar_fill: "invar m \<Longrightarrow> invar (fold (\<lambda>(k, v). insert k v) ps m)"
  by (induction ps arbitrary: m) (auto intro: invar_insert)

lemma get_fill:
  "invar m \<Longrightarrow> get (fold (\<lambda>(k, v). insert k v) ps m) = get m ++ map_of (rev ps)"
  by (induction ps arbitrary: m) (auto simp: invar_insert get_insert)

lemma distinct_keys: "invar m \<Longrightarrow> distinct (map fst (entries m))"
  using entries_sorted strict_sorted_iff by blast

lemma get_entry: "invar m \<Longrightarrow> get m k = Some v \<longleftrightarrow> (k, v) \<in> set (entries m)"
  using distinct_keys entries_get by (metis map_of_eq_Some_iff)

lemma dom_get: "invar m \<Longrightarrow> dom (get m) = fst ` set (entries m)"
  by (simp add: entries_get dom_map_of_conv_image_fst)

text \<open>Two maps with the same lookups show the same entries in the same order.\<close>

lemma entries_eqI:
  assumes "invar m" and "invar n" and "get m = get n"
  shows "entries m = entries n"
proof -
  have "set (entries m) = set (entries n)"
    using assms get_entry by (metis subrelI subset_antisym)
  moreover have "sorted_wrt (<) (map fst (entries m))" "sorted_wrt (<) (map fst (entries n))"
    using assms entries_sorted by blast+
  moreover have "inj_on fst (set (entries m) \<union> set (entries n))"
    using calculation distinct_keys [OF assms(1)] by (simp add: distinct_map)
  ultimately have "map fst (entries m) = map fst (entries n)"
    by (metis list.set_map strict_sorted_equal)
  with \<open>inj_on fst (set (entries m) \<union> set (entries n))\<close> show ?thesis
    using map_inj_on by blast
qed

end

section \<open>Sorted lists of entries\<close>

type_synonym ('k, 'v) btree = "('k \<times> 'v) list"

fun bt_insert :: "'k::linorder \<Rightarrow> 'v \<Rightarrow> ('k, 'v) btree \<Rightarrow> ('k, 'v) btree" where
  "bt_insert k v [] = [(k, v)]"
| "bt_insert k v ((l, w) # m) =
     (if k < l then (k, v) # (l, w) # m
      else if k = l then (k, v) # m
      else (l, w) # bt_insert k v m)"

definition bt_remove :: "'k::linorder \<Rightarrow> ('k, 'v) btree \<Rightarrow> ('k, 'v) btree" where
  "bt_remove k m = filter (\<lambda>(l, _). l \<noteq> k) m"

definition bt_get :: "('k, 'v) btree \<Rightarrow> 'k \<Rightarrow> 'v option" where
  "bt_get m = map_of m"

definition bt_keys :: "('k, 'v) btree \<Rightarrow> 'k list" where
  "bt_keys m = map fst m"

definition bt_invar :: "('k::linorder, 'v) btree \<Rightarrow> bool" where
  "bt_invar m \<longleftrightarrow> sorted_wrt (<) (map fst m)"

lemma set_bt_insert: "fst ` set (bt_insert k v m) = insert k (fst ` set m)"
  by (induction k v m rule: bt_insert.induct) auto

lemma bt_invar_insert: "bt_invar m \<Longrightarrow> bt_invar (bt_insert k v m)"
proof (induction k v m rule: bt_insert.induct)
  case (2 k v l w m)
  then show ?case
    using set_bt_insert [of k v m] by (auto simp: bt_invar_def image_iff)
qed (simp add: bt_invar_def)

lemma bt_get_insert: "bt_get (bt_insert k v m) = (bt_get m)(k \<mapsto> v)"
  by (induction k v m rule: bt_insert.induct) (auto simp: bt_get_def)

lemma bt_get_remove: "bt_get (bt_remove k m) = (bt_get m)(k := None)"
  by (induction m) (auto simp: bt_get_def bt_remove_def)

lemma bt_invar_remove: "bt_invar m \<Longrightarrow> bt_invar (bt_remove k m)"
  unfolding bt_invar_def bt_remove_def
  by (induction m) auto

interpretation bt: ordered_map "[]" bt_insert bt_remove bt_get "\<lambda>m. m" bt_invar
proof unfold_locales
  show "bt_get [] = Map.empty" by (simp add: bt_get_def)
qed (simp_all add: bt_invar_insert bt_invar_remove bt_get_insert bt_get_remove,
     simp_all add: bt_invar_def bt_get_def)

lemmas bt_simps = bt.get_empty bt_get_insert bt_get_remove

lemma bt_invar_Nil [simp]: "bt_invar []"
  by (rule bt.invar_empty)

lemma bt_get_in_keys: "bt_get m k = Some v \<Longrightarrow> k \<in> set (bt_keys m)"
  by (force simp: bt_get_def bt_keys_def dest: map_of_SomeD)

lemma bt_get_dom: "dom (bt_get m) = set (bt_keys m)"
  by (simp add: bt_get_def bt_keys_def dom_map_of_conv_image_fst)

text \<open>Inserting keys in increasing order builds the sequence itself.\<close>

lemma bt_insert_append:
  "\<forall>l\<in>fst ` set m. l < k \<Longrightarrow> bt_insert k v m = m @ [(k, v)]"
  by (induction m) auto

lemma bt_fill_sorted:
  assumes "bt_invar (m @ ps)"
  shows "fold (\<lambda>(k, v). bt_insert k v) ps m = m @ ps"
  using assms
proof (induction ps arbitrary: m)
  case (Cons p ps)
  have "bt_insert (fst p) (snd p) m = m @ [p]"
    using Cons.prems by (subst bt_insert_append) (auto simp: bt_invar_def sorted_wrt_append)
  with Cons show ?case by (simp add: case_prod_unfold)
qed simp

lemma list_all_bt_insert:
  "P (k, v) \<Longrightarrow> list_all P m \<Longrightarrow> list_all P (bt_insert k v m)"
  by (induction k v m rule: bt_insert.induct) auto

lemma list_all_bt_remove: "list_all P m \<Longrightarrow> list_all P (bt_remove k m)"
  by (auto simp: bt_remove_def list_all_iff)

end
