(* ===== verification/Xml_Support.thy ===== *)
theory Xml_Support
  imports Utf8
begin

text \<open>
  The helpers of \<^verbatim>\<open>crates/ddccontrol-xml/src/lib.rs\<close>: the integer notation of the database and
  the writer of attribute values. The lemmas give the range and the round trips of the integers, and
  show that reading an attribute value back, as an XML parser does, returns what was written.
\<close>

section \<open>Integers\<close>

datatype integer_error = InvalidIntegerSyntax | IntegerOutOfRange

definition digit_value :: "char \<Rightarrow> nat option" where
  "digit_value c =
     (if is_ascii_digit c then Some (byte_val c - 48)
      else if is_ascii_lowercase c then Some (byte_val c - 87)
      else if is_ascii_uppercase c then Some (byte_val c - 55)
      else None)"

definition is_digit :: "nat \<Rightarrow> char \<Rightarrow> bool" where
  "is_digit radix c \<longleftrightarrow> (case digit_value c of Some d \<Rightarrow> d < radix | None \<Rightarrow> False)"

text \<open>
  \<open>i64::from_str_radix\<close> on a nonempty string of digits, with or without a minus sign in front.
\<close>

definition i64_from_digits :: "bool \<Rightarrow> string \<Rightarrow> nat \<Rightarrow> (int, integer_error) result" where
  "i64_from_digits negative digits radix =
     (let n = int (horner radix (map (\<lambda>c. the (digit_value c)) digits));
          v = (if negative then - n else n)
      in if - (2 ^ 63) \<le> v \<and> v < 2 ^ 63 then Ok v else Err IntegerOutOfRange)"

definition split_sign :: "string \<Rightarrow> bool \<times> string" where
  "split_sign s =
     (case s of
        c # r \<Rightarrow> if c = CHR ''-'' then (True, r) else if c = CHR ''+'' then (False, r) else (False, s)
      | [] \<Rightarrow> (False, s))"

text \<open>\<open>str::parse::<i64>\<close>.\<close>

definition i64_parse :: "string \<Rightarrow> (int, integer_error) result" where
  [rust_std]: "i64_parse s =
     (case split_sign s of (negative, digits) \<Rightarrow>
        if digits = [] \<or> \<not> list_all is_ascii_digit digits then Err InvalidIntegerSyntax
        else i64_from_digits negative digits 10)"

definition split_radix :: "string \<Rightarrow> nat \<times> string" where
  "split_radix r =
     (case strip_prefix ''0x'' r of
        Some d \<Rightarrow> (16, d)
      | None \<Rightarrow>
          (case strip_prefix ''0X'' r of
             Some d \<Rightarrow> (16, d)
           | None \<Rightarrow> if length r > 1 \<and> starts_with ''0'' r then (8, drop 1 r) else (10, r)))"

definition parse_integer :: "string \<Rightarrow> (int, integer_error) result" where
  "parse_integer input =
     (case split_sign (dropWhile is_ascii_whitespace input) of
        (negative, r) \<Rightarrow>
          (case split_radix r of
             (radix, digits) \<Rightarrow>
               if digits = [] \<or> \<not> list_all (is_digit radix) digits then Err InvalidIntegerSyntax
               else i64_from_digits negative digits radix))"

text \<open>\<open>to_string\<close> of an integer.\<close>

definition format_int :: "int \<Rightarrow> string" where
  "format_int i = (if i < 0 then CHR ''-'' # format_dec (nat (- i)) else format_dec (nat i))"

section \<open>Attribute values\<close>

definition is_xml_character :: "nat \<Rightarrow> bool" where
  "is_xml_character n \<longleftrightarrow>
     n = 9 \<or> n = 10 \<or> n = 13 \<or> 0x20 \<le> n \<and> n \<le> 0xd7ff \<or> 0xe000 \<le> n \<and> n \<le> 0xfffd
     \<or> 0x10000 \<le> n \<and> n \<le> 0x10ffff"

definition escape_char :: "nat \<Rightarrow> (string, nat) result" where
  "escape_char n =
     (if n = 38 then Ok ''&amp;''
      else if n = 60 then Ok ''&lt;''
      else if n = 62 then Ok ''&gt;''
      else if n = 34 then Ok ''&quot;''
      else if n = 39 then Ok ''&apos;''
      else if n = 9 then Ok ''&#x9;''
      else if n = 10 then Ok ''&#xA;''
      else if n = 13 then Ok ''&#xD;''
      else if is_xml_character n then Ok (utf8_encode n)
      else Err n)"

fun push_chars :: "nat list \<Rightarrow> string \<Rightarrow> string \<times> (unit, nat) result" where
  "push_chars [] out = (out, Ok ())"
| "push_chars (c # cs) out =
     (case escape_char c of
        Inr t \<Rightarrow> push_chars cs (out @ t)
      | Inl bad \<Rightarrow> (out, Err bad))"

definition push_attribute :: "string \<Rightarrow> string \<Rightarrow> string \<times> (unit, nat) result" where
  "push_attribute out input = push_chars (str_chars input) out"

section \<open>Integer round trips\<close>

lemma digit_value_lower: "d < 16 \<Longrightarrow> digit_value (digit_lower d) = Some d"
  by (simp add: digit_value_def digit_lower_def is_ascii_digit_def is_ascii_lowercase_def
      is_ascii_uppercase_def byte_val_char_of)

lemma is_digit_lower: "d < radix \<Longrightarrow> radix \<le> 16 \<Longrightarrow> is_digit radix (digit_lower d)"
  by (simp add: is_digit_def digit_value_lower)

lemma digits_of_formatted:
  assumes "2 \<le> radix" and "radix \<le> 16"
  shows "list_all (is_digit radix) (map digit_lower (nat_digits radix n))"
    and "horner radix (map (\<lambda>c. the (digit_value c)) (map digit_lower (nat_digits radix n))) = n"
proof -
  have d: "d < radix" if "d \<in> set (nat_digits radix n)" for d
    using nat_digits_less [OF assms(1) that] .
  then show "list_all (is_digit radix) (map digit_lower (nat_digits radix n))"
    using assms by (auto simp: list_all_iff is_digit_lower)
  have "map (\<lambda>c. the (digit_value c)) (map digit_lower (nat_digits radix n)) = nat_digits radix n"
    using d assms(2) by (simp, intro map_idI) (fastforce simp: digit_value_lower)
  then show "horner radix (map (\<lambda>c. the (digit_value c)) (map digit_lower (nat_digits radix n))) = n"
    by (simp only: horner_nat_digits)
qed

lemma hd_nat_digits: "2 \<le> b \<Longrightarrow> n \<noteq> 0 \<Longrightarrow> hd (nat_digits b n) \<noteq> 0"
proof (induction b n rule: nat_digits.induct)
  case (1 b n)
  show ?case
  proof (cases "n < b")
    case False
    with "1.prems" have "n div b \<noteq> 0" by (simp add: div_eq_0_iff)
    with 1 False show ?thesis by (simp add: nat_digits.simps [of b n])
  qed (use "1.prems" in \<open>simp add: nat_digits.simps\<close>)
qed

lemma digit_lower_class:
  "d < 16 \<Longrightarrow> \<not> is_ascii_whitespace (digit_lower d)"
  "d < 16 \<Longrightarrow> digit_lower d \<noteq> CHR ''-''" "d < 16 \<Longrightarrow> digit_lower d \<noteq> CHR ''+''"
  "d < 16 \<Longrightarrow> digit_lower d = CHR ''0'' \<longleftrightarrow> d = 0"
  "d < 16 \<Longrightarrow> digit_lower d \<noteq> CHR ''x''" "d < 16 \<Longrightarrow> digit_lower d \<noteq> CHR ''X''"
  by (auto simp: is_ascii_whitespace_def digit_lower_def byte_val_char_of simp flip: byte_val_inject)
    (simp_all add: byte_val_def split: if_splits)


text \<open>The first digit of a formatted number.\<close>

lemma formatted_Cons:
  assumes "2 \<le> b" and "b \<le> 16"
  obtains d ds where "map digit_lower (nat_digits b n) = digit_lower d # map digit_lower ds"
    and "d < 16" and "n = 0 \<Longrightarrow> ds = []" and "n \<noteq> 0 \<Longrightarrow> d \<noteq> 0"
proof -
  obtain d ds where e: "nat_digits b n = d # ds" by (cases "nat_digits b n") simp_all
  then have "d < b" using nat_digits_less [OF assms(1), of d n] by simp
  moreover have "n = 0 \<Longrightarrow> ds = []" using e assms(1) by (simp add: nat_digits.simps)
  moreover have "n \<noteq> 0 \<Longrightarrow> d \<noteq> 0" using hd_nat_digits [OF assms(1), of n] e by simp
  ultimately show ?thesis using that [of d ds] e assms(2) by simp
qed

lemma dropWhile_blanks:
  "list_all is_ascii_whitespace ws \<Longrightarrow> dropWhile is_ascii_whitespace (ws @ s) = dropWhile is_ascii_whitespace s"
  by (induction ws) auto

lemma split_radix_dec: "split_radix (format_dec n) = (10, format_dec n)"
proof -
  obtain d ds where f: "format_dec n = digit_lower d # map digit_lower ds"
    and d: "d < 16" "n = 0 \<Longrightarrow> ds = []" "n \<noteq> 0 \<Longrightarrow> d \<noteq> 0"
    unfolding format_dec_def by (rule formatted_Cons [of 10 n]) auto
  show ?thesis
    using d(2,3) digit_lower_class(4) [OF d(1)] unfolding f
    by (cases "ds = []") (auto simp: split_radix_def starts_with_def)
qed

lemma split_radix_oct:
  "split_radix (CHR ''0'' # map digit_lower (nat_digits 8 n)) = (8, map digit_lower (nat_digits 8 n))"
proof -
  obtain d ds where f: "map digit_lower (nat_digits 8 n) = digit_lower d # map digit_lower ds" and d: "d < 16"
    by (rule formatted_Cons [of 8 n]) auto
  show ?thesis
    using digit_lower_class(5,6) [OF d] by (simp add: f split_radix_def starts_with_def eq_commute)
qed

lemma split_radix_hex: "split_radix (CHR ''0'' # CHR ''x'' # s) = (16, s)"
  by (simp add: split_radix_def)

text \<open>An integer literal is a sign, a radix prefix and digits; parsing it is exact.\<close>

lemma parse_integer_literal:
  assumes "list_all is_ascii_whitespace ws"
    and "\<not> is_ascii_whitespace (hd r)" "hd r \<noteq> CHR ''-''" "hd r \<noteq> CHR ''+''" "r \<noteq> []"
    and "split_radix r = (radix, map digit_lower (nat_digits radix n))" "2 \<le> radix" "radix \<le> 16"
  shows "parse_integer (ws @ (if negative then CHR ''-'' # r else r))
       = (let v = (if negative then - int n else int n)
          in if - (2 ^ 63) \<le> v \<and> v < 2 ^ 63 then Inr v else Inl IntegerOutOfRange)"
proof -
  have "split_sign (dropWhile is_ascii_whitespace (ws @ (if negative then CHR ''-'' # r else r)))
      = (negative, r)"
    using assms(2-5) by (cases r)
      (auto simp: dropWhile_blanks [OF assms(1)] split_sign_def is_ascii_whitespace_def)
  then show ?thesis
    using digits_of_formatted [OF assms(7,8), of n]
    by (simp add: parse_integer_def assms(6) i64_from_digits_def)
qed

lemma literal_heads:
  "\<not> is_ascii_whitespace (hd (format_dec n)) \<and> hd (format_dec n) \<noteq> CHR ''-''
     \<and> hd (format_dec n) \<noteq> CHR ''+'' \<and> format_dec n \<noteq> []"
proof -
  obtain d ds where f: "format_dec n = digit_lower d # map digit_lower ds" and d: "d < 16"
    unfolding format_dec_def by (rule formatted_Cons [of 10 n]) auto
  show ?thesis by (simp add: f d digit_lower_class)
qed

lemma parse_format_int:
  assumes "list_all is_ascii_whitespace ws"
  shows "parse_integer (ws @ format_int i)
    = (if - (2 ^ 63) \<le> i \<and> i < 2 ^ 63 then Inr i else Inl IntegerOutOfRange)"
proof -
  let ?n = "nat \<bar>i\<bar>"
  have "parse_integer (ws @ (if i < 0 then CHR ''-'' # format_dec ?n else format_dec ?n))
       = (let v = (if i < 0 then - int ?n else int ?n)
          in if - (2 ^ 63) \<le> v \<and> v < 2 ^ 63 then Inr v else Inl IntegerOutOfRange)"
    by (rule parse_integer_literal [OF assms, where radix = 10])
      (use literal_heads [of ?n] split_radix_dec [of ?n] in \<open>simp_all add: format_dec_def\<close>)
  moreover have "format_int i = (if i < 0 then CHR ''-'' # format_dec ?n else format_dec ?n)"
    by (simp add: format_int_def)
  moreover have "(if i < 0 then - int ?n else int ?n) = i" by simp
  ultimately show ?thesis by (simp only: Let_def)
qed

lemma parse_format_hex_oct:
  assumes "list_all is_ascii_whitespace ws" and "n < 2 ^ 63"
  shows "parse_integer (ws @ ''0x'' @ format_hex n) = Inr (int n)"
    and "parse_integer (ws @ ''0'' @ map digit_lower (nat_digits 8 n)) = Inr (int n)"
proof -
  have "int n < 2 ^ 63" using assms(2) by (metis of_nat_less_iff of_nat_numeral of_nat_power)
  then show "parse_integer (ws @ ''0x'' @ format_hex n) = Inr (int n)"
    "parse_integer (ws @ ''0'' @ map digit_lower (nat_digits 8 n)) = Inr (int n)"
    using parse_integer_literal [OF assms(1), where negative = False and radix = 16 and n = n
        and r = "''0x'' @ format_hex n"]
      parse_integer_literal [OF assms(1), where negative = False and radix = 8 and n = n
        and r = "''0'' @ map digit_lower (nat_digits 8 n)"]
    by (simp_all add: split_radix_hex split_radix_oct format_hex_def is_ascii_whitespace_def)
qed

lemma parse_integer_range: "parse_integer s = Inr v \<Longrightarrow> - (2 ^ 63) \<le> v \<and> v < 2 ^ 63"
  by (auto simp: parse_integer_def i64_from_digits_def Let_def split: prod.splits if_splits)


section \<open>Reading an attribute value back\<close>

text \<open>
  What an XML parser makes of the text between the quotes of an attribute: the five predefined
  entities and the character references the writer uses are expanded, literal white space becomes a
  blank.
\<close>

fun expand_reference :: "(string \<times> char) list \<Rightarrow> string \<Rightarrow> (char \<times> string) option" where
  "expand_reference [] s = None"
| "expand_reference ((p, c) # refs) s =
     (case strip_prefix p s of Some r \<Rightarrow> Some (c, r) | None \<Rightarrow> expand_reference refs s)"

definition xml_references :: "(string \<times> char) list" where
  "xml_references =
     [(''&amp;'', CHR ''&''), (''&lt;'', CHR ''<''), (''&gt;'', CHR ''>''), (''&quot;'', CHR 0x22),
      (''&apos;'', CHR 0x27), (''&#x9;'', CHR 0x09), (''&#xA;'', CHR 0x0A), (''&#xD;'', CHR 0x0D)]"

lemma expand_reference_shorter:
  "expand_reference refs s = Some (c, r) \<Longrightarrow> list_all (\<lambda>(p, _). p \<noteq> []) refs \<Longrightarrow> length r < length s"
  by (induction refs s rule: expand_reference.induct)
    (auto simp: strip_prefix_eq_Some split: option.splits)

lemma xml_reference_shorter:
  "expand_reference xml_references s = Some (c, r) \<Longrightarrow> length r < length s"
  by (erule expand_reference_shorter) (simp add: xml_references_def)

lemma no_reference: "c \<noteq> CHR ''&'' \<Longrightarrow> expand_reference xml_references (c # s) = None"
  by (simp add: xml_references_def eq_commute [of _ c])

function unescape :: "string \<Rightarrow> string" where
  "unescape s =
     (case s of
        [] \<Rightarrow> []
      | c # r \<Rightarrow>
          (case expand_reference xml_references s of
             Some (d, r') \<Rightarrow> d # unescape r'
           | None \<Rightarrow> (if c \<in> {CHR 0x09, CHR 0x0A, CHR 0x0D} then CHR '' '' else c) # unescape r))"
  by pat_completeness auto
termination
  by (relation "measure length") (auto dest: xml_reference_shorter)

declare unescape.simps [simp del]

definition plain :: "char \<Rightarrow> bool" where
  "plain c \<longleftrightarrow> c \<notin> {CHR ''&'', CHR ''<'', CHR ''>'', CHR 0x22, CHR 0x27, CHR 0x09, CHR 0x0A, CHR 0x0D}"

lemma unescape_plain: "plain c \<Longrightarrow> unescape (c # s) = c # unescape s"
  by (subst unescape.simps) (simp add: plain_def no_reference)

lemma unescape_plains: "list_all plain t \<Longrightarrow> unescape (t @ s) = t @ unescape s"
  by (induction t) (simp_all add: unescape_plain)

lemma unescape_reference:
  "expand_reference xml_references t = Some (d, r) \<Longrightarrow> unescape t = d # unescape r"
  using xml_reference_shorter [of t d r] by (subst unescape.simps) (auto split: list.splits)

lemma unescape_references:
  "unescape (''&amp;'' @ s) = CHR ''&'' # unescape s"
  "unescape (''&lt;'' @ s) = CHR ''<'' # unescape s"
  "unescape (''&gt;'' @ s) = CHR ''>'' # unescape s"
  "unescape (''&quot;'' @ s) = CHR 0x22 # unescape s"
  "unescape (''&apos;'' @ s) = CHR 0x27 # unescape s"
  "unescape (''&#x9;'' @ s) = CHR 0x09 # unescape s"
  "unescape (''&#xA;'' @ s) = CHR 0x0A # unescape s"
  "unescape (''&#xD;'' @ s) = CHR 0x0D # unescape s"
  by (rule unescape_reference, simp add: xml_references_def)+

lemmas unescape_Cons [simp] = unescape_references [unfolded append.simps]

lemma encode_specials:
  "utf8_encode 38 = ''&''" "utf8_encode 60 = ''<''" "utf8_encode 62 = ''>''" "utf8_encode 34 = [CHR 0x22]"
  "utf8_encode 39 = [CHR 0x27]" "utf8_encode 9 = [CHR 0x09]" "utf8_encode 10 = [CHR 0x0A]"
  "utf8_encode 13 = [CHR 0x0D]"
  by code_simp+

lemma utf8_bytes: "c \<in> set (utf8_encode n) \<Longrightarrow> is_scalar n \<Longrightarrow> 128 \<le> byte_val c \<or> n < 128 \<and> c = char_of n"
  by (auto simp: utf8_encode_def is_scalar_def byte_val_char_of split: if_splits)

lemma xml_scalar: "is_xml_character n \<Longrightarrow> is_scalar n"
  by (auto simp: is_xml_character_def is_scalar_def)

abbreviation special_char :: "nat \<Rightarrow> bool" where
  "special_char n \<equiv> n \<in> {38, 60, 62, 34, 39, 9, 10, 13}"

lemma encode_plain:
  assumes "is_scalar n" and "\<not> special_char n"
  shows "list_all plain (utf8_encode n)"
proof -
  have "plain c" if "c \<in> set (utf8_encode n)" for c
  proof -
    have "128 \<le> byte_val c \<or> n < 128 \<and> c = char_of n"
      by (rule utf8_bytes) (use that assms in auto)
    then have "byte_val c \<notin> {38, 60, 62, 34, 39, 9, 10, 13}"
      using assms(2) by (auto simp: byte_val_char_of)
    then show ?thesis by (auto simp: plain_def byte_val_def)
  qed
  then show ?thesis by (simp add: list_all_iff)
qed

lemma escape_char_Ok: "(\<exists>t. escape_char n = Inr t) \<longleftrightarrow> is_xml_character n"
  by (auto simp: escape_char_def is_xml_character_def)

lemma escape_char_Err: "escape_char n = Inl m \<longleftrightarrow> m = n \<and> \<not> is_xml_character n"
  by (auto simp: escape_char_def is_xml_character_def)

definition safe_char :: "char \<Rightarrow> bool" where
  "safe_char c \<longleftrightarrow> c \<notin> {CHR ''<'', CHR ''>'', CHR 0x22, CHR 0x27, CHR 0x09, CHR 0x0A, CHR 0x0D}"

lemma plain_safe: "list_all plain t \<Longrightarrow> list_all safe_char t"
  by (auto simp: list_all_iff plain_def safe_char_def)

lemma escape_char_roundtrip:
  assumes "escape_char n = Inr t"
  shows "unescape (t @ s) = utf8_encode n @ unescape s \<and> list_all safe_char t"
proof (cases "special_char n")
  case True
  then show ?thesis
    using assms
    by (elim insertE emptyE)
      (simp_all only: escape_char_def, auto simp: encode_specials safe_char_def)
next
  case False
  then have "t = utf8_encode n" "is_xml_character n"
    using assms by (auto simp: escape_char_def split: if_splits)
  with encode_plain [OF xml_scalar False] show ?thesis by (simp add: unescape_plains plain_safe)
qed


lemma push_chars_result:
  "case push_chars cs out of
     (out', Inr _) \<Rightarrow> list_all is_xml_character cs
        \<and> (\<exists>t. out' = out @ t \<and> unescape t = concat (map utf8_encode cs) \<and> list_all safe_char t)
   | (out', Inl c) \<Rightarrow> \<exists>good bad. cs = good @ c # bad \<and> \<not> is_xml_character c
        \<and> list_all is_xml_character good
        \<and> (\<exists>t. out' = out @ t \<and> unescape t = concat (map utf8_encode good))"
proof (induction cs arbitrary: out)
  case Nil
  then show ?case by (simp add: unescape.simps)
next
  case (Cons c cs)
  show ?case
  proof (cases "escape_char c")
    case (Inl m)
    then have "m = c" "\<not> is_xml_character c" by (auto simp: escape_char_Err)
    then have "\<exists>good bad. c # cs = good @ m # bad \<and> \<not> is_xml_character m
        \<and> list_all is_xml_character good
        \<and> (\<exists>t. out = out @ t \<and> unescape t = concat (map utf8_encode good))"
      by (intro exI [of _ "[]"] exI [of _ cs]) (simp add: unescape.simps)
    with Inl show ?thesis by simp
  next
    case (Inr u)
    have xml: "is_xml_character c" using Inr escape_char_Ok by blast
    have u: "unescape (u @ s) = utf8_encode c @ unescape s" "list_all safe_char u" for s
      using escape_char_roundtrip [OF Inr] by auto
    obtain out' r where p: "push_chars cs (out @ u) = (out', r)" by fastforce
    show ?thesis
    proof (cases r)
      case (Inr x)
      then obtain t where "list_all is_xml_character cs" "out' = (out @ u) @ t"
        "unescape t = concat (map utf8_encode cs)" "list_all safe_char t"
        using Cons.IH [of "out @ u"] by (auto simp: p)
      with \<open>escape_char c = Inr u\<close> Inr p u xml show ?thesis by (auto intro!: exI [of _ "u @ t"])
    next
      case (Inl d)
      then obtain good bad t where "cs = good @ d # bad" "\<not> is_xml_character d"
        "list_all is_xml_character good" "out' = (out @ u) @ t"
        "unescape t = concat (map utf8_encode good)"
        using Cons.IH [of "out @ u"] by (auto simp: p)
      with \<open>escape_char c = Inr u\<close> Inl p u xml show ?thesis
        by (simp, intro exI [of _ "c # good"] exI [of _ bad]) (auto intro!: exI [of _ "u @ t"])
    qed
  qed
qed

section \<open>Properties\<close>

text \<open>
  Parsing is inverse to printing: after any leading blanks, a printed decimal integer parses to
  itself exactly when it fits 64 signed bits and is reported as out of range otherwise, hexadecimal
  and octal notation of a 63-bit number parse to that number, and no string yields an integer outside
  the range.
\<close>

theorem parse_integer_roundtrip:
  assumes "list_all is_ascii_whitespace ws" and "n < 2 ^ 63"
  shows "parse_integer (ws @ format_int i)
           = (if - (2 ^ 63) \<le> i \<and> i < 2 ^ 63 then Inr i else Inl IntegerOutOfRange)
    \<and> parse_integer (ws @ ''0x'' @ format_hex n) = Inr (int n)
    \<and> parse_integer (ws @ ''0'' @ map digit_lower (nat_digits 8 n)) = Inr (int n)
    \<and> (case parse_integer s of Inl _ \<Rightarrow> True | Inr v \<Rightarrow> - (2 ^ 63) \<le> v \<and> v < 2 ^ 63)"
  using parse_format_int [OF assms(1)] parse_format_hex_oct [OF assms] parse_integer_range [of s]
  by (auto split: sum.splits)

theorem parse_integer_roundtrip_witness:
  "parse_integer ('' '' @ format_int (-42)) = Inr (-42) \<and> parse_integer ('' '' @ ''0x'' @ format_hex 255) = Inr 255"
  using parse_integer_roundtrip [of "'' ''" 255 "-42" "[]"] by (simp add: is_ascii_whitespace_def)

text \<open>
  C15: writing an attribute value succeeds exactly if all characters are XML characters. The text
  written then contains no quote, angle bracket or literal white space control, and an XML parser
  reads it back as the input. Otherwise the first character that is not allowed is reported.
\<close>

theorem push_attribute_correct:
  assumes "from_utf8 input"
  shows "case push_attribute out input of
     (out', Inr _) \<Rightarrow> list_all is_xml_character (str_chars input)
        \<and> (\<exists>t. out' = out @ t \<and> unescape t = input \<and> list_all safe_char t)
   | (out', Inl c) \<Rightarrow> \<exists>good bad. str_chars input = good @ c # bad \<and> \<not> is_xml_character c
        \<and> list_all is_xml_character good
        \<and> (\<exists>t. out' = out @ t \<and> unescape t = concat (map utf8_encode good))"
proof -
  obtain cs where i: "input = concat (map utf8_encode cs)" and c: "str_chars input = cs"
    using assms by (rule from_utf8E)
  show ?thesis
    using push_chars_result [of cs out] unfolding push_attribute_def c by (simp only: i)
qed

theorem push_attribute_correct_witness:
  "\<exists>t. push_attribute ''x'' ''a<b'' = (''x'' @ t, Inr ()) \<and> unescape t = ''a<b''"
proof -
  have a: "list_all (\<lambda>c. byte_val c < 128) ''a<b''" by (simp add: byte_val_def)
  have "push_attribute ''x'' ''a<b'' = (''xa&lt;b'', Inr ())"
    by (simp add: push_attribute_def str_chars_ascii [OF a])
      (simp add: byte_val_def escape_char_def is_xml_character_def utf8_encode_def, code_simp)
  with from_utf8_ascii [OF a] show ?thesis using push_attribute_correct [of "''a<b''" "''x''"] by auto
qed

end
