(* ===== verification/Cbor_Format.thy ===== *)
theory Cbor_Format
  imports Cbor_Codec Btree_Map Xml_Support
begin

text \<open>
  The accessors of \<^verbatim>\<open>crates/ddccontrol-db-format/src/lib.rs\<close> over decoded CBOR values, the
  extension envelope, the permanent tables of kinds and attributes, and the decoder of a database
  node. A node is the tree the runtime interprets; its attributes are strings again, so that
  numbers are written in decimal and read back with \<^const>\<open>parse_integer\<close>.
\<close>

section \<open>Accessors\<close>

definition as_map :: "cbor \<Rightarrow> (cbor \<times> cbor) list option" where
  "as_map v = (case v of CMap es \<Rightarrow> Some es | _ \<Rightarrow> None)"

definition as_integer :: "cbor \<Rightarrow> int option" where
  "as_integer v = (case v of CInteger i \<Rightarrow> Some i | _ \<Rightarrow> None)"

definition as_text :: "cbor \<Rightarrow> string option" where
  "as_text v = (case v of CText s \<Rightarrow> Some s | _ \<Rightarrow> None)"

definition as_bool :: "cbor \<Rightarrow> bool option" where
  "as_bool v = (case v of CBool b \<Rightarrow> Some b | _ \<Rightarrow> None)"

definition as_bytes :: "cbor \<Rightarrow> bytes option" where
  "as_bytes v = (case v of CBytes b \<Rightarrow> Some b | _ \<Rightarrow> None)"

definition as_array :: "cbor \<Rightarrow> cbor list option" where
  "as_array v = (case v of CArray vs \<Rightarrow> Some vs | _ \<Rightarrow> None)"

definition cbor_map :: "cbor \<Rightarrow> (cbor \<times> cbor) list checked" where
  "cbor_map v = ok_or (as_map v) ''CBOR expected map''"

definition cbor_fields :: "cbor \<Rightarrow> (cbor \<times> cbor) list checked" where
  "cbor_fields v =
     and_then (cbor_map v) (\<lambda>entries.
     and_then (fold_res (\<lambda>e _. and_then (cbor_uint (fst e)) (\<lambda>_. Ok ())) entries ()) (\<lambda>_.
       Ok entries))"

fun find_map :: "('a \<Rightarrow> 'b option) \<Rightarrow> 'a list \<Rightarrow> 'b option" where
  "find_map f [] = None"
| "find_map f (x # xs) = (case f x of Some y \<Rightarrow> Some y | None \<Rightarrow> find_map f xs)"

definition cbor_optional :: "cbor \<Rightarrow> nat \<Rightarrow> cbor option" where
  "cbor_optional v key =
     (case as_map v of
        None \<Rightarrow> None
      | Some es \<Rightarrow> find_map (\<lambda>(candidate, w). if ok (cbor_uint candidate) = Some key then Some w else None) es)"

definition cbor_field :: "cbor \<Rightarrow> nat \<Rightarrow> cbor checked" where
  "cbor_field v key = ok_or (cbor_optional v key) (''CBOR missing field '' @ format_dec key)"

definition cbor_integer :: "cbor \<Rightarrow> int checked" where
  "cbor_integer v = ok_or (as_integer v) ''CBOR expected integer''"

definition cbor_text :: "cbor \<Rightarrow> string checked" where
  "cbor_text v = ok_or (as_text v) ''CBOR expected text''"

definition cbor_array :: "cbor \<Rightarrow> cbor list checked" where
  "cbor_array v = ok_or (as_array v) ''CBOR expected array''"

definition bytes32 :: "cbor \<Rightarrow> bytes checked" where
  "bytes32 v =
     (case as_bytes v of
        Some bs \<Rightarrow> if length bs = 32 then Ok bs else Err ''CBOR expected 32-byte SHA-256 digest''
      | None \<Rightarrow> Err ''CBOR expected 32-byte SHA-256 digest'')"

section \<open>Extensions\<close>

definition SOURCE_METADATA :: string where
  "SOURCE_METADATA = ''https://ddccontrol.sourceforge.net/cbor/ext/source-metadata/1''"

definition valid_identity :: "string \<Rightarrow> bool" where
  "valid_identity ident \<longleftrightarrow>
     (let scheme = (if CHR '':'' \<in> set ident then takeWhile (\<lambda>c. c \<noteq> CHR '':'') ident else [])
      in (case scheme of c # _ \<Rightarrow> is_ascii_alphabetic c | [] \<Rightarrow> False)
         \<and> list_all (\<lambda>c. is_ascii_alphanumeric c \<or> c \<in> set ''+.-'') scheme
         \<and> \<not> list_ex (\<lambda>c. is_whitespace c \<or> is_control c) (str_chars ident))"

definition check_metadata :: "bool \<Rightarrow> cbor \<Rightarrow> unit checked" where
  "check_metadata needs payload =
     (if needs then Err ''CBOR source metadata must be optional''
      else and_then (cbor_fields payload) (\<lambda>_.
           and_then (cbor_field payload 0) (\<lambda>table.
           and_then (cbor_map table) (\<lambda>entries.
           and_then (fold_res (\<lambda>(k, v) _. and_then (cbor_text k) (\<lambda>_. and_then (cbor_text v) (\<lambda>_. Ok ()))) entries ()) (\<lambda>_.
             fold_res (\<lambda>key _. case cbor_optional payload key of
                                  Some v \<Rightarrow> and_then (cbor_text v) (\<lambda>_. Ok ())
                                | None \<Rightarrow> Ok ()) [1, 2, 3] ())))))"

definition extension_step :: "cbor \<Rightarrow> bool \<times> string list \<Rightarrow> (bool \<times> string list) checked" where
  "extension_step extension st =
     (case st of (req, identities) \<Rightarrow>
        and_then (cbor_fields extension) (\<lambda>_.
        and_then (and_then (cbor_field extension 0) cbor_text) (\<lambda>ident.
          if \<not> valid_identity ident \<or> ident \<in> set identities
          then Err ''CBOR invalid or duplicate extension identity''
          else
            and_then (cbor_field extension 1) (\<lambda>flag.
            and_then (ok_or (as_bool flag) ''CBOR extension requires boolean'') (\<lambda>needs.
            and_then (cbor_field extension 2) (\<lambda>payload.
            and_then (if ident = SOURCE_METADATA then check_metadata needs payload else Ok ()) (\<lambda>_.
              Ok (req \<or> needs, ident # identities))))))))"

definition required_extensions :: "cbor \<Rightarrow> nat \<Rightarrow> bool checked" where
  "required_extensions v key =
     (case cbor_optional v key of
        None \<Rightarrow> Ok False
      | Some extensions \<Rightarrow>
          and_then (cbor_array extensions) (\<lambda>exts.
          and_then (fold_res extension_step exts (False, [])) (\<lambda>(req, _). Ok req)))"

section \<open>Tables\<close>

definition ATTRIBUTES :: "(nat \<times> string) list" where
  "ATTRIBUTES =
     [(0, ''name''), (1, ''id''), (2, ''type''), (3, ''refresh''), (4, ''pattern''), (5, ''init''),
      (6, ''address''), (7, ''delay''), (8, ''value''), (9, ''file''), (10, ''add''), (11, ''remove''),
      (12, ''dbversion''), (13, ''date''), (14, ''caps''), (15, ''include'')]"

definition KINDS :: "(nat \<times> string) list" where
  "KINDS =
     [(0, ''options''), (1, ''group''), (2, ''subgroup''), (3, ''control''), (4, ''value''),
      (5, ''monitor''), (6, ''caps''), (7, ''include''), (8, ''controls'')]"

definition kind_name :: "nat \<Rightarrow> string option" where
  "kind_name k = find_map (\<lambda>(n, name). if n = k then Some name else None) KINDS"

definition kind_id :: "string \<Rightarrow> nat option" where
  "kind_id name = find_map (\<lambda>(n, tag). if tag = name then Some n else None) KINDS"

definition attribute_id :: "string \<Rightarrow> nat option" where
  "attribute_id name = find_map (\<lambda>(n, attr). if attr = name then Some n else None) ATTRIBUTES"

definition attribute_integer_bounds :: "nat \<Rightarrow> (int \<times> int) option" where
  "attribute_integer_bounds k =
     (if k = 6 then Some (0, 255)
      else if k = 7 then Some (- (2 ^ 31), 2 ^ 31 - 1)
      else if k = 8 then Some (0, 65535)
      else if k = 12 then Some (3, 3)
      else None)"

definition executable_attributes :: "string \<Rightarrow> string \<Rightarrow> bool \<Rightarrow> nat list" where
  "executable_attributes tag parent in_options =
     (if tag = ''options'' \<and> parent = '''' \<and> in_options then [12, 13]
      else if tag = ''group'' \<and> parent = ''options'' \<and> in_options then [0]
      else if tag = ''subgroup'' \<and> parent = ''group'' \<and> in_options then [0, 4]
      else if tag = ''control'' \<and> parent = ''subgroup'' \<and> in_options then [0, 1, 2, 3]
      else if tag = ''value'' \<and> parent = ''control'' \<and> in_options then [0, 1]
      else if tag = ''monitor'' \<and> parent = '''' \<and> \<not> in_options then [0, 5, 14, 15]
      else if tag = ''control'' \<and> parent = ''controls'' \<and> \<not> in_options then [1, 6, 7]
      else if tag = ''value'' \<and> parent = ''control'' \<and> \<not> in_options then [1, 8]
      else if tag = ''caps'' \<and> parent = ''monitor'' \<and> \<not> in_options then [10, 11]
      else if tag = ''include'' \<and> parent = ''monitor'' \<and> \<not> in_options then [9]
      else [])"

definition executable_path :: "string \<Rightarrow> string \<Rightarrow> bool \<Rightarrow> bool \<Rightarrow> bool" where
  "executable_path tag parent in_options ancestor_active \<longleftrightarrow>
     ancestor_active
     \<and> (executable_attributes tag parent in_options \<noteq> []
        \<or> tag = ''controls'' \<and> parent = ''monitor'' \<and> \<not> in_options)"

section \<open>Nodes\<close>

datatype node =
  Node (node_tag: string) (node_attrs: "(string, string) btree") (node_children: "node list")
       (node_line: nat) (node_required: bool)

definition node_attr :: "node \<Rightarrow> string \<Rightarrow> string option" where
  "node_attr n name = bt_get (node_attrs n) name"

definition attribute_text :: "nat \<Rightarrow> cbor \<Rightarrow> string checked" where
  "attribute_text k v =
     (if k \<in> {6, 7, 8, 12} then
        and_then (cbor_integer v) (\<lambda>number.
          let (low, high) = the (attribute_integer_bounds k)
          in if \<not> (low \<le> number \<and> number \<le> high)
             then Err (''CBOR attribute '' @ format_dec k @ '' out of range'')
             else Ok (format_int number))
      else
        and_then (cbor_text v) (\<lambda>t.
          if CHR 0x00 \<in> set t then Err ''CBOR NUL in executable text'' else Ok t))"

definition attribute_step ::
  "string \<Rightarrow> string \<Rightarrow> nat list \<Rightarrow> cbor \<times> cbor \<Rightarrow> (string, string) btree \<Rightarrow> (string, string) btree checked" where
  "attribute_step tag parent allowed entry attrs =
     (case entry of (key, v) \<Rightarrow>
        and_then (cbor_uint key) (\<lambda>k.
          case map_of ATTRIBUTES k of
            None \<Rightarrow>
              if as_integer v = None \<and> as_text v = None
              then Err ''CBOR unknown attribute must be integer or text''
              else Ok attrs
          | Some name \<Rightarrow>
              if k \<notin> set allowed
              then Err (''CBOR attribute '' @ format_dec k @ '' is not executable on '' @ parent @ ''/'' @ tag)
              else and_then (attribute_text k v) (\<lambda>attr. Ok (bt_insert name attr attrs))))"

definition node_kind_tag :: "cbor \<Rightarrow> nat \<Rightarrow> string checked" where
  "node_kind_tag v kind =
     (if kind = 255 then
        and_then (and_then (cbor_field v 3) cbor_array) (\<lambda>extensions.
        and_then (ok_or (find (\<lambda>e. and_then (ok_or (cbor_optional e 0) ()) (\<lambda>t. ok_or (as_text t) ())
                                   = Ok SOURCE_METADATA) extensions)
                    ''CBOR inert source node requires source metadata'') (\<lambda>metadata.
        and_then (and_then (and_then (cbor_field metadata 2) (\<lambda>p. cbor_field p 1)) cbor_text) (\<lambda>tag.
          if kind_id tag \<noteq> None then Err ''CBOR inert node impersonates executable kind'' else Ok tag)))
      else Ok (case kind_name kind of Some t \<Rightarrow> t | None \<Rightarrow> ''unknown''))"

text \<open>A field of a value is smaller than the value, so that walking down the children ends.\<close>

lemma find_map_Some: "find_map f xs = Some y \<Longrightarrow> \<exists>x\<in>set xs. f x = Some y"
  by (induction xs) (auto split: option.splits)

lemma cbor_optional_size: "cbor_optional v key = Some w \<Longrightarrow> size w < size v"
proof -
  assume "cbor_optional v key = Some w"
  then obtain es k where "v = CMap es" "(k, w) \<in> set es"
    by (fastforce simp: cbor_optional_def as_map_def split: option.splits cbor.splits if_splits dest: find_map_Some)
  then show ?thesis using size_list_estimation' [of "(k, w)" es "size w" "size_prod size size"] by simp
qed

lemma cbor_field_size: "cbor_field v key = Inr w \<Longrightarrow> size w < size v"
  by (simp add: cbor_field_def cbor_optional_size)

lemma cbor_array_size: "cbor_array v = Inr ws \<Longrightarrow> w \<in> set ws \<Longrightarrow> size w < size v"
  by (cases v) (auto simp: cbor_array_def as_array_def less_Suc_eq_le size_list_estimation')

lemma children_size:
  "cbor_field v key = Inr u \<Longrightarrow> cbor_array u = Inr ws \<Longrightarrow> w \<in> set ws \<Longrightarrow> size w < size v"
  using cbor_field_size cbor_array_size by fastforce

function cbor_node :: "cbor \<Rightarrow> string \<Rightarrow> bool \<Rightarrow> node checked" where
  "cbor_node v parent in_options =
     and_then (cbor_fields v) (\<lambda>_.
     and_then (and_then (cbor_field v 0) cbor_uint) (\<lambda>kind.
     and_then (node_kind_tag v kind) (\<lambda>tag.
     and_then (required_extensions v 3) (\<lambda>req.
       let req = (if kind_name kind = None \<and> kind \<noteq> 255 then True else req);
           allowed = executable_attributes tag parent in_options
       in and_then (and_then (cbor_field v 1) cbor_fields) (\<lambda>entries.
          and_then (fold_res (attribute_step tag parent allowed) entries []) (\<lambda>attrs.
          and_then (and_then (cbor_field v 2) cbor_array) (\<lambda>kids.
          and_then (collect (map (\<lambda>child. cbor_node child tag in_options) kids)) (\<lambda>children.
            Ok (Node tag attrs children 0 req)))))))))"
  by pat_completeness auto
termination
  by (relation "measure (\<lambda>(v, _). size v)") (auto intro: children_size)

declare cbor_node.simps [simp del]

section \<open>What a decoded node promises\<close>

definition attribute_ok :: "nat list \<Rightarrow> string \<times> string \<Rightarrow> bool" where
  "attribute_ok allowed entry \<longleftrightarrow>
     (case entry of (name, t) \<Rightarrow>
        list_ex (\<lambda>k. map_of ATTRIBUTES k = Some name
          \<and> (case attribute_integer_bounds k of
               Some (low, high) \<Rightarrow> (case parse_integer t of Inr n \<Rightarrow> low \<le> n \<and> n \<le> high | Inl _ \<Rightarrow> False)
             | None \<Rightarrow> CHR 0x00 \<notin> set t)) allowed)"

definition attributes_ok :: "nat list \<Rightarrow> (string, string) btree \<Rightarrow> bool" where
  "attributes_ok allowed attrs \<longleftrightarrow> bt_invar attrs \<and> list_all (attribute_ok allowed) attrs"

fun node_ok :: "string \<Rightarrow> bool \<Rightarrow> node \<Rightarrow> bool" where
  "node_ok parent in_options (Node tag attrs children line req) \<longleftrightarrow>
     attributes_ok (executable_attributes tag parent in_options) attrs
     \<and> list_all (node_ok tag in_options) children"

lemma attribute_text_ok:
  assumes "attribute_text k v = Inr t"
  shows "case attribute_integer_bounds k of
      Some (low, high) \<Rightarrow> (case parse_integer t of Inr n \<Rightarrow> low \<le> n \<and> n \<le> high | Inl _ \<Rightarrow> False)
    | None \<Rightarrow> CHR 0x00 \<notin> set t"
proof (cases "k \<in> {6, 7, 8, 12}")
  case True
  then obtain low high where b: "attribute_integer_bounds k = Some (low, high)" "- (2 ^ 63) \<le> low" "high < 2 ^ 63"
    by (auto simp: attribute_integer_bounds_def)
  with assms True obtain n where "low \<le> n" "n \<le> high" "t = format_int n"
    by (auto simp: attribute_text_def split: if_splits)
  with b show ?thesis using parse_format_int [of "[]" n] by simp
next
  case False
  then have "attribute_integer_bounds k = None" by (simp add: attribute_integer_bounds_def)
  with assms False show ?thesis by (auto simp: attribute_text_def split: if_splits)
qed

lemma attribute_step_ok:
  assumes "attributes_ok allowed attrs" and "attribute_step tag parent allowed entry attrs = Inr attrs'"
  shows "attributes_ok allowed attrs'"
proof -
  obtain key v where e: "entry = (key, v)" by fastforce
  from assms(2) consider (same) "attrs' = attrs"
    | (new) k name t where "k \<in> set allowed" "map_of ATTRIBUTES k = Some name" "attribute_text k v = Inr t"
        "attrs' = bt_insert name t attrs"
    by (auto simp: attribute_step_def e split: option.splits if_splits)
  then show ?thesis
  proof cases
    case new
    then have "attribute_ok allowed (name, t)"
      using attribute_text_ok [OF new(3)] by (auto simp: attribute_ok_def list_ex_iff)
    with assms(1) new(4) show ?thesis
      by (simp add: attributes_ok_def bt_invar_insert list_all_bt_insert)
  qed (use assms(1) in simp)
qed

interpretation attribute_loop:
  fallible_loop "attribute_step tag parent allowed" "attributes_ok allowed" "\<lambda>_. True" for tag parent allowed
  by unfold_locales (rule attribute_step_ok)

interpretation extension_loop:
  fallible_loop extension_step "\<lambda>(_, identities). distinct identities \<and> list_all valid_identity identities" "\<lambda>_. True"
  by unfold_locales (auto simp: extension_step_def split: if_splits)

lemma cbor_node_Ok:
  assumes "cbor_node v parent in_options = Inr n"
  obtains tag attrs kids children req entries where
    "n = Node tag attrs children 0 req"
    "fold_res (attribute_step tag parent (executable_attributes tag parent in_options)) entries [] = Inr attrs"
    "list_all2 (\<lambda>child m. cbor_node child tag in_options = Inr m) kids children"
    "list_all (\<lambda>child. size child < size v) kids"
proof -
  from assms obtain tag attrs kids children req entries c where
      n: "n = Node tag attrs children 0 req"
    and attrs: "fold_res (attribute_step tag parent (executable_attributes tag parent in_options)) entries [] = Inr attrs"
    and kids: "collect (map (\<lambda>child. cbor_node child tag in_options) kids) = Inr children"
    and c: "cbor_field v 2 = Inr c" "cbor_array c = Inr kids"
    by (subst (asm) cbor_node.simps) (auto simp: Let_def)
  have "list_all2 (\<lambda>child m. cbor_node child tag in_options = Inr m) kids children"
    using kids by (auto simp: collect_eq_Inr list_all2_conv_all_nth list_eq_iff_nth_eq)
  moreover have "list_all (\<lambda>child. size child < size v) kids"
    using children_size [OF c] by (simp add: list_all_iff)
  ultimately show ?thesis using that n attrs by blast
qed

lemma cbor_node_ok: "cbor_node v parent in_options = Inr n \<Longrightarrow> node_ok parent in_options n"
proof (induction "size v" arbitrary: v parent n rule: less_induct)
  case less
  from less.prems obtain tag attrs kids children req entries where
      n: "n = Node tag attrs children 0 req"
    and attrs: "fold_res (attribute_step tag parent (executable_attributes tag parent in_options)) entries [] = Inr attrs"
    and kids: "list_all2 (\<lambda>child m. cbor_node child tag in_options = Inr m) kids children"
      "list_all (\<lambda>child. size child < size v) kids"
    by (rule cbor_node_Ok)
  have "attributes_ok (executable_attributes tag parent in_options) attrs"
    by (rule attribute_loop.loop_inv [OF _ _ attrs]) (simp_all add: attributes_ok_def list_all_iff)
  moreover have "list_all (node_ok tag in_options) children"
    using kids less.hyps by (auto simp: list_all_length list_all2_conv_all_nth)
  ultimately show ?case by (simp add: n)
qed

text \<open>
  In a decoded node and in all its descendants every attribute is one that may be executed at
  its place in the tree, appears once, is free of NUL if it is a text, and if it is a number then its
  decimal notation parses back to a number within the bounds of that attribute.
\<close>

theorem decoded_node_attributes:
  "case cbor_node v parent in_options of Inl _ \<Rightarrow> True | Inr n \<Rightarrow> node_ok parent in_options n"
  using cbor_node_ok by (auto split: sum.splits)

end
