(* ===== verification/Include_Graph.thy ===== *)
theory Include_Graph
  imports Cbor_Format "HOL-Library.While_Combinator"
begin

text \<open>
  The check of the include references between profiles, \<open>invalid_reference_profiles\<close> of
  \<^verbatim>\<open>crates/ddccontrol-db-format/src/lib.rs\<close>: a worklist that resolves leaves first. The state
  holds the vectors of the code; the loop is \<^const>\<open>while_option\<close>, so that not ending would be
  \<open>None\<close>. The specification says by rules when a profile is good: all its includes name good
  profiles, and its height (and, for the producer, its number of visits) stays within the limit. The
  loop always ends and finds exactly the good profiles.
\<close>

section \<open>The worklist\<close>

definition MAX_INCLUDE_DEPTH :: nat where "MAX_INCLUDE_DEPTH = 256"

record include_state =
  ig_pending :: "nat list"
  ig_heights :: "nat list"
  ig_visits :: "nat list"
  ig_valid :: "bool list"
  ig_ready :: "nat list"

definition saturating_add :: "nat \<Rightarrow> nat \<Rightarrow> nat" where
  [rust_std]: "saturating_add a b = min (2 ^ 64 - 1) (a + b)"

definition includes_of :: "node \<Rightarrow> node list" where
  "includes_of profile = filter (\<lambda>child. node_tag child = ''include'') (node_children profile)"

text \<open>\<open>indices\<close>: the position of a profile in key order.\<close>

definition index_of :: "(string, node) btree \<Rightarrow> string \<Rightarrow> nat option" where
  "index_of profiles ident = find_position (\<lambda>k. k = ident) (bt_keys profiles)"

definition include_target :: "(string, node) btree \<Rightarrow> node \<Rightarrow> nat option" where
  "include_target profiles inc =
     (case node_attr inc ''file'' of None \<Rightarrow> None | Some ident \<Rightarrow> index_of profiles ident)"

definition add_include :: "nat \<Rightarrow> nat option \<Rightarrow> nat list \<times> nat list list \<Rightarrow> nat list \<times> nat list list" where
  "add_include index target g =
     (case g of (pending, parents) \<Rightarrow>
        (pending[index := pending ! index + 1],
         case target of Some t \<Rightarrow> parents[t := parents ! t @ [index]] | None \<Rightarrow> parents))"

definition include_edges :: "nat option list list \<Rightarrow> nat list \<times> nat list list" where
  "include_edges succ =
     fold (\<lambda>(index, targets) g. fold (add_include index) targets g) (enumerate 0 succ)
       (replicate (length succ) 0, replicate (length succ) [])"

definition visit_parent :: "nat \<Rightarrow> nat \<Rightarrow> include_state \<Rightarrow> include_state" where
  "visit_parent index parent st =
     (let heights = (ig_heights st)[parent := max (ig_heights st ! parent) (ig_heights st ! index + 1)];
          visits = (ig_visits st)[parent := saturating_add (ig_visits st ! parent) (ig_visits st ! index)];
          pending = (ig_pending st)[parent := ig_pending st ! parent - 1]
      in st\<lparr>ig_heights := heights, ig_visits := visits, ig_pending := pending,
            ig_ready := (if pending ! parent = 0 then ig_ready st @ [parent] else ig_ready st)\<rparr>)"

definition include_step :: "bool \<Rightarrow> nat list list \<Rightarrow> include_state \<Rightarrow> include_state" where
  "include_step bound_visits parents st =
     (let index = last (ig_ready st);
          st = st\<lparr>ig_ready := butlast (ig_ready st)\<rparr>
      in if ig_heights st ! index > MAX_INCLUDE_DEPTH
            \<or> (bound_visits \<and> ig_visits st ! index > MAX_CONTAINER)
         then st
         else fold (visit_parent index) (parents ! index)
                (st\<lparr>ig_valid := (ig_valid st)[index := True]\<rparr>))"

definition include_start :: "nat list \<Rightarrow> include_state" where
  "include_start pending =
     \<lparr>ig_pending = pending, ig_heights = replicate (length pending) 1,
      ig_visits = replicate (length pending) 1, ig_valid = replicate (length pending) False,
      ig_ready = map fst (filter (\<lambda>(_, count). count = 0) (enumerate 0 pending))\<rparr>"

definition include_loop :: "bool \<Rightarrow> nat list list \<Rightarrow> include_state \<Rightarrow> include_state option" where
  "include_loop bound_visits parents st =
     while_option (\<lambda>st. ig_ready st \<noteq> []) (include_step bound_visits parents) st"

definition invalid_reference_profiles :: "(string, node) btree \<Rightarrow> bool \<Rightarrow> string list option" where
  "invalid_reference_profiles profiles bound_visits =
     (let succ = map (\<lambda>(_, profile). map (include_target profiles) (includes_of profile)) profiles
      in case include_edges succ of (pending, parents) \<Rightarrow>
           map_option
             (\<lambda>st. map fst (filter (\<lambda>(_, ok). \<not> ok) (zip (bt_keys profiles) (ig_valid st))))
             (include_loop bound_visits parents (include_start pending)))"

section \<open>The edges\<close>

text \<open>
  After the edges are built, \<open>pending\<close> counts the includes of a profile and \<open>parents\<close> lists
  each profile once per include that names it.
\<close>

lemma add_includes:
  assumes "index < length pending" and "\<forall>t. Some t \<in> set targets \<longrightarrow> t < length parents"
    and "fold (add_include index) targets (pending, parents) = (pending', parents')"
  shows "length pending' = length pending \<and> length parents' = length parents
    \<and> (\<forall>i<length pending. pending' ! i = pending ! i + (if i = index then length targets else 0))
    \<and> (\<forall>j<length parents. parents' ! j = parents ! j @ replicate (count_list targets (Some j)) index)"
  using assms
proof (induction targets arbitrary: pending parents)
  case (Cons t ts)
  let ?p = "pending[index := pending ! index + 1]"
  let ?q = "case t of Some t \<Rightarrow> parents[t := parents ! t @ [index]] | None \<Rightarrow> parents"
  have "fold (add_include index) ts (?p, ?q) = (pending', parents')"
    using Cons.prems(3) by (simp add: add_include_def [of index t])
  then have IH: "length pending' = length ?p \<and> length parents' = length ?q
    \<and> (\<forall>i<length ?p. pending' ! i = ?p ! i + (if i = index then length ts else 0))
    \<and> (\<forall>j<length ?q. parents' ! j = ?q ! j @ replicate (count_list ts (Some j)) index)"
    using Cons.prems(1,2) by (intro Cons.IH) (auto split: option.splits)
  have "?q ! j @ replicate (count_list ts (Some j)) index
      = parents ! j @ replicate (count_list (t # ts) (Some j)) index" if "j < length parents" for j
    using that Cons.prems(2) by (auto simp: nth_list_update split: option.splits)
  with IH Cons.prems(1) show ?case by (auto simp: nth_list_update split: option.splits)
qed simp

lemma include_edges_upto:
  assumes "\<forall>ts\<in>set succ. \<forall>t. Some t \<in> set ts \<longrightarrow> t < n" and "k + length succ \<le> n"
    and "length pending = n" "length parents = n"
    and "fold (\<lambda>(index, targets) g. fold (add_include index) targets g) (enumerate k succ) (pending, parents) = (pending', parents')"
  shows "length pending' = n \<and> length parents' = n
    \<and> (\<forall>i<n. pending' ! i = pending ! i + (if k \<le> i \<and> i < k + length succ then length (succ ! (i - k)) else 0))
    \<and> (\<forall>j<n. parents' ! j = parents ! j @ concat (map (\<lambda>i. replicate (count_list (succ ! i) (Some j)) (k + i)) [0..<length succ]))"
  using assms
proof (induction succ arbitrary: k pending parents)
  case (Cons ts succ)
  obtain p q where pq: "fold (add_include k) ts (pending, parents) = (p, q)" by fastforce
  have 1: "length p = n \<and> length q = n
    \<and> (\<forall>i<n. p ! i = pending ! i + (if i = k then length ts else 0))
    \<and> (\<forall>j<n. q ! j = parents ! j @ replicate (count_list ts (Some j)) k)"
    using add_includes [OF _ _ pq] Cons.prems by auto
  have "length pending' = n \<and> length parents' = n
    \<and> (\<forall>i<n. pending' ! i = p ! i + (if Suc k \<le> i \<and> i < Suc k + length succ then length (succ ! (i - Suc k)) else 0))
    \<and> (\<forall>j<n. parents' ! j = q ! j @ concat (map (\<lambda>i. replicate (count_list (succ ! i) (Some j)) (Suc k + i)) [0..<length succ]))"
    using Cons.prems 1 pq by (intro Cons.IH) auto
  moreover have "concat (map (\<lambda>i. replicate (count_list ((ts # succ) ! i) (Some j)) (k + i)) [0..<length (ts # succ)])
      = replicate (count_list ts (Some j)) k
        @ concat (map (\<lambda>i. replicate (count_list (succ ! i) (Some j)) (Suc k + i)) [0..<length succ])" for j
    by (simp add: upt_conv_Cons map_Suc_upt [symmetric] comp_def del: upt_Suc)
  ultimately show ?case using 1 by (auto simp: nth_Cons')
qed auto


lemma count_concat_replicate:
  "count_list (concat (map (\<lambda>i. replicate (f i) i) [0..<n])) i = (if i < n then f i else 0)"
proof (induction n)
  case (Suc n)
  have "count_list (replicate m a) i = (if a = i then m else 0)" for m and a :: nat
    by (induction m) auto
  with Suc show ?case by auto
qed simp

definition graph_ok :: "nat option list list \<Rightarrow> bool" where
  "graph_ok succ \<longleftrightarrow> (\<forall>ts\<in>set succ. \<forall>t. Some t \<in> set ts \<longrightarrow> t < length succ)"

lemma include_edges_correct:
  assumes "graph_ok succ" and "include_edges succ = (pending, parents)"
  shows "length pending = length succ" and "length parents = length succ"
    and "i < length succ \<Longrightarrow> pending ! i = length (succ ! i)"
    and "j < length succ \<Longrightarrow> count_list (parents ! j) i = (if i < length succ then count_list (succ ! i) (Some j) else 0)"
  using include_edges_upto [of succ "length succ" 0 "replicate (length succ) 0" "replicate (length succ) []" pending parents]
    assms by (auto simp: graph_ok_def include_edges_def count_concat_replicate)

section \<open>Good profiles\<close>

inductive good_index :: "nat option list list \<Rightarrow> bool \<Rightarrow> nat \<Rightarrow> nat \<Rightarrow> nat \<Rightarrow> bool"
  for succ :: "nat option list list" and bound_visits :: bool where
  good_indexI: "i < length succ
    \<Longrightarrow> list_all2 (\<lambda>t (h, v). \<exists>j. t = Some j \<and> good_index succ bound_visits j h v) (succ ! i) subs
    \<Longrightarrow> height = Max (insert 1 ((\<lambda>(h, _). h + 1) ` set subs))
    \<Longrightarrow> visits = min (2 ^ 64 - 1) (1 + sum_list (map snd subs))
    \<Longrightarrow> height \<le> MAX_INCLUDE_DEPTH \<Longrightarrow> \<not> bound_visits \<or> visits \<le> MAX_CONTAINER
    \<Longrightarrow> good_index succ bound_visits i height visits"

inductive_cases good_indexE: "good_index succ bound_visits i height visits"

text \<open>Rules determine height and visits.\<close>

lemma good_index_unique:
  "good_index succ b i h v \<Longrightarrow> good_index succ b i h' v' \<Longrightarrow> h' = h \<and> v' = v"
proof (induction arbitrary: h' v' rule: good_index.induct)
  case (good_indexI i subs height visits)
  from good_indexI.prems obtain subs' where
      s': "list_all2 (\<lambda>t (h, v). \<exists>j. t = Some j \<and> good_index succ b j h v) (succ ! i) subs'"
    and h': "h' = Max (insert 1 ((\<lambda>(h, _). h + 1) ` set subs'))"
      "v' = min (2 ^ 64 - 1) (1 + sum_list (map snd subs'))"
    by (auto elim: good_indexE)
  have "subs' = subs"
  proof (rule nth_equalityI)
    show len: "length subs' = length subs"
      using s' good_indexI.IH by (auto dest!: list_all2_lengthD)
    fix k assume k: "k < length subs'"
    obtain h v h2 v2 where e: "subs ! k = (h, v)" "subs' ! k = (h2, v2)" by fastforce
    have "k < length subs" using k len by simp
    from list_all2_nthD2 [OF good_indexI.IH this] obtain j where
      j: "succ ! i ! k = Some j" "\<forall>h' v'. good_index succ b j h' v' \<longrightarrow> h' = h \<and> v' = v"
      by (simp only: e prod.case) blast
    moreover from list_all2_nthD2 [OF s' k] e j(1) have "good_index succ b j h2 v2" by simp
    ultimately show "subs' ! k = subs ! k" by (simp add: e)
  qed
  with h' good_indexI.hyps(2,3) show ?case by simp
qed

section \<open>One visit\<close>

abbreviation sat_max :: nat where "sat_max \<equiv> 2 ^ 64 - 1"

definition sized :: "nat \<Rightarrow> include_state \<Rightarrow> bool" where
  "sized n st \<longleftrightarrow> length (ig_pending st) = n \<and> length (ig_heights st) = n
     \<and> length (ig_visits st) = n \<and> length (ig_valid st) = n"

text \<open>The effect of going through the parents \<open>ps\<close> of a profile with height \<open>H\<close> and visits \<open>V\<close>.\<close>

definition visited :: "nat \<Rightarrow> nat \<Rightarrow> nat \<Rightarrow> nat list \<Rightarrow> include_state \<Rightarrow> include_state \<Rightarrow> bool" where
  "visited n H V ps st st' \<longleftrightarrow> sized n st' \<and> ig_valid st' = ig_valid st
     \<and> (\<forall>i<n. ig_pending st' ! i = ig_pending st ! i - count_list ps i)
     \<and> (\<forall>i<n. ig_heights st' ! i = (if i \<in> set ps then max (ig_heights st ! i) (H + 1) else ig_heights st ! i))
     \<and> (\<forall>i<n. ig_visits st' ! i = (if i \<in> set ps then min sat_max (ig_visits st ! i + count_list ps i * V) else ig_visits st ! i))
     \<and> (\<exists>new. ig_ready st' = ig_ready st @ new \<and> distinct new
          \<and> set new = {i \<in> set ps. ig_pending st ! i = count_list ps i})"

lemma visit_parents:
  assumes "sized n st" and "set ps \<subseteq> {..<n}" and "index \<notin> set ps" and "index < n"
    and "\<forall>i<n. count_list ps i \<le> ig_pending st ! i"
    and "ig_heights st ! index = H" "ig_visits st ! index = V"
  shows "visited n H V ps st (fold (visit_parent index) ps st)"
  using assms
proof (induction ps arbitrary: st)
  case Nil
  then show ?case by (simp add: visited_def)
next
  case (Cons p ps)
  let ?st = "visit_parent index p st"
  have p: "p < n" "p \<noteq> index" using Cons.prems(2,3) by auto
  have st1: "sized n ?st" "ig_valid ?st = ig_valid st"
    "ig_pending ?st = (ig_pending st)[p := ig_pending st ! p - 1]"
    "ig_heights ?st = (ig_heights st)[p := max (ig_heights st ! p) (H + 1)]"
    "ig_visits ?st = (ig_visits st)[p := min sat_max (ig_visits st ! p + V)]"
    "ig_ready ?st = (if ig_pending st ! p - 1 = 0 then ig_ready st @ [p] else ig_ready st)"
    using Cons.prems(1,6,7) p by (auto simp: visit_parent_def Let_def sized_def saturating_add_def)
  have len: "length (ig_pending st) = n" "length (ig_heights st) = n" "length (ig_visits st) = n"
    using Cons.prems(1) by (auto simp: sized_def)
  have ge: "1 + count_list ps p \<le> ig_pending st ! p" using Cons.prems(5) p(1) by force
  have "visited n H V ps ?st (fold (visit_parent index) ps ?st)"
  proof (rule Cons.IH)
    show "\<forall>i<n. count_list ps i \<le> ig_pending ?st ! i"
      using Cons.prems(5) ge p(1) by (auto simp: st1 nth_list_update len)
    show "ig_heights ?st ! index = H" "ig_visits ?st ! index = V"
      using Cons.prems(6,7) p by (simp_all add: st1)
  qed (use Cons.prems st1(1) in auto)
  then obtain new where v: "sized n (fold (visit_parent index) ps ?st)"
      "ig_valid (fold (visit_parent index) ps ?st) = ig_valid ?st"
      "\<forall>i<n. ig_pending (fold (visit_parent index) ps ?st) ! i = ig_pending ?st ! i - count_list ps i"
      "\<forall>i<n. ig_heights (fold (visit_parent index) ps ?st) ! i
         = (if i \<in> set ps then max (ig_heights ?st ! i) (H + 1) else ig_heights ?st ! i)"
      "\<forall>i<n. ig_visits (fold (visit_parent index) ps ?st) ! i
         = (if i \<in> set ps then min sat_max (ig_visits ?st ! i + count_list ps i * V) else ig_visits ?st ! i)"
    and new: "ig_ready (fold (visit_parent index) ps ?st) = ig_ready ?st @ new" "distinct new"
      "set new = {i \<in> set ps. ig_pending ?st ! i = count_list ps i}"
    unfolding visited_def by blast
  let ?new = "(if ig_pending st ! p - 1 = 0 then [p] else []) @ new"
  have "ig_ready (fold (visit_parent index) (p # ps) st) = ig_ready st @ ?new"
    using new(1) by (simp add: st1(6))
  moreover have "distinct ?new" using new(2,3) ge count_list_0_iff [of ps p] by (auto simp: st1(3) len p)
  moreover have "set ?new = {i \<in> set (p # ps). ig_pending st ! i = count_list (p # ps) i}"
  proof -
    have "ig_pending ?st ! i = count_list ps i \<longleftrightarrow> ig_pending st ! i = count_list (p # ps) i" for i
      using ge p by (cases "i = p") (auto simp: st1(3) len)
    moreover have "ig_pending st ! p - 1 = 0 \<Longrightarrow> count_list ps p = 0" using ge by simp
    moreover have "ig_pending st ! p = 1 + count_list ps p \<Longrightarrow> p \<notin> set ps \<Longrightarrow> ig_pending st ! p - 1 = 0"
      by simp
    ultimately show ?thesis using new(3) ge by auto
  qed
  ultimately have ready: "\<exists>new. ig_ready (fold (visit_parent index) (p # ps) st) = ig_ready st @ new \<and> distinct new
      \<and> set new = {i \<in> set (p # ps). ig_pending st ! i = count_list (p # ps) i}" by blast
  have "\<forall>i<n. ig_pending (fold (visit_parent index) (p # ps) st) ! i = ig_pending st ! i - count_list (p # ps) i"
    using v(3) p by (auto simp: st1(3) nth_list_update len)
  moreover have "\<forall>i<n. ig_heights (fold (visit_parent index) (p # ps) st) ! i
      = (if i \<in> set (p # ps) then max (ig_heights st ! i) (H + 1) else ig_heights st ! i)"
    using v(4) p by (auto simp: st1(4) nth_list_update len)
  moreover have "\<forall>i<n. ig_visits (fold (visit_parent index) (p # ps) st) ! i
      = (if i \<in> set (p # ps) then min sat_max (ig_visits st ! i + count_list (p # ps) i * V) else ig_visits st ! i)"
    using v(5) p by (auto simp: st1(5) nth_list_update len)
  ultimately show ?case using v(1,2) st1(2) ready unfolding visited_def by simp
qed

section \<open>The invariant of the worklist\<close>

definition resolved :: "nat set \<Rightarrow> nat option \<Rightarrow> bool" where
  "resolved D t \<longleftrightarrow> (\<exists>j\<in>D. t = Some j)"

definition open_count :: "nat set \<Rightarrow> nat option list \<Rightarrow> nat" where
  "open_count D ts = length (filter (\<lambda>t. \<not> resolved D t) ts)"

definition visit_sum :: "nat set \<Rightarrow> nat list \<Rightarrow> nat option list \<Rightarrow> nat" where
  "visit_sum D vs ts = sum_list (map (\<lambda>t. if resolved D t then vs ! the t else 0) ts)"

definition top_height :: "nat set \<Rightarrow> nat list \<Rightarrow> nat option list \<Rightarrow> nat" where
  "top_height D hs ts = Max (insert 1 ((\<lambda>j. hs ! j + 1) ` {j \<in> D. Some j \<in> set ts}))"

definition done_set :: "include_state \<Rightarrow> nat set" where
  "done_set st = {j. j < length (ig_valid st) \<and> ig_valid st ! j}"

definition rejected :: "bool \<Rightarrow> include_state \<Rightarrow> nat \<Rightarrow> bool" where
  "rejected b st i \<longleftrightarrow> ig_heights st ! i > MAX_INCLUDE_DEPTH \<or> b \<and> ig_visits st ! i > MAX_CONTAINER"

definition include_inv :: "nat option list list \<Rightarrow> bool \<Rightarrow> include_state \<Rightarrow> bool" where
  "include_inv succ b st \<longleftrightarrow>
     sized (length succ) st
     \<and> distinct (ig_ready st) \<and> (\<forall>i\<in>set (ig_ready st). i < length succ \<and> i \<notin> done_set st \<and> ig_pending st ! i = 0)
     \<and> (\<forall>i<length succ. ig_pending st ! i = open_count (done_set st) (succ ! i))
     \<and> (\<forall>i<length succ. ig_heights st ! i = top_height (done_set st) (ig_heights st) (succ ! i))
     \<and> (\<forall>i<length succ. ig_visits st ! i = min sat_max (1 + visit_sum (done_set st) (ig_visits st) (succ ! i)))
     \<and> (\<forall>j\<in>done_set st. ig_pending st ! j = 0 \<and> good_index succ b j (ig_heights st ! j) (ig_visits st ! j))
     \<and> (\<forall>i<length succ. ig_pending st ! i = 0 \<and> i \<notin> done_set st \<and> i \<notin> set (ig_ready st) \<longrightarrow> rejected b st i)"

lemma open_count_zero: "open_count D ts = 0 \<longleftrightarrow> (\<forall>t\<in>set ts. resolved D t)"
  by (auto simp: open_count_def filter_empty_conv)

lemma open_count_insert:
  "j \<notin> D \<Longrightarrow> open_count D ts = open_count (insert j D) ts + count_list ts (Some j)"
  by (induction ts) (auto simp: open_count_def resolved_def)

lemma visit_sum_insert:
  "j \<notin> D \<Longrightarrow> (\<And>k. k \<in> insert j D \<Longrightarrow> vs' ! k = vs ! k)
     \<Longrightarrow> visit_sum (insert j D) vs' ts = visit_sum D vs ts + count_list ts (Some j) * vs ! j"
  by (induction ts) (auto simp: visit_sum_def resolved_def)

lemma finite_done [simp]: "finite {j \<in> done_set st. P j}"
  by (simp add: done_set_def)

lemma top_height_insert:
  assumes "finite D" and "\<And>k. k \<in> insert j D \<Longrightarrow> hs' ! k = hs ! k"
  shows "top_height (insert j D) hs' ts
    = (if Some j \<in> set ts then max (top_height D hs ts) (hs ! j + 1) else top_height D hs ts)"
proof -
  let ?f = "\<lambda>hs k. hs ! k + 1 :: nat"
  let ?A = "{k \<in> D. Some k \<in> set ts}"
  have same: "?f hs' ` B = ?f hs ` B" if "B \<subseteq> insert j D" for B
    using assms(2) that by (intro image_cong) auto
  show ?thesis
  proof (cases "Some j \<in> set ts")
    case True
    then have "{k \<in> insert j D. Some k \<in> set ts} = insert j ?A" by auto
    moreover have "?f hs' ` insert j ?A = insert (hs ! j + 1) (?f hs ` ?A)"
      by (subst same) auto
    ultimately have "top_height (insert j D) hs' ts = Max (insert (hs ! j + 1) (insert 1 (?f hs ` ?A)))"
      by (simp add: top_height_def insert_commute)
    then show ?thesis using True assms(1) by (simp add: top_height_def max.commute max.left_commute)
  next
    case False
    then have "{k \<in> insert j D. Some k \<in> set ts} = ?A" by auto
    moreover have "?f hs' ` ?A = ?f hs ` ?A" by (rule same) auto
    ultimately show ?thesis using False by (simp add: top_height_def)
  qed
qed

text \<open>The values of a profile whose includes are all resolved; it is good unless it is rejected.\<close>

definition include_values :: "include_state \<Rightarrow> nat option list \<Rightarrow> (nat \<times> nat) list" where
  "include_values st ts = map (\<lambda>t. (ig_heights st ! the t, ig_visits st ! the t)) ts"

lemma inv_values:
  assumes inv: "include_inv succ b st" and i: "i < length succ" "ig_pending st ! i = 0"
  defines "subs \<equiv> include_values st (succ ! i)"
  shows "list_all2 (\<lambda>t (h, v). \<exists>j. t = Some j \<and> good_index succ b j h v) (succ ! i) subs"
    and "ig_heights st ! i = Max (insert 1 ((\<lambda>(h, _). h + 1) ` set subs))"
    and "ig_visits st ! i = min sat_max (1 + sum_list (map snd subs))"
proof -
  let ?D = "done_set st" and ?ts = "succ ! i"
  have res: "\<forall>t\<in>set ?ts. resolved ?D t"
    using inv i by (simp add: include_inv_def open_count_zero)
  have good: "\<forall>j\<in>?D. good_index succ b j (ig_heights st ! j) (ig_visits st ! j)"
    using inv by (simp add: include_inv_def)
  show "list_all2 (\<lambda>t (h, v). \<exists>j. t = Some j \<and> good_index succ b j h v) ?ts subs"
    unfolding subs_def include_values_def list.rel_map
    by (rule list.rel_refl_strong) (use res good in \<open>auto simp: resolved_def\<close>)
  have "(\<lambda>(h, _). h + 1) ` set subs = (\<lambda>j. ig_heights st ! j + 1) ` {j \<in> ?D. Some j \<in> set ?ts}"
    using res by (force simp: subs_def include_values_def resolved_def image_iff)
  then show "ig_heights st ! i = Max (insert 1 ((\<lambda>(h, _). h + 1) ` set subs))"
    using inv i(1) by (simp add: include_inv_def top_height_def)
  have "visit_sum ?D (ig_visits st) ?ts = sum_list (map snd subs)"
    unfolding visit_sum_def subs_def include_values_def map_map
    by (rule arg_cong [where f = sum_list]) (use res in auto)
  then show "ig_visits st ! i = min sat_max (1 + sum_list (map snd subs))"
    using inv i(1) by (simp add: include_inv_def)
qed

lemma inv_good:
  assumes "include_inv succ b st" and "i < length succ" "ig_pending st ! i = 0" and "\<not> rejected b st i"
  shows "good_index succ b i (ig_heights st ! i) (ig_visits st ! i)"
  using inv_values [OF assms(1-3)] assms(2,4) by (intro good_indexI) (auto simp: rejected_def not_less)

text \<open>What one step does to a state that satisfies the invariant.\<close>

definition open_profiles :: "include_state \<Rightarrow> nat set" where
  "open_profiles st = {i. i < length (ig_pending st) \<and> ig_pending st ! i \<noteq> 0}"

definition include_measure :: "include_state \<Rightarrow> nat" where
  "include_measure st = card (open_profiles st) + length (ig_ready st)"

lemma step_skip:
  assumes inv: "include_inv succ b st" and ready: "ig_ready st = rs @ [index]" and "rejected b st index"
  shows "include_inv succ b (st\<lparr>ig_ready := rs\<rparr>)"
proof -
  have r: "rejected b (st\<lparr>ig_ready := rs\<rparr>) i = rejected b st i" for i by (simp add: rejected_def)
  have d: "done_set (st\<lparr>ig_ready := rs\<rparr>) = done_set st" by (simp add: done_set_def)
  show ?thesis
    using inv assms(3) unfolding include_inv_def sized_def r d ready by auto
qed

lemma parents_of_ready:
  assumes inv: "include_inv succ b st" and ready: "ig_ready st = rs @ [index]"
    and edges: "graph_ok succ" "include_edges succ = (pending, parents)"
  defines "ps \<equiv> parents ! index"
  shows "index < length succ" and "index \<notin> done_set st" and "ig_pending st ! index = 0"
    and "set ps \<subseteq> {..<length succ}" and "i < length succ \<Longrightarrow> count_list ps i = count_list (succ ! i) (Some index)"
    and "i < length succ \<Longrightarrow> i \<in> set ps \<longleftrightarrow> Some index \<in> set (succ ! i)"
    and "i < length succ \<Longrightarrow> open_count (done_set st) (succ ! i) = open_count (insert index (done_set st)) (succ ! i) + count_list ps i"
    and "j \<in> insert index (done_set st) \<Longrightarrow> j \<notin> set ps"
proof -
  have "index \<in> set (ig_ready st)" by (simp add: ready)
  then show i: "index < length succ" "index \<notin> done_set st" "ig_pending st ! index = 0"
    using inv by (auto simp: include_inv_def)
  note count = include_edges_correct(4) [OF edges i(1), folded ps_def]
  show "set ps \<subseteq> {..<length succ}"
  proof
    fix x assume "x \<in> set ps"
    then have "count_list ps x \<noteq> 0" by (simp add: count_list_0_iff)
    then show "x \<in> {..<length succ}" using count [of x] by (auto split: if_splits)
  qed
  show c: "count_list ps i = count_list (succ ! i) (Some index)" if "i < length succ" for i
    using count that by simp
  show m: "i \<in> set ps \<longleftrightarrow> Some index \<in> set (succ ! i)" if "i < length succ" for i
    using c [OF that] count_list_0_iff by metis
  show "open_count (done_set st) (succ ! i) = open_count (insert index (done_set st)) (succ ! i) + count_list ps i"
    if "i < length succ" for i
    using open_count_insert [OF i(2)] c [OF that] by simp
  show "j \<notin> set ps" if "j \<in> insert index (done_set st)" for j
  proof -
    have j: "j < length succ" "ig_pending st ! j = 0"
      using that inv i by (auto simp: include_inv_def done_set_def sized_def)
    then have "open_count (done_set st) (succ ! j) = 0" using inv by (simp add: include_inv_def)
    with i(2) have "Some index \<notin> set (succ ! j)" by (auto simp: open_count_zero resolved_def)
    with m j(1) show ?thesis by simp
  qed
qed

definition stepped :: "nat \<Rightarrow> nat \<Rightarrow> nat list \<Rightarrow> nat list \<Rightarrow> nat list \<Rightarrow> include_state \<Rightarrow> include_state \<Rightarrow> bool" where
  "stepped n index ps rs new st st' \<longleftrightarrow>
     sized n st' \<and> ig_valid st' = (ig_valid st)[index := True]
     \<and> (\<forall>i<n. ig_pending st' ! i = ig_pending st ! i - count_list ps i)
     \<and> (\<forall>i<n. ig_heights st' ! i
          = (if i \<in> set ps then max (ig_heights st ! i) (ig_heights st ! index + 1) else ig_heights st ! i))
     \<and> (\<forall>i<n. ig_visits st' ! i
          = (if i \<in> set ps then min sat_max (ig_visits st ! i + count_list ps i * ig_visits st ! index) else ig_visits st ! i))
     \<and> ig_ready st' = rs @ new \<and> distinct new \<and> set new = {i \<in> set ps. ig_pending st ! i = count_list ps i}"

lemma step_effect:
  assumes inv: "include_inv succ b st" and ready: "ig_ready st = rs @ [index]"
    and edges: "graph_ok succ" "include_edges succ = (pending, parents)"
  defines "st1 \<equiv> st\<lparr>ig_ready := rs, ig_valid := (ig_valid st)[index := True]\<rparr>"
  obtains new where "stepped (length succ) index (parents ! index) rs new st (fold (visit_parent index) (parents ! index) st1)"
proof -
  let ?ps = "parents ! index"
  note par = parents_of_ready [OF inv ready edges]
  have st1: "ig_pending st1 = ig_pending st" "ig_heights st1 = ig_heights st" "ig_visits st1 = ig_visits st"
    "ig_valid st1 = (ig_valid st)[index := True]" "ig_ready st1 = rs" by (simp_all add: st1_def)
  have "sized (length succ) st1" using inv by (simp add: include_inv_def sized_def st1)
  moreover have "\<forall>i<length succ. count_list ?ps i \<le> ig_pending st1 ! i"
    using inv par(7) by (auto simp: st1 include_inv_def)
  ultimately have "visited (length succ) (ig_heights st ! index) (ig_visits st ! index) ?ps st1 (fold (visit_parent index) ?ps st1)"
    using par(1,4) par(8) [of index] by (intro visit_parents) (simp_all add: st1)
  then show ?thesis using that unfolding visited_def stepped_def st1 by blast
qed

lemma stepped_done:
  assumes inv: "include_inv succ b st" and ready: "ig_ready st = rs @ [index]"
    and edges: "graph_ok succ" "include_edges succ = (pending, parents)"
    and st': "stepped (length succ) index (parents ! index) rs new st st'"
  shows "done_set st' = insert index (done_set st)"
    and "j \<in> insert index (done_set st) \<Longrightarrow> j < length succ"
    and "j \<in> insert index (done_set st) \<Longrightarrow> ig_heights st' ! j = ig_heights st ! j"
    and "j \<in> insert index (done_set st) \<Longrightarrow> ig_visits st' ! j = ig_visits st ! j"
    and "i < length succ \<Longrightarrow> ig_pending st' ! i = open_count (insert index (done_set st)) (succ ! i)"
proof -
  note par = parents_of_ready [OF inv ready edges]
  have I: "sized (length succ) st" "\<forall>i<length succ. ig_pending st ! i = open_count (done_set st) (succ ! i)"
    using inv unfolding include_inv_def by blast+
  show "done_set st' = insert index (done_set st)"
    using I(1) par(1) st' by (auto simp: done_set_def stepped_def sized_def nth_list_update)
  show n: "j < length succ" if "j \<in> insert index (done_set st)" for j
    using that par(1) I(1) by (auto simp: done_set_def sized_def)
  show "ig_heights st' ! j = ig_heights st ! j" "ig_visits st' ! j = ig_visits st ! j" if "j \<in> insert index (done_set st)"
    using st' n [OF that] par(8) [OF that] by (simp_all add: stepped_def)
  show "ig_pending st' ! i = open_count (insert index (done_set st)) (succ ! i)" if "i < length succ"
    using st' I(2) par(7) [OF that] that by (simp add: stepped_def)
qed

lemma stepped_values:
  assumes inv: "include_inv succ b st" and ready: "ig_ready st = rs @ [index]"
    and edges: "graph_ok succ" "include_edges succ = (pending, parents)"
    and st': "stepped (length succ) index (parents ! index) rs new st st'"
    and i: "i < length succ"
  shows "ig_heights st' ! i = top_height (insert index (done_set st)) (ig_heights st') (succ ! i)"
    and "ig_visits st' ! i = min sat_max (1 + visit_sum (insert index (done_set st)) (ig_visits st') (succ ! i))"
proof -
  let ?D = "done_set st" and ?ps = "parents ! index"
  note par = parents_of_ready [OF inv ready edges] and d = stepped_done [OF inv ready edges st']
  have "top_height (insert index ?D) (ig_heights st') (succ ! i)
      = (if Some index \<in> set (succ ! i) then max (top_height ?D (ig_heights st) (succ ! i)) (ig_heights st ! index + 1)
         else top_height ?D (ig_heights st) (succ ! i))"
    by (rule top_height_insert) (use d(3) in \<open>auto simp: done_set_def\<close>)
  with st' inv par(6) [OF i] i
  show "ig_heights st' ! i = top_height (insert index ?D) (ig_heights st') (succ ! i)"
    by (simp add: stepped_def include_inv_def)
  have "visit_sum (insert index ?D) (ig_visits st') (succ ! i)
      = visit_sum ?D (ig_visits st) (succ ! i) + count_list ?ps i * ig_visits st ! index"
    using visit_sum_insert [OF par(2), of "ig_visits st'" "ig_visits st"] d(4) par(5) [OF i] by simp
  moreover have "i \<notin> set ?ps \<Longrightarrow> count_list ?ps i = 0" by (simp add: count_list_0_iff)
  moreover have "ig_visits st ! i = min sat_max (1 + visit_sum ?D (ig_visits st) (succ ! i))"
    using inv i by (simp add: include_inv_def)
  ultimately show "ig_visits st' ! i = min sat_max (1 + visit_sum (insert index ?D) (ig_visits st') (succ ! i))"
    using st' i by (auto simp: stepped_def min_def)
qed

lemma stepped_ready:
  assumes inv: "include_inv succ b st" and ready: "ig_ready st = rs @ [index]"
    and edges: "graph_ok succ" "include_edges succ = (pending, parents)"
    and st': "stepped (length succ) index (parents ! index) rs new st st'"
  shows "i \<in> set new \<Longrightarrow> i \<notin> insert index (done_set st) \<and> i < length succ \<and> ig_pending st' ! i = 0 \<and> ig_pending st ! i \<noteq> 0"
    and "distinct (rs @ new)"
    and "i \<in> set (rs @ new) \<Longrightarrow> i < length succ \<and> i \<notin> insert index (done_set st) \<and> ig_pending st' ! i = 0"
    and "i < length succ \<Longrightarrow> ig_pending st' ! i = 0 \<Longrightarrow> i \<notin> insert index (done_set st) \<Longrightarrow> i \<notin> set (rs @ new)
      \<Longrightarrow> rejected b st' i"
proof -
  let ?ps = "parents ! index"
  note par = parents_of_ready [OF inv ready edges]
  have I: "distinct (ig_ready st)" "\<forall>i\<in>set (ig_ready st). i < length succ \<and> i \<notin> done_set st \<and> ig_pending st ! i = 0"
      "\<forall>i<length succ. ig_pending st ! i = open_count (done_set st) (succ ! i)"
      "\<forall>i<length succ. ig_pending st ! i = 0 \<and> i \<notin> done_set st \<and> i \<notin> set (ig_ready st) \<longrightarrow> rejected b st i"
    using inv unfolding include_inv_def by blast+
  have v: "\<forall>i<length succ. ig_pending st' ! i = ig_pending st ! i - count_list ?ps i" "distinct new"
      "set new = {i \<in> set ?ps. ig_pending st ! i = count_list ?ps i}"
    using st' unfolding stepped_def by blast+
  have pos: "0 < count_list ?ps i" if "i \<in> set ?ps" for i
    using that count_list_0_iff [of ?ps i] by auto
  show new: "i \<notin> insert index (done_set st) \<and> i < length succ \<and> ig_pending st' ! i = 0 \<and> ig_pending st ! i \<noteq> 0"
    if "i \<in> set new" for i
  proof -
    have i: "i \<in> set ?ps" "ig_pending st ! i = count_list ?ps i" using that v(3) by auto
    then have "i < length succ" "i \<notin> insert index (done_set st)" using par(4) par(8) [of i] by blast+
    with i pos [OF i(1)] v(1) show ?thesis by simp
  qed
  have "set rs \<inter> set new = {}" using I(2) new by (fastforce simp: ready)
  then show "distinct (rs @ new)" using I(1) v(2) by (simp add: ready)
  show "i < length succ \<and> i \<notin> insert index (done_set st) \<and> ig_pending st' ! i = 0" if "i \<in> set (rs @ new)"
    using I(1,2) new [of i] v(1) that by (auto simp: ready)
  show "rejected b st' i"
    if "i < length succ" "ig_pending st' ! i = 0" "i \<notin> insert index (done_set st)" "i \<notin> set (rs @ new)"
  proof -
    have "i \<notin> set ?ps" using that v I(3) par(7) [OF that(1)] by auto
    then have "rejected b st i" "rejected b st' i = rejected b st i"
      using that v(1) I(4) ready st' by (auto simp: rejected_def count_list_0_iff stepped_def)
    then show ?thesis by simp
  qed
qed

lemma stepped_measure:
  assumes inv: "include_inv succ b st" and ready: "ig_ready st = rs @ [index]"
    and edges: "graph_ok succ" "include_edges succ = (pending, parents)"
    and st': "stepped (length succ) index (parents ! index) rs new st st'"
  shows "include_measure st' < include_measure st"
proof -
  note new = stepped_ready(1) [OF inv ready edges st']
  have sized: "sized (length succ) st" "sized (length succ) st'"
    and v: "\<forall>i<length succ. ig_pending st' ! i = ig_pending st ! i - count_list (parents ! index) i"
      "ig_ready st' = rs @ new" "distinct new"
    using inv st' by (auto simp: include_inv_def stepped_def)
  have "open_profiles st' \<subseteq> open_profiles st - set new"
    using v(1) sized new by (auto simp: open_profiles_def sized_def)
  moreover have "set new \<subseteq> open_profiles st"
    using sized new by (auto simp: open_profiles_def sized_def)
  moreover have "finite (open_profiles st)" by (simp add: open_profiles_def)
  ultimately have "card (open_profiles st') + card (set new) \<le> card (open_profiles st)"
    by (metis card_Diff_subset card_mono finite_Diff finite_subset le_diff_conv2)
  then show ?thesis by (simp add: include_measure_def ready v(2) distinct_card [OF v(3)])
qed

lemma step_visit:
  assumes inv: "include_inv succ b st" and ready: "ig_ready st = rs @ [index]" and "\<not> rejected b st index"
    and edges: "graph_ok succ" "include_edges succ = (pending, parents)"
  defines "st1 \<equiv> st\<lparr>ig_ready := rs, ig_valid := (ig_valid st)[index := True]\<rparr>"
  defines "st' \<equiv> fold (visit_parent index) (parents ! index) st1"
  shows "include_inv succ b st'" and "include_measure st' < include_measure st"
proof -
  obtain new where st': "stepped (length succ) index (parents ! index) rs new st st'"
    using step_effect [OF inv ready edges] unfolding st'_def st1_def by blast
  note par = parents_of_ready [OF inv ready edges] and d = stepped_done [OF inv ready edges st']
    and r = stepped_ready [OF inv ready edges st'] and v = stepped_values [OF inv ready edges st']
  have good: "ig_pending st' ! j = 0 \<and> good_index succ b j (ig_heights st' ! j) (ig_visits st' ! j)"
    if j: "j \<in> insert index (done_set st)" for j
  proof -
    have "ig_pending st ! j = 0 \<and> good_index succ b j (ig_heights st ! j) (ig_visits st ! j)"
      using j inv inv_good [OF inv par(1,3) assms(3)] par(3) unfolding include_inv_def by blast
    then show ?thesis using st' d(2) [OF j] by (simp add: d(3,4) [OF j] stepped_def)
  qed
  have "sized (length succ) st'" and ready': "ig_ready st' = rs @ new" using st' by (simp_all add: stepped_def)
  then show "include_inv succ b st'"
    unfolding include_inv_def d(1) ready'
    by (intro conjI ballI allI impI; (elim conjE)?)
      (assumption | rule d(5) v r(2) | erule r(3) [THEN conjunct1] r(3) [THEN conjunct2, THEN conjunct1]
         r(3) [THEN conjunct2, THEN conjunct2] good [THEN conjunct1] good [THEN conjunct2] | rule r(4))+
  show "include_measure st' < include_measure st" by (rule stepped_measure [OF inv ready edges st'])
qed

section \<open>The loop\<close>

lemma include_step_inv:
  assumes inv: "include_inv succ b st" and "ig_ready st \<noteq> []"
    and edges: "graph_ok succ" "include_edges succ = (pending, parents)"
  shows "include_inv succ b (include_step b parents st) \<and> include_measure (include_step b parents st) < include_measure st"
proof -
  obtain rs index where ready: "ig_ready st = rs @ [index]" using assms(2) by (metis append_butlast_last_id)
  show ?thesis
  proof (cases "rejected b st index")
    case True
    then have "include_step b parents st = st\<lparr>ig_ready := rs\<rparr>"
      by (auto simp: include_step_def ready rejected_def Let_def)
    with step_skip [OF inv ready True] show ?thesis
      by (simp add: include_measure_def open_profiles_def ready)
  next
    case False
    then have "include_step b parents st = fold (visit_parent index) (parents ! index)
        (st\<lparr>ig_ready := rs, ig_valid := (ig_valid st)[index := True]\<rparr>)"
      by (auto simp: include_step_def ready rejected_def Let_def)
    with step_visit [OF inv ready False edges] show ?thesis by simp
  qed
qed

lemma include_start_inv:
  assumes "graph_ok succ" and "include_edges succ = (pending, parents)"
  shows "include_inv succ b (include_start pending)"
proof -
  let ?n = "length succ" and ?st = "include_start pending"
  note e = include_edges_correct [OF assms]
  have D: "done_set ?st = {}" by (auto simp: done_set_def include_start_def)
  have ready: "set (ig_ready ?st) = {i. i < ?n \<and> pending ! i = 0}"
    using e(1) by (auto simp: include_start_def in_set_enumerate_eq image_iff)
  have "distinct (ig_ready ?st)"
    unfolding include_start_def include_state.simps
    by (rule distinct_map_filter) (simp add: distinct_enumerate)
  moreover have "top_height {} hs ts = 1" "visit_sum {} vs ts = 0" "open_count {} ts = length ts" for hs vs ts
    by (auto simp: top_height_def visit_sum_def open_count_def resolved_def)
  ultimately show ?thesis
    using e unfolding include_inv_def D ready by (auto simp: include_start_def sized_def)
qed

lemma include_loop_result:
  assumes "graph_ok succ" and "include_edges succ = (pending, parents)"
  obtains st where "include_loop b parents (include_start pending) = Some st"
    and "include_inv succ b st" and "ig_ready st = []"
proof -
  let ?b = "\<lambda>st. ig_ready st \<noteq> []" and ?c = "include_step b parents"
  obtain st where st: "while_option ?b ?c (include_start pending) = Some st"
    using measure_while_option_Some [where P = "include_inv succ b" and b = ?b and c = ?c and f = include_measure,
        OF include_step_inv [OF _ _ assms] include_start_inv [OF assms]] by blast
  moreover have "include_inv succ b st"
    using while_option_rule [where P = "include_inv succ b", OF _ st include_start_inv [OF assms]]
      include_step_inv [OF _ _ assms] by blast
  moreover have "ig_ready st = []" using while_option_stop [OF st] by simp
  ultimately show ?thesis using that by (simp add: include_loop_def)
qed

lemma final_good:
  assumes inv: "include_inv succ b st" and "ig_ready st = []"
  shows "good_index succ b i h v \<Longrightarrow> i \<in> done_set st"
proof (induction rule: good_index.induct)
  case (good_indexI i subs height visits)
  let ?D = "done_set st" and ?ts = "succ ! i"
  have sub: "\<exists>j. ?ts ! k = Some j \<and> j \<in> ?D \<and> subs ! k = (ig_heights st ! j, ig_visits st ! j)"
    if "k < length ?ts" for k
  proof -
    obtain h v where s: "subs ! k = (h, v)" by fastforce
    from list_all2_nthD [OF good_indexI.IH that] obtain j where j: "?ts ! k = Some j" "good_index succ b j h v" "j \<in> ?D"
      by (simp only: s prod.case) blast
    moreover have "good_index succ b j (ig_heights st ! j) (ig_visits st ! j)"
      using inv j(3) by (simp add: include_inv_def)
    ultimately show ?thesis using good_index_unique s by blast
  qed
  have "length subs = length ?ts" using good_indexI.IH by (auto dest: list_all2_lengthD)
  with sub have subs: "subs = include_values st ?ts"
    by (intro nth_equalityI) (force simp: include_values_def)+
  have "resolved ?D t" if "t \<in> set ?ts" for t
    using sub that by (auto simp: in_set_conv_nth resolved_def)
  then have p: "ig_pending st ! i = 0"
    using inv good_indexI.hyps(1) by (simp add: include_inv_def open_count_zero)
  have "ig_heights st ! i = height" "ig_visits st ! i = visits"
    using inv_values(2,3) [OF inv good_indexI.hyps(1) p] good_indexI.hyps(2,3) subs by simp_all
  then have "\<not> rejected b st i" using good_indexI.hyps(4,5) by (auto simp: rejected_def)
  then show ?case using inv p good_indexI.hyps(1) assms(2) by (auto simp: include_inv_def)
qed

lemma include_loop_correct:
  assumes "graph_ok succ" and "include_edges succ = (pending, parents)"
  obtains st where "include_loop b parents (include_start pending) = Some st"
    and "length (ig_valid st) = length succ"
    and "\<And>i. i < length succ \<Longrightarrow> ig_valid st ! i \<longleftrightarrow> (\<exists>h v. good_index succ b i h v)"
proof -
  obtain st where st: "include_loop b parents (include_start pending) = Some st" and inv: "include_inv succ b st"
    and r: "ig_ready st = []" using include_loop_result [OF assms] by blast
  have len: "length (ig_valid st) = length succ" using inv by (simp add: include_inv_def sized_def)
  moreover have "ig_valid st ! i \<longleftrightarrow> (\<exists>h v. good_index succ b i h v)" if "i < length succ" for i
  proof
    assume "ig_valid st ! i"
    with that len have "i \<in> done_set st" by (simp add: done_set_def)
    with inv show "\<exists>h v. good_index succ b i h v" unfolding include_inv_def by blast
  next
    assume "\<exists>h v. good_index succ b i h v"
    then show "ig_valid st ! i" using final_good [OF inv r] by (auto simp: done_set_def)
  qed
  ultimately show ?thesis using that st by blast
qed

section \<open>Good profiles by name\<close>

inductive include_good :: "(string, node) btree \<Rightarrow> bool \<Rightarrow> string \<Rightarrow> nat \<Rightarrow> nat \<Rightarrow> bool"
  for profiles :: "(string, node) btree" and bound_visits :: bool where
  include_goodI: "bt_get profiles ident = Some profile
    \<Longrightarrow> list_all2 (\<lambda>inc (h, v). \<exists>t. node_attr inc ''file'' = Some t \<and> include_good profiles bound_visits t h v)
          (includes_of profile) subs
    \<Longrightarrow> height = Max (insert 1 ((\<lambda>(h, _). h + 1) ` set subs))
    \<Longrightarrow> visits = min (2 ^ 64 - 1) (1 + sum_list (map snd subs))
    \<Longrightarrow> height \<le> MAX_INCLUDE_DEPTH \<Longrightarrow> \<not> bound_visits \<or> visits \<le> MAX_CONTAINER
    \<Longrightarrow> include_good profiles bound_visits ident height visits"

definition include_succ :: "(string, node) btree \<Rightarrow> nat option list list" where
  "include_succ profiles = map (\<lambda>(_, profile). map (include_target profiles) (includes_of profile)) profiles"

lemma length_include_succ [simp]: "length (include_succ profiles) = length profiles"
  by (simp add: include_succ_def)

lemma length_bt_keys [simp]: "length (bt_keys profiles) = length profiles"
  by (simp add: bt_keys_def)

lemma index_of_Some:
  "bt_invar profiles \<Longrightarrow> index_of profiles ident = Some i \<longleftrightarrow> i < length profiles \<and> bt_keys profiles ! i = ident"
proof -
  assume "bt_invar profiles"
  then have "distinct (bt_keys profiles)" using bt.distinct_keys by (simp add: bt_keys_def)
  then show ?thesis
    by (auto simp: index_of_def find_position_eq_Some nth_eq_iff_index_eq)
qed

lemma bt_get_nth:
  assumes "bt_invar profiles"
  shows "bt_get profiles ident = Some p \<longleftrightarrow> (\<exists>i<length profiles. bt_keys profiles ! i = ident \<and> snd (profiles ! i) = p)"
  using bt.get_entry [OF assms] by (auto simp: in_set_conv_nth bt_keys_def)

lemma graph_ok_include_succ: "bt_invar profiles \<Longrightarrow> graph_ok (include_succ profiles)"
  by (auto simp: graph_ok_def include_succ_def include_target_def index_of_Some eq_commute [of "Some _"]
      split: option.splits)

lemma include_succ_nth:
  "i < length profiles \<Longrightarrow> include_succ profiles ! i = map (include_target profiles) (includes_of (snd (profiles ! i)))"
  by (simp add: include_succ_def case_prod_unfold)

lemma good_index_name:
  assumes inv: "bt_invar profiles"
  shows "good_index (include_succ profiles) b i h v \<Longrightarrow> include_good profiles b (bt_keys profiles ! i) h v"
proof (induction rule: good_index.induct)
  case (good_indexI i subs height visits)
  have i: "i < length profiles" using good_indexI.hyps(1) by simp
  show ?case
  proof (rule include_goodI [OF _ _ good_indexI.hyps(2-5)])
    show "bt_get profiles (bt_keys profiles ! i) = Some (snd (profiles ! i))"
      using bt_get_nth [OF inv] i by blast
    show "list_all2 (\<lambda>inc (h, v). \<exists>t. node_attr inc ''file'' = Some t \<and> include_good profiles b t h v)
        (includes_of (snd (profiles ! i))) subs"
      using good_indexI.IH unfolding include_succ_nth [OF i] list.rel_map
      by (rule list_all2_mono)
        (auto simp: include_target_def index_of_Some [OF inv] split: option.splits)
  qed
qed

lemma include_good_index:
  assumes inv: "bt_invar profiles"
  shows "include_good profiles b ident h v
    \<Longrightarrow> \<exists>i<length profiles. bt_keys profiles ! i = ident \<and> good_index (include_succ profiles) b i h v"
proof (induction rule: include_good.induct)
  case (include_goodI ident profile subs height visits)
  obtain i where i: "i < length profiles" "bt_keys profiles ! i = ident" "snd (profiles ! i) = profile"
    using bt_get_nth [OF inv] include_goodI.hyps(1) by blast
  have "list_all2 (\<lambda>inc (h, v). \<exists>j. include_target profiles inc = Some j \<and> good_index (include_succ profiles) b j h v)
      (includes_of profile) subs"
    using include_goodI.IH
    by (rule list_all2_mono) (auto simp: include_target_def index_of_Some [OF inv])
  then have "list_all2 (\<lambda>t (h, v). \<exists>j. t = Some j \<and> good_index (include_succ profiles) b j h v)
      (include_succ profiles ! i) subs"
    unfolding include_succ_nth [OF i(1)] list.rel_map i(3) .
  then have "good_index (include_succ profiles) b i height visits"
    using i(1) include_goodI.hyps(2-5) by (intro good_indexI) simp_all
  with i show ?case by blast
qed

lemma filter_zip:
  "length xs = length ys \<Longrightarrow> (\<And>i. i < length xs \<Longrightarrow> ys ! i \<longleftrightarrow> P (xs ! i))
     \<Longrightarrow> map fst (filter (\<lambda>(_, ok). \<not> ok) (zip xs ys)) = filter (\<lambda>x. \<not> P x) xs"
proof (induction xs ys rule: list_induct2)
  case (Cons x xs y ys)
  have "ys ! i \<longleftrightarrow> P (xs ! i)" if "i < length xs" for i using Cons.prems [of "Suc i"] that by simp
  moreover have "y \<longleftrightarrow> P x" using Cons.prems [of 0] by simp
  ultimately show ?case using Cons.IH by simp
qed simp

lemma invalid_reference_profiles_eq:
  assumes "bt_invar profiles"
  shows "invalid_reference_profiles profiles b
    = Some (filter (\<lambda>ident. \<not> (\<exists>h v. include_good profiles b ident h v)) (bt_keys profiles))"
proof -
  obtain pending parents where e: "include_edges (include_succ profiles) = (pending, parents)" by fastforce
  obtain st where st: "include_loop b parents (include_start pending) = Some st"
    "length (ig_valid st) = length (include_succ profiles)"
    "\<And>i. i < length (include_succ profiles) \<Longrightarrow> ig_valid st ! i \<longleftrightarrow> (\<exists>h v. good_index (include_succ profiles) b i h v)"
    using include_loop_correct [OF graph_ok_include_succ [OF assms] e] by blast
  have "ig_valid st ! i \<longleftrightarrow> (\<exists>h v. include_good profiles b (bt_keys profiles ! i) h v)" if "i < length profiles" for i
  proof -
    have "good_index (include_succ profiles) b i h v" if "include_good profiles b (bt_keys profiles ! i) h v" for h v
      using include_good_index [OF assms that] index_of_Some [OF assms] \<open>i < length profiles\<close>
      by (metis option.inject)
    then have "(\<exists>h v. good_index (include_succ profiles) b i h v)
        \<longleftrightarrow> (\<exists>h v. include_good profiles b (bt_keys profiles ! i) h v)"
      using good_index_name [OF assms] by blast
    with st(3) that show ?thesis by simp
  qed
  with st(2) have "map fst (filter (\<lambda>(_, ok). \<not> ok) (zip (bt_keys profiles) (ig_valid st)))
      = filter (\<lambda>ident. \<not> (\<exists>h v. include_good profiles b ident h v)) (bt_keys profiles)"
    by (intro filter_zip) simp_all
  with e st(1) show ?thesis
    by (simp add: invalid_reference_profiles_def include_succ_def [symmetric])
qed

text \<open>
  C19: the include check always ends, and it reports, in key order, exactly the profiles that are not
  good, where a profile is good if each of its includes names a good profile and its height is at most
  256 (and, when visits are bounded, its visits are at most a million). So cycles, missing targets and
  chains that are too long are reported, with everything that depends on them and nothing else.
\<close>

theorem include_check_exact:
  assumes "bt_invar profiles"
  shows "invalid_reference_profiles profiles bound_visits
    = Some (filter (\<lambda>ident. \<not> (\<exists>h v. include_good profiles bound_visits ident h v)) (bt_keys profiles))"
  using assms by (rule invalid_reference_profiles_eq)

theorem include_check_exact_witness:
  "\<exists>bad. invalid_reference_profiles
      [(''A'', Node ''monitor'' [] [Node ''include'' [(''file'', ''B'')] [] 0 False] 0 False),
       (''B'', Node ''monitor'' [] [] 0 False)] False = Some bad \<and> set bad \<subseteq> {''A'', ''B''}"
proof -
  let ?p = "[(''A'', Node ''monitor'' [] [Node ''include'' [(''file'', ''B'')] [] 0 False] 0 False),
       (''B'', Node ''monitor'' [] [] 0 False)]"
  have "bt_invar ?p" by (simp add: bt_invar_def less_char_def)
  from include_check_exact [OF this, of False] show ?thesis by (simp add: bt_keys_def)
qed

end
