(* ===== verification/Db_Decode.thy ===== *)
theory Db_Decode
  imports Include_Graph
begin

text \<open>
  The database decoder of \<^verbatim>\<open>crates/ddccontrol-db-format/src/lib.rs\<close>: the source manifest, its
  digest, the check of an XML snapshot against it, and \<open>decode_value\<close>, which turns a CBOR value
  into a database. SHA-256 (crate \<open>sha2\<close>) and the CBOR reader and writer (crate \<open>ciborium\<close>) are
  parameters. The include check is a loop, so the decoder returns an option; it is shown to be total.
\<close>

section \<open>The source manifest\<close>

type_synonym snapshot_files = "(string, bytes) btree"

definition MAX_PROFILES :: nat where "MAX_PROFILES = 65536"

definition profile_id :: "string \<Rightarrow> bool" where
  "profile_id ident \<longleftrightarrow>
     ident \<noteq> [] \<and> length ident \<le> 255
     \<and> list_all (\<lambda>c. is_ascii_alphanumeric c \<or> c = CHR ''_'' \<or> c = CHR ''-'') ident"

definition manifest_path :: "string \<Rightarrow> bool" where
  "manifest_path path \<longleftrightarrow>
     path = ''options.xml''
     \<or> (case strip_prefix ''monitor/'' path of
          None \<Rightarrow> False
        | Some name \<Rightarrow> (case strip_suffix ''.xml'' name of None \<Rightarrow> False | Some ident \<Rightarrow> profile_id ident))"

definition manifest_step :: "cbor \<times> cbor \<Rightarrow> snapshot_files \<Rightarrow> snapshot_files checked" where
  "manifest_step entry output =
     (case entry of (key, v) \<Rightarrow>
        and_then (cbor_text key) (\<lambda>path.
          if \<not> manifest_path path then Err ''CBOR invalid snapshot source path''
          else and_then (bytes32 v) (\<lambda>hash. Ok (bt_insert path hash output))))"

definition manifest :: "cbor \<Rightarrow> snapshot_files checked" where
  "manifest v =
     and_then (cbor_map v) (\<lambda>entries.
     and_then (fold_res manifest_step entries []) (\<lambda>output.
       if bt_get output ''options.xml'' = None \<or> length output > MAX_PROFILES + 1
       then Err ''CBOR invalid snapshot source manifest''
       else Ok output))"

definition manifest_digest :: "(bytes \<Rightarrow> bytes) \<Rightarrow> (cbor \<Rightarrow> bytes) \<Rightarrow> cbor \<Rightarrow> bytes checked" where
  "manifest_digest sha256 into_writer v = and_then (encode into_writer v) (\<lambda>bs. Ok (sha256 bs))"

definition verify_file :: "(bytes \<Rightarrow> bytes) \<Rightarrow> snapshot_files \<Rightarrow> string \<times> bytes \<Rightarrow> unit \<Rightarrow> unit checked" where
  "verify_file sha256 files entry u =
     (case entry of (path, hash) \<Rightarrow>
        and_then (ok_or (bt_get files path) ''XML snapshot missing file'') (\<lambda>source.
          if sha256 source \<noteq> hash then Err (''XML snapshot mismatch: '' @ path) else Ok ()))"

definition verify_manifest ::
  "(bytes \<Rightarrow> bytes) \<Rightarrow> (bytes \<Rightarrow> cbor checked) \<Rightarrow> bytes \<Rightarrow> snapshot_files \<Rightarrow> unit checked" where
  "verify_manifest sha256 from_reader bs files =
     and_then (cbor_value from_reader bs) (\<lambda>decoded.
       if as_bool decoded = Some False
       then Err ''XML fallback prohibited: this snapshot requires CBOR semantics''
       else and_then (manifest decoded) (\<lambda>expected.
              if length expected \<noteq> length files then Err ''XML snapshot file set mismatch''
              else fold_res (verify_file sha256 files) expected ()))"

section \<open>The database\<close>

record database =
  db_options :: node
  db_profiles :: "(string, node) btree"
  db_manifest :: snapshot_files
  db_snapshot :: bytes

definition check_header :: "cbor \<Rightarrow> bool \<Rightarrow> unit checked" where
  "check_header root consumer =
     and_then (cbor_fields root) (\<lambda>_.
     and_then (cbor_field root 0) (\<lambda>magic.
       if as_bytes magic \<noteq> Some (map byte_of ''DDCDB'') then Err ''CBOR database magic mismatch''
       else
     and_then (and_then (cbor_field root 1) cbor_uint) (\<lambda>format.
       if format \<noteq> 1 then Err ''CBOR unsupported format version'' else
     and_then (and_then (cbor_field root 2) cbor_text) (\<lambda>revision.
       if revision = [] then Err ''CBOR missing database revision'' else
     and_then (and_then (cbor_field root 3) cbor_uint) (\<lambda>semantics.
       if semantics \<noteq> 3 then Err ''CBOR unsupported XML semantics'' else
     and_then (and_then (cbor_field root 4) cbor_text) (\<lambda>domain.
       if domain \<noteq> ''ddccontrol-db'' then Err ''CBOR unsupported gettext domain'' else
     and_then (required_extensions root 7) (\<lambda>req.
       if req \<and> consumer then Err ''CBOR unknown required database feature'' else Ok ())))))))"

definition profile_path :: "string \<Rightarrow> string" where
  "profile_path ident = ''monitor/'' @ ident @ ''.xml''"

definition profile_step ::
  "snapshot_files \<Rightarrow> cbor \<times> cbor \<Rightarrow> (string, node) btree \<Rightarrow> (string, node) btree checked" where
  "profile_step man entry profiles =
     (case entry of (key, v) \<Rightarrow>
        and_then (cbor_text key) (\<lambda>ident.
          if \<not> profile_id ident then Err ''CBOR invalid profile identity''
          else and_then (cbor_node v [] False) (\<lambda>profile.
            if node_tag profile \<noteq> ''monitor'' then Err ''CBOR monitor root type mismatch''
            else if bt_get man (profile_path ident) = None
            then Err ''CBOR profile absent from source manifest''
            else Ok (bt_insert ident profile profiles))))"

definition decode_body ::
  "(bytes \<Rightarrow> bytes) \<Rightarrow> (cbor \<Rightarrow> bytes) \<Rightarrow> cbor \<Rightarrow> bool \<Rightarrow> database checked" where
  "decode_body sha256 into_writer root consumer =
     and_then (check_header root consumer) (\<lambda>_.
     and_then (cbor_field root 8) (\<lambda>source_manifest.
     and_then (manifest source_manifest) (\<lambda>man.
     and_then (and_then (cbor_field root 9) bytes32) (\<lambda>snapshot.
     and_then (manifest_digest sha256 into_writer source_manifest) (\<lambda>digest.
       if snapshot \<noteq> digest then Err ''CBOR snapshot digest mismatch'' else
     and_then (and_then (cbor_field root 5) (\<lambda>v. cbor_node v [] True)) (\<lambda>options.
       if node_tag options \<noteq> ''options'' then Err ''CBOR options root type mismatch'' else
     and_then (and_then (cbor_field root 6) cbor_map) (\<lambda>entries.
       if length entries > MAX_PROFILES then Err ''CBOR profile limit exceeded'' else
     and_then (fold_res (profile_step man) entries []) (\<lambda>profiles.
       if length man \<noteq> length profiles + 1 then Err ''CBOR manifest/profile set mismatch''
       else Ok \<lparr>db_options = options, db_profiles = profiles, db_manifest = man, db_snapshot = snapshot\<rparr>))))))))"

definition set_required :: "node \<Rightarrow> node" where
  "set_required n = Node (node_tag n) (node_attrs n) (node_children n) (node_line n) True"

definition mark_required :: "string \<Rightarrow> (string, node) btree \<Rightarrow> (string, node) btree" where
  "mark_required ident profiles =
     (case bt_get profiles ident of
        Some profile \<Rightarrow> bt_insert ident (set_required profile) profiles
      | None \<Rightarrow> profiles)"

definition decode_value ::
  "(bytes \<Rightarrow> bytes) \<Rightarrow> (cbor \<Rightarrow> bytes) \<Rightarrow> cbor \<Rightarrow> bool \<Rightarrow> database checked option" where
  "decode_value sha256 into_writer root consumer =
     (case decode_body sha256 into_writer root consumer of
        Inl e \<Rightarrow> Some (Err e)
      | Inr db \<Rightarrow>
          map_option (\<lambda>bad. Ok (db\<lparr>db_profiles := fold mark_required bad (db_profiles db)\<rparr>))
            (invalid_reference_profiles (db_profiles db) False))"

definition decode ::
  "(bytes \<Rightarrow> bytes) \<Rightarrow> (cbor \<Rightarrow> bytes) \<Rightarrow> (bytes \<Rightarrow> cbor checked) \<Rightarrow> bytes \<Rightarrow> database checked option" where
  "decode sha256 into_writer from_reader bs =
     (case cbor_value from_reader bs of
        Inl e \<Rightarrow> Some (Err e)
      | Inr root \<Rightarrow> decode_value sha256 into_writer root True)"

section \<open>The manifest loop\<close>

definition manifest_ok :: "snapshot_files \<Rightarrow> bool" where
  "manifest_ok m \<longleftrightarrow> bt_invar m \<and> list_all (\<lambda>(path, hash). manifest_path path \<and> length hash = 32) m"

lemma bytes32_length: "bytes32 v = Inr hash \<Longrightarrow> length hash = 32"
  by (auto simp: bytes32_def split: option.splits if_splits)

interpretation manifest_loop: fallible_loop manifest_step manifest_ok "\<lambda>_. True"
  by unfold_locales
    (auto simp: manifest_step_def manifest_ok_def bt_invar_insert list_all_bt_insert bytes32_length split: if_splits)

lemma manifest_correct:
  assumes "manifest v = Inr m"
  shows "manifest_ok m" and "bt_get m ''options.xml'' \<noteq> None" and "length m \<le> MAX_PROFILES + 1"
proof -
  from assms obtain es where es: "fold_res manifest_step es [] = Inr m"
    and "bt_get m ''options.xml'' \<noteq> None" "length m \<le> MAX_PROFILES + 1"
    by (auto simp: manifest_def split: if_splits)
  then show "bt_get m ''options.xml'' \<noteq> None" "length m \<le> MAX_PROFILES + 1" by simp_all
  show "manifest_ok m"
    by (rule manifest_loop.loop_inv [OF _ _ es]) (simp_all add: manifest_ok_def list_all_iff)
qed

section \<open>The profile loop\<close>

definition profile_ok :: "snapshot_files \<Rightarrow> string \<times> node \<Rightarrow> bool" where
  "profile_ok man entry \<longleftrightarrow>
     (case entry of (ident, p) \<Rightarrow>
        profile_id ident \<and> node_tag p = ''monitor'' \<and> node_ok [] False p
        \<and> bt_get man (profile_path ident) \<noteq> None)"

definition profiles_ok :: "snapshot_files \<Rightarrow> (string, node) btree \<Rightarrow> bool" where
  "profiles_ok man ps \<longleftrightarrow> bt_invar ps \<and> list_all (profile_ok man) ps"

lemma profile_step_ok:
  assumes "profiles_ok man ps" and "profile_step man entry ps = Inr ps'"
  shows "profiles_ok man ps'"
proof -
  obtain key v where e: "entry = (key, v)" by fastforce
  from assms(2) obtain ident p where "profile_id ident" "node_tag p = ''monitor''" "cbor_node v [] False = Inr p"
    "bt_get man (profile_path ident) \<noteq> None" "ps' = bt_insert ident p ps"
    by (auto simp: profile_step_def e split: if_splits)
  with assms(1) show ?thesis
    by (simp add: profiles_ok_def profile_ok_def bt_invar_insert list_all_bt_insert cbor_node_ok)
qed

interpretation profile_loop: fallible_loop "profile_step man" "profiles_ok man" "\<lambda>_. True" for man
  by unfold_locales (rule profile_step_ok)

lemma profile_path_inject [simp]: "profile_path a = profile_path b \<longleftrightarrow> a = b"
  by (simp add: profile_path_def)

lemma profile_path_not_options [simp]: "profile_path ident \<noteq> ''options.xml''" "''options.xml'' \<noteq> profile_path ident"
  by (auto simp: profile_path_def)

text \<open>The profiles are as many as the paths of the manifest other than the options, so they are all of them.\<close>

lemma bt_keys_distinct: "bt_invar m \<Longrightarrow> distinct (bt_keys m)"
  using bt.distinct_keys by (simp add: bt_keys_def)

lemma card_bt_keys: "bt_invar m \<Longrightarrow> card (set (bt_keys m)) = length m"
  using distinct_card [OF bt_keys_distinct] by simp

lemma profile_set:
  assumes "profiles_ok man ps" and "bt_invar man" and "bt_get man ''options.xml'' \<noteq> None"
    and "length man = length ps + 1"
  shows "set (bt_keys man) = insert ''options.xml'' (profile_path ` set (bt_keys ps))"
proof (rule card_subset_eq [symmetric])
  show "insert ''options.xml'' (profile_path ` set (bt_keys ps)) \<subseteq> set (bt_keys man)"
    using assms(1,3) bt_get_in_keys by (fastforce simp: profiles_ok_def profile_ok_def list_all_iff bt_keys_def)
  have "card (profile_path ` set (bt_keys ps)) = length ps"
    using assms(1) by (simp add: card_image inj_on_def card_bt_keys profiles_ok_def)
  then show "card (insert ''options.xml'' (profile_path ` set (bt_keys ps))) = card (set (bt_keys man))"
    using assms(2,4) by (subst card_insert_disjoint) (auto simp: card_bt_keys)
qed simp

section \<open>Marking the profiles with bad includes\<close>

lemma set_required_simps [simp]:
  "node_tag (set_required n) = node_tag n"
  "node_attrs (set_required n) = node_attrs n"
  "node_children (set_required n) = node_children n"
  "node_required (set_required n)"
  by (simp_all add: set_required_def)

lemma includes_of_set_required [simp]: "includes_of (set_required n) = includes_of n"
  by (simp add: includes_of_def)

lemma node_ok_set_required [simp]: "node_ok parent opts (set_required n) = node_ok parent opts n"
  by (cases n) (simp add: set_required_def)

lemma bt_get_mark [simp]:
  "bt_get (mark_required ident ps) = (\<lambda>k. if k = ident then map_option set_required (bt_get ps k) else bt_get ps k)"
  by (auto simp: mark_required_def bt_get_insert split: option.splits)

lemma set_required_idem [simp]: "set_required (set_required n) = set_required n"
  by (simp add: set_required_def)

lemma bt_get_marks:
  "bt_get (fold mark_required bad ps) k = (if k \<in> set bad then map_option set_required (bt_get ps k) else bt_get ps k)"
  by (induction bad arbitrary: ps) (auto simp: option.map_comp comp_def)

lemma profiles_ok_mark: "profiles_ok man ps \<Longrightarrow> profiles_ok man (mark_required ident ps)"
proof (cases "bt_get ps ident")
  case (Some p)
  assume ok: "profiles_ok man ps"
  with Some have "(ident, p) \<in> set ps" using bt.get_entry by (metis profiles_ok_def)
  with ok have "profile_ok man (ident, set_required p)" by (auto simp: profiles_ok_def profile_ok_def list_all_iff)
  with ok Some show ?thesis
    by (simp add: profiles_ok_def mark_required_def bt_invar_insert list_all_bt_insert)
qed (simp add: mark_required_def)

lemma profiles_ok_marks: "profiles_ok man ps \<Longrightarrow> profiles_ok man (fold mark_required bad ps)"
  by (induction bad arbitrary: ps) (simp_all add: profiles_ok_mark)

lemma length_mark:
  assumes "bt_invar ps" shows "bt_keys (mark_required ident ps) = bt_keys ps"
proof -
  have "bt_invar (mark_required ident ps)"
    using assms by (auto simp: mark_required_def bt_invar_insert split: option.splits)
  moreover have "set (bt_keys (mark_required ident ps)) = set (bt_keys ps)"
    unfolding bt_get_dom [symmetric] by (auto simp: dom_def)
  ultimately show ?thesis
    using assms by (simp add: bt_invar_def bt_keys_def strict_sorted_equal)
qed

text \<open>Only the include children of the profiles decide which profiles are good.\<close>

lemma include_good_cong:
  assumes "include_good ps b ident h v"
    and "\<And>k. map_option includes_of (bt_get qs k) = map_option includes_of (bt_get ps k)"
  shows "include_good qs b ident h v"
  using assms(1)
proof (induction rule: include_good.induct)
  case (include_goodI ident profile subs height visits)
  have "map_option includes_of (bt_get qs ident) = Some (includes_of profile)"
    using assms(2) include_goodI.hyps(1) by simp
  then obtain q where q: "bt_get qs ident = Some q" "includes_of q = includes_of profile" by blast
  show ?case
  proof (rule include_good.include_goodI [OF q(1) _ include_goodI.hyps(2-5)])
    show "list_all2 (\<lambda>inc (h, v). \<exists>t. node_attr inc ''file'' = Some t \<and> include_good qs b t h v) (includes_of q) subs"
      unfolding q(2) using include_goodI.IH by (rule list_all2_mono) auto
  qed
qed

section \<open>What a decoded database promises\<close>

definition available_includes :: "(string, node) btree \<Rightarrow> bool" where
  "available_includes ps \<longleftrightarrow>
     (\<forall>(ident, p)\<in>set ps. node_required p \<or> (\<exists>h v. include_good ps False ident h v))"

definition database_ok :: "database \<Rightarrow> bool" where
  "database_ok db \<longleftrightarrow>
     manifest_ok (db_manifest db) \<and> profiles_ok (db_manifest db) (db_profiles db)
     \<and> node_tag (db_options db) = ''options'' \<and> node_ok [] True (db_options db)
     \<and> set (bt_keys (db_manifest db)) = insert ''options.xml'' (profile_path ` set (bt_keys (db_profiles db)))
     \<and> available_includes (db_profiles db)"

lemma decode_body_correct:
  assumes "decode_body sha256 into_writer root consumer = Inr db"
  shows "check_header root consumer = Inr ()"
    and "manifest_ok (db_manifest db)"
    and "profiles_ok (db_manifest db) (db_profiles db)"
    and "node_tag (db_options db) = ''options''" "node_ok [] True (db_options db)"
    and "set (bt_keys (db_manifest db)) = insert ''options.xml'' (profile_path ` set (bt_keys (db_profiles db)))"
    and "and_then (cbor_field root 8) manifest = Inr (db_manifest db)"
    and "and_then (cbor_field root 8) (manifest_digest sha256 into_writer) = Inr (db_snapshot db)"
proof -
  from assms obtain source man options es ps snapshot ov where
      head: "check_header root consumer = Inr ()"
    and m: "cbor_field root 8 = Inr source" "manifest source = Inr man"
      "manifest_digest sha256 into_writer source = Inr snapshot"
    and o: "node_tag options = ''options''" "cbor_node ov [] True = Inr options"
    and ps: "fold_res (profile_step man) es [] = Inr ps" "length man = length ps + 1"
    and db: "db = \<lparr>db_options = options, db_profiles = ps, db_manifest = man, db_snapshot = snapshot\<rparr>"
    by (auto simp: decode_body_def split: if_splits)
  have "profiles_ok man ps"
    by (rule profile_loop.loop_inv [OF _ _ ps(1)]) (simp_all add: profiles_ok_def list_all_iff)
  with head m o ps(2) db show "check_header root consumer = Inr ()"
    "manifest_ok (db_manifest db)" "profiles_ok (db_manifest db) (db_profiles db)"
    "node_tag (db_options db) = ''options''" "node_ok [] True (db_options db)"
    "set (bt_keys (db_manifest db)) = insert ''options.xml'' (profile_path ` set (bt_keys (db_profiles db)))"
    "and_then (cbor_field root 8) manifest = Inr (db_manifest db)"
    "and_then (cbor_field root 8) (manifest_digest sha256 into_writer) = Inr (db_snapshot db)"
    using manifest_correct [OF m(2)] by (auto simp: cbor_node_ok profile_set manifest_ok_def)
qed

lemma marks_available:
  fixes ps :: "(string, node) btree"
  assumes inv: "bt_invar ps" and bad: "invalid_reference_profiles ps False = Some bad"
    and ok: "profiles_ok man (fold mark_required bad ps)"
  shows "available_includes (fold mark_required bad ps)"
  unfolding available_includes_def
proof (safe)
  let ?qs = "fold mark_required bad ps"
  fix ident q assume "(ident, q) \<in> set ?qs" "\<nexists>h v. include_good ?qs False ident h v"
  then have q: "bt_get ?qs ident = Some q" using ok bt.get_entry by (metis profiles_ok_def)
  show "node_required q"
  proof (cases "\<exists>h v. include_good ps False ident h v")
    case True
    then obtain h v where "include_good ps False ident h v" by blast
    then have "include_good ?qs False ident h v"
      by (rule include_good_cong) (simp add: bt_get_marks option.map_comp comp_def)
    with \<open>\<nexists>h v. include_good ?qs False ident h v\<close> show ?thesis by blast
  next
    case False
    from q have "ident \<in> set (bt_keys ps)"
      unfolding bt_get_dom [symmetric] by (auto simp: bt_get_marks dom_def split: if_splits)
    with False bad have "ident \<in> set bad" by (auto simp: invalid_reference_profiles_eq [OF inv])
    with q show ?thesis by (auto simp: bt_get_marks)
  qed
qed

lemma keys_marks: "bt_invar ps \<Longrightarrow> bt_keys (fold mark_required bad ps) = bt_keys ps"
proof (induction bad arbitrary: ps)
  case (Cons ident bad)
  then have "bt_invar (mark_required ident ps)"
    using length_mark [of ps ident] by (simp add: bt_invar_def bt_keys_def)
  with Cons show ?case by (simp add: length_mark)
qed simp

text \<open>
  C20: the decoder always ends. A database that it returns has a manifest with valid paths and 32-byte
  digests whose digest is the snapshot field; its profiles are exactly the files of the manifest other
  than the options; every node keeps the attribute rules of its place; and a profile that is not
  marked as requiring an unknown feature has only includes that resolve, without a cycle. For a consumer
  no required database extension was present.
\<close>

theorem decode_value_correct:
  "case decode_value sha256 into_writer root consumer of
     None \<Rightarrow> False
   | Some (Inl _) \<Rightarrow> True
   | Some (Inr db) \<Rightarrow>
       database_ok db
       \<and> and_then (cbor_field root 8) manifest = Inr (db_manifest db)
       \<and> and_then (cbor_field root 8) (manifest_digest sha256 into_writer) = Inr (db_snapshot db)
       \<and> (if consumer then required_extensions root 7 = Ok False else is_ok (required_extensions root 7))"
proof (cases "decode_body sha256 into_writer root consumer")
  case (Inr db)
  note body = decode_body_correct [OF Inr]
  have inv: "bt_invar (db_profiles db)" using body(3) by (simp add: profiles_ok_def)
  then obtain bad where bad: "invalid_reference_profiles (db_profiles db) False = Some bad"
    by (simp add: invalid_reference_profiles_eq)
  let ?qs = "fold mark_required bad (db_profiles db)"
  have qs: "profiles_ok (db_manifest db) ?qs" using body(3) by (rule profiles_ok_marks)
  have "database_ok (db\<lparr>db_profiles := ?qs\<rparr>)"
    using body(2,4,5,6) qs marks_available [OF inv bad qs] by (simp add: database_ok_def keys_marks [OF inv])
  moreover have "if consumer then required_extensions root 7 = Ok False else is_ok (required_extensions root 7)"
    using body(1) by (auto simp: check_header_def split: if_splits)
  ultimately show ?thesis
    using body(7,8) by (simp add: decode_value_def Inr bad)
qed (simp add: decode_value_def)

section \<open>Verifying an XML snapshot\<close>

definition file_digests :: "(bytes \<Rightarrow> bytes) \<Rightarrow> snapshot_files \<Rightarrow> snapshot_files" where
  "file_digests sha256 files = map (\<lambda>(path, source). (path, sha256 source)) files"

lemma verify_files_Ok:
  "fold_res (verify_file sha256 files) expected () = Inr () \<longleftrightarrow>
     (\<forall>(path, hash)\<in>set expected. \<exists>source. bt_get files path = Some source \<and> sha256 source = hash)"
  by (induction expected) (auto simp: verify_file_def split: if_splits)

lemma fst_file_digests [simp]: "map fst (file_digests sha256 files) = map fst files"
  by (simp add: file_digests_def case_prod_unfold)

lemma length_file_digests [simp]: "length (file_digests sha256 files) = length files"
  by (simp add: file_digests_def)

lemma get_file_digests: "bt_get (file_digests sha256 files) path = map_option sha256 (bt_get files path)"
  by (induction files) (auto simp: file_digests_def bt_get_def)

lemma verify_files_exact:
  assumes inv: "bt_invar files" "bt_invar expected"
    and len: "length expected = length files"
  shows "fold_res (verify_file sha256 files) expected () = Inr () \<longleftrightarrow> expected = file_digests sha256 files"
    (is "?ok \<longleftrightarrow> _")
proof
  let ?d = "file_digests sha256 files"
  have invd: "bt_invar ?d" using inv(1) by (simp add: bt_invar_def)
  assume ?ok
  then have "set expected \<subseteq> set ?d"
    using bt.get_entry [OF invd] by (fastforce simp: verify_files_Ok get_file_digests)
  moreover have "distinct expected" "distinct ?d"
    using bt.distinct_keys [OF inv(2)] bt.distinct_keys [OF invd] distinct_map by blast+
  then have "card (set expected) = card (set ?d)"
    using len length_file_digests by (metis distinct_card)
  ultimately have "set expected = set ?d" by (simp add: card_subset_eq)
  then have "bt_get expected = bt_get ?d"
    using bt.get_entry [OF inv(2)] bt.get_entry [OF invd] by (metis option.exhaust ext)
  then show "expected = ?d" by (rule bt.entries_eqI [OF inv(2) invd])
next
  assume "expected = file_digests sha256 files"
  then show ?ok using bt.get_entry [OF inv(1)] by (auto simp: verify_files_Ok file_digests_def)
qed

lemma verify_manifest_iff:
  assumes "bt_invar files"
  shows "verify_manifest sha256 from_reader bs files = Ok () \<longleftrightarrow>
    (\<exists>v. cbor_value from_reader bs = Ok v \<and> manifest v = Ok (file_digests sha256 files))"
proof -
  have "as_bool v = Some False \<Longrightarrow> manifest v \<noteq> Inr m" for v m
    by (cases v) (simp_all add: as_bool_def manifest_def cbor_map_def as_map_def)
  moreover have "manifest v = Inr m \<Longrightarrow> bt_invar m" for v m
    using manifest_correct(1) by (auto simp: manifest_ok_def)
  ultimately show ?thesis
    using verify_files_exact [OF assms] by (fastforce simp: verify_manifest_def split: if_splits)
qed

text \<open>
  C21: an XML snapshot is accepted exactly if the manifest decodes to the digests of the files: the same
  paths, no file missing, none added, each with the SHA-256 of its contents.
\<close>

theorem verify_manifest_exact:
  assumes "bt_invar files"
  shows "verify_manifest sha256 from_reader bs files = Ok () \<longleftrightarrow>
    (\<exists>v. cbor_value from_reader bs = Ok v \<and> manifest v = Ok (file_digests sha256 files))"
  by (rule verify_manifest_iff [OF assms])

theorem verify_manifest_exact_witness:
  "verify_manifest (\<lambda>_. replicate 32 0) read_value
     (enc (CMap [(CText ''options.xml'', CBytes (replicate 32 0))])) [(''options.xml'', [1, 2])] = Ok ()"
proof -
  let ?v = "CMap [(CText ''options.xml'', CBytes (replicate 32 0))]"
  have "from_utf8 ''options.xml''" by (rule from_utf8_ascii) (simp add: byte_val_def)
  then have "cbor_value read_value (enc ?v) = Ok ?v"
    by (simp add: model_codec.value_Ok cbor_limits key_ok_def enc_head_def str_bytes_def)
  moreover have "manifest ?v = Ok (file_digests (\<lambda>_. replicate 32 0) [(''options.xml'', [1, 2])])"
    by (simp add: manifest_def cbor_map_def as_map_def manifest_step_def cbor_text_def as_text_def manifest_path_def
        bytes32_def as_bytes_def bt_get_def MAX_PROFILES_def file_digests_def)
  moreover have "bt_invar [(''options.xml'', [1, 2] :: bytes)]" by (simp add: bt_invar_def)
  ultimately show ?thesis using verify_manifest_exact by blast
qed

end
