(* ===== verification/Descriptors.thy ===== *)
theory Descriptors
  imports Db_Decode
begin

text \<open>
  \<^verbatim>\<open>crates/ddccontrol-db-format/src/descriptors.rs\<close>: the typed description of a function, checked
  when a database is produced. A check returns unit or an error; \<open>object\<close> applies a table of checks
  to the fields of a map. Descriptions and extension lists contain each other: the recursion ends
  because a field is smaller than the value that contains it, which the congruence rules of \<open>object\<close>
  and \<open>description_with\<close> make available to the termination proof.
\<close>

section \<open>Tables of checks\<close>

type_synonym check = "cbor \<Rightarrow> unit checked"

definition DESCRIPTION :: string where
  "DESCRIPTION = ''https://ddccontrol.sourceforge.net/cbor/ext/function-description/1''"

definition try_for_each :: "('a \<Rightarrow> unit checked) \<Rightarrow> 'a list \<Rightarrow> unit checked" where
  [rust_std]: "try_for_each check xs = fold_res (\<lambda>x _. check x) xs ()"

definition object_field :: "(nat \<times> check) list \<Rightarrow> bool \<Rightarrow> cbor \<times> cbor \<Rightarrow> unit checked" where
  "object_field checks extensible entry =
     (case entry of (key, v) \<Rightarrow>
        and_then (cbor_uint key) (\<lambda>ident.
          case map_of checks ident of
            Some check \<Rightarrow> check v
          | None \<Rightarrow> if \<not> extensible then Err ''CBOR unassigned field in fixed descriptor'' else Ok ()))"

definition object :: "cbor \<Rightarrow> (nat \<times> check) list \<Rightarrow> nat list \<Rightarrow> bool \<Rightarrow> unit checked" where
  "object v checks required extensible =
     and_then (try_for_each (\<lambda>ident. and_then (cbor_field v ident) (\<lambda>_. Ok ())) required) (\<lambda>_.
     and_then (cbor_fields v) (\<lambda>entries. try_for_each (object_field checks extensible) entries))"

definition desc_any :: check where "desc_any v = Ok ()"

definition desc_txt :: check where "desc_txt v = and_then (cbor_text v) (\<lambda>_. Ok ())"

definition desc_int :: check where "desc_int v = and_then (cbor_integer v) (\<lambda>_. Ok ())"

definition desc_unsigned :: check where "desc_unsigned v = and_then (cbor_uint v) (\<lambda>_. Ok ())"

definition desc_range :: "nat \<Rightarrow> nat \<Rightarrow> check" where
  "desc_range lo hi v =
     and_then (cbor_uint v) (\<lambda>n. if lo \<le> n \<and> n \<le> hi then Ok () else Err ''CBOR descriptor integer out of range'')"

definition desc_vcp :: check where "desc_vcp = desc_range 0 255"

definition desc_identity :: check where
  "desc_identity v =
     and_then (cbor_text v) (\<lambda>t. if valid_identity t then Ok () else Err ''CBOR invalid descriptor identity'')"

definition desc_binary :: check where
  "desc_binary v = and_then (ok_or (as_bytes v) ''CBOR descriptor requires bytes'') (\<lambda>_. Ok ())"

definition desc_list :: "check \<Rightarrow> check" where
  "desc_list check v = and_then (cbor_array v) (try_for_each check)"

definition datum :: check where
  "datum v =
     (case v of
        CInteger _ \<Rightarrow> Ok ()
      | CText _ \<Rightarrow> Ok ()
      | CBytes _ \<Rightarrow> Ok ()
      | _ \<Rightarrow> object v [(0, desc_int), (1, desc_range 1 (2 ^ 64 - 1))] [0, 1] False)"

definition quantity :: check where
  "quantity v =
     and_then (object v [(0, desc_range 1 2), (1, datum)] [0] False) (\<lambda>_.
     and_then (and_then (cbor_field v 0) cbor_uint) (\<lambda>n.
       if (n = 1) \<noteq> (cbor_optional v 1 \<noteq> None)
       then Err ''CBOR declared quantity needs datum; discovered quantity forbids datum''
       else Ok ()))"

definition choice :: check where
  "choice v = object v [(0, datum), (1, desc_txt)] [0] False"

definition bitfield :: check where
  "bitfield v =
     object v [(0, desc_unsigned), (1, desc_range 1 64), (2, desc_list choice), (3, desc_txt)] [0, 1] False"

definition desc_version :: check where
  "desc_version v = object v [(0, desc_identity), (1, desc_txt)] [0, 1] False"

definition condition :: check where
  "condition v = object v [(0, desc_identity), (1, desc_any)] [0, 1] False"

definition opaque :: check where
  "opaque v = object v [(0, desc_identity), (1, desc_identity), (2, desc_binary)] [0, 1, 2] False"

definition desc_operation :: check where
  "desc_operation v =
     object v [(0, desc_unsigned), (1, desc_vcp), (2, desc_any), (3, desc_identity), (4, desc_list condition)] [0] True"

text \<open>The checks of a description, with the check of its nested extensions as an argument.\<close>

definition description_checks :: "check \<Rightarrow> (nat \<times> check) list" where
  "description_checks exts =
     [(0, desc_range 1 6), (1, desc_range 0 3), (2, desc_list desc_operation), (3, desc_identity), (4, desc_vcp),
      (5, desc_identity), (6, quantity), (7, quantity), (8, quantity), (9, quantity), (10, desc_list choice),
      (11, desc_list bitfield), (12, desc_list desc_version), (13, desc_txt), (14, desc_list desc_vcp),
      (15, desc_list condition), (16, desc_list opaque), (17, desc_txt), (18, exts), (19, desc_list condition)]"

definition description_with :: "check \<Rightarrow> check" where
  "description_with exts v = object v (description_checks exts) [] True"

section \<open>Recursion\<close>

lemma try_for_each_cong [fundef_cong]:
  "xs = ys \<Longrightarrow> (\<And>x. x \<in> set ys \<Longrightarrow> f x = g x) \<Longrightarrow> try_for_each f xs = try_for_each g ys"
  unfolding try_for_each_def by (rule fold_res_cong) auto

lemma cbor_fields_eq: "cbor_fields v = Inr es \<Longrightarrow> v = CMap es"
  by (cases v) (auto simp: cbor_fields_def cbor_map_def as_map_def)

lemma map_entry_size: "(k, w) \<in> set es \<Longrightarrow> size w < size (CMap es)"
  using size_list_estimation' [of "(k, w)" es "size w" "size_prod size size"] by simp

lemma object_cong:
  assumes "v = v'" and "\<And>ident w. size w < size v' \<Longrightarrow>
      map_option (\<lambda>c. c w) (map_of checks ident) = map_option (\<lambda>c. c w) (map_of checks' ident)"
  shows "object v checks required extensible = object v' checks' required extensible"
proof -
  have "object_field checks extensible e = object_field checks' extensible e" if "cbor_fields v' = Inr es" "e \<in> set es" for e es
  proof -
    obtain k w where e: "e = (k, w)" by fastforce
    then have "size w < size v'" using that map_entry_size cbor_fields_eq by blast
    from assms(2) [OF this] show ?thesis
      by (auto simp: object_field_def e intro!: and_then_cong split: option.splits)
        (metis map_option_eq_Some option.distinct(1) option.sel)+
  qed
  then show ?thesis unfolding object_def assms(1) by (intro and_then_cong try_for_each_cong refl) auto
qed

lemma description_with_cong [fundef_cong]:
  assumes "v = v'" and "\<And>w. size w < size v' \<Longrightarrow> f w = g w"
  shows "description_with f v = description_with g v'"
  unfolding description_with_def using assms(1)
proof (rule object_cong)
  fix ident :: nat and w :: cbor assume "size w < size v'"
  from assms(2) [OF this] show "map_option (\<lambda>c. c w) (map_of (description_checks f) ident)
      = map_option (\<lambda>c. c w) (map_of (description_checks g) ident)"
    by (simp add: description_checks_def)
qed

function desc_extensions :: check where
  "desc_extensions v =
     and_then (required_extensions (CMap [(CInteger 0, v)]) 0) (\<lambda>_.
     and_then (cbor_array v) (try_for_each (\<lambda>ext.
       and_then (and_then (cbor_field ext 0) cbor_text) (\<lambda>ident.
         if ident = DESCRIPTION
         then and_then (cbor_field ext 2) (\<lambda>payload. description_with (\<lambda>w. desc_extensions w) payload)
         else Ok ()))))"
  by pat_completeness auto
termination
  by (relation "measure size") (simp, metis cbor_array_size cbor_field_size in_measure less_trans)

declare desc_extensions.simps [simp del]

definition description :: check where
  "description = description_with desc_extensions"

section \<open>The accepted extension lists\<close>

definition text_at :: "cbor \<Rightarrow> nat \<Rightarrow> string option" where
  "text_at v key = Option.bind (cbor_optional v key) as_text"

definition bool_at :: "cbor \<Rightarrow> nat \<Rightarrow> bool option" where
  "bool_at v key = Option.bind (cbor_optional v key) as_bool"

definition extension_identity :: "cbor \<Rightarrow> string" where
  "extension_identity ext = (case text_at ext 0 of Some ident \<Rightarrow> ident | None \<Rightarrow> [])"

definition extension_needed :: "cbor \<Rightarrow> bool" where
  "extension_needed ext \<longleftrightarrow> bool_at ext 1 = Some True"

definition extension_ok :: "cbor \<Rightarrow> bool" where
  "extension_ok ext \<longleftrightarrow>
     is_ok (cbor_fields ext)
     \<and> (case (text_at ext 0, bool_at ext 1, cbor_optional ext 2) of
          (Some ident, Some needs, Some payload) \<Rightarrow>
            valid_identity ident \<and> (if ident = SOURCE_METADATA then is_ok (check_metadata needs payload) else True)
        | _ \<Rightarrow> False)"

lemma cbor_field_Ok [simp]: "cbor_field v key = Inr w \<longleftrightarrow> cbor_optional v key = Some w"
  by (simp add: cbor_field_def)

lemma as_Some [simp]:
  "as_text v = Some t \<longleftrightarrow> v = CText t"
  "as_bool v = Some b \<longleftrightarrow> v = CBool b"
  "as_map v = Some es \<longleftrightarrow> v = CMap es"
  "as_array v = Some vs \<longleftrightarrow> v = CArray vs"
  by (auto simp: as_text_def as_bool_def as_map_def as_array_def split: cbor.splits)

lemma cbor_Ok [simp]:
  "cbor_text v = Inr t \<longleftrightarrow> v = CText t"
  "cbor_map v = Inr es \<longleftrightarrow> v = CMap es"
  "cbor_array v = Inr vs \<longleftrightarrow> v = CArray vs"
  by (simp_all add: cbor_text_def cbor_map_def cbor_array_def)

lemma at_Some [simp]:
  "text_at v key = Some t \<longleftrightarrow> cbor_optional v key = Some (CText t)"
  "bool_at v key = Some b \<longleftrightarrow> cbor_optional v key = Some (CBool b)"
  by (auto simp: text_at_def bool_at_def bind_eq_Some_conv)

lemma extension_okE:
  assumes "extension_ok ext"
  obtains ident needs payload where "is_ok (cbor_fields ext)"
    "cbor_optional ext 0 = Some (CText ident)" "cbor_optional ext 1 = Some (CBool needs)"
    "cbor_optional ext 2 = Some payload" "valid_identity ident"
    "(if ident = SOURCE_METADATA then check_metadata needs payload else Ok ()) = Ok ()"
    "extension_identity ext = ident" "extension_needed ext = needs"
proof -
  from assms obtain ident needs payload where t: "text_at ext 0 = Some ident" "bool_at ext 1 = Some needs"
    "cbor_optional ext 2 = Some payload" and "is_ok (cbor_fields ext)" "valid_identity ident"
    "if ident = SOURCE_METADATA then is_ok (check_metadata needs payload) else True"
    unfolding extension_ok_def by (auto split: option.splits simp del: at_Some)
  then have "(if ident = SOURCE_METADATA then check_metadata needs payload else Ok ()) = Ok ()"
    by (cases "check_metadata needs payload") (simp_all split: if_split_asm)
  moreover have "extension_identity ext = ident" "extension_needed ext = needs"
    unfolding extension_identity_def extension_needed_def t by simp_all
  ultimately show ?thesis using that t \<open>is_ok (cbor_fields ext)\<close> \<open>valid_identity ident\<close> by simp
qed

lemma extension_okI:
  assumes "is_ok (cbor_fields ext)" "cbor_optional ext 0 = Some (CText ident)"
    "cbor_optional ext 1 = Some (CBool needs)" "cbor_optional ext 2 = Some payload" "valid_identity ident"
    "(if ident = SOURCE_METADATA then check_metadata needs payload else Ok ()) = Ok ()"
  shows "extension_ok ext" "extension_identity ext = ident" "extension_needed ext = needs"
proof -
  have t: "text_at ext 0 = Some ident" "bool_at ext 1 = Some needs" using assms by simp_all
  show "extension_ok ext" "extension_identity ext = ident" "extension_needed ext = needs"
    unfolding extension_ok_def extension_identity_def extension_needed_def t using assms
    by (simp_all split: if_split_asm)
qed

lemma extension_step_Ok:
  "extension_step ext (req, ids) = Inr st \<longleftrightarrow>
     extension_ok ext \<and> extension_identity ext \<notin> set ids
     \<and> st = (req \<or> extension_needed ext, extension_identity ext # ids)" (is "?l \<longleftrightarrow> ?r")
proof
  assume ?l
  then obtain es ident where e: "cbor_fields ext = Inr es" "cbor_optional ext 0 = Some (CText ident)"
    "valid_identity ident" "ident \<notin> set ids"
    unfolding extension_step_def by (simp split: if_split_asm)
  with \<open>?l\<close> obtain needs payload where "cbor_optional ext 1 = Some (CBool needs)"
    "cbor_optional ext 2 = Some payload"
    "(if ident = SOURCE_METADATA then check_metadata needs payload else Ok ()) = Ok ()"
    "st = (req \<or> needs, ident # ids)"
    unfolding extension_step_def by (simp del: if_split) blast
  with e show ?r using extension_okI [of ext ident needs payload] by (simp add: is_ok_iff)
next
  assume r: ?r
  then obtain ident needs payload where "is_ok (cbor_fields ext)"
    "cbor_optional ext 0 = Some (CText ident)" "cbor_optional ext 1 = Some (CBool needs)"
    "cbor_optional ext 2 = Some payload" "valid_identity ident"
    "(if ident = SOURCE_METADATA then check_metadata needs payload else Ok ()) = Ok ()"
    "extension_identity ext = ident" "extension_needed ext = needs" by (blast elim: extension_okE)
  with r show ?l by (auto simp: extension_step_def is_ok_iff simp del: if_split)
qed

lemma extension_fold_Ok:
  "fold_res extension_step exts (req, ids) = Inr (req', ids') \<longleftrightarrow>
     list_all extension_ok exts \<and> distinct (map extension_identity exts)
     \<and> set (map extension_identity exts) \<inter> set ids = {}
     \<and> req' = (req \<or> list_ex extension_needed exts) \<and> ids' = rev (map extension_identity exts) @ ids"
proof (induction exts arbitrary: req ids)
  case (Cons ext exts)
  have "fold_res extension_step (ext # exts) (req, ids) = Inr (req', ids') \<longleftrightarrow>
      extension_ok ext \<and> extension_identity ext \<notin> set ids
      \<and> fold_res extension_step exts (req \<or> extension_needed ext, extension_identity ext # ids) = Inr (req', ids')"
    by (auto simp: extension_step_Ok)
  then show ?case unfolding Cons.IH by auto
qed auto

definition extensions_ok :: "cbor list \<Rightarrow> bool" where
  "extensions_ok exts \<longleftrightarrow> list_all extension_ok exts \<and> distinct (map extension_identity exts)"

lemma required_extensions_Ok:
  "required_extensions v key = Inr req \<longleftrightarrow>
     (case cbor_optional v key of
        None \<Rightarrow> \<not> req
      | Some (CArray exts) \<Rightarrow> extensions_ok exts \<and> req = list_ex extension_needed exts
      | _ \<Rightarrow> False)"
proof -
  have "(\<exists>x. fold_res extension_step exts (False, []) = Inr x \<and> (case x of (req, _) \<Rightarrow> Ok req) = Inr req) \<longleftrightarrow>
      extensions_ok exts \<and> req = list_ex extension_needed exts" for exts
    by (auto simp: extension_fold_Ok extensions_ok_def)
  then show ?thesis
    by (auto simp: required_extensions_def split: option.splits cbor.splits)
qed

lemma try_for_each_Ok: "try_for_each check xs = Inr () \<longleftrightarrow> list_all (\<lambda>x. check x = Inr ()) xs"
  unfolding try_for_each_def by (induction xs) auto

lemma optional_singleton [simp]: "cbor_optional (CMap [(CInteger 0, v)]) 0 = Some v"
  by (simp add: cbor_optional_def as_map_def cbor_uint_def)

definition entry_ok :: "(nat \<times> check) list \<Rightarrow> bool \<Rightarrow> cbor \<times> cbor \<Rightarrow> bool" where
  "entry_ok checks extensible entry \<longleftrightarrow>
     (case cbor_uint (fst entry) of
        Inl _ \<Rightarrow> False
      | Inr k \<Rightarrow> (case map_of checks k of Some check \<Rightarrow> check (snd entry) = Ok () | None \<Rightarrow> extensible))"

lemma object_field_Ok: "object_field checks extensible entry = Inr () \<longleftrightarrow> entry_ok checks extensible entry"
  by (cases "cbor_uint (fst entry)")
    (auto simp: object_field_def entry_ok_def case_prod_unfold split: option.splits)

lemma entry_ok_key: "entry_ok checks extensible entry \<Longrightarrow> is_ok (cbor_uint (fst entry))"
  by (auto simp: entry_ok_def split: sum.splits)

lemma cbor_fields_Ok:
  "cbor_fields v = Inr es \<longleftrightarrow> v = CMap es \<and> list_all (\<lambda>e. is_ok (cbor_uint (fst e))) es"
proof -
  have "fold_res (\<lambda>e _. and_then (cbor_uint (fst e)) (\<lambda>_. Ok ())) es () = Inr () \<longleftrightarrow> list_all (\<lambda>e. is_ok (cbor_uint (fst e))) es"
    for es :: "(cbor \<times> cbor) list"
    by (induction es) (auto simp: is_ok_iff)
  then show ?thesis by (auto simp: cbor_fields_def)
qed

lemma object_Ok:
  "object v checks required extensible = Inr () \<longleftrightarrow>
     list_all (\<lambda>ident. cbor_optional v ident \<noteq> None) required
     \<and> (case v of CMap es \<Rightarrow> list_all (entry_ok checks extensible) es | _ \<Rightarrow> False)"
  using entry_ok_key
  by (cases v) (auto simp: object_def try_for_each_Ok cbor_fields_Ok object_field_Ok list_all_iff)

text \<open>One level of the recursion.\<close>

lemma desc_extensions_unfold:
  "desc_extensions v = Ok () \<longleftrightarrow>
     (case v of
        CArray exts \<Rightarrow>
          extensions_ok exts
          \<and> list_all (\<lambda>ext. if extension_identity ext = DESCRIPTION
               then (case cbor_optional ext 2 of Some (CMap es) \<Rightarrow> list_all (entry_ok (description_checks desc_extensions) True) es | _ \<Rightarrow> False)
               else True) exts
      | _ \<Rightarrow> False)"
proof (cases "\<exists>exts. v = CArray exts \<and> extensions_ok exts")
  case True
  then obtain exts where v: "v = CArray exts" "extensions_ok exts" by blast
  let ?check = "\<lambda>ext. and_then (and_then (cbor_field ext 0) cbor_text) (\<lambda>ident.
         if ident = DESCRIPTION
         then and_then (cbor_field ext 2) (\<lambda>payload. description_with (\<lambda>w. desc_extensions w) payload)
         else Ok ())"
  have *: "description_with desc_extensions w = Ok () \<longleftrightarrow> (case w of CMap es \<Rightarrow> list_all (entry_ok (description_checks desc_extensions) True) es | _ \<Rightarrow> False)" for w
    by (simp add: description_with_def object_Ok)
  have "?check ext = Ok () \<longleftrightarrow> (if extension_identity ext = DESCRIPTION
      then (case cbor_optional ext 2 of Some (CMap es) \<Rightarrow> list_all (entry_ok (description_checks desc_extensions) True) es | _ \<Rightarrow> False) else True)"
    if "ext \<in> set exts" for ext
  proof -
    from v(2) that have "extension_ok ext" by (simp add: extensions_ok_def list_all_iff)
    then obtain ident payload where "cbor_optional ext 0 = Some (CText ident)" "cbor_optional ext 2 = Some payload"
      "extension_identity ext = ident" by (rule extension_okE)
    with * show ?thesis by simp
  qed
  moreover have "is_ok (required_extensions (CMap [(CInteger 0, v)]) 0)"
    using v by (auto simp: is_ok_iff required_extensions_Ok)
  ultimately show ?thesis
    using v by (subst desc_extensions.simps) (auto simp: is_ok_iff try_for_each_Ok list_all_iff)
next
  case False
  then show ?thesis
    by (subst desc_extensions.simps) (auto simp: required_extensions_Ok split: cbor.splits)
qed

section \<open>The register of fields\<close>

text \<open>
  What \<^verbatim>\<open>doc/cbor/format.md\<close> says of a description, field by field, without the checks above. The
  keys of a map are unsigned integers; \<open>each_field P\<close> says that every entry has such a key, and that
  \<open>P\<close> holds of the key and the value, and \<open>has_field\<close> that a key is present.
\<close>

definition each_field :: "(nat \<Rightarrow> cbor \<Rightarrow> bool) \<Rightarrow> (cbor \<times> cbor) list \<Rightarrow> bool" where
  "each_field P es \<longleftrightarrow>
     list_all (\<lambda>(k, w). case k of CInteger i \<Rightarrow> 0 \<le> i \<and> i < 2 ^ 64 \<and> P (nat i) w | _ \<Rightarrow> False) es"

definition has_field :: "(cbor \<times> cbor) list \<Rightarrow> nat \<Rightarrow> bool" where
  "has_field es key \<longleftrightarrow> cbor_optional (CMap es) key \<noteq> None"

definition is_identity :: "cbor \<Rightarrow> bool" where
  "is_identity w \<longleftrightarrow> (case w of CText t \<Rightarrow> valid_identity t | _ \<Rightarrow> False)"

definition integer_in :: "int \<Rightarrow> int \<Rightarrow> cbor \<Rightarrow> bool" where
  "integer_in lo hi w \<longleftrightarrow> (case w of CInteger i \<Rightarrow> lo \<le> i \<and> i \<le> hi | _ \<Rightarrow> False)"

definition array_of :: "(cbor \<Rightarrow> bool) \<Rightarrow> cbor \<Rightarrow> bool" where
  "array_of P w \<longleftrightarrow> (case w of CArray ws \<Rightarrow> list_all P ws | _ \<Rightarrow> False)"

definition map_of_fields :: "(nat \<Rightarrow> cbor \<Rightarrow> bool) \<Rightarrow> nat list \<Rightarrow> cbor \<Rightarrow> bool" where
  "map_of_fields P required w \<longleftrightarrow>
     (case w of CMap es \<Rightarrow> each_field P es \<and> list_all (has_field es) required | _ \<Rightarrow> False)"

definition valid_rational :: "cbor \<Rightarrow> bool" where
  "valid_rational = map_of_fields (\<lambda>n w.
     if n = 0 then (case w of CInteger _ \<Rightarrow> True | _ \<Rightarrow> False) else n = 1 \<and> integer_in 1 (2 ^ 64 - 1) w) [0, 1]"

definition valid_datum :: "cbor \<Rightarrow> bool" where
  "valid_datum w \<longleftrightarrow> (case w of CInteger _ \<Rightarrow> True | CText _ \<Rightarrow> True | CBytes _ \<Rightarrow> True | _ \<Rightarrow> valid_rational w)"

text \<open>A quantity is declared, with a datum, or to be discovered, without one.\<close>

definition valid_quantity :: "cbor \<Rightarrow> bool" where
  "valid_quantity w \<longleftrightarrow>
     (case w of
        CMap es \<Rightarrow> each_field (\<lambda>n w. if n = 0 then integer_in 1 2 w else n = 1 \<and> valid_datum w) es
          \<and> (cbor_optional w 0 = Some (CInteger 1) \<and> has_field es 1 \<or> cbor_optional w 0 = Some (CInteger 2) \<and> \<not> has_field es 1)
      | _ \<Rightarrow> False)"

definition valid_choice :: "cbor \<Rightarrow> bool" where
  "valid_choice = map_of_fields (\<lambda>n w. if n = 0 then valid_datum w else n = 1 \<and> is_text w) [0]"

definition valid_bitfield :: "cbor \<Rightarrow> bool" where
  "valid_bitfield = map_of_fields (\<lambda>n w.
     if n = 0 then integer_in 0 (2 ^ 64 - 1) w else if n = 1 then integer_in 1 64 w
     else if n = 2 then array_of valid_choice w else n = 3 \<and> is_text w) [0, 1]"

definition valid_version :: "cbor \<Rightarrow> bool" where
  "valid_version = map_of_fields (\<lambda>n w. if n = 0 then is_identity w else n = 1 \<and> is_text w) [0, 1]"

definition valid_condition :: "cbor \<Rightarrow> bool" where
  "valid_condition = map_of_fields (\<lambda>n w. if n = 0 then is_identity w else n = 1) [0, 1]"

definition valid_opaque :: "cbor \<Rightarrow> bool" where
  "valid_opaque = map_of_fields (\<lambda>n w.
     if n = 0 \<or> n = 1 then is_identity w else n = 2 \<and> (case w of CBytes _ \<Rightarrow> True | _ \<Rightarrow> False)) [0, 1, 2]"

text \<open>The fields of an operation from 5 upwards are unassigned and may hold anything.\<close>

definition valid_operation :: "cbor \<Rightarrow> bool" where
  "valid_operation = map_of_fields (\<lambda>n w.
     if n = 0 then integer_in 0 (2 ^ 64 - 1) w else if n = 1 then integer_in 0 255 w
     else if n = 3 then is_identity w else if n = 4 then array_of valid_condition w else True) [0]"

text \<open>The table of source metadata, and three optional texts.\<close>

definition valid_metadata :: "cbor \<Rightarrow> bool" where
  "valid_metadata w \<longleftrightarrow>
     (case w of
        CMap es \<Rightarrow> each_field (\<lambda>_ _. True) es
          \<and> (case cbor_optional w 0 of Some (CMap table) \<Rightarrow> list_all (\<lambda>(k, v). is_text k \<and> is_text v) table | _ \<Rightarrow> False)
          \<and> list_all (\<lambda>n. case cbor_optional w n of Some v \<Rightarrow> is_text v | None \<Rightarrow> True) [1, 2, 3]
      | _ \<Rightarrow> False)"

text \<open>The envelope of an extension: identity, flag and payload.\<close>

definition valid_envelope :: "cbor \<Rightarrow> string \<Rightarrow> cbor \<Rightarrow> bool" where
  "valid_envelope ext ident payload \<longleftrightarrow>
     (case ext of
        CMap es \<Rightarrow> each_field (\<lambda>_ _. True) es \<and> cbor_optional ext 0 = Some (CText ident) \<and> valid_identity ident
          \<and> cbor_optional ext 2 = Some payload
          \<and> (if ident = SOURCE_METADATA then cbor_optional ext 1 = Some (CBool False) \<and> valid_metadata payload
             else cbor_optional ext 1 = Some (CBool False) \<or> cbor_optional ext 1 = Some (CBool True))
      | _ \<Rightarrow> False)"

text \<open>
  Lists of extensions, descriptions and their fields, each with its key in the register. A list is
  given with the identities and payloads of its envelopes, in order.
\<close>

inductive valid_extensions :: "cbor \<Rightarrow> bool"
  and valid_description :: "cbor \<Rightarrow> bool"
  and valid_field :: "nat \<Rightarrow> cbor \<Rightarrow> bool" where
  extension_list: "list_all2 (\<lambda>ext (ident, payload). valid_envelope ext ident payload) exts ps \<Longrightarrow> distinct (map fst ps) \<Longrightarrow>
    (\<And>payload. (DESCRIPTION, payload) \<in> set ps \<Longrightarrow> valid_description payload) \<Longrightarrow>
    valid_extensions (CArray exts)"
| description_map: "each_field (\<lambda>_ _. True) es \<Longrightarrow> (\<And>i w. (CInteger i, w) \<in> set es \<Longrightarrow> valid_field (nat i) w) \<Longrightarrow>
    valid_description (CMap es)"
| field_category: "integer_in 1 6 w \<Longrightarrow> valid_field 0 w"
| field_access: "integer_in 0 3 w \<Longrightarrow> valid_field 1 w"
| field_operations: "array_of valid_operation w \<Longrightarrow> valid_field 2 w"
| field_name_space: "is_identity w \<Longrightarrow> valid_field 3 w"
| field_vcp_code: "integer_in 0 255 w \<Longrightarrow> valid_field 4 w"
| field_unit_uri: "is_identity w \<Longrightarrow> valid_field 5 w"
| field_quantities: "n \<in> {6, 7, 8, 9} \<Longrightarrow> valid_quantity w \<Longrightarrow> valid_field n w"
| field_choices: "array_of valid_choice w \<Longrightarrow> valid_field 10 w"
| field_bitfields: "array_of valid_bitfield w \<Longrightarrow> valid_field 11 w"
| field_versions: "array_of valid_version w \<Longrightarrow> valid_field 12 w"
| field_capabilities_text: "is_text w \<Longrightarrow> valid_field 13 w"
| field_command_codes: "array_of (integer_in 0 255) w \<Longrightarrow> valid_field 14 w"
| field_conditions: "array_of valid_condition w \<Longrightarrow> valid_field 15 w"
| field_opaques: "array_of valid_opaque w \<Longrightarrow> valid_field 16 w"
| field_message_text: "is_text w \<Longrightarrow> valid_field 17 w"
| field_quirks: "valid_extensions w \<Longrightarrow> valid_field 18 w"
| field_matchers: "array_of valid_condition w \<Longrightarrow> valid_field 19 w"
| field_unassigned: "20 \<le> n \<Longrightarrow> valid_field n w"

inductive_cases valid_extensionsE: "valid_extensions v"
inductive_cases valid_descriptionE: "valid_description v"
inductive_simps valid_field_simps: "valid_field n w"

section \<open>Each check against the register\<close>

lemma range_spec: "hi < 2 ^ 64 \<Longrightarrow> desc_range lo hi w = Ok () \<longleftrightarrow> integer_in (int lo) (int hi) w"
  by (cases w) (auto simp: desc_range_def integer_in_def cbor_uint_def nat_le_iff le_nat_iff)

lemma vcp_spec: "desc_vcp w = Ok () \<longleftrightarrow> integer_in 0 255 w"
  by (simp add: desc_vcp_def range_spec)

lemma unsigned_spec: "desc_unsigned w = Ok () \<longleftrightarrow> integer_in 0 (2 ^ 64 - 1) w"
  by (cases w) (auto simp: desc_unsigned_def integer_in_def cbor_uint_def)

lemma txt_spec: "desc_txt w = Ok () \<longleftrightarrow> is_text w"
  by (cases w) (simp_all add: desc_txt_def cbor_text_def as_text_def is_text_def)

lemma int_spec: "desc_int w = Ok () \<longleftrightarrow> (case w of CInteger _ \<Rightarrow> True | _ \<Rightarrow> False)"
  by (cases w) (simp_all add: desc_int_def cbor_integer_def as_integer_def)

lemma identity_spec: "desc_identity w = Ok () \<longleftrightarrow> is_identity w"
  by (cases w) (simp_all add: desc_identity_def cbor_text_def as_text_def is_identity_def)

lemma binary_spec: "desc_binary w = Ok () \<longleftrightarrow> (case w of CBytes _ \<Rightarrow> True | _ \<Rightarrow> False)"
  by (cases w) (simp_all add: desc_binary_def as_bytes_def)

lemma list_spec: "(\<And>w. check w = Ok () \<longleftrightarrow> P w) \<Longrightarrow> desc_list check w = Ok () \<longleftrightarrow> array_of P w"
  by (cases w) (auto simp: desc_list_def array_of_def try_for_each_Ok cbor_array_def as_array_def)

lemma entry_spec:
  assumes "\<And>n. n < 2 ^ 64 \<Longrightarrow> (case map_of checks n of Some check \<Rightarrow> check w = Ok () | None \<Rightarrow> extensible) \<longleftrightarrow> P n"
  shows "entry_ok checks extensible (k, w) \<longleftrightarrow> (case k of CInteger i \<Rightarrow> 0 \<le> i \<and> i < 2 ^ 64 \<and> P (nat i) | _ \<Rightarrow> False)"
  unfolding entry_ok_def fst_conv snd_conv using assms by (cases k) (auto simp: cbor_uint_def)

lemma entries_spec:
  assumes "\<And>n w. n < 2 ^ 64 \<Longrightarrow> (case map_of checks n of Some check \<Rightarrow> check w = Ok () | None \<Rightarrow> extensible) \<longleftrightarrow> P n w"
  shows "list_all (entry_ok checks extensible) es \<longleftrightarrow> each_field P es"
proof -
  have "entry_ok checks extensible (k, w) \<longleftrightarrow> (case k of CInteger i \<Rightarrow> 0 \<le> i \<and> i < 2 ^ 64 \<and> P (nat i) w | _ \<Rightarrow> False)" for k w
    by (rule entry_spec) (rule assms)
  then show ?thesis by (auto simp: each_field_def list_all_iff)
qed

lemma object_spec:
  assumes "\<And>n w. n < 2 ^ 64 \<Longrightarrow> (case map_of checks n of Some check \<Rightarrow> check w = Ok () | None \<Rightarrow> extensible) \<longleftrightarrow> P n w"
  shows "object v checks required extensible = Ok () \<longleftrightarrow> map_of_fields P required v"
proof -
  have "list_all (entry_ok checks extensible) es \<longleftrightarrow> each_field P es" for es by (rule entries_spec) (rule assms)
  then show ?thesis by (cases v) (auto simp: object_Ok map_of_fields_def has_field_def [abs_def])
qed

lemma field_value:
  assumes "each_field P es" and "cbor_optional (CMap es) n = Some w"
  shows "P n w"
proof -
  have "find_map (\<lambda>(candidate, w). if ok (cbor_uint candidate) = Some n then Some w else None) es = Some w"
    using assms(2) by (simp add: cbor_optional_def as_map_def)
  with assms(1) show ?thesis
  proof (induction es)
    case (Cons e es)
    then show ?case
      by (cases "fst e") (auto simp: each_field_def cbor_uint_def case_prod_unfold split: if_split_asm)
  qed simp
qed

lemmas field_specs = range_spec unsigned_spec txt_spec int_spec identity_spec binary_spec vcp_spec desc_any_def

lemma datum_spec: "datum w = Ok () \<longleftrightarrow> valid_datum w"
proof -
  have "object w [(0, desc_int), (1, desc_range 1 (2 ^ 64 - 1))] [0, 1] False = Ok () \<longleftrightarrow> valid_rational w"
    unfolding valid_rational_def by (rule object_spec) (simp add: field_specs)
  then show ?thesis by (cases w) (simp_all add: datum_def valid_datum_def)
qed

lemma quantity_spec: "quantity w = Ok () \<longleftrightarrow> valid_quantity w"
proof -
  let ?P = "\<lambda>n w. if n = 0 then integer_in 1 2 w else n = 1 \<and> valid_datum w"
  have object: "object w [(0, desc_range 1 2), (1, datum)] [0] False = Ok () \<longleftrightarrow> map_of_fields ?P [0] w"
    by (rule object_spec) (simp add: field_specs datum_spec)
  have kind: "v = CInteger 1 \<or> v = CInteger 2" if "each_field ?P es" "cbor_optional (CMap es) 0 = Some v" for es v
    using field_value [OF that] by (auto simp: integer_in_def split: cbor.splits)
  show ?thesis
  proof (cases "\<exists>es v. w = CMap es \<and> each_field ?P es \<and> cbor_optional w 0 = Some v")
    case True
    then obtain es v where w: "w = CMap es" "each_field ?P es" "cbor_optional (CMap es) 0 = Some v" by blast
    then have ok: "object (CMap es) [(0, desc_range 1 2), (1, datum)] [0] False = Ok ()"
      unfolding object [unfolded w(1)] by (simp add: map_of_fields_def has_field_def)
    obtain i where v: "v = CInteger i" "i = 1 \<or> i = 2" using kind [OF w(2,3)] by blast
    have "quantity w = (if (i = 1) \<noteq> has_field es 1
        then Err ''CBOR declared quantity needs datum; discovered quantity forbids datum'' else Ok ())"
      unfolding quantity_def w(1) ok has_field_def and_then_simps cbor_field_def w(3) ok_or_simps v(1) cbor_uint_def cbor.case
      using v(2) by auto
    moreover have "valid_quantity w \<longleftrightarrow> i = 1 \<and> has_field es 1 \<or> i = 2 \<and> \<not> has_field es 1"
      unfolding valid_quantity_def w(1) cbor.case w(3) v(1) using w(2) by auto
    ultimately show ?thesis using v(2) by auto
  next
    case False
    then have "object w [(0, desc_range 1 2), (1, datum)] [0] False \<noteq> Ok ()"
      unfolding object by (auto simp: map_of_fields_def has_field_def split: cbor.splits)
    with False show ?thesis by (auto simp: quantity_def valid_quantity_def split: cbor.splits)
  qed
qed

lemma choice_spec: "choice w = Ok () \<longleftrightarrow> valid_choice w"
  unfolding choice_def valid_choice_def by (rule object_spec) (simp add: field_specs datum_spec)

lemma bitfield_spec: "bitfield w = Ok () \<longleftrightarrow> valid_bitfield w"
  unfolding bitfield_def valid_bitfield_def
  by (rule object_spec) (simp add: field_specs list_spec [OF choice_spec])

lemma version_spec: "desc_version w = Ok () \<longleftrightarrow> valid_version w"
  unfolding desc_version_def valid_version_def by (rule object_spec) (simp add: field_specs)

lemma condition_spec: "condition w = Ok () \<longleftrightarrow> valid_condition w"
  unfolding condition_def valid_condition_def by (rule object_spec) (simp add: field_specs)

lemma opaque_spec: "opaque w = Ok () \<longleftrightarrow> valid_opaque w"
  unfolding opaque_def valid_opaque_def by (rule object_spec) (simp add: field_specs)

lemma operation_spec: "desc_operation w = Ok () \<longleftrightarrow> valid_operation w"
  unfolding desc_operation_def valid_operation_def
  by (rule object_spec) (simp add: field_specs list_spec [OF condition_spec])

section \<open>The accepted extension lists, by the register\<close>

lemma any_field: "each_field (\<lambda>_ _. True) es \<longleftrightarrow> list_all (\<lambda>e. is_ok (cbor_uint (fst e))) es"
proof -
  have "(case k of CInteger i \<Rightarrow> 0 \<le> i \<and> i < 2 ^ 64 \<and> True | _ \<Rightarrow> False) \<longleftrightarrow> is_ok (cbor_uint k)" for k
    by (cases k) (auto simp: cbor_uint_def is_ok_iff)
  then show ?thesis by (simp add: each_field_def list_all_iff case_prod_unfold)
qed

lemma fields_spec: "is_ok (cbor_fields v) \<longleftrightarrow> (case v of CMap es \<Rightarrow> each_field (\<lambda>_ _. True) es | _ \<Rightarrow> False)"
  by (cases v) (auto simp: is_ok_iff cbor_fields_Ok any_field)

lemma text_table_spec:
  "fold_res (\<lambda>(k, v) _. and_then (cbor_text k) (\<lambda>_. and_then (cbor_text v) (\<lambda>_. Ok ()))) table () = Ok ()
     \<longleftrightarrow> list_all (\<lambda>(k, v). is_text k \<and> is_text v) table"
proof (induction table)
  case (Cons e table)
  obtain k v where "e = (k, v)" by (metis surj_pair)
  with Cons show ?case by (cases k; cases v) (simp_all add: is_text_def cbor_text_def as_text_def)
qed simp

lemma metadata_spec: "is_ok (check_metadata needs w) \<longleftrightarrow> \<not> needs \<and> valid_metadata w"
proof -
  define texts where "texts = fold_res (\<lambda>key _. case cbor_optional w key of Some v \<Rightarrow> and_then (cbor_text v) (\<lambda>_. Ok ()) | None \<Rightarrow> Ok ()) [1, 2, 3] ()"
  define optional where "optional \<longleftrightarrow> list_all (\<lambda>n. case cbor_optional w n of Some v \<Rightarrow> is_text v | None \<Rightarrow> True) [1, 2, 3]"
  have "(case x of Some v \<Rightarrow> and_then (cbor_text v) (\<lambda>_. Ok ()) | None \<Rightarrow> Ok ()) = Ok ()
      \<longleftrightarrow> (case x of Some v \<Rightarrow> is_text v | None \<Rightarrow> True)" for x
    by (auto simp: is_text_def split: option.splits cbor.splits)
  then have texts: "texts = Ok () \<longleftrightarrow> optional" unfolding texts_def optional_def by simp
  have fields: "(\<exists>es. cbor_fields w = Inr es) \<longleftrightarrow> (case w of CMap es \<Rightarrow> each_field (\<lambda>_ _. True) es | _ \<Rightarrow> False)"
    using fields_spec [of w] by (simp add: is_ok_iff)
  have "is_ok (check_metadata needs w) \<longleftrightarrow> \<not> needs \<and> (\<exists>es. cbor_fields w = Inr es)
      \<and> (\<exists>table. cbor_optional w 0 = Some (CMap table) \<and> list_all (\<lambda>(k, v). is_text k \<and> is_text v) table) \<and> optional"
    unfolding check_metadata_def is_ok_iff texts_def [symmetric] using text_table_spec texts by auto
  then show ?thesis unfolding fields valid_metadata_def optional_def [symmetric]
    by (cases w) (auto split: option.splits cbor.splits)
qed

lemma envelope_spec:
  "extension_ok ext \<and> extension_identity ext = ident \<and> cbor_optional ext 2 = Some payload \<longleftrightarrow> valid_envelope ext ident payload"
  (is "?l \<longleftrightarrow> ?r")
proof
  assume ?l
  then obtain needs where e: "is_ok (cbor_fields ext)" "cbor_optional ext 0 = Some (CText ident)"
    "cbor_optional ext 1 = Some (CBool needs)" "cbor_optional ext 2 = Some payload" "valid_identity ident"
    "(if ident = SOURCE_METADATA then check_metadata needs payload else Ok ()) = Ok ()"
    by (auto elim!: extension_okE)
  obtain es where ext: "ext = CMap es" "each_field (\<lambda>_ _. True) es" using e(1) by (auto simp: fields_spec split: cbor.splits)
  show ?r
  proof (cases "ident = SOURCE_METADATA")
    case True
    with e(6) have "is_ok (check_metadata needs payload)" by (simp add: is_ok_iff)
    then have "\<not> needs \<and> valid_metadata payload" unfolding metadata_spec .
    with e(2-5) True ext show ?thesis by (simp add: valid_envelope_def)
  next
    case False
    with e ext show ?thesis by (cases needs) (simp_all add: valid_envelope_def)
  qed
next
  assume ?r
  then obtain es where ext: "ext = CMap es" "each_field (\<lambda>_ _. True) es" by (auto simp: valid_envelope_def split: cbor.splits)
  with \<open>?r\<close> obtain needs where e: "cbor_optional ext 0 = Some (CText ident)" "valid_identity ident"
    "cbor_optional ext 2 = Some payload" "cbor_optional ext 1 = Some (CBool needs)"
    and meta: "ident = SOURCE_METADATA \<Longrightarrow> is_ok (check_metadata needs payload)"
    by (cases "ident = SOURCE_METADATA") (auto simp: valid_envelope_def metadata_spec)
  have "(if ident = SOURCE_METADATA then check_metadata needs payload else Ok ()) = Ok ()"
    using meta by (auto simp: is_ok_iff)
  then show ?l using extension_okI [OF _ e(1,4,3,2)] e(3) ext by (simp add: fields_spec)
qed

lemma envelopes_spec:
  "extensions_ok exts \<longleftrightarrow> (\<exists>ps. list_all2 (\<lambda>ext (ident, payload). valid_envelope ext ident payload) exts ps \<and> distinct (map fst ps))"
proof -
  have "list_all2 (\<lambda>ext (ident, payload). valid_envelope ext ident payload) exts ps \<Longrightarrow>
      list_all extension_ok exts \<and> map extension_identity exts = map fst ps" for ps
    by (induction rule: list_all2_induct) (auto simp flip: envelope_spec)
  moreover have "\<exists>ps. list_all2 (\<lambda>ext (ident, payload). valid_envelope ext ident payload) exts ps \<and> map extension_identity exts = map fst ps"
    if "list_all extension_ok exts" using that
  proof (induction exts)
    case (Cons ext exts)
    then obtain ps where ps: "list_all2 (\<lambda>ext (ident, payload). valid_envelope ext ident payload) exts ps"
      "map extension_identity exts = map fst ps" by auto
    obtain payload where "cbor_optional ext 2 = Some payload" using Cons.prems by (auto elim!: extension_okE)
    then have "valid_envelope ext (extension_identity ext) payload" using Cons.prems by (simp flip: envelope_spec)
    with ps show ?case by (intro exI [of _ "(extension_identity ext, payload) # ps"]) simp
  qed simp
  ultimately show ?thesis unfolding extensions_ok_def by metis
qed

text \<open>The fields of a description, given what key 18 may hold.\<close>

lemma field_spec:
  assumes "n = 18 \<Longrightarrow> exts w = Ok () \<longleftrightarrow> valid_extensions w"
  shows "(case map_of (description_checks exts) n of Some check \<Rightarrow> check w = Ok () | None \<Rightarrow> True) \<longleftrightarrow> valid_field n w"
proof (cases "n < 20")
  case True
  then have "n \<in> {0, 1, 2, 3, 4, 5, 6, 7, 8, 9, 10, 11, 12, 13, 14, 15, 16, 17, 18, 19}" by (simp, presburger)
  then show ?thesis using assms
    by (elim insertE emptyE) (simp_all add: description_checks_def valid_field_simps field_specs quantity_spec
        list_spec [OF operation_spec] list_spec [OF choice_spec] list_spec [OF bitfield_spec] list_spec [OF version_spec]
        list_spec [OF condition_spec] list_spec [OF opaque_spec] list_spec [OF vcp_spec])
next
  case False
  then have "map_of (description_checks exts) n = None" by (simp add: description_checks_def)
  with False show ?thesis by (auto intro: field_unassigned)
qed

text \<open>One level: a list whose descriptions are accepted, and a description whose fields are.\<close>

lemma list_level:
  "desc_extensions v = Ok () \<longleftrightarrow>
     (\<exists>exts ps. v = CArray exts \<and> list_all2 (\<lambda>ext (ident, payload). valid_envelope ext ident payload) exts ps
        \<and> distinct (map fst ps)
        \<and> (\<forall>payload. (DESCRIPTION, payload) \<in> set ps \<longrightarrow> description payload = Ok ()))"
proof -
  have payload: "(case w of Some (CMap es) \<Rightarrow> list_all (entry_ok (description_checks desc_extensions) True) es | _ \<Rightarrow> False)
      \<longleftrightarrow> (\<exists>p. w = Some p \<and> description p = Ok ())" for w
    by (auto simp: description_def description_with_def object_Ok split: option.splits cbor.splits)
  have under: "(\<exists>ps. A ps \<and> D ps) \<and> L \<longleftrightarrow> (\<exists>ps. A ps \<and> D ps \<and> Q ps)" if "\<And>ps. A ps \<Longrightarrow> L \<longleftrightarrow> Q ps"
    for A D Q :: "(string \<times> cbor) list \<Rightarrow> bool" and L
    using that by blast
  have each: "list_all (\<lambda>ext. if extension_identity ext = DESCRIPTION
        then (\<exists>p. cbor_optional ext 2 = Some p \<and> description p = Ok ()) else True) exts
      \<longleftrightarrow> (\<forall>payload. (DESCRIPTION, payload) \<in> set ps \<longrightarrow> description payload = Ok ())"
    if "list_all2 (\<lambda>ext (ident, payload). valid_envelope ext ident payload) exts ps" for exts ps
    using that
  proof (induction rule: list_all2_induct)
    case (Cons ext exts e ps)
    obtain ident payload where e: "e = (ident, payload)" by (metis surj_pair)
    with Cons.hyps(1) have "extension_identity ext = ident" "cbor_optional ext 2 = Some payload"
      by (simp_all flip: envelope_spec)
    with Cons.IH e show ?case by auto
  qed simp
  show ?thesis
  proof (cases "\<exists>exts. v = CArray exts")
    case True
    then obtain exts where v: "v = CArray exts" by blast
    have "desc_extensions v = Ok () \<longleftrightarrow> extensions_ok exts \<and> list_all (\<lambda>ext. if extension_identity ext = DESCRIPTION
        then (\<exists>p. cbor_optional ext 2 = Some p \<and> description p = Ok ()) else True) exts"
      unfolding desc_extensions_unfold payload v cbor.case ..
    also have "\<dots> \<longleftrightarrow> (\<exists>ps. list_all2 (\<lambda>ext (ident, payload). valid_envelope ext ident payload) exts ps \<and> distinct (map fst ps)
        \<and> (\<forall>payload. (DESCRIPTION, payload) \<in> set ps \<longrightarrow> description payload = Ok ()))"
      unfolding envelopes_spec by (rule under) (rule each)
    finally show ?thesis unfolding v by simp
  next
    case False
    then show ?thesis unfolding desc_extensions_unfold by (cases v) auto
  qed
qed

lemma description_level:
  assumes "\<And>w. size w < size v \<Longrightarrow> desc_extensions w = Ok () \<longleftrightarrow> valid_extensions w"
  shows "description v = Ok () \<longleftrightarrow> valid_description v"
proof (cases "\<exists>es. v = CMap es")
  case True
  then obtain es where v: "v = CMap es" by blast
  have entry: "entry_ok (description_checks desc_extensions) True (k, w)
      \<longleftrightarrow> (case k of CInteger i \<Rightarrow> 0 \<le> i \<and> i < 2 ^ 64 \<and> valid_field (nat i) w | _ \<Rightarrow> False)" if "(k, w) \<in> set es" for k w
  proof -
    have "(case map_of (description_checks desc_extensions) n of Some check \<Rightarrow> check w = Ok () | None \<Rightarrow> True) \<longleftrightarrow> valid_field n w" for n
      by (rule field_spec, rule assms) (use map_entry_size [OF that] v in simp)
    then show ?thesis by (rule entry_spec)
  qed
  have "list_all (entry_ok (description_checks desc_extensions) True) es \<longleftrightarrow> each_field valid_field es"
    unfolding each_field_def
  proof (rule list.pred_cong [OF refl])
    fix e assume "e \<in> set es"
    moreover obtain k w where "e = (k, w)" by (metis surj_pair)
    ultimately show "entry_ok (description_checks desc_extensions) True e
        \<longleftrightarrow> (case e of (k, w) \<Rightarrow> case k of CInteger i \<Rightarrow> 0 \<le> i \<and> i < 2 ^ 64 \<and> valid_field (nat i) w | _ \<Rightarrow> False)"
      using entry [of k w] by (simp only: prod.case)
  qed
  moreover have "each_field valid_field es \<longleftrightarrow> valid_description v"
  proof -
    have "valid_description v \<longleftrightarrow> each_field (\<lambda>_ _. True) es \<and> (\<forall>i w. (CInteger i, w) \<in> set es \<longrightarrow> valid_field (nat i) w)"
      unfolding v by (auto elim: valid_descriptionE intro: description_map)
    also have "\<dots> \<longleftrightarrow> each_field valid_field es"
      by (fastforce simp: each_field_def list_all_iff split: cbor.splits)
    finally show ?thesis ..
  qed
  ultimately show ?thesis by (simp add: v description_def description_with_def object_Ok)
next
  case False
  then show ?thesis
    by (cases v) (auto simp: description_def description_with_def object_Ok elim: valid_descriptionE)
qed

lemma envelope_payload_size: "valid_envelope ext ident payload \<Longrightarrow> ext \<in> set exts \<Longrightarrow> size payload < size (CArray exts)"
proof -
  assume "valid_envelope ext ident payload" "ext \<in> set exts"
  then have "cbor_field ext 2 = Inr payload" "cbor_array (CArray exts) = Inr exts"
    by (auto simp flip: envelope_spec)
  with \<open>ext \<in> set exts\<close> show "size payload < size (CArray exts)"
    by (metis cbor_array_size cbor_field_size less_trans)
qed

lemma extensions_spec: "desc_extensions v = Ok () \<longleftrightarrow> valid_extensions v"
proof (induction "size v" arbitrary: v rule: less_induct)
  case less
  have "description payload = Ok () \<longleftrightarrow> valid_description payload"
    if v: "v = CArray exts" and ps: "list_all2 (\<lambda>ext (ident, payload). valid_envelope ext ident payload) exts ps" "(ident, payload) \<in> set ps"
    for exts ps ident payload
  proof -
    obtain ext where "ext \<in> set exts" "valid_envelope ext ident payload" using ps
      by (auto simp: list_all2_conv_all_nth in_set_conv_nth split: prod.splits)
    then have "size payload < size v" using envelope_payload_size v by blast
    then show ?thesis by (intro description_level less.hyps) simp
  qed
  note payloads = this
  show ?case
  proof
    assume "desc_extensions v = Ok ()"
    then obtain exts ps where v: "v = CArray exts" and ps: "list_all2 (\<lambda>ext (ident, payload). valid_envelope ext ident payload) exts ps"
      "distinct (map fst ps)" "\<And>payload. (DESCRIPTION, payload) \<in> set ps \<Longrightarrow> description payload = Ok ()"
      unfolding list_level by blast
    show "valid_extensions v" unfolding v using ps payloads [OF v ps(1)] by (intro extension_list) auto
  next
    assume "valid_extensions v"
    then obtain exts ps where v: "v = CArray exts" and ps: "list_all2 (\<lambda>ext (ident, payload). valid_envelope ext ident payload) exts ps"
      "distinct (map fst ps)" "\<forall>payload. (DESCRIPTION, payload) \<in> set ps \<longrightarrow> valid_description payload"
      by (rule valid_extensionsE) blast
    then show "desc_extensions v = Ok ()" unfolding list_level using payloads [OF v ps(1)] by blast
  qed
qed

text \<open>
  C22: the producer accepts a list of extensions exactly if it is valid by the register: an array of
  envelopes, each a map with unsigned keys, a valid identity, which no other of them has, a boolean and
  a payload; source metadata is optional and holds a table of texts; and the payload of every function
  description is a map with unsigned keys each of whose fields is what its key requires, from the
  category (1 to 6) and the access (0 to 3) to operations, quantities, choices, bit fields, versions,
  conditions and opaque descriptors. The quirks of key 18 are a list of extensions valid by the same
  rules, at every depth.
\<close>

theorem extensions_accept_exactly: "desc_extensions v = Ok () \<longleftrightarrow> valid_extensions v"
  by (rule extensions_spec)

end
