(* ===== verification/Db_Writing.thy ===== *)
theory Db_Writing
  imports Descriptors
begin

text \<open>
  The producer's side of \<^verbatim>\<open>crates/ddccontrol-db-format/src/writing.rs\<close>: \<open>validate\<close>, which accepts
  a database for publication, and \<open>fallback_manifest\<close>, which decides whether the XML files may
  stand in for the CBOR file. (\<open>encode\<close> is in the theory of the codec.) The main result is that an
  XML fallback is permitted only for a database in which no node and no extension is required.
\<close>

section \<open>Validation\<close>

definition extensions_at :: "cbor \<Rightarrow> nat \<Rightarrow> unit checked" where
  "extensions_at v key =
     (case cbor_optional v key of Some exts \<Rightarrow> desc_extensions exts | None \<Rightarrow> Ok ())"

definition kind_tag :: "nat \<Rightarrow> string" where
  "kind_tag kind = (case kind_name kind of Some tag \<Rightarrow> tag | None \<Rightarrow> ''unknown'')"

function validate_node :: "cbor \<Rightarrow> string \<Rightarrow> bool \<Rightarrow> bool \<Rightarrow> unit checked" where
  "validate_node v parent options ancestor =
     and_then (and_then (cbor_field v 0) cbor_uint) (\<lambda>kind.
       let tag = kind_tag kind; active = executable_path tag parent options ancestor
       in and_then
            (if \<not> active
             then and_then (and_then (cbor_field v 1) cbor_fields) (\<lambda>entries.
                    if list_ex (\<lambda>(k, _). case cbor_uint k of Inr ident \<Rightarrow> ident < 16 | Inl _ \<Rightarrow> False) entries
                    then Err ''CBOR executable attribute in inactive branch''
                    else Ok ())
             else Ok ()) (\<lambda>_.
          and_then (extensions_at v 3) (\<lambda>_.
          and_then (and_then (cbor_field v 2) cbor_array) (\<lambda>kids.
            try_for_each (\<lambda>child. validate_node child tag options active) kids))))"
  by pat_completeness auto
termination
  by (relation "measure (\<lambda>(v, _). size v)") (auto intro: children_size)

declare validate_node.simps [simp del]

definition join_comma :: "string list \<Rightarrow> string" where
  "join_comma xs = concat (map (\<lambda>(i, x). (if i = 0 then x else '', '' @ x)) (enumerate 0 xs))"

definition validate_rest :: "cbor \<Rightarrow> unit checked" where
  "validate_rest root =
     and_then (extensions_at root 7) (\<lambda>_.
     and_then (and_then (cbor_field root 5) (\<lambda>v. validate_node v [] True True)) (\<lambda>_.
     and_then (and_then (cbor_field root 6) cbor_map) (\<lambda>entries.
       try_for_each (\<lambda>(_, profile). validate_node profile [] False True) entries)))"

definition validate ::
  "(bytes \<Rightarrow> bytes) \<Rightarrow> (cbor \<Rightarrow> bytes) \<Rightarrow> (bytes \<Rightarrow> cbor checked) \<Rightarrow> bytes \<Rightarrow> cbor checked option" where
  "validate sha256 into_writer from_reader bs =
     (case cbor_value from_reader bs of
        Inl e \<Rightarrow> Some (Err e)
      | Inr root \<Rightarrow>
          (case decode_value sha256 into_writer root False of
             None \<Rightarrow> None
           | Some (Inl e) \<Rightarrow> Some (Err e)
           | Some (Inr db) \<Rightarrow>
               if db_profiles db = [] then Some (Err ''CBOR database has no profiles'')
               else map_option (\<lambda>invalid.
                      if invalid \<noteq> [] then Err (''CBOR missing/cyclic/excessive include: '' @ join_comma invalid)
                      else and_then (validate_rest root) (\<lambda>_. Ok root))
                    (invalid_reference_profiles (db_profiles db) True)))"

section \<open>The fallback manifest\<close>

fun any_res :: "('a \<Rightarrow> bool checked) \<Rightarrow> 'a list \<Rightarrow> bool checked" where
  "any_res f [] = Ok False"
| "any_res f (x # xs) = and_then (f x) (\<lambda>b. if b then Ok True else any_res f xs)"

lemma any_res_cong [fundef_cong]:
  "xs = ys \<Longrightarrow> (\<And>x. x \<in> set ys \<Longrightarrow> f x = g x) \<Longrightarrow> any_res f xs = any_res g ys"
proof (induction xs arbitrary: ys)
  case (Cons x xs)
  have tail: "any_res f xs = any_res g xs" and "f x = g x" using Cons.prems by (auto intro: Cons.IH)
  then show ?case unfolding Cons.prems(1) [symmetric] any_res.simps tail by simp
qed simp

lemma any_res_False: "any_res f xs = Inr False \<longleftrightarrow> list_all (\<lambda>x. f x = Inr False) xs"
  by (induction xs) (auto split: if_splits)

function unknown_node :: "cbor \<Rightarrow> bool checked" where
  "unknown_node v =
     and_then (and_then (cbor_field v 0) cbor_uint) (\<lambda>kind.
       if kind_name kind = None \<and> kind \<noteq> 255 then Ok True
       else and_then (and_then (cbor_field v 2) cbor_array) (\<lambda>kids. any_res (\<lambda>child. unknown_node child) kids))"
  by pat_completeness auto
termination
  by (relation "measure size") (auto intro: children_size)

declare unknown_node.simps [simp del]

function (sequential) necessary :: "cbor \<Rightarrow> bool" where
  "necessary (CMap es) \<longleftrightarrow>
     (case Option.bind (cbor_optional (CMap es) 0) as_text of Some t \<Rightarrow> valid_identity t | None \<Rightarrow> False)
       \<and> Option.bind (cbor_optional (CMap es) 1) as_bool = Some True
       \<and> cbor_optional (CMap es) 2 \<noteq> None
     \<or> list_ex (\<lambda>e. necessary (snd e)) es"
| "necessary (CArray vs) \<longleftrightarrow> list_ex (\<lambda>v. necessary v) vs"
| "necessary _ \<longleftrightarrow> False"
  by pat_completeness auto
termination
  by (relation "measure size")
    (auto simp: less_Suc_eq_le size_list_estimation' dest: map_entry_size [unfolded cbor.size])

declare necessary.simps [simp del]

definition fallback_manifest :: "cbor \<Rightarrow> cbor checked" where
  "fallback_manifest root =
     and_then (if necessary root then Ok True else and_then (cbor_field root 5) unknown_node) (\<lambda>stop.
       if stop then Ok (CBool False)
       else and_then (and_then (cbor_field root 6) cbor_map) (\<lambda>entries.
            and_then (any_res (\<lambda>(_, profile). unknown_node profile) entries) (\<lambda>stop.
              if stop then Ok (CBool False) else cbor_field root 8)))"

text \<open>The runtime's test for required semantics anywhere below a node.\<close>

fun has_required :: "node \<Rightarrow> bool" where
  "has_required (Node tag attrs children line req) \<longleftrightarrow> req \<or> list_ex has_required children"

section \<open>A permitted fallback\<close>

lemma cbor_nodeE:
  assumes "cbor_node v parent in_options = Inr n"
  obtains tag attrs children req entries kind kids kv av where
    "n = Node tag attrs children 0 (if kind_name kind = None \<and> kind \<noteq> 255 then True else req)"
    "cbor_optional v 0 = Some kv" "cbor_uint kv = Inr kind" "node_kind_tag v kind = Inr tag"
    "required_extensions v 3 = Inr req"
    "cbor_optional v 1 = Some av" "cbor_fields av = Inr entries"
    "fold_res (attribute_step tag parent (executable_attributes tag parent in_options)) entries [] = Inr attrs"
    "cbor_optional v 2 = Some (CArray kids)"
    "list_all2 (\<lambda>child m. cbor_node child tag in_options = Inr m) kids children"
    "list_all (\<lambda>child. size child < size v) kids"
proof -
  from assms [unfolded cbor_node.simps [of v parent]] obtain tag attrs kids children req entries kind kv av where
      n: "n = Node tag attrs children 0 (if kind_name kind = None \<and> kind \<noteq> 255 then True else req)"
      "cbor_optional v 0 = Some kv" "cbor_uint kv = Inr kind" "node_kind_tag v kind = Inr tag"
      "required_extensions v 3 = Inr req"
      "cbor_optional v 1 = Some av" "cbor_fields av = Inr entries"
      "fold_res (attribute_step tag parent (executable_attributes tag parent in_options)) entries [] = Inr attrs"
    and kids: "collect (map (\<lambda>child. cbor_node child tag in_options) kids) = Inr children"
    and c: "cbor_optional v 2 = Some (CArray kids)"
    by (auto simp: Let_def)
  have "list_all2 (\<lambda>child m. cbor_node child tag in_options = Inr m) kids children"
    using kids by (auto simp: collect_eq_Inr list_all2_conv_all_nth list_eq_iff_nth_eq)
  moreover have "list_all (\<lambda>child. size child < size v) kids"
    using c children_size [of v 2 _ kids] by (auto simp: list_all_iff)
  ultimately show ?thesis using that n c by blast
qed

lemma cbor_optional_entry:
  "cbor_optional v key = Some w \<Longrightarrow> \<exists>es k. v = CMap es \<and> (k, w) \<in> set es"
  by (cases v) (auto simp: cbor_optional_def as_map_def split: if_splits dest!: find_map_Some)

lemma necessary_entry: "(key, w) \<in> set es \<Longrightarrow> necessary w \<Longrightarrow> necessary (CMap es)"
  unfolding necessary.simps(1) list_ex_iff by (rule disjI2) force

lemma necessary_field: "cbor_optional v key = Some w \<Longrightarrow> necessary w \<Longrightarrow> necessary v"
  using cbor_optional_entry by (fastforce simp: necessary.simps list_ex_iff)

lemma necessary_child: "cbor_optional v key = Some (CArray ws) \<Longrightarrow> w \<in> set ws \<Longrightarrow> necessary w \<Longrightarrow> necessary v"
  by (erule necessary_field) (auto simp: necessary.simps list_ex_iff)

lemma needed_necessary:
  assumes "extension_ok ext" and "extension_needed ext" shows "necessary ext"
proof -
  from assms obtain ident payload where e: "cbor_optional ext 0 = Some (CText ident)"
    "cbor_optional ext 1 = Some (CBool True)" "cbor_optional ext 2 = Some payload" "valid_identity ident"
    by (metis extension_okE)
  then obtain es where "ext = CMap es" using cbor_optional_entry by blast
  with e show ?thesis by (simp add: necessary.simps as_text_def as_bool_def)
qed

lemma required_necessary: "required_extensions v key = Inr True \<Longrightarrow> necessary v"
  using needed_necessary necessary_child
  by (fastforce simp: required_extensions_Ok extensions_ok_def list_all_iff list_ex_iff split: option.splits cbor.splits)

lemma unknown_node_False:
  assumes "unknown_node v = Inr False" "cbor_optional v 0 = Some kv" "cbor_uint kv = Inr kind"
    "cbor_optional v 2 = Some (CArray kids)"
  shows "\<not> (kind_name kind = None \<and> kind \<noteq> 255)" "list_all (\<lambda>child. unknown_node child = Inr False) kids"
proof -
  have "unknown_node v = (if kind_name kind = None \<and> kind \<noteq> 255 then Ok True
      else any_res (\<lambda>child. unknown_node child) kids)"
    by (subst unknown_node.simps) (simp add: cbor_field_def assms(2-4) cbor_array_def as_array_def)
  with assms(1) show "\<not> (kind_name kind = None \<and> kind \<noteq> 255)" "list_all (\<lambda>child. unknown_node child = Inr False) kids"
    by (simp_all add: any_res_False split: if_split_asm)
qed

lemma node_not_required:
  "cbor_node v parent in_options = Inr n \<Longrightarrow> \<not> necessary v \<Longrightarrow> unknown_node v = Inr False \<Longrightarrow> \<not> has_required n"
proof (induction "size v" arbitrary: v parent n rule: less_induct)
  case less
  from less.prems(1) obtain tag attrs children req kind kids kv where
      n: "n = Node tag attrs children 0 (if kind_name kind = None \<and> kind \<noteq> 255 then True else req)"
    and kind: "cbor_optional v 0 = Some kv" "cbor_uint kv = Inr kind"
    and req: "required_extensions v 3 = Inr req"
    and c: "cbor_optional v 2 = Some (CArray kids)"
    and kids: "list_all2 (\<lambda>child m. cbor_node child tag in_options = Inr m) kids children"
      "list_all (\<lambda>child. size child < size v) kids" by (rule cbor_nodeE)
  have "\<not> req" using req required_necessary less.prems(2) by (cases req) auto
  moreover note k = unknown_node_False [OF less.prems(3) kind c]
  moreover have "\<not> has_required m" if "m \<in> set children" for m
  proof -
    from that obtain i where i: "i < length children" "m = children ! i" by (auto simp: in_set_conv_nth)
    then have "kids ! i \<in> set kids" "cbor_node (kids ! i) tag in_options = Inr m"
      using list_all2_nthD2 [OF kids(1) i(1)] list_all2_lengthD [OF kids(1)] by simp_all
    moreover from this have "\<not> necessary (kids ! i)" using necessary_child [OF c] less.prems(2) by blast
    moreover have "unknown_node (kids ! i) = Inr False"
      using k(2) \<open>kids ! i \<in> set kids\<close> by (simp add: list_all_iff)
    ultimately show ?thesis using kids(2) less.hyps [of "kids ! i" tag m] by (simp add: list_all_iff)
  qed
  ultimately show ?case by (simp add: n list_ex_iff)
qed

lemma profile_nodes_inv:
  assumes "fold_res (profile_step man) es ps = Inr ps'" and "list_all (\<lambda>(_, p). P p) ps"
    and "\<And>key w n. (key, w) \<in> set es \<Longrightarrow> cbor_node w [] False = Inr n \<Longrightarrow> P n"
  shows "list_all (\<lambda>(_, p). P p) ps'"
  using assms
proof (induction es arbitrary: ps)
  case (Cons e es)
  obtain key w where e: "e = (key, w)" by fastforce
  from Cons.prems(1) obtain qs where step: "profile_step man (key, w) ps = Inr qs"
    and rest: "fold_res (profile_step man) es qs = Inr ps'" by (auto simp: e)
  from step obtain ident p where "cbor_node w [] False = Inr p" "qs = bt_insert ident p ps"
    by (auto simp: profile_step_def split: if_splits)
  with rest have "cbor_node w [] False = Inr p"
    "fold_res (profile_step man) es (bt_insert ident p ps) = Inr ps'" by simp_all
  moreover from this have "list_all (\<lambda>(_, p). P p) (bt_insert ident p ps)"
    using Cons.prems(2,3) e by (intro list_all_bt_insert) auto
  ultimately show ?case using Cons.IH Cons.prems(3) by (meson list.set_intros(2))
qed simp

text \<open>
  C23: the XML files may stand in for a database only if nothing in it is required: when the fallback
  manifest is anything but \<open>false\<close>, it is the source manifest itself, the database has no required
  extension, and no node of the options or of a decoded profile carries required semantics.
\<close>

theorem fallback_manifest_safe:
  assumes "fallback_manifest root = Ok v" and "v \<noteq> CBool False"
    and "decode_body sha256 into_writer root consumer = Ok db"
  shows "cbor_field root 8 = Ok v \<and> required_extensions root 7 = Ok False
    \<and> \<not> has_required (db_options db) \<and> list_all (\<lambda>(_, p). \<not> has_required p) (db_profiles db)"
proof -
  from assms(1,2) obtain ov es where nec: "\<not> necessary root"
    and o: "cbor_optional root 5 = Some ov" "unknown_node ov = Inr False"
    and p: "cbor_optional root 6 = Some (CMap es)" "list_all (\<lambda>(_, p). unknown_node p = Inr False) es"
    and v: "cbor_field root 8 = Ok v"
    by (auto simp: fallback_manifest_def any_res_False case_prod_unfold split: if_splits)
  from assms(3) obtain req options man ps where
      head: "required_extensions root 7 = Inr req"
    and on: "cbor_node ov [] True = Inr options" and ps: "fold_res (profile_step man) es [] = Inr ps"
    and db: "db_options db = options" "db_profiles db = ps"
    using o p by (auto simp: decode_body_def check_header_def split: if_splits)
  have "\<not> req" using head required_necessary nec by (cases req) auto
  moreover have "\<not> has_required options"
    using node_not_required [OF on] o necessary_field [OF o(1)] nec by blast
  moreover have "list_all (\<lambda>(_, p). \<not> has_required p) ps"
  proof (rule profile_nodes_inv [OF ps], simp)
    fix key w n assume w: "(key, w) \<in> set es" "cbor_node w [] False = Inr n"
    then have "necessary (CMap es)" if "necessary w" using that necessary_entry by blast
    then have "\<not> necessary w" using necessary_field [OF p(1)] nec by blast
    then show "\<not> has_required n" using w p(2) node_not_required by (fastforce simp: list_all_iff)
  qed
  ultimately show ?thesis using v head db by simp
qed

lemmas cbor_access = cbor_field_def cbor_optional_def as_map_def cbor_uint_def as_bytes_def
  as_array_def as_text_def as_integer_def cbor_text_def cbor_map_def cbor_array_def cbor_integer_def

theorem fallback_manifest_safe_witness:
  "\<exists>db. decode_body (\<lambda>_. replicate 32 0) enc
     (CMap [(CInteger 0, CBytes (map byte_of ''DDCDB'')), (CInteger 1, CInteger 1), (CInteger 2, CText ''r''),
        (CInteger 3, CInteger 3), (CInteger 4, CText ''ddccontrol-db''),
        (CInteger 5, CMap [(CInteger 0, CInteger 0), (CInteger 1, CMap []), (CInteger 2, CArray [])]),
        (CInteger 6, CMap []),
        (CInteger 8, CMap [(CText ''options.xml'', CBytes (replicate 32 0))]),
        (CInteger 9, CBytes (replicate 32 0))]) True = Ok db \<and> \<not> has_required (db_options db)"
proof -
  let ?man = "CMap [(CText ''options.xml'', CBytes (replicate 32 0))]"
  let ?opt = "CMap [(CInteger 0, CInteger 0), (CInteger 1, CMap []), (CInteger 2, CArray [])]"
  let ?root = "CMap [(CInteger 0, CBytes (map byte_of ''DDCDB'')), (CInteger 1, CInteger 1), (CInteger 2, CText ''r''),
        (CInteger 3, CInteger 3), (CInteger 4, CText ''ddccontrol-db''), (CInteger 5, ?opt),
        (CInteger 6, CMap []), (CInteger 8, ?man), (CInteger 9, CBytes (replicate 32 0))]"
  have "manifest ?man = Ok [(''options.xml'', replicate 32 0)]"
    by (simp add: manifest_def cbor_access manifest_step_def manifest_path_def bytes32_def bt_get_def MAX_PROFILES_def)
  moreover have "is_ok (encode enc ?man)"
    by (simp add: encode_def canonical.simps cbor_limits enc_head_def is_text_def str_bytes_def Let_def)
  then have "manifest_digest (\<lambda>_. replicate 32 0) enc ?man = Ok (replicate 32 0)"
    by (auto simp: manifest_digest_def is_ok_iff)
  moreover have "cbor_node ?opt [] True = Ok (Node ''options'' [] [] 0 False)"
    by (subst cbor_node.simps) (simp add: cbor_access cbor_fields_def node_kind_tag_def required_extensions_def kind_name_def KINDS_def Let_def)
  moreover have "check_header ?root True = Ok ()"
    by (simp add: check_header_def cbor_fields_def cbor_access required_extensions_def)
  ultimately have body: "decode_body (\<lambda>_. replicate 32 0) enc ?root True =
      Ok \<lparr>db_options = Node ''options'' [] [] 0 False, db_profiles = [], db_manifest = [(''options.xml'', replicate 32 0)],
         db_snapshot = replicate 32 0\<rparr>"
    by (simp add: decode_body_def cbor_access bytes32_def)
  have "unknown_node ?opt = Ok False"
    by (subst unknown_node.simps) (simp add: cbor_access kind_name_def KINDS_def)
  moreover have "\<not> necessary ?root"
    by (simp add: necessary.simps cbor_access)
  ultimately have "fallback_manifest ?root = Ok ?man"
    by (simp add: fallback_manifest_def cbor_access)
  from fallback_manifest_safe [OF this _ body] show ?thesis using body by simp
qed

section \<open>What validation establishes\<close>

text \<open>Attributes occur only on the executable paths of the tree.\<close>

fun inert_ok :: "string \<Rightarrow> bool \<Rightarrow> bool \<Rightarrow> node \<Rightarrow> bool" where
  "inert_ok parent options ancestor (Node tag attrs children line req) \<longleftrightarrow>
     (executable_path tag parent options ancestor \<or> attrs = [])
     \<and> list_all (inert_ok tag options (executable_path tag parent options ancestor)) children"

lemma attribute_fold_unknown:
  assumes "fold_res (attribute_step tag parent allowed) entries attrs = Inr attrs'"
    and "\<not> list_ex (\<lambda>(k, _). case cbor_uint k of Inr ident \<Rightarrow> ident < 16 | Inl _ \<Rightarrow> False) entries"
  shows "attrs' = attrs"
  using assms
proof (induction entries arbitrary: attrs)
  case (Cons e entries)
  obtain k v where e: "e = (k, v)" by fastforce
  from Cons.prems(1) obtain mid where mid: "attribute_step tag parent allowed (k, v) attrs = Inr mid"
    "fold_res (attribute_step tag parent allowed) entries mid = Inr attrs'" by (auto simp: e)
  from mid(1) obtain n where n: "cbor_uint k = Inr n" by (auto simp: attribute_step_def)
  with Cons.prems(2) e have "map_of ATTRIBUTES n = None" by (auto simp: ATTRIBUTES_def)
  with mid(1) n have "mid = attrs" by (auto simp: attribute_step_def split: if_splits)
  with Cons.IH [OF mid(2)] Cons.prems(2) show ?case by simp
qed simp

lemma executable_path_known: "executable_path tag parent options ancestor \<Longrightarrow> kind_id tag \<noteq> None"
proof -
  have known: "kind_id t \<noteq> None" if "t \<in> snd ` set KINDS" for t
    using that by (elim imageE) (simp add: KINDS_def kind_id_def, elim disjE; simp)
  assume "executable_path tag parent options ancestor"
  then have "tag \<in> {''options'', ''group'', ''subgroup'', ''control'', ''value'', ''monitor'', ''caps'', ''include'', ''controls''}"
    unfolding executable_path_def executable_attributes_def by (simp only: split: if_split_asm) simp_all
  then have "tag \<in> snd ` set KINDS" by (simp add: KINDS_def)
  then show ?thesis by (rule known)
qed

lemma unknown_kind_tag: "kind_id ''unknown'' = None"
  by (simp add: kind_id_def KINDS_def)

text \<open>
  The decoder reads the tag of an inert source node from its metadata and the validator calls it
  unknown; neither is executable.
\<close>

lemma kind_tag_path:
  assumes "node_kind_tag v kind = Inr tag"
  shows "tag = kind_tag kind \<or> (\<forall>parent options ancestor. \<not> executable_path tag parent options ancestor
    \<and> \<not> executable_path (kind_tag kind) parent options ancestor)"
proof (cases "kind = 255")
  case True
  then have "kind_tag kind = ''unknown''" by (simp add: kind_tag_def kind_name_def KINDS_def)
  moreover from assms True have "kind_id tag = None" by (auto simp: node_kind_tag_def split: if_splits)
  ultimately show ?thesis using executable_path_known unknown_kind_tag by metis
next
  case False
  with assms show ?thesis by (simp add: node_kind_tag_def kind_tag_def)
qed

lemma executable_path_inactive [simp]: "\<not> executable_path tag parent options False"
  by (simp add: executable_path_def)

lemma validate_nodeE:
  assumes "validate_node v parent options ancestor = Inr ()" "cbor_optional v 0 = Some kv" "cbor_uint kv = Inr kind"
    "cbor_optional v 1 = Some av" "cbor_fields av = Inr entries" "cbor_optional v 2 = Some (CArray kids)"
  shows "executable_path (kind_tag kind) parent options ancestor
      \<or> \<not> list_ex (\<lambda>(k, _). case cbor_uint k of Inr ident \<Rightarrow> ident < 16 | Inl _ \<Rightarrow> False) entries"
    and "list_all (\<lambda>child. validate_node child (kind_tag kind) options
      (executable_path (kind_tag kind) parent options ancestor) = Inr ()) kids"
proof -
  let ?active = "executable_path (kind_tag kind) parent options ancestor"
  have "validate_node v parent options ancestor =
     and_then (if \<not> ?active then (if list_ex (\<lambda>(k, _). case cbor_uint k of Inr ident \<Rightarrow> ident < 16 | Inl _ \<Rightarrow> False) entries
            then Err ''CBOR executable attribute in inactive branch'' else Ok ()) else Ok ()) (\<lambda>_.
       and_then (extensions_at v 3) (\<lambda>_.
         try_for_each (\<lambda>child. validate_node child (kind_tag kind) options ?active) kids))"
    by (subst validate_node.simps) (simp add: cbor_field_def assms(2-6) cbor_array_def as_array_def Let_def del: One_nat_def)
  with assms(1) show "?active \<or> \<not> list_ex (\<lambda>(k, _). case cbor_uint k of Inr ident \<Rightarrow> ident < 16 | Inl _ \<Rightarrow> False) entries"
    "list_all (\<lambda>child. validate_node child (kind_tag kind) options ?active = Inr ()) kids"
    by (simp_all add: try_for_each_Ok split: if_split_asm)
qed

text \<open>Below an inactive node the parent's tag no longer matters.\<close>

lemma validated_inert:
  assumes "cbor_node v parent options = Inr n" and "validate_node v parent' options ancestor = Inr ()"
    and "parent = parent' \<or> \<not> ancestor"
  shows "inert_ok parent options ancestor n"
  using assms
proof (induction "size v" arbitrary: v parent parent' ancestor n rule: less_induct)
  case less
  from less.prems(1) obtain tag attrs children req entries kind kids kv av where
      n: "n = Node tag attrs children 0 (if kind_name kind = None \<and> kind \<noteq> 255 then True else req)"
    and v: "cbor_optional v 0 = Some kv" "cbor_uint kv = Inr kind"
      "cbor_optional v 1 = Some av" "cbor_fields av = Inr entries" "cbor_optional v 2 = Some (CArray kids)"
    and tag: "node_kind_tag v kind = Inr tag"
    and attrs: "fold_res (attribute_step tag parent (executable_attributes tag parent options)) entries [] = Inr attrs"
    and kids: "list_all2 (\<lambda>child m. cbor_node child tag options = Inr m) kids children"
      "list_all (\<lambda>child. size child < size v) kids" by (rule cbor_nodeE)
  note val = validate_nodeE [OF less.prems(2) v]
  let ?active = "executable_path tag parent options ancestor"
  have same: "executable_path (kind_tag kind) parent' options ancestor = ?active"
    and tags: "tag = kind_tag kind \<or> \<not> ?active"
    using kind_tag_path [OF tag] less.prems(3) by (cases ancestor; auto)+
  have "?active \<or> attrs = []" using val(1) attribute_fold_unknown [OF attrs] unfolding same by blast
  moreover have "inert_ok tag options ?active m" if "m \<in> set children" for m
  proof -
    from that obtain i where i: "i < length children" "m = children ! i" by (auto simp: in_set_conv_nth)
    then have k: "kids ! i \<in> set kids" "cbor_node (kids ! i) tag options = Inr m"
      using list_all2_nthD2 [OF kids(1) i(1)] list_all2_lengthD [OF kids(1)] by simp_all
    then show ?thesis
      using kids(2) val(2) less.hyps [of "kids ! i" tag m "kind_tag kind" ?active] tags
      unfolding same by (simp add: list_all_iff)
  qed
  ultimately show ?case by (simp add: n list_all_iff)
qed

lemma include_good_unbounded: "include_good ps b ident h v \<Longrightarrow> include_good ps False ident h v"
proof (induction rule: include_good.induct)
  case (include_goodI ident profile subs height visits)
  show ?case
  proof (rule include_good.include_goodI [OF include_goodI.hyps(1) _ include_goodI.hyps(2-4)])
    show "list_all2 (\<lambda>inc (h, v). \<exists>t. node_attr inc ''file'' = Some t \<and> include_good ps False t h v)
        (includes_of profile) subs"
      using include_goodI.IH by (rule list_all2_mono) auto
  qed simp
qed

lemma decode_value_unmarked:
  assumes "decode_value sha256 into_writer root consumer = Some (Inr db)"
    and "invalid_reference_profiles (db_profiles db) True = Some []"
  shows "decode_body sha256 into_writer root consumer = Inr db"
proof -
  from assms(1) obtain db0 bad where body: "decode_body sha256 into_writer root consumer = Inr db0"
    and bad: "invalid_reference_profiles (db_profiles db0) False = Some bad"
    and db: "db = db0\<lparr>db_profiles := fold mark_required bad (db_profiles db0)\<rparr>"
    by (auto simp: decode_value_def split: sum.splits)
  have inv0: "bt_invar (db_profiles db0)" using decode_body_correct(3) [OF body] by (simp add: profiles_ok_def)
  have ok: "profiles_ok (db_manifest db0) (db_profiles db)"
    using decode_body_correct(3) [OF body] by (simp add: db profiles_ok_marks)
  have keys: "bt_keys (db_profiles db) = bt_keys (db_profiles db0)" by (simp add: db keys_marks [OF inv0])
  have "\<exists>h v. include_good (db_profiles db0) False ident h v" if i: "ident \<in> set (bt_keys (db_profiles db0))" for ident
  proof -
    from assms(2) i keys obtain h v where "include_good (db_profiles db) True ident h v"
      using ok by (auto simp: invalid_reference_profiles_eq profiles_ok_def filter_empty_conv)
    then have "include_good (db_profiles db) False ident h v" by (rule include_good_unbounded)
    then have "include_good (db_profiles db0) False ident h v"
      by (rule include_good_cong) (simp add: db bt_get_marks option.map_comp comp_def)
    then show ?thesis by blast
  qed
  then have "bad = []" using bad by (auto simp: invalid_reference_profiles_eq [OF inv0] filter_empty_conv)
  with db body show ?thesis by simp
qed

lemma decode_value_total:
  "case decode_value sha256 into_writer root consumer of
     None \<Rightarrow> False | Some (Inl _) \<Rightarrow> True | Some (Inr db) \<Rightarrow> bt_invar (db_profiles db)"
proof (cases "decode_body sha256 into_writer root consumer")
  case (Inr db)
  note ok = decode_body_correct(3) [OF Inr]
  then have "invalid_reference_profiles (db_profiles db) False \<noteq> None"
    by (simp add: invalid_reference_profiles_eq profiles_ok_def)
  with profiles_ok_marks [OF ok] show ?thesis by (auto simp: decode_value_def Inr profiles_ok_def)
qed (simp add: decode_value_def)

lemma validate_rest_inert:
  assumes "decode_body sha256 into_writer root consumer = Inr db" and "validate_rest root = Inr ()"
  shows "inert_ok [] True True (db_options db)" and "list_all (\<lambda>(_, p). inert_ok [] False True p) (db_profiles db)"
proof -
  from assms(2) obtain ov es where o: "cbor_optional root 5 = Some ov" "validate_node ov [] True True = Inr ()"
    and p: "cbor_optional root 6 = Some (CMap es)"
      "list_all (\<lambda>(_, profile). validate_node profile [] False True = Inr ()) es"
    by (auto simp: validate_rest_def try_for_each_Ok case_prod_unfold)
  from assms(1) obtain options man ps where on: "cbor_node ov [] True = Inr options"
    and ps: "fold_res (profile_step man) es [] = Inr ps"
    and db: "db_options db = options" "db_profiles db = ps"
    using o p by (auto simp: decode_body_def split: if_splits)
  show "inert_ok [] True True (db_options db)" using validated_inert [OF on o(2)] db by simp
  have "inert_ok [] False True n" if "(key, w) \<in> set es" "cbor_node w [] False = Inr n" for key w n
    using validated_inert [OF that(2), of "[]" True] p(2) that(1) by (auto simp: list_all_iff)
  then show "list_all (\<lambda>(_, p). inert_ok [] False True p) (db_profiles db)"
    unfolding db(2) by (intro profile_nodes_inv [OF ps]) auto
qed

text \<open>
  C24: validation always ends, and a database that it accepts decodes with at least one profile and
  without any profile being marked unavailable for its includes; each profile stays within 256 levels
  of includes and a million visits; and attributes occur only on the executable paths of the options
  and of every profile.
\<close>

theorem validate_correct:
  "case validate sha256 into_writer from_reader bs of
     None \<Rightarrow> False
   | Some (Inl _) \<Rightarrow> True
   | Some (Inr root) \<Rightarrow>
       cbor_value from_reader bs = Ok root
       \<and> (\<exists>db. decode_body sha256 into_writer root False = Ok db
            \<and> decode_value sha256 into_writer root False = Some (Ok db)
            \<and> db_profiles db \<noteq> []
            \<and> list_all (\<lambda>ident. \<exists>h v. include_good (db_profiles db) True ident h v) (bt_keys (db_profiles db))
            \<and> inert_ok [] True True (db_options db)
            \<and> list_all (\<lambda>(_, p). inert_ok [] False True p) (db_profiles db))"
proof (cases "cbor_value from_reader bs")
  case (Inr root)
  note total = decode_value_total [of sha256 into_writer root False]
  show ?thesis
  proof (cases "decode_value sha256 into_writer root False")
    case (Some r)
    show ?thesis
    proof (cases r)
      case (Inr db)
      have inv: "bt_invar (db_profiles db)" using total Some Inr by simp
      then obtain invalid where invalid: "invalid_reference_profiles (db_profiles db) True = Some invalid"
        by (simp add: invalid_reference_profiles_eq)
      show ?thesis
      proof (cases "db_profiles db \<noteq> [] \<and> invalid = [] \<and> validate_rest root = Inr ()")
        case True
        have body: "decode_body sha256 into_writer root False = Ok db"
          using decode_value_unmarked Some Inr invalid True by blast
        have "list_all (\<lambda>ident. \<exists>h v. include_good (db_profiles db) True ident h v) (bt_keys (db_profiles db))"
          using invalid True by (auto simp: invalid_reference_profiles_eq [OF inv] filter_empty_conv list_all_iff)
        moreover have "inert_ok [] True True (db_options db) \<and> list_all (\<lambda>(_, p). inert_ok [] False True p) (db_profiles db)"
          using validate_rest_inert [OF body] True by blast
        ultimately show ?thesis
          using \<open>cbor_value from_reader bs = Inr root\<close> Some Inr invalid True body by (simp add: validate_def)
      next
        case False
        then show ?thesis
          using \<open>cbor_value from_reader bs = Inr root\<close> Some Inr invalid
          by (auto simp: validate_def split: sum.splits)
      qed
    qed (use \<open>cbor_value from_reader bs = Inr root\<close> Some in \<open>simp add: validate_def\<close>)
  qed (use total in simp)
qed (simp add: validate_def)

end
