(* ===== verification/Options_Db.thy ===== *)
theory Options_Db
  imports Db_Writing
begin

text \<open>
  The shared options vocabulary: \<^verbatim>\<open>crates/ddccontrol-db/src/options.rs\<close>, the XML helpers of
  \<^verbatim>\<open>crates/ddccontrol-db/src/xml.rs\<close>, and the two functions of \<^verbatim>\<open>crates/ddccontrol-db/src/lib.rs\<close>
  that take the other way to it: \<open>parse_xml\<close>, which copies a document into database nodes, and
  \<open>load_options_node\<close>, which reads the options from a node. A document of the crate \<open>roxmltree\<close>
  is the tree \<open>xml\<close>, whose children that are no elements are \<open>None\<close>; its parser is a parameter.
  The source keeps two readers of the options; they agree on every document.
\<close>

section \<open>The vocabulary\<close>

datatype control_type = Type_Value | Type_Command | Type_List

datatype refresh = Refresh_None | Refresh_All

record option_value =
  ov_id :: string
  ov_name :: "string option"
  ov_raw_value :: "string option"

record option_control =
  oc_unavailable :: bool
  oc_id :: string
  oc_name :: string
  oc_type :: control_type
  oc_refresh :: refresh
  oc_raw_address :: "string option"
  oc_values :: "option_value list"

record option_subgroup =
  os_name :: string
  os_pattern :: "string option"
  os_controls :: "option_control list"

record option_group =
  og_name :: string
  og_subgroups :: "option_subgroup list"

record options_db =
  od_groups :: "option_group list"

definition options_controls :: "options_db \<Rightarrow> option_control list" where
  "options_controls db = concat (map os_controls (concat (map og_subgroups (od_groups db))))"

definition u8_try_from :: "int \<Rightarrow> u8 option" where
  [rust_std]: "u8_try_from i = (if 0 \<le> i \<and> i < 256 then Some (word_of_int i) else None)"

definition u16_try_from :: "int \<Rightarrow> u16 option" where
  [rust_std]: "u16_try_from i = (if 0 \<le> i \<and> i < 65536 then Some (word_of_int i) else None)"

definition control_address :: "option_control \<Rightarrow> u8 option checked" where
  "control_address control =
     (case oc_raw_address control of
        None \<Rightarrow> Ok None
      | Some t \<Rightarrow>
          and_then (ok_or (Option.bind (ok (parse_integer t)) u8_try_from)
                     (''Invalid address in options.xml for '' @ oc_id control @ '': '' @ t))
            (\<lambda>a. Ok (Some a)))"

definition value_value :: "option_value \<Rightarrow> u16 option" where
  "value_value v = Option.bind (ov_raw_value v) (\<lambda>t. Option.bind (ok (parse_integer t)) u16_try_from)"

section \<open>Documents\<close>

datatype xml =
  XElement (x_tag: string) (x_attrs: "(string option \<times> string \<times> string) list")
           (x_children: "xml option list") (x_line: nat)

definition x_attribute :: "xml \<Rightarrow> string \<Rightarrow> string option" where
  "x_attribute n name =
     find_map (\<lambda>(ns, k, v). if ns = None \<and> k = name then Some v else None) (x_attrs n)"

definition x_element_children :: "xml \<Rightarrow> xml list" where
  "x_element_children n = List.map_filter (\<lambda>c. c) (x_children n)"

definition line_error :: "nat \<Rightarrow> string \<Rightarrow> string" where
  "line_error line message = ''Error: '' @ message @ '' @line '' @ format_dec line"

definition x_node_error :: "xml \<Rightarrow> string \<Rightarrow> string" where
  "x_node_error n message = line_error (x_line n) message"

definition x_required_attr :: "xml \<Rightarrow> string \<Rightarrow> string checked" where
  "x_required_attr n name =
     ok_or (x_attribute n name) (x_node_error n (''Can't find '' @ name @ '' property.''))"

section \<open>Reading the options from a document\<close>

definition DBVERSION :: int where "DBVERSION = 3"

definition refresh_of :: "string option \<Rightarrow> refresh option" where
  "refresh_of attr =
     (case attr of
        None \<Rightarrow> Some Refresh_None
      | Some t \<Rightarrow> if t = ''none'' then Some Refresh_None else if t = ''all'' then Some Refresh_All else None)"

definition control_type_of :: "string \<Rightarrow> control_type option" where
  "control_type_of t =
     (if t = ''value'' then Some Type_Value
      else if t = ''command'' then Some Type_Command
      else if t = ''list'' then Some Type_List
      else None)"

definition check_dbversion :: "string \<Rightarrow> unit checked" where
  "check_dbversion t =
     and_then (map_err (\<lambda>_. ''Can't convert version to int.'') (parse_integer t)) (\<lambda>version.
       if version > DBVERSION
       then Err (''options.xml dbversion ('' @ format_int version @ '') is greater than the supported version (''
                 @ format_int DBVERSION @ '').'' @ [CHR 0x0A] @ ''Please update ddccontrol program.'')
       else if version < DBVERSION
       then Err (''options.xml dbversion ('' @ format_int version @ '') is less than the supported version (''
                 @ format_int DBVERSION @ '').'' @ [CHR 0x0A] @ ''Please update ddccontrol database.'')
       else Ok ())"

definition x_tagged :: "string \<Rightarrow> xml \<Rightarrow> xml list" where
  "x_tagged tag n = filter (\<lambda>c. x_tag c = tag) (x_element_children n)"

definition parse_value :: "xml \<Rightarrow> option_value checked" where
  "parse_value v =
     and_then (x_required_attr v ''id'') (\<lambda>ident.
       Ok \<lparr>ov_id = ident, ov_name = x_attribute v ''name'', ov_raw_value = x_attribute v ''value''\<rparr>)"

definition parse_control :: "xml \<Rightarrow> option_control checked" where
  "parse_control control =
     and_then (ok_or (refresh_of (x_attribute control ''refresh''))
                (x_node_error control ''Invalid refresh type (!= none, != all).'')) (\<lambda>refresh.
     and_then (x_required_attr control ''type'') (\<lambda>t.
     and_then (ok_or (control_type_of t) (x_node_error control ''Invalid type.'')) (\<lambda>control_type.
     and_then (x_required_attr control ''id'') (\<lambda>ident.
     and_then (x_required_attr control ''name'') (\<lambda>name.
     and_then (collect (map parse_value (x_tagged ''value'' control))) (\<lambda>values.
       Ok \<lparr>oc_unavailable = False, oc_id = ident, oc_name = name, oc_type = control_type, oc_refresh = refresh,
           oc_raw_address = x_attribute control ''address'', oc_values = values\<rparr>))))))"

definition parse_subgroup :: "xml \<Rightarrow> option_subgroup checked" where
  "parse_subgroup subgroup =
     and_then (x_required_attr subgroup ''name'') (\<lambda>name.
     and_then (collect (map parse_control (x_tagged ''control'' subgroup))) (\<lambda>controls.
       Ok \<lparr>os_name = name, os_pattern = x_attribute subgroup ''pattern'', os_controls = controls\<rparr>))"

definition parse_group :: "xml \<Rightarrow> option_group checked" where
  "parse_group grp =
     and_then (x_required_attr grp ''name'') (\<lambda>name.
     and_then (collect (map parse_subgroup (x_tagged ''subgroup'' grp))) (\<lambda>subgroups.
       Ok \<lparr>og_name = name, og_subgroups = subgroups\<rparr>))"

definition parse_root :: "xml \<Rightarrow> options_db checked" where
  "parse_root root =
     (if x_tag root \<noteq> ''options''
      then Err (''options.xml of the wrong type, root node '' @ x_tag root @ '' != options'')
      else
        and_then (ok_or (x_attribute root ''dbversion'')
                   ''options.xml dbversion attribute missing, please update your database.'') (\<lambda>version.
        and_then (ok_or (x_attribute root ''date'')
                   ''options.xml date attribute missing, please update your database.'') (\<lambda>_.
        and_then (check_dbversion version) (\<lambda>_.
        and_then (collect (map parse_group (x_tagged ''group'' root))) (\<lambda>groups.
          Ok \<lparr>od_groups = groups\<rparr>)))))"

definition options_parse :: "(string \<Rightarrow> xml checked) \<Rightarrow> string \<Rightarrow> options_db checked" where
  "options_parse document text =
     and_then (map_err (\<lambda>_. ''Document not parsed successfully.'') (document text)) parse_root"

section \<open>Reading the options from a node\<close>

definition node_error :: "node \<Rightarrow> string \<Rightarrow> string" where
  "node_error n message = line_error (node_line n) message"

definition required_attr :: "node \<Rightarrow> string \<Rightarrow> string checked" where
  "required_attr n name =
     ok_or (node_attr n name) (node_error n (''Can't find '' @ name @ '' property.''))"

definition tagged :: "string \<Rightarrow> node \<Rightarrow> node list" where
  "tagged tag n = filter (\<lambda>c. node_tag c = tag) (node_children n)"

text \<open>A level is rejected if it, or a child of another kind below it, carries required semantics.\<close>

definition level_required :: "string \<Rightarrow> node \<Rightarrow> bool" where
  "level_required tag n \<longleftrightarrow>
     node_required n \<or> list_ex (\<lambda>c. node_tag c \<noteq> tag \<and> has_required c) (node_children n)"

definition load_value :: "node \<Rightarrow> option_value checked" where
  "load_value v =
     and_then (required_attr v ''id'') (\<lambda>ident.
       Ok \<lparr>ov_id = ident, ov_name = node_attr v ''name'', ov_raw_value = node_attr v ''value''\<rparr>)"

definition load_control :: "node \<Rightarrow> option_control checked" where
  "load_control control =
     (if has_required control
      then and_then (required_attr control ''id'') (\<lambda>ident.
             Ok \<lparr>oc_unavailable = True, oc_id = ident, oc_name = [], oc_type = Type_Value, oc_refresh = Refresh_None,
                 oc_raw_address = None, oc_values = []\<rparr>)
      else
        and_then (ok_or (refresh_of (node_attr control ''refresh''))
                   (node_error control ''Invalid refresh type (!= none, != all).'')) (\<lambda>refresh.
        and_then (required_attr control ''type'') (\<lambda>t.
        and_then (ok_or (control_type_of t) (node_error control ''Invalid type.'')) (\<lambda>control_type.
        and_then (required_attr control ''id'') (\<lambda>ident.
        and_then (required_attr control ''name'') (\<lambda>name.
        and_then (collect (map load_value (tagged ''value'' control))) (\<lambda>values.
          Ok \<lparr>oc_unavailable = has_required control, oc_id = ident, oc_name = name, oc_type = control_type,
              oc_refresh = refresh, oc_raw_address = node_attr control ''address'', oc_values = values\<rparr>)))))))"

definition load_subgroup :: "node \<Rightarrow> option_subgroup checked" where
  "load_subgroup subgroup =
     (if level_required ''control'' subgroup then Err ''Options subgroup requires an unsupported feature.''
      else
        and_then (required_attr subgroup ''name'') (\<lambda>name.
        and_then (collect (map load_control (tagged ''control'' subgroup))) (\<lambda>controls.
          Ok \<lparr>os_name = name, os_pattern = node_attr subgroup ''pattern'', os_controls = controls\<rparr>)))"

definition load_group :: "node \<Rightarrow> option_group checked" where
  "load_group grp =
     (if level_required ''subgroup'' grp then Err ''Options group requires an unsupported feature.''
      else
        and_then (required_attr grp ''name'') (\<lambda>name.
        and_then (collect (map load_subgroup (tagged ''subgroup'' grp))) (\<lambda>subgroups.
          Ok \<lparr>og_name = name, og_subgroups = subgroups\<rparr>)))"

definition load_options_node :: "node \<Rightarrow> options_db checked" where
  "load_options_node root =
     (if level_required ''group'' root then Err ''Options require an unsupported database feature.''
      else if node_tag root \<noteq> ''options''
      then Err (''options.xml of the wrong type, root node '' @ node_tag root @ '' != options'')
      else
        and_then (ok_or (node_attr root ''dbversion'')
                   ''options.xml dbversion attribute missing, please update your database.'') (\<lambda>version.
        and_then (ok_or (node_attr root ''date'')
                   ''options.xml date attribute missing, please update your database.'') (\<lambda>_.
        and_then (check_dbversion version) (\<lambda>_.
        and_then (collect (map load_group (tagged ''group'' root))) (\<lambda>groups.
          Ok \<lparr>od_groups = groups\<rparr>)))))"

section \<open>Copying a document into nodes\<close>

definition owned_attr ::
  "string option \<times> string \<times> string \<Rightarrow> (string, string) btree \<Rightarrow> (string, string) btree checked" where
  "owned_attr attr attrs =
     (case attr of (ns, name, v) \<Rightarrow>
        if ns \<noteq> None then Ok attrs
        else if length name > 1024 * 1024 \<or> length v > 1024 * 1024
        then Err ''XML database attribute length limit exceeded.''
        else Ok (bt_insert name v attrs))"

fun owned :: "xml \<Rightarrow> nat \<Rightarrow> nat \<Rightarrow> (node \<times> nat) checked"
  and owned_children :: "xml option list \<Rightarrow> nat \<Rightarrow> nat \<Rightarrow> (node list \<times> nat) checked" where
  "owned (XElement tag attributes children line) depth items =
     (if depth > 64 \<or> items \<ge> 4000000 then Err ''XML database nesting/item limit exceeded.''
      else
        and_then (fold_res owned_attr attributes []) (\<lambda>attrs.
        and_then (owned_children children (depth + 1) (items + 1)) (\<lambda>(kids, items).
          Ok (Node tag attrs kids line False, items))))"
| "owned_children [] depth items = Ok ([], items)"
| "owned_children (None # rest) depth items = owned_children rest depth items"
| "owned_children (Some child # rest) depth items =
     and_then (owned child depth items) (\<lambda>(n, items).
     and_then (owned_children rest depth items) (\<lambda>(ns, items). Ok (n # ns, items)))"

definition parse_xml :: "(string \<Rightarrow> xml checked) \<Rightarrow> string \<Rightarrow> node checked" where
  "parse_xml document text =
     and_then (map_err (\<lambda>e. ''Document not parsed successfully: '' @ e) (document text)) (\<lambda>root.
     and_then (owned root 0 0) (\<lambda>(n, _). Ok n))"

section \<open>The two readers agree\<close>

text \<open>The copy without its limits.\<close>

definition insert_attr :: "string option \<times> string \<times> string \<Rightarrow> (string, string) btree \<Rightarrow> (string, string) btree" where
  "insert_attr attr attrs = (case attr of (ns, name, v) \<Rightarrow> if ns \<noteq> None then attrs else bt_insert name v attrs)"

fun copy :: "xml \<Rightarrow> node"
  and copies :: "xml option list \<Rightarrow> node list" where
  "copy (XElement tag attributes children line) =
     Node tag (fold insert_attr attributes []) (copies children) line False"
| "copies [] = []"
| "copies (None # rest) = copies rest"
| "copies (Some child # rest) = copy child # copies rest"

text \<open>An XML parser rejects an element that gives an attribute twice.\<close>

fun unique_attrs :: "xml \<Rightarrow> bool"
  and unique_attrs_all :: "xml option list \<Rightarrow> bool" where
  "unique_attrs (XElement tag attributes children line) \<longleftrightarrow>
     distinct (map (\<lambda>(ns, name, _). (ns, name)) attributes) \<and> unique_attrs_all children"
| "unique_attrs_all [] \<longleftrightarrow> True"
| "unique_attrs_all (None # rest) \<longleftrightarrow> unique_attrs_all rest"
| "unique_attrs_all (Some child # rest) \<longleftrightarrow> unique_attrs child \<and> unique_attrs_all rest"

lemma owned_attrs: "fold_res owned_attr attributes attrs = Inr attrs' \<Longrightarrow> attrs' = fold insert_attr attributes attrs"
proof (induction attributes arbitrary: attrs)
  case (Cons a attributes)
  from Cons.prems obtain mid where "owned_attr a attrs = Inr mid" "fold_res owned_attr attributes mid = Inr attrs'" by auto
  moreover from this(1) have "mid = insert_attr a attrs"
    by (auto simp: owned_attr_def insert_attr_def split: if_splits prod.splits)
  ultimately show ?case using Cons.IH by simp
qed simp

lemma owned_copy:
  "owned x depth items = Inr (n, items') \<Longrightarrow> n = copy x"
  "owned_children xs depth items = Inr (ns, items') \<Longrightarrow> ns = copies xs"
proof (induction x depth items and xs depth items arbitrary: n items' and ns items' rule: owned_owned_children.induct)
  case (1 tag attributes children line depth items)
  from 1(2) obtain attrs kids c where "fold_res owned_attr attributes [] = Inr attrs"
    "owned_children children (depth + 1) (items + 1) = Inr (kids, c)" "n = Node tag attrs kids line False"
    "\<not> (depth > 64 \<or> items \<ge> 4000000)"
    by (auto split: if_splits)
  with 1(1) show ?case using owned_attrs by simp
qed (auto split: prod.splits)

lemma copies_children: "node_children (copy x) = map copy (x_element_children x)"
proof -
  have "copies cs = map copy (List.map_filter (\<lambda>c. c) cs)" for cs
  proof (induction cs)
    case (Cons c cs)
    then show ?case by (cases c) (simp_all add: List.map_filter_def)
  qed (simp add: List.map_filter_def)
  then show ?thesis by (cases x) (simp add: x_element_children_def)
qed

lemma copy_simps [simp]:
  "node_tag (copy x) = x_tag x" "node_line (copy x) = x_line x" "\<not> node_required (copy x)"
  by (cases x; simp)+

lemma copy_not_required [simp]: "\<not> has_required (copy x)" "\<not> list_ex has_required (copies xs)"
  by (induction x and xs rule: copy_copies.induct) simp_all

lemma tagged_copy: "tagged tag (copy x) = map copy (x_tagged tag x)"
  by (simp add: tagged_def x_tagged_def copies_children filter_map comp_def)

lemma level_copy [simp]: "\<not> level_required tag (copy x)"
  by (simp add: level_required_def copies_children list_ex_iff)

lemma insert_attrs_get:
  "distinct (map (\<lambda>(ns, name, _). (ns, name)) attributes) \<Longrightarrow>
     bt_get (fold insert_attr attributes attrs) name =
       (case find_map (\<lambda>(ns, k, v). if ns = None \<and> k = name then Some v else None) attributes of
          Some v \<Rightarrow> Some v | None \<Rightarrow> bt_get attrs name)"
proof (induction attributes arbitrary: attrs)
  case (Cons a attributes)
  obtain ns k v where a: "a = (ns, k, v)" by (cases a)
  have "find_map (\<lambda>(ns, k, v). if ns = None \<and> k = name then Some v else None) attributes = None"
    if "ns = None" "k = name"
  proof (rule ccontr)
    assume "\<not> ?thesis"
    then obtain w where "find_map (\<lambda>(ns, k, v). if ns = None \<and> k = name then Some v else None) attributes = Some w"
      by blast
    from find_map_Some [OF this] have "(None, name) \<in> set (map (\<lambda>(ns, name, _). (ns, name)) attributes)"
      by (force split: if_splits)
    with Cons.prems a that show False by simp
  qed
  then show ?case using Cons by (auto simp: a insert_attr_def bt_get_insert split: option.splits)
qed simp

lemma copy_attr: "unique_attrs x \<Longrightarrow> node_attr (copy x) name = x_attribute x name"
  by (cases x) (auto simp: node_attr_def x_attribute_def insert_attrs_get bt.get_empty split: option.splits)

lemma unique_attrs_child: "unique_attrs x \<Longrightarrow> c \<in> set (x_tagged tag x) \<Longrightarrow> unique_attrs c"
proof -
  have "unique_attrs_all cs \<Longrightarrow> c \<in> set (List.map_filter (\<lambda>c. c) cs) \<Longrightarrow> unique_attrs c" for cs
  proof (induction cs)
    case (Cons d cs)
    then show ?case by (cases d) (auto simp: List.map_filter_def)
  qed (simp add: List.map_filter_def)
  then show "unique_attrs x \<Longrightarrow> c \<in> set (x_tagged tag x) \<Longrightarrow> unique_attrs c"
    by (cases x) (auto simp: x_tagged_def x_element_children_def)
qed

lemma collect_copy:
  "(\<And>c. c \<in> set cs \<Longrightarrow> f (copy c) = g c) \<Longrightarrow> collect (map f (map copy cs)) = collect (map g cs)"
  by (induction cs) simp_all

lemma required_attr_copy: "unique_attrs x \<Longrightarrow> required_attr (copy x) name = x_required_attr x name"
  by (simp add: required_attr_def x_required_attr_def copy_attr node_error_def x_node_error_def)

lemma node_error_copy: "node_error (copy x) = x_node_error x"
  by (simp add: node_error_def x_node_error_def fun_eq_iff)

lemmas copy_reader = copy_attr required_attr_copy node_error_copy tagged_copy

lemma load_value_copy: "unique_attrs x \<Longrightarrow> load_value (copy x) = parse_value x"
  by (simp add: load_value_def parse_value_def copy_reader)

lemma load_control_copy: "unique_attrs x \<Longrightarrow> load_control (copy x) = parse_control x"
proof -
  assume u: "unique_attrs x"
  have "collect (map load_value (map copy (x_tagged ''value'' x))) = collect (map parse_value (x_tagged ''value'' x))"
    by (rule collect_copy, rule load_value_copy, rule unique_attrs_child [OF u])
  with u show ?thesis by (simp add: load_control_def parse_control_def copy_reader del: map_map)
qed

lemma load_subgroup_copy: "unique_attrs x \<Longrightarrow> load_subgroup (copy x) = parse_subgroup x"
proof -
  assume u: "unique_attrs x"
  have "collect (map load_control (map copy (x_tagged ''control'' x))) = collect (map parse_control (x_tagged ''control'' x))"
    by (rule collect_copy, rule load_control_copy, rule unique_attrs_child [OF u])
  with u show ?thesis by (simp add: load_subgroup_def parse_subgroup_def copy_reader del: map_map)
qed

lemma load_group_copy: "unique_attrs x \<Longrightarrow> load_group (copy x) = parse_group x"
proof -
  assume u: "unique_attrs x"
  have "collect (map load_subgroup (map copy (x_tagged ''subgroup'' x))) = collect (map parse_subgroup (x_tagged ''subgroup'' x))"
    by (rule collect_copy, rule load_subgroup_copy, rule unique_attrs_child [OF u])
  with u show ?thesis by (simp add: load_group_def parse_group_def copy_reader del: map_map)
qed

lemma load_options_copy: "unique_attrs x \<Longrightarrow> load_options_node (copy x) = parse_root x"
proof -
  assume u: "unique_attrs x"
  have "collect (map load_group (map copy (x_tagged ''group'' x))) = collect (map parse_group (x_tagged ''group'' x))"
    by (rule collect_copy, rule load_group_copy, rule unique_attrs_child [OF u])
  with u show ?thesis by (simp add: load_options_node_def parse_root_def copy_reader del: map_map)
qed

text \<open>
  C26: the two readers of \<open>options.xml\<close> agree. The monitor scanner reads the document directly, the
  database loader first copies it into nodes; if the copy stays within its limits, both give the same
  options or the same error.
\<close>

theorem options_readers_agree:
  assumes "document text = Ok root" and "unique_attrs root" and "parse_xml document text = Ok n"
  shows "load_options_node n = options_parse document text"
proof -
  obtain c where "owned root 0 0 = Inr (n, c)" using assms(1,3) by (auto simp: parse_xml_def)
  then have "n = copy root" by (rule owned_copy(1))
  with assms show ?thesis by (simp add: load_options_copy options_parse_def)
qed

theorem options_readers_agree_witness:
  "load_options_node (Node ''options'' [] [] 1 False)
     = options_parse (\<lambda>_. Ok (XElement ''options'' [] [None] 1)) ''<options> </options>''"
  by (rule options_readers_agree [of _ _ "XElement ''options'' [] [None] 1"]) (simp_all add: parse_xml_def)

end
