(* ===== verification/C_Memory.thy ===== *)
theory C_Memory
  imports Prelude "HOL-Library.Multiset"
begin

text \<open>
  The C allocator as the crates use it. A heap knows how many allocations were asked for and which
  blocks are live; the parameter \<open>avail\<close> says which allocation succeeds. A computation on the heap is
  \<open>None\<close> if it frees a block that is not live. The contract of a pair of functions that build and
  release a C object is the locale \<open>c_owner\<close>: building never frees a foreign block, keeps nothing if
  it fails, and fails only if the allocator did or the data cannot be represented; releasing gives
  back exactly the blocks of the object. The loop that builds a linked list of objects is studied
  once in the locale.
\<close>

section \<open>The heap\<close>

type_synonym ptr = nat

record heap =
  calls :: nat
  live :: "ptr set"

type_synonym 'a mem = "heap \<Rightarrow> ('a \<times> heap) option"

definition ret :: "'a \<Rightarrow> 'a mem" where
  "ret x h = Some (x, h)"

definition mem_bind :: "'a mem \<Rightarrow> ('a \<Rightarrow> 'b mem) \<Rightarrow> 'b mem" where
  "mem_bind m f h = (case m h of None \<Rightarrow> None | Some (x, h') \<Rightarrow> f x h')"

definition malloc :: "(nat \<Rightarrow> bool) \<Rightarrow> ptr option mem" where
  "malloc avail h =
     (if avail (calls h) then Some (Some (calls h), h\<lparr>calls := calls h + 1, live := insert (calls h) (live h)\<rparr>)
      else Some (None, h\<lparr>calls := calls h + 1\<rparr>))"

definition free :: "ptr \<Rightarrow> unit mem" where
  "free p h = (if p \<in> live h then Some ((), h\<lparr>live := live h - {p}\<rparr>) else None)"

text \<open>Freeing a null pointer does nothing.\<close>

definition free_opt :: "ptr option \<Rightarrow> unit mem" where
  "free_opt p = (case p of Some a \<Rightarrow> free a | None \<Rightarrow> ret ())"

fun for_each :: "('p \<Rightarrow> unit mem) \<Rightarrow> 'p list \<Rightarrow> unit mem" where
  "for_each f [] = ret ()"
| "for_each f (p # ps) = mem_bind (f p) (\<lambda>_. for_each f ps)"

text \<open>
  A linked list is built front to back; if a node cannot be built, the list so far is released.
\<close>

fun alloc_list :: "('x \<Rightarrow> 'p option mem) \<Rightarrow> ('p list \<Rightarrow> unit mem) \<Rightarrow> 'x list \<Rightarrow> 'p list \<Rightarrow> 'p list option mem" where
  "alloc_list node free_list [] head = ret (Some head)"
| "alloc_list node free_list (x # xs) head =
     mem_bind (node x) (\<lambda>r. case r of
         None \<Rightarrow> mem_bind (free_list head) (\<lambda>_. ret None)
       | Some p \<Rightarrow> alloc_list node free_list xs (head @ [p]))"

section \<open>Ownership\<close>

definition heap_ok :: "heap \<Rightarrow> bool" where
  "heap_ok h \<longleftrightarrow> (\<forall>a\<in>live h. a < calls h)"

text \<open>The blocks \<open>as\<close> are live beyond those of \<open>h0\<close>.\<close>

definition holds :: "heap \<Rightarrow> ptr list \<Rightarrow> heap \<Rightarrow> bool" where
  "holds h0 as h \<longleftrightarrow> heap_ok h \<and> distinct as \<and> set as \<inter> live h0 = {} \<and> live h = live h0 \<union> set as"

definition outcome ::
  "heap \<Rightarrow> ('p \<Rightarrow> ptr list) \<Rightarrow> ('p \<Rightarrow> bool) \<Rightarrow> bool \<Rightarrow> 'p option mem \<Rightarrow> heap \<Rightarrow> bool" where
  "outcome h0 addrs good bad m h \<longleftrightarrow>
     (case m h of
        None \<Rightarrow> False
      | Some (None, h') \<Rightarrow> bad \<and> holds h0 [] h'
      | Some (Some p, h') \<Rightarrow> good p \<and> holds h0 (addrs p) h')"

lemma holds_self: "heap_ok h \<Longrightarrow> holds h [] h"
  by (simp add: holds_def)

lemma holds_cong: "holds h0 as h \<Longrightarrow> distinct bs \<Longrightarrow> set bs = set as \<Longrightarrow> holds h0 bs h"
  by (simp add: holds_def)

lemma outcome_ret_None: "bad \<Longrightarrow> holds h0 [] h \<Longrightarrow> outcome h0 addrs good bad (ret None) h"
  by (simp add: outcome_def ret_def)

lemma outcome_ret_Some: "good p \<Longrightarrow> holds h0 (addrs p) h \<Longrightarrow> outcome h0 addrs good bad (ret (Some p)) h"
  by (simp add: outcome_def ret_def)

lemma outcome_ret: "good p \<Longrightarrow> holds h0 as h \<Longrightarrow> distinct (addrs p) \<Longrightarrow> set (addrs p) = set as
  \<Longrightarrow> outcome h0 addrs good bad (ret (Some p)) h"
  by (rule outcome_ret_Some) (auto intro: holds_cong)

definition releases :: "unit mem \<Rightarrow> ptr list \<Rightarrow> bool" where
  "releases m as \<longleftrightarrow>
     (\<forall>h. distinct as \<longrightarrow> set as \<subseteq> live h \<longrightarrow> m h = Some ((), h\<lparr>live := live h - set as\<rparr>))"

lemma releasesD: "releases m as \<Longrightarrow> distinct as \<Longrightarrow> set as \<subseteq> live h \<Longrightarrow> m h = Some ((), h\<lparr>live := live h - set as\<rparr>)"
  by (simp add: releases_def)

lemma releases_ret: "releases (ret ()) []"
  by (simp add: releases_def ret_def)

lemma releases_free: "releases (free a) [a]"
  by (simp add: releases_def free_def)

lemma releases_free_opt: "releases (free_opt p) (case p of Some a \<Rightarrow> [a] | None \<Rightarrow> [])"
  by (cases p) (simp_all add: free_opt_def releases_ret releases_free)

lemma releases_bind:
  assumes "releases m as" and "releases k bs" shows "releases (mem_bind m (\<lambda>_. k)) (as @ bs)"
  unfolding releases_def
proof (intro allI impI)
  fix h :: heap assume a: "distinct (as @ bs)" "set (as @ bs) \<subseteq> live h"
  let ?h = "h\<lparr>live := live h - set as\<rparr>"
  have "m h = Some ((), ?h)" using releasesD [OF assms(1)] a by simp
  moreover have "k ?h = Some ((), ?h\<lparr>live := live ?h - set bs\<rparr>)"
    using a by (intro releasesD [OF assms(2)]) auto
  ultimately show "mem_bind m (\<lambda>_. k) h = Some ((), h\<lparr>live := live h - set (as @ bs)\<rparr>)"
    by (simp add: mem_bind_def set_diff_eq)
qed

lemma releases_for_each:
  assumes "\<And>p. releases (f p) (addrs p)"
  shows "releases (for_each f ps) (concat (map addrs ps))"
  by (induction ps) (simp_all add: releases_ret releases_bind assms)

text \<open>Releasing part of what is held, on the way to failure.\<close>

lemma outcome_release:
  assumes "releases m as" and "holds h0 (as @ bs) h"
    and "\<And>h'. holds h0 bs h' \<Longrightarrow> outcome h0 addrs good bad k h'"
  shows "outcome h0 addrs good bad (mem_bind m (\<lambda>_. k)) h"
proof -
  let ?h = "h\<lparr>live := live h - set as\<rparr>"
  have "m h = Some ((), ?h)" using assms(1,2) by (intro releasesD) (auto simp: holds_def)
  moreover have "holds h0 bs ?h" using assms(2) by (auto simp: holds_def heap_ok_def)
  ultimately show ?thesis using assms(3) by (simp add: outcome_def mem_bind_def)
qed

lemma outcome_fail:
  assumes "releases m as" and "holds h0 bs h" and "mset bs = mset as" and bad
  shows "outcome h0 addrs good bad (mem_bind m (\<lambda>_. ret None)) h"
proof (rule outcome_release [OF assms(1), where bs = "[]"])
  have "set as = set bs" by (rule mset_eq_setD) (simp add: assms(3))
  moreover have "distinct as" using mset_eq_imp_distinct_iff [OF assms(3)] assms(2) by (simp add: holds_def)
  ultimately show "holds h0 (as @ []) h" using assms(2) holds_cong by simp
qed (rule outcome_ret_None [OF assms(4)])

section \<open>The contract\<close>

locale c_owner =
  fixes avail :: "nat \<Rightarrow> bool"
    and alloc :: "'x \<Rightarrow> 'p option mem"
    and release :: "'p \<Rightarrow> unit mem"
    and addrs :: "'p \<Rightarrow> ptr list"
    and clean :: "'x \<Rightarrow> bool"
    and represents :: "'x \<Rightarrow> 'p \<Rightarrow> bool"
  assumes alloc_law: "heap_ok h \<Longrightarrow> outcome h addrs (represents x) (\<not> (\<forall>n. avail n) \<or> \<not> clean x) (alloc x) h"
    and release_law: "releases (release p) (addrs p)"
begin

text \<open>Building one more object while others are held.\<close>

lemma outcome_alloc:
  assumes h: "holds h0 as h"
    and fail: "\<And>h'. holds h0 as h' \<Longrightarrow> \<not> (\<forall>n. avail n) \<or> \<not> clean x \<Longrightarrow> outcome h0 result good bad none h'"
    and rest: "\<And>p h'. holds h0 (as @ addrs p) h' \<Longrightarrow> represents x p \<Longrightarrow> outcome h0 result good bad (some p) h'"
  shows "outcome h0 result good bad (mem_bind (alloc x) (case_option none some)) h"
proof -
  have "outcome h addrs (represents x) (\<not> (\<forall>n. avail n) \<or> \<not> clean x) (alloc x) h"
    using h by (intro alloc_law) (simp add: holds_def)
  then consider (none) h' where "alloc x h = Some (None, h')" "\<not> (\<forall>n. avail n) \<or> \<not> clean x" "holds h [] h'"
    | (some) p h' where "alloc x h = Some (Some p, h')" "represents x p" "holds h (addrs p) h'"
    by (auto simp: outcome_def split: option.splits prod.splits)
  then show ?thesis
  proof cases
    case none
    with h have "holds h0 as h'" by (auto simp: holds_def)
    with none fail show ?thesis by (simp add: outcome_def mem_bind_def)
  next
    case some
    with h have "holds h0 (as @ addrs p) h'" by (auto simp: holds_def)
    with some rest show ?thesis by (simp add: outcome_def mem_bind_def)
  qed
qed

lemma alloc_list_law:
  assumes "holds h0 (concat (map addrs head)) h" and "list_all2 represents ys head"
  shows "outcome h0 (\<lambda>ps. concat (map addrs ps)) (list_all2 represents (ys @ xs)) (\<not> (\<forall>n. avail n) \<or> \<not> list_all clean xs)
    (alloc_list alloc (for_each release) xs head) h"
  using assms
proof (induction xs arbitrary: head h ys)
  case Nil
  then show ?case by (simp add: outcome_ret_Some)
next
  case (Cons x xs)
  show ?case unfolding alloc_list.simps
  proof (rule outcome_alloc [OF Cons.prems(1)])
    fix h' assume "holds h0 (concat (map addrs head)) h'" "\<not> (\<forall>n. avail n) \<or> \<not> clean x"
    then show "outcome h0 (\<lambda>ps. concat (map addrs ps)) (list_all2 represents (ys @ x # xs))
        (\<not> (\<forall>n. avail n) \<or> \<not> list_all clean (x # xs)) (mem_bind (for_each release head) (\<lambda>_. ret None)) h'"
      by (intro outcome_fail [OF releases_for_each [OF release_law]]) auto
  next
    fix p h' assume "holds h0 (concat (map addrs head) @ addrs p) h'" "represents x p"
    then have "outcome h0 (\<lambda>ps. concat (map addrs ps)) (list_all2 represents ((ys @ [x]) @ xs))
        (\<not> (\<forall>n. avail n) \<or> \<not> list_all clean xs) (alloc_list alloc (for_each release) xs (head @ [p])) h'"
      using Cons.prems(2) by (intro Cons.IH) (auto intro: list_all2_appendI)
    then show "outcome h0 (\<lambda>ps. concat (map addrs ps)) (list_all2 represents (ys @ x # xs))
        (\<not> (\<forall>n. avail n) \<or> \<not> list_all clean (x # xs)) (alloc_list alloc (for_each release) xs (head @ [p])) h'"
      by (auto simp: outcome_def split: option.splits)
  qed
qed

lemma owner_list:
  "c_owner avail (\<lambda>xs. alloc_list alloc (for_each release) xs []) (for_each release) (\<lambda>ps. concat (map addrs ps))
     (list_all clean) (list_all2 represents)"
proof
  fix h :: heap and xs assume "heap_ok h"
  then show "outcome h (\<lambda>ps. concat (map addrs ps)) (list_all2 represents xs) (\<not> (\<forall>n. avail n) \<or> \<not> list_all clean xs)
      (alloc_list alloc (for_each release) xs []) h"
    using alloc_list_law [of h "[]" h "[]" xs] by (simp add: holds_self)
qed (rule releases_for_each [OF release_law])

end

section \<open>Blocks and strings\<close>

type_synonym c_str = "ptr \<times> string"

definition c_bytes :: "(nat \<Rightarrow> bool) \<Rightarrow> string \<Rightarrow> c_str option mem" where
  "c_bytes avail s =
     (if CHR 0x00 \<in> set s then ret None
      else mem_bind (malloc avail) (\<lambda>p. case p of None \<Rightarrow> ret None | Some a \<Rightarrow> ret (Some (a, s))))"

interpretation block: c_owner avail "\<lambda>_ :: unit. malloc avail" free "\<lambda>a. [a]" "\<lambda>_. True" "\<lambda>_ _. True" for avail
proof
  fix h :: heap and x :: unit assume "heap_ok h"
  then show "outcome h (\<lambda>a. [a]) (\<lambda>_. True) (\<not> (\<forall>n. avail n) \<or> \<not> True) (malloc avail) h"
    by (auto simp: outcome_def malloc_def holds_def heap_ok_def less_Suc_eq)
qed (rule releases_free)

interpretation cstr: c_owner avail "c_bytes avail" "\<lambda>s. free (fst s)" "\<lambda>s. [fst s]" "\<lambda>s. CHR 0x00 \<notin> set s" "\<lambda>s p. snd p = s" for avail
proof
  fix h :: heap and s assume h: "heap_ok h"
  show "outcome h (\<lambda>p. [fst p]) (\<lambda>p. snd p = s) (\<not> (\<forall>n. avail n) \<or> \<not> CHR 0x00 \<notin> set s) (c_bytes avail s) h"
  proof (cases "CHR 0x00 \<in> set s")
    case False
    show ?thesis unfolding c_bytes_def if_not_P [OF False]
      by (rule block.outcome_alloc [OF holds_self [OF h]])
        (auto intro: outcome_ret_None outcome_ret_Some)
  qed (simp add: c_bytes_def outcome_ret_None holds_self [OF h])
qed (rule releases_free)

end
