(* ===== verification/Monitor_Tree.thy ===== *)
theory Monitor_Tree
  imports C_Memory
begin

text \<open>
  The monitor tree of \<^verbatim>\<open>crates/ddccontrol-db/src/lib.rs\<close>: the Rust tree that loading a profile
  builds, the C tree that is handed to the caller (\<open>alloc_monitor\<close> and the functions it calls), and
  its release (\<open>ddcci_free_db\<close>). A C object is the record of its fields with the address of its
  block; a linked list is the list of its nodes. Every level is an instance of the contract
  \<open>c_owner\<close>.
\<close>

section \<open>Trees\<close>

record db_value =
  dv_id :: string
  dv_name :: string
  dv_value16 :: u16

record db_control =
  dc_id :: string
  dc_name :: string
  dc_address :: u8
  dc_delay :: int
  dc_type :: int
  dc_refresh :: int
  dc_values :: "db_value list"

record db_subgroup =
  ds_name :: string
  ds_pattern :: "string option"
  ds_controls :: "db_control list"

record db_group =
  dg_name :: string
  dg_subgroups :: "db_subgroup list"

record monitor_build =
  mb_include_visits :: nat
  mb_name :: "string option"
  mb_init :: int
  mb_groups :: "db_group list"

record c_value_db =
  cv_ptr :: ptr
  cv_id :: c_str
  cv_name :: c_str
  cv_value :: u8
  cv_value16 :: u16

record c_control_db =
  cc_ptr :: ptr
  cc_id :: c_str
  cc_name :: c_str
  cc_address :: u8
  cc_delay :: int
  cc_type :: int
  cc_refresh :: int
  cc_values :: "c_value_db list"

record c_subgroup_db =
  cs_ptr :: ptr
  cs_name :: c_str
  cs_pattern :: "c_str option"
  cs_controls :: "c_control_db list"

record c_group_db =
  cg_ptr :: ptr
  cg_name :: c_str
  cg_subgroups :: "c_subgroup_db list"

record c_monitor_db =
  cm_ptr :: ptr
  cm_name :: c_str
  cm_init :: int
  cm_groups :: "c_group_db list"

section \<open>Release\<close>

definition free_str :: "c_str \<Rightarrow> unit mem" where
  "free_str s = free (fst s)"

definition free_value :: "c_value_db \<Rightarrow> unit mem" where
  "free_value v = mem_bind (free_str (cv_id v)) (\<lambda>_. mem_bind (free_str (cv_name v)) (\<lambda>_. free (cv_ptr v)))"

definition free_values :: "c_value_db list \<Rightarrow> unit mem" where
  "free_values = for_each free_value"

definition free_control :: "c_control_db \<Rightarrow> unit mem" where
  "free_control c =
     mem_bind (free_str (cc_id c)) (\<lambda>_.
     mem_bind (free_str (cc_name c)) (\<lambda>_.
     mem_bind (free_values (cc_values c)) (\<lambda>_. free (cc_ptr c))))"

definition free_controls :: "c_control_db list \<Rightarrow> unit mem" where
  "free_controls = for_each free_control"

definition free_subgroup :: "c_subgroup_db \<Rightarrow> unit mem" where
  "free_subgroup s =
     mem_bind (free_str (cs_name s)) (\<lambda>_.
     mem_bind (free_opt (map_option fst (cs_pattern s))) (\<lambda>_.
     mem_bind (free_controls (cs_controls s)) (\<lambda>_. free (cs_ptr s))))"

definition free_subgroups :: "c_subgroup_db list \<Rightarrow> unit mem" where
  "free_subgroups = for_each free_subgroup"

definition free_group :: "c_group_db \<Rightarrow> unit mem" where
  "free_group g =
     mem_bind (free_str (cg_name g)) (\<lambda>_. mem_bind (free_subgroups (cg_subgroups g)) (\<lambda>_. free (cg_ptr g)))"

definition free_groups :: "c_group_db list \<Rightarrow> unit mem" where
  "free_groups = for_each free_group"

definition free_monitor :: "c_monitor_db option \<Rightarrow> unit mem" where
  "free_monitor monitor =
     (case monitor of
        None \<Rightarrow> ret ()
      | Some m \<Rightarrow>
          mem_bind (free_str (cm_name m)) (\<lambda>_. mem_bind (free_groups (cm_groups m)) (\<lambda>_. free (cm_ptr m))))"

section \<open>Allocation\<close>

definition alloc_value :: "(nat \<Rightarrow> bool) \<Rightarrow> db_value \<Rightarrow> c_value_db option mem" where
  "alloc_value avail v =
     mem_bind (c_bytes avail (dv_id v)) (\<lambda>r. case r of
       None \<Rightarrow> ret None
     | Some ident \<Rightarrow>
         mem_bind (c_bytes avail (dv_name v)) (\<lambda>r. case r of
           None \<Rightarrow> mem_bind (free_str ident) (\<lambda>_. ret None)
         | Some name \<Rightarrow>
             mem_bind (malloc avail) (\<lambda>r. case r of
               None \<Rightarrow> mem_bind (mem_bind (free_str ident) (\<lambda>_. free_str name)) (\<lambda>_. ret None)
             | Some node \<Rightarrow>
                 ret (Some \<lparr>cv_ptr = node, cv_id = ident, cv_name = name, cv_value = ucast (dv_value16 v AND 0xff),
                            cv_value16 = dv_value16 v\<rparr>))))"

definition alloc_values :: "(nat \<Rightarrow> bool) \<Rightarrow> db_value list \<Rightarrow> c_value_db list option mem" where
  "alloc_values avail vs = alloc_list (alloc_value avail) free_values vs []"

definition alloc_control :: "(nat \<Rightarrow> bool) \<Rightarrow> db_control \<Rightarrow> c_control_db option mem" where
  "alloc_control avail c =
     mem_bind (c_bytes avail (dc_id c)) (\<lambda>r. case r of
       None \<Rightarrow> ret None
     | Some ident \<Rightarrow>
         mem_bind (c_bytes avail (dc_name c)) (\<lambda>r. case r of
           None \<Rightarrow> mem_bind (free_str ident) (\<lambda>_. ret None)
         | Some name \<Rightarrow>
             mem_bind (alloc_values avail (dc_values c)) (\<lambda>r. case r of
               None \<Rightarrow> mem_bind (mem_bind (free_str ident) (\<lambda>_. free_str name)) (\<lambda>_. ret None)
             | Some values \<Rightarrow>
                 mem_bind (malloc avail) (\<lambda>r. case r of
                   None \<Rightarrow>
                     mem_bind (mem_bind (free_str ident) (\<lambda>_. mem_bind (free_str name) (\<lambda>_. free_values values))) (\<lambda>_. ret None)
                 | Some node \<Rightarrow>
                     ret (Some \<lparr>cc_ptr = node, cc_id = ident, cc_name = name, cc_address = dc_address c,
                                cc_delay = dc_delay c, cc_type = dc_type c, cc_refresh = dc_refresh c,
                                cc_values = values\<rparr>)))))"

definition alloc_controls :: "(nat \<Rightarrow> bool) \<Rightarrow> db_control list \<Rightarrow> c_control_db list option mem" where
  "alloc_controls avail cs = alloc_list (alloc_control avail) free_controls cs []"

text \<open>The pattern is optional; its absence is a null pointer, not a failure.\<close>

definition alloc_pattern :: "(nat \<Rightarrow> bool) \<Rightarrow> string option \<Rightarrow> c_str option option mem" where
  "alloc_pattern avail pattern =
     (case pattern of
        Some s \<Rightarrow> mem_bind (c_bytes avail s) (\<lambda>r. case r of None \<Rightarrow> ret None | Some p \<Rightarrow> ret (Some (Some p)))
      | None \<Rightarrow> ret (Some None))"

definition free_pattern :: "c_str option \<Rightarrow> unit mem" where
  "free_pattern p = free_opt (map_option fst p)"

definition alloc_subgroup :: "(nat \<Rightarrow> bool) \<Rightarrow> db_subgroup \<Rightarrow> c_subgroup_db option mem" where
  "alloc_subgroup avail s =
     mem_bind (c_bytes avail (ds_name s)) (\<lambda>r. case r of
       None \<Rightarrow> ret None
     | Some name \<Rightarrow>
         mem_bind (alloc_pattern avail (ds_pattern s)) (\<lambda>r. case r of
           None \<Rightarrow> mem_bind (free_str name) (\<lambda>_. ret None)
         | Some pattern \<Rightarrow>
             mem_bind (alloc_controls avail (ds_controls s)) (\<lambda>r. case r of
               None \<Rightarrow> mem_bind (mem_bind (free_str name) (\<lambda>_. free_pattern pattern)) (\<lambda>_. ret None)
             | Some controls \<Rightarrow>
                 mem_bind (malloc avail) (\<lambda>r. case r of
                   None \<Rightarrow>
                     mem_bind (mem_bind (free_str name) (\<lambda>_. mem_bind (free_pattern pattern) (\<lambda>_. free_controls controls))) (\<lambda>_. ret None)
                 | Some node \<Rightarrow>
                     ret (Some \<lparr>cs_ptr = node, cs_name = name, cs_pattern = pattern, cs_controls = controls\<rparr>)))))"

definition alloc_subgroups :: "(nat \<Rightarrow> bool) \<Rightarrow> db_subgroup list \<Rightarrow> c_subgroup_db list option mem" where
  "alloc_subgroups avail ss = alloc_list (alloc_subgroup avail) free_subgroups ss []"

definition alloc_group :: "(nat \<Rightarrow> bool) \<Rightarrow> db_group \<Rightarrow> c_group_db option mem" where
  "alloc_group avail g =
     mem_bind (c_bytes avail (dg_name g)) (\<lambda>r. case r of
       None \<Rightarrow> ret None
     | Some name \<Rightarrow>
         mem_bind (alloc_subgroups avail (dg_subgroups g)) (\<lambda>r. case r of
           None \<Rightarrow> mem_bind (free_str name) (\<lambda>_. ret None)
         | Some subgroups \<Rightarrow>
             mem_bind (malloc avail) (\<lambda>r. case r of
               None \<Rightarrow> mem_bind (mem_bind (free_str name) (\<lambda>_. free_subgroups subgroups)) (\<lambda>_. ret None)
             | Some node \<Rightarrow> ret (Some \<lparr>cg_ptr = node, cg_name = name, cg_subgroups = subgroups\<rparr>))))"

definition alloc_groups :: "(nat \<Rightarrow> bool) \<Rightarrow> db_group list \<Rightarrow> c_group_db list option mem" where
  "alloc_groups avail gs = alloc_list (alloc_group avail) free_groups gs []"

definition alloc_monitor :: "(nat \<Rightarrow> bool) \<Rightarrow> monitor_build \<Rightarrow> c_monitor_db option mem" where
  "alloc_monitor avail build =
     mem_bind (c_bytes avail (case mb_name build of Some name \<Rightarrow> name | None \<Rightarrow> [])) (\<lambda>r. case r of
       None \<Rightarrow> ret None
     | Some name \<Rightarrow>
         mem_bind (alloc_groups avail (mb_groups build)) (\<lambda>r. case r of
           None \<Rightarrow> mem_bind (free_str name) (\<lambda>_. ret None)
         | Some groups \<Rightarrow>
             mem_bind (malloc avail) (\<lambda>r. case r of
               None \<Rightarrow> mem_bind (mem_bind (free_str name) (\<lambda>_. free_groups groups)) (\<lambda>_. ret None)
             | Some monitor \<Rightarrow>
                 ret (Some \<lparr>cm_ptr = monitor, cm_name = name, cm_init = mb_init build, cm_groups = groups\<rparr>))))"

section \<open>Ownership of every level\<close>

lemma releases_free_str: "releases (free_str s) [fst s]"
  by (simp add: free_str_def releases_free)

lemmas releases_intros = releases_bind releases_free_str releases_free releases_free_opt

definition value_addrs :: "c_value_db \<Rightarrow> ptr list" where
  "value_addrs v = [fst (cv_id v), fst (cv_name v), cv_ptr v]"

definition value_clean :: "db_value \<Rightarrow> bool" where
  "value_clean v \<longleftrightarrow> CHR 0x00 \<notin> set (dv_id v) \<and> CHR 0x00 \<notin> set (dv_name v)"

definition value_rep :: "db_value \<Rightarrow> c_value_db \<Rightarrow> bool" where
  "value_rep v p \<longleftrightarrow> snd (cv_id p) = dv_id v \<and> snd (cv_name p) = dv_name v
     \<and> unat (cv_value p) = unat (dv_value16 v) mod 256 \<and> cv_value16 p = dv_value16 v"

lemma and_low_byte: "unat (w AND 0xff :: u16) = unat w mod 256"
proof -
  have "w AND 0xff = take_bit 8 w" by (simp add: take_bit_eq_mask mask_eq_exp_minus_1)
  then show ?thesis by (subst \<open>_ = _\<close>, subst unsigned_take_bit_eq) (simp add: take_bit_eq_mod)
qed

interpretation c_values: c_owner avail "alloc_value avail" free_value value_addrs value_clean value_rep for avail
proof
  fix h :: heap and v assume h: "heap_ok h"
  show "outcome h value_addrs (value_rep v) (\<not> (\<forall>n. avail n) \<or> \<not> value_clean v) (alloc_value avail v) h"
    unfolding alloc_value_def
  proof (rule cstr.outcome_alloc [OF holds_self [OF h]], goal_cases)
    case (1 h')
    then show ?case by (intro outcome_ret_None) (auto simp: value_clean_def)
  next
    case (2 ident h')
    show ?case
    proof (rule cstr.outcome_alloc [OF 2(1)], goal_cases)
      case (1 h')
      then show ?case by (intro outcome_fail [OF releases_free_str]) (auto simp: value_clean_def)
    next
      case (2 name h')
      show ?case
      proof (rule block.outcome_alloc [OF 2(1)], goal_cases)
        case (1 h')
        then show ?case by (intro outcome_fail [OF releases_bind [OF releases_free_str releases_free_str]]) auto
      next
        case (2 node h')
        then show ?case
          using \<open>snd ident = dv_id v\<close> \<open>snd name = dv_name v\<close>
          by (intro outcome_ret_Some) (simp_all add: value_rep_def value_addrs_def and_low_byte)
      qed
    qed
  qed
next
  show "releases (free_value p) (value_addrs p)" for p
    unfolding free_value_def value_addrs_def
    using releases_bind [OF releases_free_str releases_bind [OF releases_free_str releases_free]] by simp
qed

lemma owner_values: "c_owner avail (alloc_values avail) free_values (\<lambda>ps. concat (map value_addrs ps))
    (list_all value_clean) (list_all2 value_rep)"
  using c_values.owner_list [of avail] by (simp add: alloc_values_def [abs_def] free_values_def)

interpretation c_value_list: c_owner avail "alloc_values avail" free_values "\<lambda>ps. concat (map value_addrs ps)"
    "list_all value_clean" "list_all2 value_rep" for avail
  by (rule owner_values)

definition control_addrs :: "c_control_db \<Rightarrow> ptr list" where
  "control_addrs c = [fst (cc_id c), fst (cc_name c)] @ concat (map value_addrs (cc_values c)) @ [cc_ptr c]"

definition control_clean :: "db_control \<Rightarrow> bool" where
  "control_clean c \<longleftrightarrow> CHR 0x00 \<notin> set (dc_id c) \<and> CHR 0x00 \<notin> set (dc_name c) \<and> list_all value_clean (dc_values c)"

definition control_rep :: "db_control \<Rightarrow> c_control_db \<Rightarrow> bool" where
  "control_rep c p \<longleftrightarrow> snd (cc_id p) = dc_id c \<and> snd (cc_name p) = dc_name c \<and> cc_address p = dc_address c
     \<and> cc_delay p = dc_delay c \<and> cc_type p = dc_type c \<and> cc_refresh p = dc_refresh c
     \<and> list_all2 value_rep (dc_values c) (cc_values p)"

interpretation c_controls: c_owner avail "alloc_control avail" free_control control_addrs control_clean control_rep for avail
proof
  fix h :: heap and c assume h: "heap_ok h"
  show "outcome h control_addrs (control_rep c) (\<not> (\<forall>n. avail n) \<or> \<not> control_clean c) (alloc_control avail c) h"
    unfolding alloc_control_def
  proof (rule cstr.outcome_alloc [OF holds_self [OF h]], goal_cases)
    case (1 h')
    then show ?case by (intro outcome_ret_None) (auto simp: control_clean_def)
  next
    case (2 ident h')
    show ?case
    proof (rule cstr.outcome_alloc [OF 2(1)], goal_cases)
      case (1 h')
      then show ?case by (intro outcome_fail [OF releases_free_str]) (auto simp: control_clean_def)
    next
      case (2 name h')
      show ?case
      proof (rule c_value_list.outcome_alloc [OF 2(1)], goal_cases)
        case (1 h')
        then show ?case
          by (intro outcome_fail [OF releases_bind [OF releases_free_str releases_free_str]]) (auto simp: control_clean_def)
      next
        case (2 vs h')
        show ?case
        proof (rule block.outcome_alloc [OF 2(1)], goal_cases)
          case (1 h')
          then show ?case
            by (intro outcome_fail [OF releases_bind [OF releases_free_str releases_bind [OF releases_free_str c_value_list.release_law]]]) auto
        next
          case (2 node h')
          then show ?case
            using \<open>snd ident = dc_id c\<close> \<open>snd name = dc_name c\<close> \<open>list_all2 value_rep (dc_values c) vs\<close>
            by (intro outcome_ret_Some) (simp_all add: control_rep_def control_addrs_def)
        qed
      qed
    qed
  qed
next
  show "releases (free_control p) (control_addrs p)" for p
    unfolding free_control_def control_addrs_def
    using releases_bind [OF releases_free_str releases_bind [OF releases_free_str releases_bind [OF c_value_list.release_law releases_free]]]
    by simp
qed

lemma owner_controls: "c_owner avail (alloc_controls avail) free_controls (\<lambda>ps. concat (map control_addrs ps))
    (list_all control_clean) (list_all2 control_rep)"
  using c_controls.owner_list [of avail] by (simp add: alloc_controls_def [abs_def] free_controls_def)

interpretation c_control_list: c_owner avail "alloc_controls avail" free_controls "\<lambda>ps. concat (map control_addrs ps)"
    "list_all control_clean" "list_all2 control_rep" for avail
  by (rule owner_controls)

definition pattern_addrs :: "c_str option \<Rightarrow> ptr list" where
  "pattern_addrs p = (case p of Some s \<Rightarrow> [fst s] | None \<Rightarrow> [])"

definition pattern_clean :: "string option \<Rightarrow> bool" where
  "pattern_clean p \<longleftrightarrow> (case p of Some s \<Rightarrow> CHR 0x00 \<notin> set s | None \<Rightarrow> True)"

interpretation c_pattern: c_owner avail "alloc_pattern avail" free_pattern pattern_addrs pattern_clean
    "\<lambda>p q. map_option snd q = p" for avail
proof
  fix h :: heap and p assume h: "heap_ok h"
  show "outcome h pattern_addrs (\<lambda>q. map_option snd q = p) (\<not> (\<forall>n. avail n) \<or> \<not> pattern_clean p) (alloc_pattern avail p) h"
  proof (cases p)
    case None
    then show ?thesis by (simp add: alloc_pattern_def outcome_ret_Some pattern_addrs_def holds_self [OF h])
  next
    case (Some s)
    show ?thesis unfolding alloc_pattern_def Some option.case
    proof (rule cstr.outcome_alloc [OF holds_self [OF h]], goal_cases)
      case (1 h')
      then show ?case by (intro outcome_ret_None) (auto simp: pattern_clean_def)
    next
      case (2 q h')
      then show ?case by (intro outcome_ret_Some) (simp_all add: pattern_addrs_def)
    qed
  qed
next
  show "releases (free_pattern q) (pattern_addrs q)" for q
    using releases_free_opt [of "map_option fst q"] by (cases q) (simp_all add: free_pattern_def pattern_addrs_def)
qed

definition subgroup_addrs :: "c_subgroup_db \<Rightarrow> ptr list" where
  "subgroup_addrs s =
     [fst (cs_name s)] @ pattern_addrs (cs_pattern s) @ concat (map control_addrs (cs_controls s)) @ [cs_ptr s]"

definition subgroup_clean :: "db_subgroup \<Rightarrow> bool" where
  "subgroup_clean s \<longleftrightarrow> CHR 0x00 \<notin> set (ds_name s) \<and> pattern_clean (ds_pattern s) \<and> list_all control_clean (ds_controls s)"

definition subgroup_rep :: "db_subgroup \<Rightarrow> c_subgroup_db \<Rightarrow> bool" where
  "subgroup_rep s p \<longleftrightarrow> snd (cs_name p) = ds_name s \<and> map_option snd (cs_pattern p) = ds_pattern s
     \<and> list_all2 control_rep (ds_controls s) (cs_controls p)"

interpretation c_subgroups: c_owner avail "alloc_subgroup avail" free_subgroup subgroup_addrs subgroup_clean subgroup_rep for avail
proof
  fix h :: heap and s assume h: "heap_ok h"
  show "outcome h subgroup_addrs (subgroup_rep s) (\<not> (\<forall>n. avail n) \<or> \<not> subgroup_clean s) (alloc_subgroup avail s) h"
    unfolding alloc_subgroup_def
  proof (rule cstr.outcome_alloc [OF holds_self [OF h]], goal_cases)
    case (1 h')
    then show ?case by (intro outcome_ret_None) (auto simp: subgroup_clean_def)
  next
    case (2 name h')
    show ?case
    proof (rule c_pattern.outcome_alloc [OF 2(1)], goal_cases)
      case (1 h')
      then show ?case by (intro outcome_fail [OF releases_free_str]) (auto simp: subgroup_clean_def)
    next
      case (2 pattern h')
      show ?case
      proof (rule c_control_list.outcome_alloc [OF 2(1)], goal_cases)
        case (1 h')
        then show ?case
          by (intro outcome_fail [OF releases_bind [OF releases_free_str c_pattern.release_law]]) (auto simp: subgroup_clean_def)
      next
        case (2 cs h')
        show ?case
        proof (rule block.outcome_alloc [OF 2(1)], goal_cases)
          case (1 h')
          then show ?case
            by (intro outcome_fail [OF releases_bind [OF releases_free_str releases_bind [OF c_pattern.release_law c_control_list.release_law]]]) auto
        next
          case (2 node h')
          then show ?case
            using \<open>snd name = ds_name s\<close> \<open>map_option snd pattern = ds_pattern s\<close> \<open>list_all2 control_rep (ds_controls s) cs\<close>
            by (intro outcome_ret_Some) (simp_all add: subgroup_rep_def subgroup_addrs_def)
        qed
      qed
    qed
  qed
next
  show "releases (free_subgroup p) (subgroup_addrs p)" for p
    unfolding free_subgroup_def subgroup_addrs_def free_pattern_def [symmetric]
    using releases_bind [OF releases_free_str releases_bind [OF c_pattern.release_law releases_bind [OF c_control_list.release_law releases_free]]]
    by simp
qed

lemma owner_subgroups: "c_owner avail (alloc_subgroups avail) free_subgroups (\<lambda>ps. concat (map subgroup_addrs ps))
    (list_all subgroup_clean) (list_all2 subgroup_rep)"
  using c_subgroups.owner_list [of avail] by (simp add: alloc_subgroups_def [abs_def] free_subgroups_def)

interpretation c_subgroup_list: c_owner avail "alloc_subgroups avail" free_subgroups "\<lambda>ps. concat (map subgroup_addrs ps)"
    "list_all subgroup_clean" "list_all2 subgroup_rep" for avail
  by (rule owner_subgroups)

definition group_addrs :: "c_group_db \<Rightarrow> ptr list" where
  "group_addrs g = [fst (cg_name g)] @ concat (map subgroup_addrs (cg_subgroups g)) @ [cg_ptr g]"

definition group_clean :: "db_group \<Rightarrow> bool" where
  "group_clean g \<longleftrightarrow> CHR 0x00 \<notin> set (dg_name g) \<and> list_all subgroup_clean (dg_subgroups g)"

definition group_rep :: "db_group \<Rightarrow> c_group_db \<Rightarrow> bool" where
  "group_rep g p \<longleftrightarrow> snd (cg_name p) = dg_name g \<and> list_all2 subgroup_rep (dg_subgroups g) (cg_subgroups p)"

interpretation c_groups: c_owner avail "alloc_group avail" free_group group_addrs group_clean group_rep for avail
proof
  fix h :: heap and g assume h: "heap_ok h"
  show "outcome h group_addrs (group_rep g) (\<not> (\<forall>n. avail n) \<or> \<not> group_clean g) (alloc_group avail g) h"
    unfolding alloc_group_def
  proof (rule cstr.outcome_alloc [OF holds_self [OF h]], goal_cases)
    case (1 h')
    then show ?case by (intro outcome_ret_None) (auto simp: group_clean_def)
  next
    case (2 name h')
    show ?case
    proof (rule c_subgroup_list.outcome_alloc [OF 2(1)], goal_cases)
      case (1 h')
      then show ?case by (intro outcome_fail [OF releases_free_str]) (auto simp: group_clean_def)
    next
      case (2 ss h')
      show ?case
      proof (rule block.outcome_alloc [OF 2(1)], goal_cases)
        case (1 h')
        then show ?case
          by (intro outcome_fail [OF releases_bind [OF releases_free_str c_subgroup_list.release_law]]) auto
      next
        case (2 node h')
        then show ?case
          using \<open>snd name = dg_name g\<close> \<open>list_all2 subgroup_rep (dg_subgroups g) ss\<close>
          by (intro outcome_ret_Some) (simp_all add: group_rep_def group_addrs_def)
      qed
    qed
  qed
next
  show "releases (free_group p) (group_addrs p)" for p
    unfolding free_group_def group_addrs_def
    using releases_bind [OF releases_free_str releases_bind [OF c_subgroup_list.release_law releases_free]] by simp
qed

lemma owner_groups: "c_owner avail (alloc_groups avail) free_groups (\<lambda>ps. concat (map group_addrs ps))
    (list_all group_clean) (list_all2 group_rep)"
  using c_groups.owner_list [of avail] by (simp add: alloc_groups_def [abs_def] free_groups_def)

interpretation c_group_list: c_owner avail "alloc_groups avail" free_groups "\<lambda>ps. concat (map group_addrs ps)"
    "list_all group_clean" "list_all2 group_rep" for avail
  by (rule owner_groups)

definition build_name :: "monitor_build \<Rightarrow> string" where
  "build_name b = (case mb_name b of Some name \<Rightarrow> name | None \<Rightarrow> [])"

definition monitor_addrs :: "c_monitor_db \<Rightarrow> ptr list" where
  "monitor_addrs m = [fst (cm_name m)] @ concat (map group_addrs (cm_groups m)) @ [cm_ptr m]"

definition monitor_clean :: "monitor_build \<Rightarrow> bool" where
  "monitor_clean b \<longleftrightarrow> CHR 0x00 \<notin> set (build_name b) \<and> list_all group_clean (mb_groups b)"

definition monitor_rep :: "monitor_build \<Rightarrow> c_monitor_db \<Rightarrow> bool" where
  "monitor_rep b m \<longleftrightarrow> snd (cm_name m) = build_name b \<and> cm_init m = mb_init b
     \<and> list_all2 group_rep (mb_groups b) (cm_groups m)"

interpretation c_monitor: c_owner avail "alloc_monitor avail" "\<lambda>m. free_monitor (Some m)" monitor_addrs monitor_clean monitor_rep
  for avail
proof
  fix h :: heap and b assume h: "heap_ok h"
  show "outcome h monitor_addrs (monitor_rep b) (\<not> (\<forall>n. avail n) \<or> \<not> monitor_clean b) (alloc_monitor avail b) h"
    unfolding alloc_monitor_def build_name_def [symmetric]
  proof (rule cstr.outcome_alloc [OF holds_self [OF h]], goal_cases)
    case (1 h')
    then show ?case by (intro outcome_ret_None) (auto simp: monitor_clean_def)
  next
    case (2 name h')
    show ?case
    proof (rule c_group_list.outcome_alloc [OF 2(1)], goal_cases)
      case (1 h')
      then show ?case by (intro outcome_fail [OF releases_free_str]) (auto simp: monitor_clean_def)
    next
      case (2 gs h')
      show ?case
      proof (rule block.outcome_alloc [OF 2(1)], goal_cases)
        case (1 h')
        then show ?case
          by (intro outcome_fail [OF releases_bind [OF releases_free_str c_group_list.release_law]]) auto
      next
        case (2 node h')
        then show ?case
          using \<open>snd name = build_name b\<close> \<open>list_all2 group_rep (mb_groups b) gs\<close>
          by (intro outcome_ret_Some) (simp_all add: monitor_rep_def monitor_addrs_def)
      qed
    qed
  qed
next
  show "releases (free_monitor (Some m)) (monitor_addrs m)" for m
    unfolding free_monitor_def monitor_addrs_def option.case
    using releases_bind [OF releases_free_str releases_bind [OF c_group_list.release_law releases_free]] by simp
qed

section \<open>The life of a monitor tree\<close>

text \<open>
  C27: building the C tree frees no block that is not its own and, if it fails, leaves no block behind;
  it fails only if the allocator does or a text contains NUL. The tree it returns shows the groups,
  subgroups, controls and values of the Rust tree in order, with the low byte of each value in the
  8-bit field; and releasing it gives back exactly its blocks, so that the heap is as before.
\<close>

theorem monitor_tree_lifecycle:
  assumes "heap_ok h"
  shows "case alloc_monitor avail build h of
      None \<Rightarrow> False
    | Some (None, h') \<Rightarrow> live h' = live h \<and> (if monitor_clean build then \<exists>n. \<not> avail n else True)
    | Some (Some m, h') \<Rightarrow>
        monitor_rep build m
        \<and> (case free_monitor (Some m) h' of None \<Rightarrow> False | Some (_, h'') \<Rightarrow> live h'' = live h)"
proof -
  note out = c_monitor.alloc_law [OF assms, where avail = avail and x = build, unfolded outcome_def]
  show ?thesis
  proof (cases "alloc_monitor avail build h")
    case (Some r)
    obtain m h' where r: "r = (m, h')" by fastforce
    show ?thesis
    proof (cases m)
      case None
      with out Some r show ?thesis by (auto simp: holds_def)
    next
      case (Some t)
      with out \<open>alloc_monitor avail build h = Some r\<close> r
      have rep: "monitor_rep build t" and h': "holds h (monitor_addrs t) h'" by simp_all
      have "free_monitor (Some t) h' = Some ((), h'\<lparr>live := live h' - set (monitor_addrs t)\<rparr>)"
        using h' by (intro releasesD [OF c_monitor.release_law]) (auto simp: holds_def)
      moreover have "live h' - set (monitor_addrs t) = live h" using h' by (auto simp: holds_def)
      ultimately show ?thesis using rep \<open>alloc_monitor avail build h = Some r\<close> r Some by simp
    qed
  qed (use out in simp)
qed

theorem monitor_tree_lifecycle_witness:
  "\<exists>m h'. alloc_monitor (\<lambda>_. True)
      \<lparr>mb_include_visits = 1, mb_name = Some ''M'', mb_init = 1,
       mb_groups = [\<lparr>dg_name = ''G'', dg_subgroups = []\<rparr>]\<rparr> \<lparr>calls = 0, live = {}\<rparr> = Some (Some m, h')
    \<and> (case free_monitor (Some m) h' of None \<Rightarrow> False | Some (_, h'') \<Rightarrow> live h'' = {})"
proof -
  let ?b = "\<lparr>mb_include_visits = 1, mb_name = Some ''M'', mb_init = 1,
       mb_groups = [\<lparr>dg_name = ''G'', dg_subgroups = []\<rparr>]\<rparr>"
  let ?h = "\<lparr>calls = 0, live = {}\<rparr>"
  have "heap_ok ?h" by (simp add: heap_ok_def)
  from monitor_tree_lifecycle [OF this, where avail = "\<lambda>_. True" and build = ?b]
  have "case alloc_monitor (\<lambda>_. True) ?b ?h of None \<Rightarrow> False | Some (None, h') \<Rightarrow> False
      | Some (Some m, h') \<Rightarrow> (case free_monitor (Some m) h' of None \<Rightarrow> False | Some (_, h'') \<Rightarrow> live h'' = {})"
    by (auto simp: monitor_clean_def group_clean_def build_name_def split: option.splits)
  then obtain m h' where "alloc_monitor (\<lambda>_. True) ?b ?h = Some (Some m, h')"
    "case free_monitor (Some m) h' of None \<Rightarrow> False | Some (_, h'') \<Rightarrow> live h'' = {}"
    by (metis (no_types, lifting) case_optionE case_prodE)
  then show ?thesis by blast
qed

end
