(* ===== verification/Caps_Parser.thy ===== *)
theory Caps_Parser
  imports Btree_Map
begin

text \<open>
  The parser for capability strings of \<^verbatim>\<open>crates/ddccontrol-caps/src/lib.rs\<close>. Its cursor is the
  position together with the bytes not yet read (\<open>self.bytes[self.pos..]\<close>), so that \<open>peek\<close>
  looks at the head of the rest. The lemmas show that the parser always ends (its calls nest, so the
  progress of the cursor is proved first, on the domain of the recursion), that every error position
  lies inside the input, and that skipping follows the balance of parentheses.
\<close>

section \<open>Data\<close>

datatype monitor_type = Unknown | Lcd | Crt

type_synonym vcp_entry = "u16 list option"

record caps =
  caps_type :: monitor_type
  caps_vcp :: "(u8, vcp_entry) btree"

definition default_caps :: caps where
  "default_caps = \<lparr>caps_type = Unknown, caps_vcp = []\<rparr>"

definition is_supported :: "caps \<Rightarrow> u8 \<Rightarrow> bool" where
  "is_supported c code \<longleftrightarrow> bt_get (caps_vcp c) code \<noteq> None"

definition caps_entry :: "caps \<Rightarrow> u8 \<Rightarrow> vcp_entry option" where
  "caps_entry c code = bt_get (caps_vcp c) code"

definition vcp_codes :: "caps \<Rightarrow> u8 list" where
  "vcp_codes c = bt_keys (caps_vcp c)"

definition set_monitor_type :: "monitor_type \<Rightarrow> caps \<Rightarrow> caps" where
  "set_monitor_type t c = c\<lparr>caps_type := t\<rparr>"

definition insert_vcp :: "u8 \<Rightarrow> vcp_entry \<Rightarrow> caps \<Rightarrow> caps" where
  "insert_vcp code entry c = c\<lparr>caps_vcp := bt_insert code entry (caps_vcp c)\<rparr>"

datatype caps_error_kind =
    InvalidHex
  | UnexpectedCloseParen
  | UnexpectedEnd
  | UnbalancedParens
  | ValueWithoutVcpCode

record caps_error =
  error_position :: nat
  error_kind :: caps_error_kind

datatype edit = Add | Remove

record parsed_vcp =
  parsed_code :: u8
  parsed_values :: vcp_entry

record parsed_caps =
  parsed_type :: "monitor_type option"
  parsed_vcps :: "parsed_vcp list"

definition default_parsed :: parsed_caps where
  "default_parsed = \<lparr>parsed_type = None, parsed_vcps = []\<rparr>"

section \<open>The parser\<close>

type_synonym parser = "nat \<times> string"
type_synonym 'a parse = "('a, caps_error) result"

abbreviation rest :: "parser \<Rightarrow> string" where
  "rest \<equiv> snd"

definition err_at :: "caps_error_kind \<Rightarrow> nat \<Rightarrow> caps_error" where
  "err_at kind position = \<lparr>error_position = position, error_kind = kind\<rparr>"

definition is_name_byte :: "char \<Rightarrow> bool" where
  "is_name_byte c \<longleftrightarrow> is_ascii_alphanumeric c \<or> c = CHR ''_''"

text \<open>The last arm is unreachable in the source: the callers have validated the byte.\<close>

definition hex_nibble :: "char \<Rightarrow> u8" where
  "hex_nibble c =
     (if 48 \<le> byte_val c \<and> byte_val c \<le> 57 then byte_of c - 48
      else if 97 \<le> byte_val c \<and> byte_val c \<le> 102 then byte_of c - 97 + 10
      else if 65 \<le> byte_val c \<and> byte_val c \<le> 70 then byte_of c - 65 + 10
      else 0)"

definition parse_hex_u16 :: "string \<Rightarrow> u16 option" where
  "parse_hex_u16 token =
     (if token = [] \<or> length token > 4 \<or> \<not> list_all is_ascii_hexdigit token then None
      else Some (foldl (\<lambda>n c. n * 16 + ucast (hex_nibble c)) 0 token))"

fun take_bytes :: "(char \<Rightarrow> bool) \<Rightarrow> parser \<Rightarrow> string \<times> parser" where
  "take_bytes p (pos, []) = ([], (pos, []))"
| "take_bytes p (pos, c # r) =
     (if p c then (case take_bytes p (Suc pos, r) of (t, q) \<Rightarrow> (c # t, q))
      else ([], (pos, c # r)))"

definition skip_spaces :: "parser \<Rightarrow> parser" where
  "skip_spaces q = snd (take_bytes is_ascii_whitespace q)"

definition take_name :: "parser \<Rightarrow> string \<times> parser" where
  "take_name q = take_bytes is_name_byte q"

definition take_token :: "parser \<Rightarrow> (string \<times> parser) parse" where
  "take_token q =
     (case take_bytes (\<lambda>c. \<not> (c = CHR ''('' \<or> c = CHR '')'' \<or> is_ascii_whitespace c)) q of
        (token, q') \<Rightarrow> if token = [] then Err (err_at UnexpectedEnd (fst q')) else Ok (token, q'))"

fun consume :: "char \<Rightarrow> parser \<Rightarrow> parser option" where
  "consume expected (pos, []) = None"
| "consume expected (pos, c # r) = (if c = expected then Some (Suc pos, r) else None)"

definition take_vcp_code :: "parser \<Rightarrow> nat \<Rightarrow> (u8 \<times> parser) parse" where
  "take_vcp_code q position =
     (case q of
        (pos, c # d # r) \<Rightarrow>
          if \<not> (is_ascii_hexdigit c \<and> is_ascii_hexdigit d) then Err (err_at InvalidHex position)
          else Ok (hex_nibble c * 16 + hex_nibble d, (Suc (Suc pos), r))
      | _ \<Rightarrow> Err (err_at InvalidHex position))"

fun skip_balanced_loop :: "nat \<Rightarrow> parser \<Rightarrow> parser parse" where
  "skip_balanced_loop depth (pos, []) = Err (err_at UnbalancedParens pos)"
| "skip_balanced_loop depth (pos, c # r) =
     (if c = CHR ''('' then skip_balanced_loop (depth + 1) (Suc pos, r)
      else if c = CHR '')'' then
        if depth - 1 = 0 then Ok (Suc pos, r) else skip_balanced_loop (depth - 1) (Suc pos, r)
      else skip_balanced_loop depth (Suc pos, r))"

definition skip_balanced :: "parser \<Rightarrow> parser parse" where
  "skip_balanced q = skip_balanced_loop 1 q"

section \<open>Progress of the cursor\<close>

text \<open>
  Every step of the parser keeps the end of the input and never moves back: \<open>leads q q'\<close> says
  that the cursor \<open>q'\<close> reads a suffix of what \<open>q\<close> reads, at the matching position.
\<close>

definition leads :: "parser \<Rightarrow> parser \<Rightarrow> bool" where
  "leads q q' \<longleftrightarrow> (\<exists>t. rest q = t @ rest q' \<and> fst q' = fst q + length t)"

lemma leads_refl [simp]: "leads q q"
  by (auto simp: leads_def)

lemma leads_trans [trans]: "leads q r \<Longrightarrow> leads r s \<Longrightarrow> leads q s"
  by (auto simp: leads_def)

lemma leads_Cons [simp]: "leads (pos, c # r) (Suc pos, r)"
  by (auto simp: leads_def)

lemma leads_length: "leads q q' \<Longrightarrow> length (rest q') \<le> length (rest q)"
  by (auto simp: leads_def)

lemma leads_end: "leads q q' \<Longrightarrow> fst q' + length (rest q') = fst q + length (rest q)"
  by (auto simp: leads_def)

text \<open>The same with at least one byte read.\<close>

definition eats :: "parser \<Rightarrow> parser \<Rightarrow> bool" where
  "eats q q' \<longleftrightarrow> leads q q' \<and> length (rest q') < length (rest q)"

lemma eats_leads: "eats q q' \<Longrightarrow> leads q q'"
  by (simp add: eats_def)

lemma eats_length: "eats q q' \<Longrightarrow> length (rest q') < length (rest q)"
  by (simp add: eats_def)

lemma eats_Cons [simp]: "eats (pos, c # r) (Suc pos, r)"
  by (simp add: eats_def)

lemma leads_eats [trans]: "leads q r \<Longrightarrow> eats r s \<Longrightarrow> eats q s"
  unfolding eats_def by (auto intro: leads_trans dest: leads_length)

lemma eats_then_leads [trans]: "eats q r \<Longrightarrow> leads r s \<Longrightarrow> eats q s"
  unfolding eats_def by (auto intro: leads_trans dest: leads_length)

lemma eats_trans [trans]: "eats q r \<Longrightarrow> eats r s \<Longrightarrow> eats q s"
  by (blast intro: leads_eats eats_leads)

text \<open>
  What every parsing step promises: an error names a position inside the input of the cursor it
  started from, a result satisfies \<open>Q\<close>.
\<close>

definition good :: "parser \<Rightarrow> ('a \<Rightarrow> bool) \<Rightarrow> 'a parse \<Rightarrow> bool" where
  "good q Q r \<longleftrightarrow>
     (case r of Inl e \<Rightarrow> error_position e \<le> fst q + length (rest q) | Inr x \<Rightarrow> Q x)"

lemma good_Ok [simp]: "good q Q (Inr x) \<longleftrightarrow> Q x"
  by (simp add: good_def)

lemma good_Err [simp]: "good q Q (Inl (err_at k n)) \<longleftrightarrow> n \<le> fst q + length (rest q)"
  by (simp add: good_def err_at_def)

lemma good_OkD: "good q Q r \<Longrightarrow> r = Inr x \<Longrightarrow> Q x"
  by simp

lemma good_bind:
  "good q P r \<Longrightarrow> (\<And>x. r = Inr x \<Longrightarrow> P x \<Longrightarrow> good q Q (f x)) \<Longrightarrow> good q Q (and_then r f)"
  by (cases r) (auto simp: good_def)

lemma good_weaken:
  "leads q q' \<Longrightarrow> good q' P r \<Longrightarrow> (\<And>x. P x \<Longrightarrow> Q x) \<Longrightarrow> good q Q r"
  using leads_end [of q q'] by (auto simp: good_def split: sum.splits)

definition moved :: "parser \<Rightarrow> ('a \<Rightarrow> bool) \<Rightarrow> 'a \<times> parser \<Rightarrow> bool" where
  "moved q P = (\<lambda>(x, q'). eats q q' \<and> P x)"

lemma moved_pair [simp]: "moved q P (x, q') \<longleftrightarrow> eats q q' \<and> P x"
  by (simp add: moved_def)

lemma good_bind_pair:
  assumes "good q (moved q P) r"
    and "\<And>x q'. r = Inr (x, q') \<Longrightarrow> eats q q' \<Longrightarrow> P x \<Longrightarrow> good q Q (f x q')"
  shows "good q Q (and_then r (\<lambda>(x, q'). f x q'))"
  using assms(1) by (rule good_bind) (auto simp: moved_def intro: assms(2))

lemma good_ok_or:
  assumes "n \<le> fst q + length (rest q)" and "\<And>v. x = Some v \<Longrightarrow> good q Q (f v)"
  shows "good q Q (and_then (ok_or x (err_at k n)) f)"
  using assms by (cases x) auto

lemma good_weaken_moved:
  assumes "leads q q'" and "good q' (moved q' P) r"
  shows "good q (moved q P) r"
  by (rule good_weaken [OF assms]) (use assms(1) in \<open>auto simp: moved_def intro: leads_eats\<close>)

lemma good_weaken_eats:
  assumes "leads q q'" and "good q' (eats q') r"
  shows "good q (eats q) r"
  by (rule good_weaken [OF assms]) (use assms(1) in \<open>auto intro: leads_eats\<close>)

lemma good_after: "eats q q1 \<Longrightarrow> good q1 (moved q1 P) r \<Longrightarrow> good q (moved q P) r"
  by (rule good_weaken_moved [OF eats_leads])

lemma take_bytes_eq:
  "take_bytes p (pos, r) = (takeWhile p r, (pos + length (takeWhile p r), dropWhile p r))"
  by (induction r arbitrary: pos) auto

lemma leads_split: "leads (pos, r) (pos + length (takeWhile p r), dropWhile p r)"
  unfolding leads_def by (rule exI [of _ "takeWhile p r"]) simp

lemma length_dropWhile_less: "takeWhile p r \<noteq> [] \<Longrightarrow> length (dropWhile p r) < length r"
  by (cases r) (auto simp: le_imp_less_Suc length_dropWhile_le split: if_splits)

lemma skip_spaces_eq:
  "skip_spaces (pos, r) =
     (pos + length (takeWhile is_ascii_whitespace r), dropWhile is_ascii_whitespace r)"
  by (simp add: skip_spaces_def take_bytes_eq)

lemma skip_spaces_leads [simp]: "leads q (skip_spaces q)"
  by (cases q) (simp add: skip_spaces_eq leads_split)

lemma skip_spaces_to: "(pos, r) = skip_spaces q \<Longrightarrow> leads q (pos, r)"
  by simp

lemma take_name_leads: "(name, q') = take_name q \<Longrightarrow> leads q q'"
  by (cases q) (simp add: take_name_def take_bytes_eq leads_split)

lemma take_token_good: "good q (moved q (\<lambda>token. token \<noteq> [])) (take_token q)"
  by (cases q) (auto simp: take_token_def take_bytes_eq eats_def leads_split length_dropWhile_less
      dest: length_dropWhile_less intro: length_takeWhile_le)

lemma consume_eats: "consume c q = Some q' \<Longrightarrow> eats q q'"
  by (cases q; cases "rest q") (auto split: if_splits)

lemma skip_balanced_loop_good: "good q (eats q) (skip_balanced_loop d q)"
proof (induction d q rule: skip_balanced_loop.induct)
  case (2 d pos c r)
  have "good (Suc pos, r) (eats (Suc pos, r)) (skip_balanced_loop e (Suc pos, r))
      \<Longrightarrow> good (pos, c # r) (eats (pos, c # r)) (skip_balanced_loop e (Suc pos, r))" for e
    by (erule good_weaken [OF leads_Cons]) (rule eats_trans [OF eats_Cons])
  with 2 show ?case by auto
qed simp

lemma skip_balanced_good: "good q (eats q) (skip_balanced q)"
  by (simp add: skip_balanced_def skip_balanced_loop_good)

lemma take_vcp_code_good:
  "n \<le> fst q + length (rest q) \<Longrightarrow> good q (moved q (\<lambda>_. True)) (take_vcp_code q n)"
  by (auto simp: take_vcp_code_def eats_def leads_def split: prod.splits list.splits)

lemma take_token_eats: "take_token q = Inr (token, q') \<Longrightarrow> eats q q'"
  using good_OkD [OF take_token_good, of q "(token, q')"] by simp

lemmas skip_balanced_eats = good_OkD [OF skip_balanced_good]

lemma take_vcp_code_eats: "take_vcp_code q n = Inr (code, q') \<Longrightarrow> eats q q'"
  by (auto simp: take_vcp_code_def leads_def eats_def split: prod.splits list.splits if_splits)

lemmas parser_progress =
  skip_spaces_to [THEN leads_length] take_name_leads [THEN leads_length]
  take_token_eats [THEN eats_length] consume_eats [THEN eats_length]
  skip_balanced_eats [THEN eats_length] take_vcp_code_eats [THEN eats_length]

section \<open>The recursive parts\<close>

function parse_vcp_values :: "parser \<Rightarrow> u16 list \<Rightarrow> (u16 list \<times> parser) parse" where
  "parse_vcp_values q vs =
     (case skip_spaces q of
        (pos, []) \<Rightarrow> Err (err_at UnbalancedParens pos)
      | (pos, b # r) \<Rightarrow>
          if b = CHR '')'' then Ok (vs, (Suc pos, r))
          else if b = CHR ''('' then
            and_then (skip_balanced (Suc pos, r)) (\<lambda>q'. parse_vcp_values q' vs)
          else
            and_then (take_token (pos, b # r)) (\<lambda>(token, q').
            and_then (ok_or (parse_hex_u16 token) (err_at InvalidHex pos)) (\<lambda>value.
              parse_vcp_values q' (vs @ [value]))))"
  by pat_completeness auto
termination
  by (relation "measure (\<lambda>(q, _). length (rest q))") (fastforce dest: parser_progress)+

declare parse_vcp_values.simps [simp del]

lemma parse_vcp_values_good:
  "good q (moved q (\<lambda>_. True)) (parse_vcp_values q vs)"
proof (induction q vs rule: parse_vcp_values.induct)
  case (1 q vs)
  obtain pos r where s: "(pos, r) = skip_spaces q" by (metis surj_pair)
  note l = skip_spaces_to [OF s]
  note unf = parse_vcp_values.simps [of q] s [symmetric]
  show ?case
  proof (cases r)
    case Nil
    with leads_end [OF l] show ?thesis by (simp add: unf)
  next
    case (Cons b t)
    have e: "eats q (Suc pos, t)" using l Cons leads_eats by fastforce
    consider (close) "b = CHR '')''" | (paren) "b \<noteq> CHR '')''" "b = CHR ''(''"
      | (token) "b \<noteq> CHR '')''" "b \<noteq> CHR ''(''" by blast
    then show ?thesis
    proof cases
      case close
      with e Cons show ?thesis by (simp add: unf)
    next
      case paren
      have "good q (eats q) (skip_balanced (Suc pos, t))"
        by (rule good_weaken_eats [OF eats_leads [OF e] skip_balanced_good])
      then have "good q (moved q (\<lambda>_. True))
          (and_then (skip_balanced (Suc pos, t)) (\<lambda>q'. parse_vcp_values q' vs))"
        by (rule good_bind) (rule good_after, assumption, rule "1.IH"(1) [OF s Cons paren])
      with Cons paren show ?thesis by (simp add: unf)
    next
      case token
      have pos: "pos \<le> fst q + length (rest q)" using leads_end [OF l] by simp
      have tok: "good q (moved q (\<lambda>w. w \<noteq> [])) (take_token (pos, b # t))"
        by (rule good_weaken_moved [OF l [unfolded Cons] take_token_good])
      have "good q (moved q (\<lambda>_. True))
          (and_then (take_token (pos, b # t)) (\<lambda>(w, q').
           and_then (ok_or (parse_hex_u16 w) (err_at InvalidHex pos)) (\<lambda>v.
             parse_vcp_values q' (vs @ [v]))))"
      proof (rule good_bind_pair [OF tok], rule good_ok_or [OF pos], rule good_after, assumption)
        fix w q' v
        assume "take_token (pos, b # t) = Inr (w, q')" and "parse_hex_u16 w = Some v"
        then show "good q' (moved q' (\<lambda>_. True)) (parse_vcp_values q' (vs @ [v]))"
          by (intro "1.IH"(2) [OF s Cons token _ refl]) auto
      qed
      with Cons token show ?thesis by (simp add: unf)
    qed
  qed
qed

lemma parse_vcp_values_eats: "parse_vcp_values q vs = Inr (result, q') \<Longrightarrow> eats q q'"
  using good_OkD [OF parse_vcp_values_good, of q vs "(result, q')"] by simp

definition push_vcp :: "u8 \<Rightarrow> vcp_entry \<Rightarrow> parsed_caps \<Rightarrow> parsed_caps" where
  "push_vcp code vs parsed =
     parsed\<lparr>parsed_vcps := parsed_vcps parsed @ [\<lparr>parsed_code = code, parsed_values = vs\<rparr>]\<rparr>"

function parse_vcp :: "parser \<Rightarrow> parsed_caps \<Rightarrow> (parsed_caps \<times> parser) parse" where
  "parse_vcp q parsed =
     (case skip_spaces q of
        (pos, []) \<Rightarrow> Err (err_at UnbalancedParens pos)
      | (pos, b # r) \<Rightarrow>
          if b = CHR '')'' then Ok (parsed, (Suc pos, r))
          else if b = CHR ''('' then Err (err_at ValueWithoutVcpCode pos)
          else if is_name_byte b \<and> \<not> is_ascii_hexdigit b then
            (case take_name (pos, b # r) of
               (name, q1) \<Rightarrow>
                 (case consume CHR ''('' (skip_spaces q1) of
                    Some q2 \<Rightarrow>
                      if eq_ignore_ascii_case name ''vcp'' then
                        and_then (parse_vcp q2 parsed) (\<lambda>(parsed', q3). parse_vcp q3 parsed')
                      else and_then (skip_balanced q2) (\<lambda>q3. parse_vcp q3 parsed)
                  | None \<Rightarrow> Err (err_at InvalidHex pos)))
          else
            and_then (take_vcp_code (pos, b # r) pos) (\<lambda>(code, q1).
              (case consume CHR ''('' (skip_spaces q1) of
                 Some q2 \<Rightarrow>
                   and_then (parse_vcp_values q2 []) (\<lambda>(vs, q3).
                     parse_vcp q3 (push_vcp code (if vs = [] then None else Some vs) parsed))
               | None \<Rightarrow> parse_vcp (skip_spaces q1) (push_vcp code None parsed))))"
  by pat_completeness auto

text \<open>
  Parsing only appends codes, and never one with an empty list of values: \<open>extends p p'\<close>. It is
  proved, with the progress of the cursor that the termination of the nested calls rests on, for
  every argument on which the recursion is defined.
\<close>

definition extends :: "parsed_caps \<Rightarrow> parsed_caps \<Rightarrow> bool" where
  "extends p p' \<longleftrightarrow> (\<exists>items. parsed_vcps p' = parsed_vcps p @ items
     \<and> list_all (\<lambda>i. parsed_values i \<noteq> Some []) items)"

lemma extends_refl [simp]: "extends p p"
  by (auto simp: extends_def)

lemma extends_trans: "extends p p' \<Longrightarrow> extends p' p'' \<Longrightarrow> extends p p''"
  by (auto simp: extends_def)

lemma extends_push [simp]: "vs \<noteq> Some [] \<Longrightarrow> extends p (push_vcp code vs p)"
  by (auto simp: extends_def push_vcp_def)

lemma good_extends:
  assumes "eats q q1" and "extends p p1" and "good q1 (moved q1 (extends p1)) r"
  shows "good q (moved q (extends p)) r"
proof -
  have "good q (moved q (extends p1)) r" by (rule good_after [OF assms(1,3)])
  then show ?thesis
    by (rule good_weaken [OF leads_refl])
      (use assms(2) in \<open>auto simp: moved_def intro: extends_trans\<close>)
qed

lemma vcp_header_eats:
  assumes "(pos, r) = skip_spaces q" and "(name, q1) = take_name (pos, r)"
    and "consume c (skip_spaces q1) = Some q2"
  shows "eats q q2"
  using assms consume_eats skip_spaces_to skip_spaces_leads take_name_leads
  by (metis leads_eats leads_trans)

lemma vcp_code_eats:
  "(pos, r) = skip_spaces q \<Longrightarrow> take_vcp_code (pos, r) n = Inr (code, q1) \<Longrightarrow> eats q q1"
  using skip_spaces_to take_vcp_code_eats leads_eats by blast

text \<open>The two ways on, for a continuation \<open>f\<close> that is good where it is called.\<close>

lemma vcp_block_good:
  assumes e2: "eats q q2"
    and "eq_ignore_ascii_case name ''vcp'' \<Longrightarrow> good q2 (moved q2 (extends parsed)) (f q2 parsed)"
    and "\<And>parsed' q3. eq_ignore_ascii_case name ''vcp'' \<Longrightarrow> f q2 parsed = Inr (parsed', q3)
      \<Longrightarrow> good q3 (moved q3 (extends parsed')) (f q3 parsed')"
    and "\<And>q3. \<not> eq_ignore_ascii_case name ''vcp'' \<Longrightarrow> skip_balanced q2 = Inr q3
      \<Longrightarrow> good q3 (moved q3 (extends parsed)) (f q3 parsed)"
  shows "good q (moved q (extends parsed))
    (if eq_ignore_ascii_case name ''vcp'' then and_then (f q2 parsed) (\<lambda>(parsed', q3). f q3 parsed')
     else and_then (skip_balanced q2) (\<lambda>q3. f q3 parsed))"
proof (cases "eq_ignore_ascii_case name ''vcp''")
  case True
  have "good q (moved q (extends parsed)) (f q2 parsed)"
    by (rule good_after [OF e2 assms(2) [OF True]])
  then have "good q (moved q (extends parsed)) (and_then (f q2 parsed) (\<lambda>(parsed', q3). f q3 parsed'))"
    by (rule good_bind_pair) (rule good_extends, assumption, assumption, rule assms(3) [OF True])
  with True show ?thesis by simp
next
  case False
  have "good q (eats q) (skip_balanced q2)"
    by (rule good_weaken_eats [OF eats_leads [OF e2] skip_balanced_good])
  then have "good q (moved q (extends parsed)) (and_then (skip_balanced q2) (\<lambda>q3. f q3 parsed))"
    by (rule good_bind) (rule good_after, assumption, rule assms(4) [OF False])
  with False show ?thesis by simp
qed

lemma vcp_code_good:
  assumes c: "good q (moved q (\<lambda>_. True)) r"
    and "\<And>code q2. r = Inr (code, q2) \<Longrightarrow> consume CHR ''('' (skip_spaces q2) = None \<Longrightarrow>
      good (skip_spaces q2) (moved (skip_spaces q2) (extends (push_vcp code None parsed))) (f (skip_spaces q2) (push_vcp code None parsed))"
    and "\<And>code q2 q3 vs q4. r = Inr (code, q2) \<Longrightarrow> consume CHR ''('' (skip_spaces q2) = Some q3
      \<Longrightarrow> parse_vcp_values q3 [] = Inr (vs, q4) \<Longrightarrow>
      good q4 (moved q4 (extends (push_vcp code (if vs = [] then None else Some vs) parsed)))
        (f q4 (push_vcp code (if vs = [] then None else Some vs) parsed))"
  shows "good q (moved q (extends parsed)) (and_then r (\<lambda>(code, q2).
    (case consume CHR ''('' (skip_spaces q2) of
       Some q3 \<Rightarrow> and_then (parse_vcp_values q3 []) (\<lambda>(vs, q4). f q4 (push_vcp code (if vs = [] then None else Some vs) parsed))
     | None \<Rightarrow> f (skip_spaces q2) (push_vcp code None parsed))))"
proof (rule good_bind_pair [OF c])
  fix code q2
  assume r: "r = Inr (code, q2)" and e2: "eats q q2"
  show "good q (moved q (extends parsed))
    (case consume CHR ''('' (skip_spaces q2) of
       Some q3 \<Rightarrow> and_then (parse_vcp_values q3 []) (\<lambda>(vs, q4). f q4 (push_vcp code (if vs = [] then None else Some vs) parsed))
     | None \<Rightarrow> f (skip_spaces q2) (push_vcp code None parsed))"
  proof (cases "consume CHR ''('' (skip_spaces q2)")
    case None
    have "good q (moved q (extends parsed)) (f (skip_spaces q2) (push_vcp code None parsed))"
      by (rule good_extends [OF eats_then_leads [OF e2 skip_spaces_leads] extends_push assms(2) [OF r None]]) simp
    with None show ?thesis by simp
  next
    case (Some q3)
    have e3: "eats q q3" using e2 consume_eats [OF Some] by (meson eats_then_leads eats_trans skip_spaces_leads)
    have "good q (moved q (\<lambda>_. True)) (parse_vcp_values q3 [])"
      by (rule good_after [OF e3 parse_vcp_values_good])
    then have "good q (moved q (extends parsed)) (and_then (parse_vcp_values q3 []) (\<lambda>(vs, q4).
        f q4 (push_vcp code (if vs = [] then None else Some vs) parsed)))"
      by (rule good_bind_pair) (rule good_extends [OF _ extends_push assms(3) [OF r Some]], auto)
    with Some show ?thesis by simp
  qed
qed

lemma parse_vcp_dom_good:
  "parse_vcp_dom (q, parsed) \<Longrightarrow> good q (moved q (extends parsed)) (parse_vcp q parsed)"
proof (induction q parsed rule: parse_vcp.pinduct)
  case (1 q parsed)
  obtain pos r where s: "(pos, r) = skip_spaces q" by (metis surj_pair)
  note l = skip_spaces_to [OF s]
  note unf = parse_vcp.psimps [OF "1.hyps"] s [symmetric]
  have pos: "pos \<le> fst q + length (rest q)" using leads_end [OF l] by simp
  show ?case
  proof (cases r)
    case Nil
    with pos show ?thesis by (simp add: unf)
  next
    case (Cons b t)
    have close: "eats q (Suc pos, t)" using l Cons leads_eats by fastforce
    obtain name q1 where n: "(name, q1) = take_name (pos, b # t)" by (metis surj_pair)
    consider (easy) "b = CHR '')'' \<or> b = CHR ''(''"
      | (nam) "b \<noteq> CHR '')''" "b \<noteq> CHR ''(''" "is_name_byte b \<and> \<not> is_ascii_hexdigit b"
      | (code) "b \<noteq> CHR '')''" "b \<noteq> CHR ''(''" "\<not> (is_name_byte b \<and> \<not> is_ascii_hexdigit b)"
      by blast
    then show ?thesis
    proof cases
      case easy
      with close pos Cons show ?thesis by (auto simp: unf)
    next
      case nam
      show ?thesis
      proof (cases "consume CHR ''('' (skip_spaces q1)")
        case None
        with Cons nam n [symmetric] pos show ?thesis by (simp add: unf)
      next
        case (Some q2)
        note pre = s Cons nam n Some
        have "good q (moved q (extends parsed))
            (if eq_ignore_ascii_case name ''vcp'' then and_then (parse_vcp q2 parsed) (\<lambda>(parsed', q3). parse_vcp q3 parsed')
             else and_then (skip_balanced q2) (\<lambda>q3. parse_vcp q3 parsed))"
          by (rule vcp_block_good [OF vcp_header_eats [OF s n [folded Cons] Some]])
            (rule "1.IH"(1) [OF pre], assumption, rule "1.IH"(2) [OF pre _ _ refl], assumption, assumption,
             rule "1.IH"(3) [OF pre], assumption, assumption)
        with Cons nam n [symmetric] Some show ?thesis by (simp add: unf)
      qed
    next
      case code
      have "good q (moved q (\<lambda>_. True)) (take_vcp_code (pos, b # t) pos)"
        by (rule good_weaken_moved [OF l [unfolded Cons] take_vcp_code_good]) simp
      then have "good q (moved q (extends parsed)) (and_then (take_vcp_code (pos, b # t) pos) (\<lambda>(c, q2).
          (case consume CHR ''('' (skip_spaces q2) of
             Some q3 \<Rightarrow> and_then (parse_vcp_values q3 []) (\<lambda>(vs, q4).
                 parse_vcp q4 (push_vcp c (if vs = [] then None else Some vs) parsed))
           | None \<Rightarrow> parse_vcp (skip_spaces q2) (push_vcp c None parsed))))"
        by (rule vcp_code_good)
          (rule "1.IH"(4) [OF s Cons code _ refl], assumption, assumption,
           rule "1.IH"(5) [OF s Cons code _ refl _ _ refl], assumption, assumption, assumption)
      with Cons code show ?thesis by (auto simp: unf)
    qed
  qed
qed

lemma parse_vcp_dom_eats: "parse_vcp q parsed = Inr (parsed', q') \<Longrightarrow> parse_vcp_dom (q, parsed) \<Longrightarrow> eats q q'"
  using good_OkD [OF parse_vcp_dom_good, of q parsed "(parsed', q')"] by simp

lemma measure_eats: "eats q q' \<Longrightarrow> ((q', x), (q, y)) \<in> measure (\<lambda>(q, _). length (rest q))"
  by (simp add: eats_length)

lemma parse_vcp_total: "All parse_vcp_dom"
proof (relation "measure (\<lambda>(q, _). length (rest q))", goal_cases)
  case 2
  then show ?case by (intro measure_eats) (auto intro: vcp_header_eats)
next
  case (3 q parsed pos r b t name q1 q2 z parsed' q3)
  have "eats q q2" using vcp_header_eats 3(1,2,6,7) by blast
  moreover have "eats q2 q3" using parse_vcp_dom_eats 3(9,10,11) by blast
  ultimately show ?case by (intro measure_eats) (rule eats_trans)
next
  case (4 q parsed pos r b t name q1 q2 q3)
  have "eats q q2" using vcp_header_eats 4(1,2,6,7) by blast
  moreover have "eats q2 q3" using skip_balanced_eats 4(9) by blast
  ultimately show ?case by (intro measure_eats) (rule eats_trans)
next
  case (5 q parsed pos r b t z code q1)
  have "eats q q1" using vcp_code_eats 5(1,2,6,7) by blast
  then show ?case by (intro measure_eats) (rule eats_then_leads [OF _ skip_spaces_leads])
next
  case (6 q parsed pos r b t z code q1 q2 y vs q3)
  have "eats q (skip_spaces q1)"
    using vcp_code_eats 6(1,2,6,7) by (blast intro: eats_then_leads [OF _ skip_spaces_leads])
  moreover have "eats (skip_spaces q1) q2" "eats q2 q3"
    using consume_eats 6(8) parse_vcp_values_eats 6(9,10) by blast+
  ultimately show ?case by (intro measure_eats) (blast intro: eats_trans)
qed simp

termination parse_vcp
  by (rule parse_vcp_total)

declare parse_vcp.simps [simp del]

lemma parse_vcp_good: "good q (moved q (extends parsed)) (parse_vcp q parsed)"
  using parse_vcp_dom_good parse_vcp_total by blast

function skip_balanced_from_current :: "parser \<Rightarrow> parser parse" where
  "skip_balanced_from_current q =
     (case q of
        (pos, []) \<Rightarrow> Err (err_at UnbalancedParens pos)
      | (pos, b # r) \<Rightarrow>
          if b = CHR '')'' then Ok (Suc pos, r)
          else if b = CHR ''('' then and_then (skip_balanced (Suc pos, r)) skip_balanced_from_current
          else skip_balanced_from_current (Suc pos, r))"
  by pat_completeness auto
termination
  by (relation "measure (\<lambda>q. length (rest q))") (auto dest!: skip_balanced_eats eats_length)

declare skip_balanced_from_current.simps [simp del]

lemma skip_balanced_from_current_good: "good q (eats q) (skip_balanced_from_current q)"
proof (induction q rule: skip_balanced_from_current.induct)
  case (1 q)
  obtain pos r where q: "q = (pos, r)" by fastforce
  show ?case
  proof (cases r)
    case Nil
    with q show ?thesis by (simp add: skip_balanced_from_current.simps)
  next
    case (Cons b t)
    note IH = "1.IH" [OF q [symmetric] Cons]
    have e: "eats q (Suc pos, t)" by (simp add: q Cons)
    have "good q (eats q) (skip_balanced (Suc pos, t))"
      by (rule good_weaken_eats [OF eats_leads [OF e] skip_balanced_good])
    then have "good q (eats q) (and_then (skip_balanced (Suc pos, t)) skip_balanced_from_current)"
      if "b = CHR ''(''"
      by (rule good_bind) (rule good_weaken_eats [OF eats_leads], assumption, use that IH(1) in simp)
    moreover have "good q (eats q) (skip_balanced_from_current (Suc pos, t))"
      if "b \<noteq> CHR '')''" "b \<noteq> CHR ''(''"
      using good_weaken_eats [OF eats_leads [OF e]] IH(2) that by blast
    ultimately show ?thesis
      using e by (subst skip_balanced_from_current.simps) (auto simp: q Cons)
  qed
qed

definition parse_type :: "parser \<Rightarrow> parsed_caps \<Rightarrow> (parsed_caps \<times> parser) parse" where
  "parse_type q parsed =
     (case take_bytes (\<lambda>c. \<not> (c = CHR '')'' \<or> is_ascii_whitespace c)) (skip_spaces q) of
        (text, q') \<Rightarrow>
          let v = map to_ascii_lowercase text;
              parsed' = (if v = ''lcd'' then parsed\<lparr>parsed_type := Some Lcd\<rparr>
                         else if v = ''crt'' then parsed\<lparr>parsed_type := Some Crt\<rparr>
                         else parsed)
          in and_then (skip_balanced_from_current q') (\<lambda>q''. Ok (parsed', q'')))"

lemma parse_type_good: "good q (moved q (extends parsed)) (parse_type q parsed)"
proof -
  let ?p = "\<lambda>c. \<not> (c = CHR '')'' \<or> is_ascii_whitespace c)"
  obtain v q' where t: "take_bytes ?p (skip_spaces q) = (v, q')" by (metis surj_pair)
  then have "leads (skip_spaces q) q'"
    by (cases "skip_spaces q") (auto simp: take_bytes_eq intro: leads_split)
  then have "leads q q'" by (rule leads_trans [OF skip_spaces_leads])
  then have "good q (eats q) (skip_balanced_from_current q')"
    using skip_balanced_from_current_good by (rule good_weaken_eats)
  then show ?thesis
    unfolding parse_type_def t by (auto simp: Let_def extends_def intro!: good_bind)
qed

function parse_sections :: "char option \<Rightarrow> parser \<Rightarrow> parsed_caps \<Rightarrow> (parsed_caps \<times> parser) parse" where
  "parse_sections stop_at q parsed =
     (case skip_spaces q of
        (pos, []) \<Rightarrow>
          if stop_at \<noteq> None then Err (err_at UnbalancedParens pos) else Ok (parsed, (pos, []))
      | (pos, b # r) \<Rightarrow>
          if Some b = stop_at then Ok (parsed, (Suc pos, r))
          else if b = CHR '')'' then Err (err_at UnexpectedCloseParen pos)
          else if b = CHR ''('' then
            and_then (parse_sections (Some CHR '')'') (Suc pos, r) parsed) (\<lambda>(parsed', q').
              parse_sections stop_at q' parsed')
          else if is_name_byte b then
            (case take_name (pos, b # r) of
               (name, q1) \<Rightarrow>
                 (case consume CHR ''('' (skip_spaces q1) of
                    Some q2 \<Rightarrow>
                      and_then
                        (if name = ''type'' then parse_type q2 parsed
                         else if name = ''vcp'' then parse_vcp q2 parsed
                         else and_then (skip_balanced q2) (\<lambda>q3. Ok (parsed, q3)))
                        (\<lambda>(parsed', q'). parse_sections stop_at q' parsed')
                  | None \<Rightarrow> parse_sections stop_at (skip_spaces q1) parsed))
          else parse_sections stop_at (Suc pos, r) parsed)"
  by pat_completeness auto

definition arrives :: "parser \<Rightarrow> ('a \<Rightarrow> bool) \<Rightarrow> 'a \<times> parser \<Rightarrow> bool" where
  "arrives q P = (\<lambda>(x, q'). leads q q' \<and> P x)"

lemma section_body_good:
  "good q (moved q (extends parsed))
     (if name = ''type'' then parse_type q parsed
      else if name = ''vcp'' then parse_vcp q parsed
      else and_then (skip_balanced q) (\<lambda>q3. Ok (parsed, q3)))"
proof -
  have "good q (moved q (extends parsed)) (and_then (skip_balanced q) (\<lambda>q3. Ok (parsed, q3)))"
    by (rule good_bind [OF skip_balanced_good]) simp
  with parse_type_good parse_vcp_good show ?thesis by simp
qed

lemma name_eats:
  assumes "(pos, b # r) = skip_spaces q" and "is_name_byte b" and "(name, q1) = take_name (pos, b # r)"
  shows "eats q q1"
proof -
  have "eats (pos, b # r) q1"
    using assms(2,3) by (auto simp: take_name_def take_bytes_eq eats_def leads_def le_imp_less_Suc
        length_dropWhile_le intro!: exI [of _ "b # takeWhile is_name_byte r"])
  then show ?thesis by (rule leads_eats [OF skip_spaces_to [OF assms(1)]])
qed

lemma arrives_cont:
  assumes "leads q q'" "extends p p'" "good q' (arrives q' (extends p')) r"
  shows "good q (arrives q (extends p)) r"
  by (rule good_weaken [OF assms(1,3)])
    (use assms(1,2) in \<open>auto simp: arrives_def intro: leads_trans extends_trans\<close>)

lemma section_paren_good:
  assumes "leads q q1" and "good q1 (arrives q1 (extends parsed)) r"
    and "\<And>parsed' q'. r = Inr (parsed', q') \<Longrightarrow> good q' (arrives q' (extends parsed')) (f q' parsed')"
  shows "good q (arrives q (extends parsed)) (and_then r (\<lambda>(parsed', q'). f q' parsed'))"
proof -
  have "good q (arrives q (extends parsed)) r" by (rule arrives_cont [OF assms(1) extends_refl assms(2)])
  then show ?thesis
  proof (rule good_bind)
    fix x
    assume "r = Inr x" and "arrives q (extends parsed) x"
    moreover obtain parsed' q' where x: "x = (parsed', q')" by (metis surj_pair)
    ultimately have "leads q q'" "extends parsed parsed'" "r = Inr (parsed', q')" by (simp_all add: arrives_def)
    then show "good q (arrives q (extends parsed)) (case x of (parsed', q') \<Rightarrow> f q' parsed')"
      using arrives_cont assms(3) unfolding x prod.case by blast
  qed
qed

lemma section_block_good:
  assumes "good q (moved q (extends parsed)) r"
    and "\<And>parsed' q'. r = Inr (parsed', q') \<Longrightarrow> good q' (arrives q' (extends parsed')) (f q' parsed')"
  shows "good q (arrives q (extends parsed)) (and_then r (\<lambda>(parsed', q'). f q' parsed'))"
  using assms(1)
  by (rule good_bind_pair) (rule arrives_cont [OF eats_leads], assumption, assumption, rule assms(2))

lemma parse_sections_dom_good:
  "parse_sections_dom (stop_at, q, parsed)
     \<Longrightarrow> good q (arrives q (extends parsed)) (parse_sections stop_at q parsed)"
proof (induction stop_at q parsed rule: parse_sections.pinduct)
  case (1 stop_at q parsed)
  obtain pos r where s: "(pos, r) = skip_spaces q" by (metis surj_pair)
  note l = skip_spaces_to [OF s]
  note unf = parse_sections.psimps [OF "1.hyps"] s [symmetric]
  have pos: "pos \<le> fst q + length (rest q)" using leads_end [OF l] by simp
  show ?case
  proof (cases r)
    case Nil
    with pos l show ?thesis by (simp add: unf arrives_def)
  next
    case (Cons b t)
    have e: "eats q (Suc pos, t)" using l Cons leads_eats by fastforce
    consider (close) "Some b = stop_at \<or> Some b \<noteq> stop_at \<and> b = CHR '')''"
      | (paren) "Some b \<noteq> stop_at" "b \<noteq> CHR '')''" "b = CHR ''(''"
      | (nam) "Some b \<noteq> stop_at" "b \<noteq> CHR '')''" "b \<noteq> CHR ''(''" "is_name_byte b"
      | (other) "Some b \<noteq> stop_at" "b \<noteq> CHR '')''" "b \<noteq> CHR ''(''" "\<not> is_name_byte b"
      by blast
    then show ?thesis
    proof cases
      case close
      with e pos Cons show ?thesis by (auto simp: unf arrives_def eats_leads)
    next
      case paren
      have "good q (arrives q (extends parsed))
          (and_then (parse_sections (Some CHR '')'') (Suc pos, t) parsed)
            (\<lambda>(parsed', q'). parse_sections stop_at q' parsed'))"
        by (rule section_paren_good [OF eats_leads [OF e] "1.IH"(1) [OF s Cons paren]])
          (rule "1.IH"(2) [OF s Cons paren _ refl])
      with Cons paren show ?thesis by (simp add: unf)
    next
      case nam
      obtain name q1 where n: "(name, q1) = take_name (pos, b # t)" by (metis surj_pair)
      have l1: "leads q q1" using name_eats [OF s [unfolded Cons] nam(4) n] by (rule eats_leads)
      show ?thesis
      proof (cases "consume CHR ''('' (skip_spaces q1)")
        case None
        have "leads q (skip_spaces q1)" using l1 by (rule leads_trans) simp
        then have "good q (arrives q (extends parsed)) (parse_sections stop_at (skip_spaces q1) parsed)"
          by (rule arrives_cont [OF _ extends_refl "1.IH"(3) [OF s Cons nam n None]])
        with Cons nam n [symmetric] None show ?thesis by (simp add: unf)
      next
        case (Some q2)
        have "good q (moved q (extends parsed))
            (if name = ''type'' then parse_type q2 parsed
             else if name = ''vcp'' then parse_vcp q2 parsed
             else and_then (skip_balanced q2) (\<lambda>q3. Ok (parsed, q3)))"
          by (rule good_after [OF vcp_header_eats [OF s n [folded Cons] Some] section_body_good])
        then have "good q (arrives q (extends parsed)) (and_then
            (if name = ''type'' then parse_type q2 parsed
             else if name = ''vcp'' then parse_vcp q2 parsed
             else and_then (skip_balanced q2) (\<lambda>q3. Ok (parsed, q3)))
            (\<lambda>(parsed', q'). parse_sections stop_at q' parsed'))"
          by (rule section_block_good) (rule "1.IH"(4) [OF s Cons nam n Some _ refl])
        with Cons nam n [symmetric] Some show ?thesis by (simp add: unf)
      qed
    next
      case other
      have "good q (arrives q (extends parsed)) (parse_sections stop_at (Suc pos, t) parsed)"
        by (rule arrives_cont [OF eats_leads [OF e] extends_refl "1.IH"(5) [OF s Cons other]])
      with Cons other show ?thesis by (simp add: unf)
    qed
  qed
qed

lemma parse_sections_dom_leads:
  "parse_sections stop_at q parsed = Inr (parsed', q') \<Longrightarrow> parse_sections_dom (stop_at, q, parsed)
     \<Longrightarrow> leads q q'"
  using good_OkD [OF parse_sections_dom_good, of stop_at q parsed "(parsed', q')"]
  by (simp add: arrives_def)

lemma measure_section:
  "eats q q' \<Longrightarrow> ((a, q', x), (b, q, y)) \<in> measure (\<lambda>(_, q, _). length (rest q))"
  by (simp add: eats_length)

lemma head_eats: "(pos, r) = skip_spaces q \<Longrightarrow> r = b # t \<Longrightarrow> eats q (Suc pos, t)"
  using leads_eats [OF skip_spaces_to eats_Cons] by simp

lemma parse_sections_total: "All parse_sections_dom"
proof (relation "measure (\<lambda>(_, q, _). length (rest q))", goal_cases)
  case 2
  then show ?case by (intro measure_section) (rule head_eats)
next
  case (3 stop_at q parsed pos r b t z parsed' q')
  have "leads (Suc pos, t) q'" using parse_sections_dom_leads 3(6-8) by blast
  with head_eats 3(1,2) show ?case by (intro measure_section) (blast intro: eats_then_leads)
next
  case (4 stop_at q parsed pos r b t name q1)
  have "eats q q1" using name_eats 4(1,2,6,7) by blast
  then show ?case by (intro measure_section) (rule eats_then_leads [OF _ skip_spaces_leads])
next
  case (5 stop_at q parsed pos r b t name q1 q2 z parsed' q')
  have "eats q q2" using vcp_header_eats 5(1,2,7,8) by blast
  moreover have "eats q2 q'"
    using good_OkD [OF section_body_good 5(9)] 5(10) by (auto simp: moved_def)
  ultimately show ?case by (intro measure_section) (rule eats_trans)
next
  case 6
  then show ?case by (intro measure_section) (rule head_eats)
qed simp

termination parse_sections
  by (rule parse_sections_total)

declare parse_sections.simps [simp del]

lemma parse_sections_good:
  "good q (arrives q (extends parsed)) (parse_sections stop_at q parsed)"
  using parse_sections_dom_good parse_sections_total by blast

definition caps_parser_parse :: "string \<Rightarrow> parsed_caps parse" where
  "caps_parser_parse input =
     and_then (parse_sections None (0, input) default_parsed) (\<lambda>(parsed, _). Ok parsed)"

section \<open>Skipping follows the balance of parentheses\<close>

fun paren_depth :: "string \<Rightarrow> int" where
  "paren_depth [] = 0"
| "paren_depth (c # s) =
     (if c = CHR ''('' then 1 else if c = CHR '')'' then -1 else 0) + paren_depth s"

lemma skip_balanced_loop_depth:
  "skip_balanced_loop d (pos, s) = Inr q \<Longrightarrow> 0 < d \<Longrightarrow>
     \<exists>t. s = t @ rest q \<and> fst q = pos + length t \<and> paren_depth t = - int d
       \<and> (\<forall>j<length t. - int d < paren_depth (take j t))"
proof (induction d "(pos, s)" arbitrary: pos s rule: skip_balanced_loop.induct)
  case (2 d pos c s)
  define \<delta> :: int where "\<delta> = (if c = CHR ''('' then 1 else if c = CHR '')'' then -1 else 0)"
  show ?case
  proof (cases "c = CHR '')'' \<and> d = 1")
    case True
    with "2.prems" have "q = (Suc pos, s)" by simp
    with True show ?thesis by (intro exI [of _ "[c]"]) auto
  next
    case False
    define d' where "d' = (if c = CHR ''('' then d + 1 else if c = CHR '')'' then d - 1 else d)"
    have d': "int d' = int d + \<delta>" "0 < d'"
      using False "2.prems"(2) by (auto simp: d'_def \<delta>_def)
    from False "2.prems" have "skip_balanced_loop d' (Suc pos, s) = Inr q"
      by (auto simp: d'_def split: if_splits)
    then obtain t where t: "s = t @ rest q" "fst q = Suc pos + length t" "paren_depth t = - int d'"
      "\<forall>j<length t. - int d' < paren_depth (take j t)"
      using "2.hyps" d'(2) False by (auto simp: d'_def split: if_splits)
    have "- int d < paren_depth (take j (c # t))" if "j < length (c # t)" for j
    proof (cases j)
      case (Suc i)
      with t(4) that have "- int d' < paren_depth (take i t)" by simp
      with Suc d' show ?thesis by (simp add: \<delta>_def [symmetric])
    qed (use "2.prems"(2) in simp)
    moreover have "paren_depth (c # t) = - int d" using t(3) d' by (simp add: \<delta>_def [symmetric])
    ultimately show ?thesis using t(1,2) by (intro exI [of _ "c # t"]) auto
  qed
qed simp

lemma skip_balanced_loop_complete:
  "0 < d \<Longrightarrow> paren_depth t = - int d \<Longrightarrow> (\<And>j. j < length t \<Longrightarrow> - int d < paren_depth (take j t))
     \<Longrightarrow> skip_balanced_loop d (pos, t @ r) = Inr (pos + length t, r)"
proof (induction t arbitrary: d pos)
  case (Cons c t)
  define d' where "d' = (if c = CHR ''('' then d + 1 else if c = CHR '')'' then d - 1 else d)"
  have depth: "int d' = int d + (if c = CHR ''('' then 1 else if c = CHR '')'' then -1 else 0)"
    using Cons.prems(1) by (auto simp: d'_def)
  show ?case
  proof (cases "c = CHR '')'' \<and> d = 1")
    case True
    have "t = []"
    proof (rule ccontr)
      assume "t \<noteq> []"
      with Cons.prems(3) [of 1] True show False by (cases t) auto
    qed
    with True show ?thesis by simp
  next
    case False
    have step: "skip_balanced_loop d (pos, (c # t) @ r) = skip_balanced_loop d' (Suc pos, t @ r)"
      using False Cons.prems(1) by (auto simp: d'_def)
    have "skip_balanced_loop d' (Suc pos, t @ r) = Inr (Suc pos + length t, r)"
    proof (rule Cons.IH)
      show "0 < d'" using False Cons.prems(1) by (auto simp: d'_def)
      show "paren_depth t = - int d'" using Cons.prems(2) depth by (simp split: if_splits)
      show "- int d' < paren_depth (take j t)" if "j < length t" for j
        using Cons.prems(3) [of "Suc j"] that depth by (simp split: if_splits)
    qed
    with step show ?thesis by simp
  qed
qed simp

text \<open>
  Skipping a parenthesised group succeeds exactly at the first byte where the closing
  parentheses outnumber the opening ones: the skipped text has depth -1 and every proper prefix of
  it has depth 0 or more; the cursor moves by the length of that text.
\<close>

theorem skip_balanced_correct:
  "skip_balanced (pos, s) = Inr q \<longleftrightarrow>
     (\<exists>t. s = t @ rest q \<and> fst q = pos + length t \<and> paren_depth t = -1
          \<and> (\<forall>j<length t. 0 \<le> paren_depth (take j t)))"
proof
  assume "skip_balanced (pos, s) = Inr q"
  from skip_balanced_loop_depth [OF this [unfolded skip_balanced_def]]
  show "\<exists>t. s = t @ rest q \<and> fst q = pos + length t \<and> paren_depth t = -1
      \<and> (\<forall>j<length t. 0 \<le> paren_depth (take j t))" by fastforce
next
  assume "\<exists>t. s = t @ rest q \<and> fst q = pos + length t \<and> paren_depth t = -1
      \<and> (\<forall>j<length t. 0 \<le> paren_depth (take j t))"
  then obtain t where t: "s = t @ rest q" "fst q = pos + length t" "paren_depth t = -1"
    "\<forall>j<length t. 0 \<le> paren_depth (take j t)" by blast
  have "skip_balanced_loop 1 (pos, t @ rest q) = Inr (pos + length t, rest q)"
    by (rule skip_balanced_loop_complete) (use t in fastforce)+
  with t show "skip_balanced (pos, s) = Inr q" by (simp add: skip_balanced_def) (metis prod.collapse)
qed

theorem skip_balanced_correct_witness:
  "\<exists>t. ''a(b)c)d'' = t @ ''d'' \<and> 6 = length t \<and> paren_depth t = -1"
proof -
  have "skip_balanced (0, ''a(b)c)d'') = Inr (6, ''d'')" by (simp add: skip_balanced_def)
  with skip_balanced_correct [of 0 "''a(b)c)d''" "(6, ''d'')"] show ?thesis by auto
qed

lemma caps_parser_parse_good:
  "case caps_parser_parse input of
     Inl e \<Rightarrow> error_position e \<le> length input
   | Inr parsed \<Rightarrow> extends default_parsed parsed"
proof -
  have "good (0, input) (arrives (0, input) (extends default_parsed))
      (parse_sections None (0, input) default_parsed)"
    by (rule parse_sections_good)
  then show ?thesis
    by (cases "parse_sections None (0, input) default_parsed")
      (auto simp: caps_parser_parse_def good_def arrives_def)
qed

lemma parsed_items_nonempty:
  "caps_parser_parse input = Inr parsed \<Longrightarrow> item \<in> set (parsed_vcps parsed)
     \<Longrightarrow> parsed_values item \<noteq> Some []"
  using caps_parser_parse_good [of input] by (auto simp: extends_def default_parsed_def list_all_iff)

text \<open>
  C5: parsing a capability string always ends, with a position inside the input (at most its
  length) on an error; on success every parsed code has no value list or a nonempty one.
\<close>

theorem caps_parser_result:
  "case caps_parser_parse input of
     Inl e \<Rightarrow> error_position e \<le> length input
   | Inr parsed \<Rightarrow> list_all (\<lambda>item. parsed_values item \<noteq> Some []) (parsed_vcps parsed)"
  using caps_parser_parse_good [of input]
  by (auto simp: extends_def default_parsed_def split: sum.splits)

end
