(* ===== verification/Caps.thy ===== *)
theory Caps
  imports Caps_Parser
begin

text \<open>
  The edits of \<^verbatim>\<open>crates/ddccontrol-caps/src/lib.rs\<close>: a parsed capability string added to or
  removed from the capabilities of a monitor. The lemmas give the entry of every VCP code after an
  edit and show that the well-formedness of the capabilities (one entry per code in increasing
  order, no empty value list) is an invariant.
\<close>

section \<open>Edits\<close>

definition add_item :: "parsed_vcp \<Rightarrow> caps \<Rightarrow> caps" where
  "add_item item c = c\<lparr>caps_vcp := bt_insert (parsed_code item) (parsed_values item) (caps_vcp c)\<rparr>"

definition remove_item :: "parsed_vcp \<Rightarrow> caps \<Rightarrow> caps" where
  "remove_item item c =
     (case parsed_values item of
        Some remove_values \<Rightarrow>
          (case bt_get (caps_vcp c) (parsed_code item) of
             Some entry \<Rightarrow>
               (case entry of
                  Some vs \<Rightarrow>
                    let kept = filter (\<lambda>v. v \<notin> set remove_values) vs
                    in if kept = []
                       then c\<lparr>caps_vcp := bt_remove (parsed_code item) (caps_vcp c)\<rparr>
                       else c\<lparr>caps_vcp := bt_insert (parsed_code item) (Some kept) (caps_vcp c)\<rparr>
                | None \<Rightarrow> c\<lparr>caps_vcp := bt_remove (parsed_code item) (caps_vcp c)\<rparr>)
           | None \<Rightarrow> c)
      | None \<Rightarrow> c\<lparr>caps_vcp := bt_remove (parsed_code item) (caps_vcp c)\<rparr>)"

definition caps_apply :: "caps \<Rightarrow> string \<Rightarrow> edit \<Rightarrow> caps \<times> nat parse" where
  "caps_apply c input edit =
     (case caps_parser_parse input of
        Inl e \<Rightarrow> (c, Err e)
      | Inr parsed \<Rightarrow>
          let c1 = (case (edit, parsed_type parsed) of
                      (Add, Some t) \<Rightarrow> c\<lparr>caps_type := t\<rparr>
                    | _ \<Rightarrow> c);
              c2 = fold (case edit of Add \<Rightarrow> add_item | Remove \<Rightarrow> remove_item) (parsed_vcps parsed) c1
          in (c2, Ok (length (parsed_vcps parsed))))"

definition apply_add :: "caps \<Rightarrow> string \<Rightarrow> caps \<times> nat parse" where
  "apply_add c input = caps_apply c input Add"

definition apply_remove :: "caps \<Rightarrow> string \<Rightarrow> caps \<times> nat parse" where
  "apply_remove c input = caps_apply c input Remove"

definition caps_parse :: "string \<Rightarrow> caps parse" where
  "caps_parse input =
     (case caps_apply default_caps input Add of (c, r) \<Rightarrow> and_then r (\<lambda>_. Ok c))"

section \<open>Well-formed capabilities\<close>

definition caps_wf :: "caps \<Rightarrow> bool" where
  "caps_wf c \<longleftrightarrow> bt_invar (caps_vcp c) \<and> list_all (\<lambda>(_, e). e \<noteq> Some []) (caps_vcp c)"

lemma caps_wf_default [simp]: "caps_wf default_caps"
  by (simp add: caps_wf_def default_caps_def)

lemma add_item_wf: "caps_wf c \<Longrightarrow> parsed_values i \<noteq> Some [] \<Longrightarrow> caps_wf (add_item i c)"
  by (simp add: caps_wf_def add_item_def bt_invar_insert list_all_bt_insert)

lemma remove_item_wf: "caps_wf c \<Longrightarrow> caps_wf (remove_item i c)"
  by (auto simp: caps_wf_def remove_item_def Let_def bt_invar_insert bt_invar_remove
      list_all_bt_insert list_all_bt_remove split: option.splits)

lemma fold_inv: "(\<And>x s. x \<in> set xs \<Longrightarrow> P s \<Longrightarrow> P (f x s)) \<Longrightarrow> P s \<Longrightarrow> P (fold f xs s)"
  by (induction xs arbitrary: s) auto

lemma caps_wf_set_type [simp]: "caps_wf (c\<lparr>caps_type := t\<rparr>) \<longleftrightarrow> caps_wf c"
  by (simp add: caps_wf_def)


lemma caps_apply_wf: "caps_wf c \<Longrightarrow> caps_wf (fst (caps_apply c input edit))"
proof (cases "caps_parser_parse input")
  case (Inr parsed)
  assume c: "caps_wf c"
  have "caps_wf (fold (case edit of Add \<Rightarrow> add_item | Remove \<Rightarrow> remove_item) (parsed_vcps parsed) s)"
    if "caps_wf s" for s
    by (rule fold_inv [where P = caps_wf, OF _ that])
      (cases edit; simp add: add_item_wf remove_item_wf parsed_items_nonempty [OF Inr])
  with c Inr show ?thesis
    by (auto simp: caps_apply_def Let_def split: edit.splits option.splits)
qed (simp add: caps_apply_def)

section \<open>Entries after an edit\<close>

abbreviation item_pairs :: "parsed_caps \<Rightarrow> (u8 \<times> vcp_entry) list" where
  "item_pairs parsed \<equiv> map (\<lambda>item. (parsed_code item, parsed_values item)) (parsed_vcps parsed)"

abbreviation item_codes :: "parsed_caps \<Rightarrow> u8 set" where
  "item_codes parsed \<equiv> parsed_code ` set (parsed_vcps parsed)"

lemma fold_add_item:
  "fold add_item items c =
     c\<lparr>caps_vcp := fold (\<lambda>(k, v). bt_insert k v)
                       (map (\<lambda>item. (parsed_code item, parsed_values item)) items) (caps_vcp c)\<rparr>"
  by (induction items arbitrary: c) (simp_all add: add_item_def)

lemma fold_bt_insert:
  "bt_get (fold (\<lambda>(k, v). bt_insert k v) ps m) = bt_get m ++ map_of (rev ps)"
  by (induction ps arbitrary: m) (auto simp: bt_get_insert)

text \<open>What removing the value lists \<open>rs\<close> of one code leaves of its entry.\<close>

definition removed_entry :: "vcp_entry list \<Rightarrow> vcp_entry option \<Rightarrow> vcp_entry option" where
  "removed_entry rs before =
     (if rs = [] then before
      else if None \<in> set rs then None
      else case before of
             Some (Some vs) \<Rightarrow>
               let kept = filter (\<lambda>v. \<forall>r\<in>set rs. v \<notin> set (the r)) vs
               in if kept = [] then None else Some (Some kept)
           | _ \<Rightarrow> None)"

definition removals :: "u8 \<Rightarrow> parsed_vcp list \<Rightarrow> vcp_entry list" where
  "removals k items = map parsed_values (filter (\<lambda>item. parsed_code item = k) items)"

lemma remove_item_get:
  "bt_get (caps_vcp (remove_item item c)) k =
     (if parsed_code item = k then removed_entry [parsed_values item] (bt_get (caps_vcp c) k)
      else bt_get (caps_vcp c) k)"
  by (auto simp: remove_item_def removed_entry_def Let_def bt_get_insert bt_get_remove
      split: option.splits)

lemma removed_entry_Cons: "removed_entry rs (removed_entry [r] b) = removed_entry (r # rs) b"
proof (cases "rs = [] \<or> None \<in> set (r # rs) \<or> b = None \<or> b = Some None")
  case True
  then show ?thesis
    by (auto simp: removed_entry_def Let_def split: option.splits)
next
  case False
  then obtain vs where "b = Some (Some vs)" "rs \<noteq> []" "None \<notin> set (r # rs)"
    by (metis not_None_eq)
  then show ?thesis
    by (auto simp: removed_entry_def Let_def filter_empty_conv conj_commute split: option.splits)
qed

lemma fold_remove_item_get:
  "bt_get (caps_vcp (fold remove_item items c)) k =
     removed_entry (removals k items) (bt_get (caps_vcp c) k)"
proof (induction items arbitrary: c)
  case Nil
  then show ?case by (simp add: removals_def removed_entry_def)
next
  case (Cons item items)
  then show ?case
    by (simp add: remove_item_get removed_entry_Cons removals_def)
qed

lemma remove_item_type [simp]: "caps_type (remove_item item c) = caps_type c"
  by (simp add: remove_item_def Let_def split: option.splits)

lemma fold_remove_item_type [simp]: "caps_type (fold remove_item items c) = caps_type c"
  by (induction items arbitrary: c) simp_all

lemma removals_Nil [simp]: "removals k items = [] \<longleftrightarrow> k \<notin> parsed_code ` set items"
  by (auto simp: removals_def filter_empty_conv)

lemma set_removals: "set (removals k items) = parsed_values ` {i \<in> set items. parsed_code i = k}"
  by (auto simp: removals_def)

lemma apply_add_eq:
  "apply_add c input =
     (case caps_parser_parse input of
        Inl e \<Rightarrow> (c, Err e)
      | Inr parsed \<Rightarrow>
          (c\<lparr>caps_type := case_option (caps_type c) id (parsed_type parsed),
             caps_vcp := fold (\<lambda>(k, v). bt_insert k v) (item_pairs parsed) (caps_vcp c)\<rparr>,
           Ok (length (parsed_vcps parsed))))"
  by (auto simp: apply_add_def caps_apply_def fold_add_item split: sum.splits option.splits)

lemma apply_remove_eq:
  "apply_remove c input =
     (case caps_parser_parse input of
        Inl e \<Rightarrow> (c, Err e)
      | Inr parsed \<Rightarrow> (fold remove_item (parsed_vcps parsed) c, Ok (length (parsed_vcps parsed))))"
  by (auto simp: apply_remove_def caps_apply_def split: sum.splits)

lemma map_of_rev_in:
  assumes "k \<in> item_codes parsed"
  obtains item where "item \<in> set (parsed_vcps parsed)" "parsed_code item = k"
    "map_of (rev (item_pairs parsed)) k = Some (parsed_values item)"
proof -
  obtain v where v: "map_of (rev (item_pairs parsed)) k = Some v"
    using assms by (cases "map_of (rev (item_pairs parsed)) k") (force simp: map_of_eq_None_iff)+
  then have "(k, v) \<in> set (item_pairs parsed)" using map_of_SomeD by fastforce
  with v that show ?thesis by auto
qed

lemma removed_entry_self:
  assumes "r \<in> set rs" shows "removed_entry rs (Some r) = None"
proof (cases r)
  case (Some vs)
  then have "filter (\<lambda>v. \<forall>r\<in>set rs. v \<notin> set (the r)) vs = []"
    using assms by (force simp: filter_empty_conv)
  with Some show ?thesis using assms by (auto simp: removed_entry_def Let_def)
qed (use assms in \<open>auto simp: removed_entry_def\<close>)

section \<open>Properties\<close>

text \<open>
  C6: adding a capability string either reports the parse error and changes nothing, or reports the
  number of parsed codes, takes over the parsed monitor type if there is one, and gives each code its
  last parsed entry, all other codes keeping theirs.
\<close>

theorem apply_add_correct:
  "case caps_parser_parse input of
     Inl e \<Rightarrow> apply_add c input = (c, Inl e)
   | Inr parsed \<Rightarrow>
       snd (apply_add c input) = Inr (length (parsed_vcps parsed))
       \<and> caps_type (fst (apply_add c input)) = case_option (caps_type c) id (parsed_type parsed)
       \<and> caps_entry (fst (apply_add c input)) = caps_entry c ++ map_of (rev (item_pairs parsed))"
  by (auto simp: apply_add_eq caps_entry_def [abs_def] fold_bt_insert split: sum.splits)

text \<open>
  C7: removing a capability string either reports the parse error and changes nothing, or keeps the
  monitor type and turns each entry into what its removals leave: a code named without values, or
  supported without a value list, goes; otherwise exactly the values not named stay, in order, and
  the code goes with its last value.
\<close>

theorem apply_remove_correct:
  "case caps_parser_parse input of
     Inl e \<Rightarrow> apply_remove c input = (c, Inl e)
   | Inr parsed \<Rightarrow>
       snd (apply_remove c input) = Inr (length (parsed_vcps parsed))
       \<and> caps_type (fst (apply_remove c input)) = caps_type c
       \<and> caps_entry (fst (apply_remove c input)) =
           (\<lambda>k. removed_entry (removals k (parsed_vcps parsed)) (caps_entry c k))"
  by (auto simp: apply_remove_eq caps_entry_def [abs_def] fold_remove_item_get split: sum.splits)

text \<open>
  C8: well-formedness (codes strictly increasing, no empty value list) is an invariant of both edits,
  and \<open>Caps::parse\<close> returns well-formed capabilities.
\<close>

theorem caps_wf_invariant:
  assumes "caps_wf c"
  shows "caps_wf (fst (apply_add c input)) \<and> caps_wf (fst (apply_remove c input))
    \<and> (case caps_parse text' of Inl e \<Rightarrow> error_position e \<le> length text' | Inr c' \<Rightarrow> caps_wf c')"
proof (intro conjI)
  show "case caps_parse text' of Inl e \<Rightarrow> error_position e \<le> length text' | Inr c' \<Rightarrow> caps_wf c'"
  proof (cases "caps_parse text'")
    case (Inl e)
    then have "caps_parser_parse text' = Inl e"
      by (auto simp: caps_parse_def caps_apply_def Let_def and_then_eq_Inl split: sum.splits prod.splits)
    with Inl caps_parser_parse_good [of text'] show ?thesis by simp
  next
    case (Inr c')
    then have "c' = fst (caps_apply default_caps text' Add)"
      by (auto simp: caps_parse_def split: prod.splits)
    with Inr caps_apply_wf [of default_caps text' Add] show ?thesis by simp
  qed
qed (use assms in \<open>simp_all add: apply_add_def apply_remove_def caps_apply_wf\<close>)

theorem caps_wf_invariant_witness:
  "caps_wf (fst (apply_add default_caps ''vcp(02 14(05 08))''))"
  using caps_wf_invariant [of default_caps "''vcp(02 14(05 08))''" "[]"] by simp

text \<open>
  Removing the string that was just added leaves exactly the codes that were there before and
  that the string does not name.
\<close>

theorem remove_undoes_add:
  "case caps_parser_parse input of
     Inl e \<Rightarrow> fst (apply_remove (fst (apply_add c input)) input) = c
   | Inr parsed \<Rightarrow>
       is_supported (fst (apply_remove (fst (apply_add c input)) input)) k
         = (is_supported c k \<and> k \<notin> item_codes parsed)"
proof (cases "caps_parser_parse input")
  case (Inr parsed)
  let ?m = "bt_get (caps_vcp c) ++ map_of (rev (item_pairs parsed))"
  have *: "is_supported (fst (apply_remove (fst (apply_add c input)) input)) k
      \<longleftrightarrow> removed_entry (removals k (parsed_vcps parsed)) (?m k) \<noteq> None"
    by (simp add: is_supported_def apply_add_eq apply_remove_eq Inr fold_remove_item_get fold_bt_insert)
  show ?thesis
  proof (cases "k \<in> item_codes parsed")
    case True
    then obtain item where i: "item \<in> set (parsed_vcps parsed)" "parsed_code item = k"
      "map_of (rev (item_pairs parsed)) k = Some (parsed_values item)" by (rule map_of_rev_in)
    then have "removed_entry (removals k (parsed_vcps parsed)) (?m k) = None"
      by (subst map_add_find_right) (auto intro: removed_entry_self simp: set_removals)
    with * True Inr show ?thesis by simp
  next
    case False
    then have "removals k (parsed_vcps parsed) = []" "map_of (rev (item_pairs parsed)) k = None"
      by (auto simp: map_of_eq_None_iff)
    with * False Inr show ?thesis by (simp add: removed_entry_def is_supported_def map_add_def)
  qed
qed (simp add: apply_add_eq apply_remove_eq)

end
