(* ===== verification/Caps_Ffi.thy ===== *)
theory Caps_Ffi
  imports Caps C_Memory Utf8
begin

text \<open>
  The C interface of capability strings in \<^verbatim>\<open>crates/ddccontrol-db/src/lib.rs\<close>:
  \<open>ddccontrol_caps_parse\<close> reads the C capabilities into Rust, applies an edit, and writes the
  result back into freshly allocated entries. The array of 256 entry pointers is a function of the
  VCP code. The interface refines the edit of the Rust capabilities: reading back what it leaves
  gives the edited capabilities, and after an error no entry is left and no block is leaked.
\<close>

section \<open>C capabilities\<close>

record c_vcp_entry =
  ce_ptr :: ptr
  ce_values_len :: int
  ce_values :: "(ptr \<times> u16 list) option"

record c_caps =
  c_vcp :: "u8 \<Rightarrow> c_vcp_entry option"
  c_monitor_type :: int

definition all_codes :: "u8 list" where
  "all_codes = map word_of_nat [0..<256]"

definition c_int_of :: "nat \<Rightarrow> int" where
  [rust_std]: "c_int_of n = sint (word_of_nat n :: 32 word)"

definition entry_values :: "c_vcp_entry \<Rightarrow> vcp_entry" where
  "entry_values e =
     (if ce_values_len e < 0 then None
      else if ce_values_len e = 0 then Some []
      else case ce_values e of None \<Rightarrow> Some [] | Some (_, vs) \<Rightarrow> Some (take (nat (ce_values_len e)) vs))"

definition type_from_c :: "int \<Rightarrow> monitor_type" where
  "type_from_c t = (if t = 1 then Lcd else if t = 2 then Crt else Unknown)"

definition type_to_c :: "monitor_type \<Rightarrow> int" where
  "type_to_c t = (case t of Unknown \<Rightarrow> 0 | Lcd \<Rightarrow> 1 | Crt \<Rightarrow> 2)"

definition caps_from_c :: "c_caps \<Rightarrow> caps" where
  "caps_from_c caps =
     fold (\<lambda>code rust_caps. case c_vcp caps code of
             None \<Rightarrow> rust_caps
           | Some e \<Rightarrow> insert_vcp code (entry_values e) rust_caps)
       all_codes (set_monitor_type (type_from_c (c_monitor_type caps)) default_caps)"

definition free_entry :: "c_vcp_entry \<Rightarrow> unit mem" where
  "free_entry e = mem_bind (free_opt (map_option fst (ce_values e))) (\<lambda>_. free (ce_ptr e))"

definition free_slot :: "c_vcp_entry option \<Rightarrow> unit mem" where
  "free_slot slot = (case slot of None \<Rightarrow> ret () | Some e \<Rightarrow> free_entry e)"

text \<open>Every slot is visited once and set to null.\<close>

definition free_c_vcp_entries :: "c_caps \<Rightarrow> c_caps mem" where
  "free_c_vcp_entries caps =
     mem_bind (for_each (\<lambda>code. free_slot (c_vcp caps code)) all_codes) (\<lambda>_. ret (caps\<lparr>c_vcp := \<lambda>_. None\<rparr>))"

definition alloc_entry :: "(nat \<Rightarrow> bool) \<Rightarrow> vcp_entry \<Rightarrow> c_vcp_entry option mem" where
  "alloc_entry avail entry =
     mem_bind (malloc avail) (\<lambda>r. case r of
       None \<Rightarrow> ret None
     | Some c_entry \<Rightarrow>
         (case entry of
            Some values \<Rightarrow>
              if values = []
              then ret (Some \<lparr>ce_ptr = c_entry, ce_values_len = c_int_of (length values), ce_values = None\<rparr>)
              else mem_bind (malloc avail) (\<lambda>r. case r of
                     None \<Rightarrow> mem_bind (free c_entry) (\<lambda>_. ret None)
                   | Some c_values \<Rightarrow>
                       ret (Some \<lparr>ce_ptr = c_entry, ce_values_len = c_int_of (length values),
                                  ce_values = Some (c_values, values)\<rparr>))
          | None \<Rightarrow> ret (Some \<lparr>ce_ptr = c_entry, ce_values_len = -1, ce_values = None\<rparr>)))"

fun fill_entries :: "(nat \<Rightarrow> bool) \<Rightarrow> (u8 \<times> vcp_entry) list \<Rightarrow> c_caps \<Rightarrow> (bool \<times> c_caps) mem" where
  "fill_entries avail [] caps = ret (True, caps)"
| "fill_entries avail ((code, entry) # entries) caps =
     mem_bind (alloc_entry avail entry) (\<lambda>r. case r of
       None \<Rightarrow> ret (False, caps)
     | Some e \<Rightarrow> fill_entries avail entries (caps\<lparr>c_vcp := (c_vcp caps)(code := Some e)\<rparr>))"

definition replace_c_caps :: "(nat \<Rightarrow> bool) \<Rightarrow> c_caps \<Rightarrow> caps \<Rightarrow> (bool \<times> c_caps) mem" where
  "replace_c_caps avail caps rust_caps =
     mem_bind (free_c_vcp_entries caps) (\<lambda>caps.
       fill_entries avail (caps_vcp rust_caps) (caps\<lparr>c_monitor_type := type_to_c (caps_type rust_caps)\<rparr>))"

definition ddccontrol_caps_parse_inner ::
  "(nat \<Rightarrow> bool) \<Rightarrow> string \<Rightarrow> c_caps \<Rightarrow> int \<Rightarrow> (int \<times> c_caps) mem" where
  "ddccontrol_caps_parse_inner avail caps_str caps add =
     (let input = utf8_lossy caps_str;
          (rust_caps, result) = (if add \<noteq> 0 then apply_add (caps_from_c caps) input
                                 else apply_remove (caps_from_c caps) input)
      in case result of
           Inr items \<Rightarrow>
             mem_bind (replace_c_caps avail caps rust_caps) (\<lambda>(done, caps).
               if done then ret (c_int_of items, caps)
               else mem_bind (free_c_vcp_entries caps) (\<lambda>caps. ret (-1, caps)))
         | Inl _ \<Rightarrow> mem_bind (free_c_vcp_entries caps) (\<lambda>caps. ret (-1, caps)))"

text \<open>The entry point: null pointers are refused before anything is read.\<close>

definition ddccontrol_caps_parse ::
  "(nat \<Rightarrow> bool) \<Rightarrow> string option \<Rightarrow> c_caps option \<Rightarrow> int \<Rightarrow> (int \<times> c_caps option) mem" where
  "ddccontrol_caps_parse avail caps_str caps add =
     (case (caps_str, caps) of
        (Some s, Some c) \<Rightarrow> mem_bind (ddccontrol_caps_parse_inner avail s c add) (\<lambda>(n, c). ret (n, Some c))
      | _ \<Rightarrow> ret (-1, caps))"

section \<open>Ownership of the entries\<close>

definition entry_addrs :: "c_vcp_entry \<Rightarrow> ptr list" where
  "entry_addrs e = (case ce_values e of Some (a, _) \<Rightarrow> [a] | None \<Rightarrow> []) @ [ce_ptr e]"

definition slot_addrs :: "c_vcp_entry option \<Rightarrow> ptr list" where
  "slot_addrs slot = (case slot of None \<Rightarrow> [] | Some e \<Rightarrow> entry_addrs e)"

definition caps_addrs :: "c_caps \<Rightarrow> ptr list" where
  "caps_addrs caps = concat (map (\<lambda>code. slot_addrs (c_vcp caps code)) all_codes)"

definition small_entry :: "vcp_entry \<Rightarrow> bool" where
  "small_entry entry \<longleftrightarrow> (case entry of Some vs \<Rightarrow> length vs < 2 ^ 31 | None \<Rightarrow> True)"

definition entry_rep :: "vcp_entry \<Rightarrow> c_vcp_entry \<Rightarrow> bool" where
  "entry_rep entry e \<longleftrightarrow> (if small_entry entry then entry_values e = entry else True)"

lemma c_int_of_small: "n < 2 ^ 31 \<Longrightarrow> c_int_of n = int n"
proof -
  assume n: "n < 2 ^ 31"
  have "int n < 2 ^ 31" using n by (metis of_nat_less_iff of_nat_numeral of_nat_power)
  then show ?thesis by (simp add: c_int_of_def signed_of_nat signed_take_bit_int_eq_self)
qed

lemma release_entry: "releases (free_entry e) (entry_addrs e)"
  unfolding free_entry_def entry_addrs_def
  using releases_bind [OF releases_free_opt releases_free, of "map_option fst (ce_values e)" "ce_ptr e"]
  by (auto split: option.splits)

interpretation c_entries: c_owner avail "alloc_entry avail" free_entry entry_addrs "\<lambda>_. True" entry_rep for avail
proof
  fix h :: heap and entry :: vcp_entry assume h: "heap_ok h"
  show "outcome h entry_addrs (entry_rep entry) (\<not> (\<forall>n. avail n) \<or> \<not> True) (alloc_entry avail entry) h"
    unfolding alloc_entry_def
  proof (rule block.outcome_alloc [OF holds_self [OF h]], goal_cases)
    case (1 h')
    then show ?case by (intro outcome_ret_None) auto
  next
    case (2 a h')
    show ?case
    proof (cases "entry = None \<or> entry = Some []")
      case True
      with 2 show ?thesis
        by (auto intro!: outcome_ret_Some simp: entry_addrs_def entry_rep_def entry_values_def c_int_of_def)
    next
      case False
      then obtain vs where vs: "entry = Some vs" "vs \<noteq> []" by (cases entry) auto
      show ?thesis unfolding vs option.case if_not_P [OF vs(2)]
      proof (rule block.outcome_alloc [OF 2(1)], goal_cases)
        case (1 h')
        then show ?case by (intro outcome_fail [OF releases_free]) auto
      next
        case (2 b h')
        have rep: "entry_rep (Some vs) \<lparr>ce_ptr = a, ce_values_len = c_int_of (length vs), ce_values = Some (b, vs)\<rparr>"
          using vs(2) by (simp add: entry_rep_def small_entry_def entry_values_def c_int_of_small)
        show ?case
        proof (rule outcome_ret)
          show "entry_rep (Some vs) \<lparr>ce_ptr = a, ce_values_len = c_int_of (length vs), ce_values = Some (b, vs)\<rparr>"
            by (rule rep)
          show "holds h (([] @ [a]) @ [b]) h'" by (rule 2(1))
        qed (use 2(1) in \<open>auto simp: holds_def entry_addrs_def\<close>)
      qed
    qed
  qed
qed (rule release_entry)

lemma releases_slot: "releases (free_slot slot) (slot_addrs slot)"
  by (cases slot) (simp_all add: free_slot_def slot_addrs_def releases_ret release_entry)

definition owns :: "heap \<Rightarrow> c_caps \<Rightarrow> bool" where
  "owns h caps \<longleftrightarrow> heap_ok h \<and> distinct (caps_addrs caps) \<and> set (caps_addrs caps) \<subseteq> live h"

lemma free_c_vcp_entries_ok:
  "owns h caps \<Longrightarrow> free_c_vcp_entries caps h = Some (caps\<lparr>c_vcp := \<lambda>_. None\<rparr>, h\<lparr>live := live h - set (caps_addrs caps)\<rparr>)"
  using releasesD [OF releases_for_each [where f = "\<lambda>code. free_slot (c_vcp caps code)" and
      addrs = "\<lambda>code. slot_addrs (c_vcp caps code)", OF releases_slot], of all_codes h]
  by (simp add: free_c_vcp_entries_def owns_def caps_addrs_def mem_bind_def ret_def)

section \<open>Reading back\<close>

lemma set_all_codes [simp]: "set all_codes = UNIV"
proof -
  have "w \<in> set all_codes" for w :: u8
    using unat_u8_less [of w] by (auto simp: all_codes_def intro!: image_eqI [of _ _ "unat w"])
  then show ?thesis by blast
qed

lemma distinct_all_codes [simp]: "distinct all_codes"
proof -
  have "inj_on (word_of_nat :: nat \<Rightarrow> u8) {0..<256}"
    by (rule inj_onI) (auto simp: word_of_nat_eq_iff take_bit_nat_eq_self_iff take_bit_nat_eq_self)
  then show ?thesis by (simp add: all_codes_def distinct_map)
qed

lemma fold_read:
  "bt_invar (caps_vcp rust) \<Longrightarrow> distinct codes \<Longrightarrow>
   (let r = fold (\<lambda>code rust_caps. case f code of None \<Rightarrow> rust_caps | Some e \<Rightarrow> insert_vcp code (entry_values e) rust_caps) codes rust
    in bt_invar (caps_vcp r) \<and> caps_type r = caps_type rust
       \<and> bt_get (caps_vcp r) = (\<lambda>k. if k \<in> set codes \<and> f k \<noteq> None then map_option entry_values (f k) else bt_get (caps_vcp rust) k))"
proof (induction codes arbitrary: rust)
  case (Cons code codes)
  let ?r = "case f code of None \<Rightarrow> rust | Some e \<Rightarrow> insert_vcp code (entry_values e) rust"
  have "bt_invar (caps_vcp ?r)" using Cons.prems by (simp add: insert_vcp_def bt_invar_insert split: option.splits)
  moreover have "caps_type ?r = caps_type rust" by (simp add: insert_vcp_def split: option.splits)
  moreover have "bt_get (caps_vcp ?r) = (\<lambda>k. if k = code \<and> f k \<noteq> None then map_option entry_values (f k) else bt_get (caps_vcp rust) k)"
    by (auto simp: insert_vcp_def bt_get_insert fun_eq_iff split: option.splits)
  ultimately show ?case using Cons.IH [of ?r] Cons.prems(2) by (auto simp: Let_def fun_eq_iff)
qed simp

lemma caps_from_c_get:
  shows "bt_invar (caps_vcp (caps_from_c caps))"
    and "caps_type (caps_from_c caps) = type_from_c (c_monitor_type caps)"
    and "bt_get (caps_vcp (caps_from_c caps)) k = map_option entry_values (c_vcp caps k)"
  using fold_read [of "set_monitor_type (type_from_c (c_monitor_type caps)) default_caps" all_codes "c_vcp caps"]
  by (auto simp: caps_from_c_def Let_def set_monitor_type_def default_caps_def bt.get_empty)

lemma type_roundtrip [simp]: "type_from_c (type_to_c t) = t"
  by (cases t) (simp_all add: type_from_c_def type_to_c_def)

definition small_values :: "caps \<Rightarrow> bool" where
  "small_values rust \<longleftrightarrow> list_all (\<lambda>(_, e). small_entry e) (caps_vcp rust)"

lemma caps_from_c_eq:
  assumes "bt_invar (caps_vcp rust)" and "c_monitor_type caps = type_to_c (caps_type rust)"
    and "small_values rust"
    and "\<And>code. case bt_get (caps_vcp rust) code of
        None \<Rightarrow> c_vcp caps code = None
      | Some entry \<Rightarrow> (\<exists>e. c_vcp caps code = Some e \<and> entry_rep entry e)"
  shows "caps_from_c caps = rust"
proof -
  have "map_option entry_values (c_vcp caps k) = bt_get (caps_vcp rust) k" for k
  proof (cases "bt_get (caps_vcp rust) k")
    case (Some entry)
    then have "(k, entry) \<in> set (caps_vcp rust)" using bt.get_entry [OF assms(1)] by blast
    then have "small_entry entry"
      using assms(3) by (auto simp: small_values_def list_all_iff)
    with assms(4) [of k] Some show ?thesis by (auto simp: entry_rep_def)
  qed (use assms(4) [of k] in simp)
  then have "caps_vcp (caps_from_c caps) = caps_vcp rust"
    by (intro bt.entries_eqI assms(1) caps_from_c_get(1)) (simp add: fun_eq_iff caps_from_c_get(3))
  moreover have "caps_type (caps_from_c caps) = caps_type rust" by (simp add: caps_from_c_get(2) assms(2))
  ultimately show ?thesis by simp
qed

section \<open>Writing\<close>

lemma mset_concat_update:
  assumes "distinct codes" and "code \<in> set codes" and "f code = []" and same: "\<And>c. c \<noteq> code \<Longrightarrow> g c = f c"
  shows "mset (concat (map g codes)) = mset (concat (map f codes)) + mset (g code)"
  using assms(1-3)
proof (induction codes)
  case (Cons c codes)
  show ?case
  proof (cases "c = code")
    case True
    then have tail: "map g codes = map f codes" using Cons.prems(1) by (intro map_cong refl same) auto
    have "concat (map g (c # codes)) = g code @ concat (map f codes)"
      unfolding list.map concat.simps tail True ..
    then have "mset (concat (map g (c # codes))) = mset (g code @ concat (map f codes))" by (rule arg_cong)
    then show ?thesis using True Cons.prems(3) by (simp add: add.commute)
  next
    case False
    then show ?thesis using Cons same [OF False] by simp
  qed
qed simp

lemma caps_addrs_update:
  assumes "c_vcp caps code = None"
  shows "mset (caps_addrs (caps\<lparr>c_vcp := (c_vcp caps)(code := Some e)\<rparr>)) = mset (caps_addrs caps) + mset (entry_addrs e)"
proof -
  let ?caps = "caps\<lparr>c_vcp := (c_vcp caps)(code := Some e)\<rparr>"
  have "mset (concat (map (\<lambda>c. slot_addrs (c_vcp ?caps c)) all_codes))
      = mset (concat (map (\<lambda>c. slot_addrs (c_vcp caps c)) all_codes)) + mset (slot_addrs (c_vcp ?caps code))"
    by (rule mset_concat_update) (simp_all add: assms slot_addrs_def)
  then show ?thesis by (simp add: caps_addrs_def slot_addrs_def)
qed

lemma holds_mset: "holds h0 as h \<Longrightarrow> mset bs = mset as \<Longrightarrow> holds h0 bs h"
  using holds_cong mset_eq_setD mset_eq_imp_distinct_iff by (metis holds_def)

lemma fill_entries_ok:
  assumes "holds h0 (caps_addrs caps) h" and "distinct (map fst es)" and "\<forall>code\<in>fst ` set es. c_vcp caps code = None"
  shows "\<exists>b caps' h'. fill_entries avail es caps h = Some ((b, caps'), h') \<and> holds h0 (caps_addrs caps') h'
    \<and> c_monitor_type caps' = c_monitor_type caps
    \<and> (if b then \<forall>code. case map_of es code of
           None \<Rightarrow> c_vcp caps' code = c_vcp caps code
         | Some entry \<Rightarrow> \<exists>e. c_vcp caps' code = Some e \<and> entry_rep entry e
        else \<exists>n. \<not> avail n)"
  using assms
proof (induction es arbitrary: caps h)
  case Nil
  then show ?case by (intro exI [of _ True] exI [of _ caps] exI [of _ h]) (simp add: ret_def)
next
  case (Cons p es)
  obtain code entry where p: "p = (code, entry)" by fastforce
  have "heap_ok h" using Cons.prems(1) by (simp add: holds_def)
  from c_entries.alloc_law [OF this, where avail = avail and x = entry]
  consider (none) h' where "alloc_entry avail entry h = Some (None, h')" "\<exists>n. \<not> avail n" "holds h [] h'"
    | (some) e h' where "alloc_entry avail entry h = Some (Some e, h')" "entry_rep entry e" "holds h (entry_addrs e) h'"
    by (auto simp: outcome_def split: option.splits prod.splits)
  then show ?case
  proof cases
    case none
    with Cons.prems(1) have "holds h0 (caps_addrs caps) h'" by (auto simp: holds_def)
    with none show ?thesis by (auto simp: p mem_bind_def ret_def)
  next
    case some
    let ?caps = "caps\<lparr>c_vcp := (c_vcp caps)(code := Some e)\<rparr>"
    have "holds h0 (caps_addrs caps @ entry_addrs e) h'" using some(3) Cons.prems(1) by (auto simp: holds_def)
    moreover have "c_vcp caps code = None" using Cons.prems(3) p by simp
    then have "mset (caps_addrs ?caps) = mset (caps_addrs caps @ entry_addrs e)"
      by (simp only: caps_addrs_update mset_append)
    ultimately have "holds h0 (caps_addrs ?caps) h'" by (rule holds_mset)
    moreover have "\<forall>k\<in>fst ` set es. c_vcp ?caps k = None" "distinct (map fst es)"
      using Cons.prems(2,3) p by auto
    ultimately obtain b caps' h'' where fill: "fill_entries avail es ?caps h' = Some ((b, caps'), h'')"
      "holds h0 (caps_addrs caps') h''" "c_monitor_type caps' = c_monitor_type ?caps"
      and b: "if b then \<forall>k. case map_of es k of
           None \<Rightarrow> c_vcp caps' k = c_vcp ?caps k
         | Some entry \<Rightarrow> \<exists>e. c_vcp caps' k = Some e \<and> entry_rep entry e
        else \<exists>n. \<not> avail n"
      using Cons.IH [of ?caps h'] by blast
    have "fill_entries avail (p # es) caps h = fill_entries avail es ?caps h'"
      using some(1) by (simp add: p mem_bind_def)
    moreover have "map_of es code = None" using Cons.prems(2) p by (simp add: map_of_eq_None_iff)
    then have "if b then \<forall>k. case map_of (p # es) k of
           None \<Rightarrow> c_vcp caps' k = c_vcp caps k
         | Some entry \<Rightarrow> \<exists>e. c_vcp caps' k = Some e \<and> entry_rep entry e
        else \<exists>n. \<not> avail n"
    proof (cases b)
      case True
      have "case map_of (p # es) k of None \<Rightarrow> c_vcp caps' k = c_vcp caps k
         | Some entry \<Rightarrow> \<exists>e. c_vcp caps' k = Some e \<and> entry_rep entry e" for k
        using b [unfolded if_P [OF True], rule_format, of k] some(2) \<open>map_of es code = None\<close>
        by (cases "k = code"; cases "map_of es k") (simp_all add: p)
      with True show ?thesis by simp
    qed (use b in simp)
    ultimately show ?thesis using fill by auto
  qed
qed

lemma replace_c_caps_ok:
  assumes own: "owns h caps" and inv: "bt_invar (caps_vcp rust)"
  obtains b caps' h' where "replace_c_caps avail caps rust h = Some ((b, caps'), h')"
    and "owns h' caps'" and "live h' = (live h - set (caps_addrs caps)) \<union> set (caps_addrs caps')"
    and "set (caps_addrs caps') \<inter> (live h - set (caps_addrs caps)) = {}"
    and "b \<Longrightarrow> small_values rust \<Longrightarrow> caps_from_c caps' = rust" and "\<not> b \<Longrightarrow> \<exists>n. \<not> avail n"
proof -
  let ?h = "h\<lparr>live := live h - set (caps_addrs caps)\<rparr>"
  let ?caps = "caps\<lparr>c_vcp := \<lambda>_. None, c_monitor_type := type_to_c (caps_type rust)\<rparr>"
  have "caps_addrs ?caps = []" by (simp add: caps_addrs_def slot_addrs_def)
  then have "holds ?h (caps_addrs ?caps) ?h" using own by (auto simp: holds_def owns_def heap_ok_def)
  moreover have "distinct (map fst (caps_vcp rust))" using bt.distinct_keys [OF inv] .
  ultimately obtain b caps' h' where fill: "fill_entries avail (caps_vcp rust) ?caps ?h = Some ((b, caps'), h')"
      "holds ?h (caps_addrs caps') h'" "c_monitor_type caps' = c_monitor_type ?caps"
    and b: "if b then \<forall>code. case map_of (caps_vcp rust) code of
           None \<Rightarrow> c_vcp caps' code = c_vcp ?caps code
         | Some entry \<Rightarrow> \<exists>e. c_vcp caps' code = Some e \<and> entry_rep entry e
        else \<exists>n. \<not> avail n"
    using fill_entries_ok [of ?h ?caps ?h "caps_vcp rust" avail] by auto
  show ?thesis
  proof (rule that)
    show "replace_c_caps avail caps rust h = Some ((b, caps'), h')"
      using fill(1) free_c_vcp_entries_ok [OF own] by (simp add: replace_c_caps_def mem_bind_def)
    show "owns h' caps'" "live h' = (live h - set (caps_addrs caps)) \<union> set (caps_addrs caps')"
      "set (caps_addrs caps') \<inter> (live h - set (caps_addrs caps)) = {}"
      using fill(2) by (auto simp: holds_def owns_def)
    show "caps_from_c caps' = rust" if b' : b "small_values rust"
    proof (rule caps_from_c_eq [OF inv _ b'(2)])
      show "c_monitor_type caps' = type_to_c (caps_type rust)" using fill(3) by simp
      show "case bt_get (caps_vcp rust) code of None \<Rightarrow> c_vcp caps' code = None
          | Some entry \<Rightarrow> \<exists>e. c_vcp caps' code = Some e \<and> entry_rep entry e" for code
        using b [unfolded if_P [OF b'(1)], rule_format, of code] by (simp add: bt_get_def cong: option.case_cong)
    qed
    show "\<exists>n. \<not> avail n" if "\<not> b" using b that by simp
  qed
qed

lemma caps_apply_invar: "bt_invar (caps_vcp c) \<Longrightarrow> bt_invar (caps_vcp (fst (caps_apply c input edit)))"
proof (cases "caps_parser_parse input")
  case (Inr parsed)
  assume c: "bt_invar (caps_vcp c)"
  have "bt_invar (caps_vcp (fold (case edit of Add \<Rightarrow> add_item | Remove \<Rightarrow> remove_item) (parsed_vcps parsed) s))"
    if "bt_invar (caps_vcp s)" for s
    by (rule fold_inv [where P = "\<lambda>c. bt_invar (caps_vcp c)", OF _ that])
      (cases edit; simp add: add_item_def remove_item_def bt_invar_insert bt_invar_remove Let_def split: option.splits)
  with c Inr show ?thesis
    by (auto simp: caps_apply_def Let_def split: edit.splits option.splits)
qed (simp add: caps_apply_def)

definition no_entries :: "c_caps \<Rightarrow> bool" where
  "no_entries caps \<longleftrightarrow> c_vcp caps = (\<lambda>_. None)"

definition rust_edit :: "int \<Rightarrow> caps \<Rightarrow> string \<Rightarrow> caps \<times> nat parse" where
  "rust_edit add c input = (if add \<noteq> 0 then apply_add c input else apply_remove c input)"

lemma rust_edit_invar: "bt_invar (caps_vcp c) \<Longrightarrow> bt_invar (caps_vcp (fst (rust_edit add c input)))"
  by (simp add: rust_edit_def apply_add_def apply_remove_def caps_apply_invar)

lemma free_all_ok:
  assumes "owns h caps"
  obtains caps' h' where "free_c_vcp_entries caps h = Some (caps', h')" "no_entries caps'" "caps_addrs caps' = []"
    "heap_ok h'" "live h' = live h - set (caps_addrs caps)"
  using free_c_vcp_entries_ok [OF assms] that assms
  by (auto simp: no_entries_def caps_addrs_def slot_addrs_def owns_def heap_ok_def)

lemma caps_parse_inner_ok:
  assumes own: "owns h caps"
  obtains n caps' h' where "ddccontrol_caps_parse_inner avail s caps add h = Some ((n, caps'), h')"
    and "owns h' caps'" and "live h' = (live h - set (caps_addrs caps)) \<union> set (caps_addrs caps')"
    and "set (caps_addrs caps') \<inter> (live h - set (caps_addrs caps)) = {}"
    and "case rust_edit add (caps_from_c caps) (utf8_lossy s) of
        (rust, Inr items) \<Rightarrow>
          n = c_int_of items \<and> (small_values rust \<longrightarrow> caps_from_c caps' = rust)
          \<or> n = -1 \<and> no_entries caps' \<and> (\<exists>n. \<not> avail n)
      | (_, Inl _) \<Rightarrow> n = -1 \<and> no_entries caps'"
proof -
  obtain rust r where e: "rust_edit add (caps_from_c caps) (utf8_lossy s) = (rust, r)" by fastforce
  have inv: "bt_invar (caps_vcp rust)"
    using rust_edit_invar [OF caps_from_c_get(1), of add caps "utf8_lossy s"] e by simp
  have inner: "ddccontrol_caps_parse_inner avail s caps add = (case r of
           Inr items \<Rightarrow>
             mem_bind (replace_c_caps avail caps rust) (\<lambda>(done, caps).
               if done then ret (c_int_of items, caps)
               else mem_bind (free_c_vcp_entries caps) (\<lambda>caps. ret (-1, caps)))
         | Inl _ \<Rightarrow> mem_bind (free_c_vcp_entries caps) (\<lambda>caps. ret (-1, caps)))"
    using e by (simp add: ddccontrol_caps_parse_inner_def rust_edit_def Let_def)
  show ?thesis
  proof (cases r)
    case (Inl err)
    obtain caps' h' where "free_c_vcp_entries caps h = Some (caps', h')" "no_entries caps'" "caps_addrs caps' = []"
      "heap_ok h'" "live h' = live h - set (caps_addrs caps)" using free_all_ok [OF own] by blast
    then show ?thesis using that [of "-1" caps' h'] e Inl
      by (simp add: inner mem_bind_def ret_def owns_def)
  next
    case (Inr items)
    obtain b caps1 h1 where one: "replace_c_caps avail caps rust h = Some ((b, caps1), h1)"
      "owns h1 caps1" "live h1 = (live h - set (caps_addrs caps)) \<union> set (caps_addrs caps1)"
      "set (caps_addrs caps1) \<inter> (live h - set (caps_addrs caps)) = {}"
      "b \<Longrightarrow> small_values rust \<Longrightarrow> caps_from_c caps1 = rust" "\<not> b \<Longrightarrow> \<exists>n. \<not> avail n"
      using replace_c_caps_ok [OF own inv] by metis
    show ?thesis
    proof (cases b)
      case True
      then show ?thesis using that [of "c_int_of items" caps1 h1] one e Inr by (simp add: inner mem_bind_def ret_def)
    next
      case False
      obtain caps' h' where "free_c_vcp_entries caps1 h1 = Some (caps', h')" "no_entries caps'" "caps_addrs caps' = []"
        "heap_ok h'" "live h' = live h1 - set (caps_addrs caps1)" using free_all_ok [OF one(2)] by blast
      moreover from this have "live h' = live h - set (caps_addrs caps)" using one(3,4) by auto
      ultimately show ?thesis using that [of "-1" caps' h'] one(1,6) False e Inr
        by (simp add: inner mem_bind_def ret_def owns_def)
    qed
  qed
qed

text \<open>
  C28: the C interface refines the edit of the Rust capabilities. It frees only blocks of the old
  entries and keeps only blocks of the new ones. If the edit succeeds and memory suffices, it returns
  the number of items, and reading the C capabilities back gives the edited Rust capabilities; if the
  string is malformed or memory runs out it returns -1 and every entry is null, its block freed.
\<close>

theorem caps_ffi_refines:
  assumes "owns h caps"
  shows "\<exists>n caps' h'. ddccontrol_caps_parse avail (Some s) (Some caps) add h = Some ((n, Some caps'), h')
    \<and> owns h' caps' \<and> live h' = (live h - set (caps_addrs caps)) \<union> set (caps_addrs caps')
    \<and> (case rust_edit add (caps_from_c caps) (utf8_lossy s) of
         (rust, Inr items) \<Rightarrow>
           n = c_int_of items \<and> (small_values rust \<longrightarrow> caps_from_c caps' = rust)
           \<or> n = -1 \<and> no_entries caps' \<and> (\<exists>n. \<not> avail n)
       | (_, Inl _) \<Rightarrow> n = -1 \<and> no_entries caps')"
proof -
  obtain n caps' h' where "ddccontrol_caps_parse_inner avail s caps add h = Some ((n, caps'), h')"
    and "owns h' caps'" and "live h' = (live h - set (caps_addrs caps)) \<union> set (caps_addrs caps')"
    and "set (caps_addrs caps') \<inter> (live h - set (caps_addrs caps)) = {}"
    and "case rust_edit add (caps_from_c caps) (utf8_lossy s) of
        (rust, Inr items) \<Rightarrow>
          n = c_int_of items \<and> (small_values rust \<longrightarrow> caps_from_c caps' = rust)
          \<or> n = -1 \<and> no_entries caps' \<and> (\<exists>n. \<not> avail n)
      | (_, Inl _) \<Rightarrow> n = -1 \<and> no_entries caps'" by (rule caps_parse_inner_ok [OF assms])
  then show ?thesis by (intro exI [of _ n] exI [of _ caps'] exI [of _ h']) (simp add: ddccontrol_caps_parse_def mem_bind_def ret_def)
qed

theorem caps_ffi_refines_witness:
  "\<exists>n caps' h'. ddccontrol_caps_parse (\<lambda>_. True) (Some ''vcp('') (Some \<lparr>c_vcp = \<lambda>_. None, c_monitor_type = 1\<rparr>) 1
      \<lparr>calls = 0, live = {}\<rparr> = Some ((n, Some caps'), h') \<and> owns h' caps'"
proof -
  let ?c = "\<lparr>c_vcp = \<lambda>_. None, c_monitor_type = 1\<rparr> :: c_caps" and ?h = "\<lparr>calls = 0, live = {}\<rparr> :: heap"
  have "caps_addrs ?c = []" by (simp add: caps_addrs_def slot_addrs_def)
  then have "owns ?h ?c" by (simp add: owns_def heap_ok_def)
  from caps_ffi_refines [OF this, of "\<lambda>_. True" "''vcp(''" 1] show ?thesis by blast
qed

end
