(* ===== verification/Monitor_Load.thy ===== *)
theory Monitor_Load
  imports Options_Db Monitor_Tree Caps_Ffi
begin

text \<open>
  Loading a monitor profile, module \<open>monitor_db\<close> of \<^verbatim>\<open>crates/ddccontrol-db/src/lib.rs\<close>:
  \<open>create_db_protected\<close> interprets a profile and the profiles it includes against the options, and
  builds the groups of controls. What the functions change through their mutable arguments (the build,
  the capabilities with the C heap, and the table of defined addresses) is the record \<open>load_state\<close>;
  an early return keeps the state reached so far. The result is \<open>None\<close> only if a block were freed
  that is not live. Diagnostics on the error stream are not modelled. The translation of names
  (\<open>dgettext\<close>) and the success of each allocation are parameters.
\<close>

section \<open>State and results\<close>

record db_error =
  de_message :: string
  de_missing_profile :: bool
  de_required_feature :: bool

definition db_err :: "string \<Rightarrow> db_error" where
  "db_err message = \<lparr>de_message = message, de_missing_profile = False, de_required_feature = False\<rparr>"

definition db_err_required :: "string \<Rightarrow> db_error" where
  "db_err_required message = \<lparr>de_message = message, de_missing_profile = False, de_required_feature = True\<rparr>"

definition db_err_missing :: "string \<Rightarrow> db_error" where
  "db_err_missing message = \<lparr>de_message = message, de_missing_profile = True, de_required_feature = False\<rparr>"

record monitor_file =
  mf_pnpid :: string
  mf_root :: node

record db_context =
  cx_profiles :: "(string, node checked) btree"
  cx_options :: options_db
  cx_monitor_file :: "monitor_file option"

record load_mode =
  lm_faulttolerance :: bool
  lm_validate_all :: bool

record load_state =
  ls_build :: monitor_build
  ls_caps :: c_caps
  ls_heap :: heap
  ls_defined :: "u8 \<Rightarrow> bool"

type_synonym 'a loader = "load_state \<Rightarrow> (('a, db_error) result \<times> load_state) option"

definition lret :: "'a \<Rightarrow> 'a loader" where
  "lret x s = Some (Ok x, s)"

definition lift :: "('a, db_error) result \<Rightarrow> 'a loader" where
  "lift r s = Some (r, s)"

definition lfail :: "db_error \<Rightarrow> 'a loader" where
  "lfail e s = Some (Err e, s)"

definition lbind :: "'a loader \<Rightarrow> ('a \<Rightarrow> 'b loader) \<Rightarrow> 'b loader" where
  "lbind m f s =
     (case m s of
        None \<Rightarrow> None
      | Some (Inl e, s') \<Rightarrow> Some (Err e, s')
      | Some (Inr x, s') \<Rightarrow> f x s')"

fun lfor :: "('x \<Rightarrow> 'acc \<Rightarrow> 'acc loader) \<Rightarrow> 'x list \<Rightarrow> 'acc \<Rightarrow> 'acc loader" where
  "lfor f [] acc s = lret acc s"
| "lfor f (x # xs) acc s = lbind (f x acc) (lfor f xs) s"

lemma lbind_cong [fundef_cong]:
  "m s = m' s \<Longrightarrow> (\<And>x s'. m' s = Some (Inr x, s') \<Longrightarrow> f x s' = f' x s') \<Longrightarrow> s = t \<Longrightarrow> lbind m f s = lbind m' f' t"
  by (auto simp: lbind_def split: option.splits sum.splits)

lemma lfor_cong [fundef_cong]:
  "xs = ys \<Longrightarrow> acc = bcc \<Longrightarrow> s = t \<Longrightarrow> (\<And>x a u. x \<in> set ys \<Longrightarrow> f x a u = g x a u) \<Longrightarrow> lfor f xs acc s = lfor g ys bcc t"
proof (induction xs arbitrary: ys acc bcc s t)
  case (Cons x xs)
  then show ?case by (auto simp: lbind_def split: option.splits sum.splits)
qed simp

section \<open>The controls of a profile\<close>

record monitor_value =
  mv_element_name :: string
  mv_id :: "string option"
  mv_raw_value :: "string option"
  mv_line :: nat

record monitor_control =
  mc_id :: string
  mc_raw_address :: "string option"
  mc_raw_delay :: "string option"
  mc_values :: "monitor_value list"
  mc_child_index :: nat
  mc_unavailable :: bool

record monitor_element =
  me_unavailable :: bool
  me_name :: string
  me_id :: "string option"
  me_line :: nat

record parsed_monitor_controls =
  pc_controls :: "monitor_control list"
  pc_elements :: "monitor_element list"

definition parse_element :: "node \<Rightarrow> monitor_element" where
  "parse_element control =
     \<lparr>me_unavailable = has_required control, me_name = node_tag control, me_id = node_attr control ''id'',
      me_line = node_line control\<rparr>"

definition parse_monitor_value :: "node \<Rightarrow> monitor_value" where
  "parse_monitor_value v =
     \<lparr>mv_element_name = node_tag v, mv_id = node_attr v ''id'', mv_raw_value = node_attr v ''value'',
      mv_line = node_line v\<rparr>"

definition parse_monitor_control :: "nat \<times> node \<Rightarrow> monitor_control option" where
  "parse_monitor_control entry =
     (case entry of (child_index, control) \<Rightarrow>
        if node_tag control \<noteq> ''control'' then None
        else case node_attr control ''id'' of
               None \<Rightarrow> None
             | Some ident \<Rightarrow>
                 Some \<lparr>mc_id = ident, mc_raw_address = node_attr control ''address'',
                       mc_raw_delay = node_attr control ''delay'',
                       mc_values = map parse_monitor_value (node_children control),
                       mc_child_index = child_index, mc_unavailable = has_required control\<rparr>)"

definition parse_monitor_controls :: "node \<Rightarrow> parsed_monitor_controls" where
  "parse_monitor_controls n =
     \<lparr>pc_controls = List.map_filter parse_monitor_control (enumerate 0 (node_children n)),
      pc_elements = map parse_element (node_children n)\<rparr>"

definition monitor_control_address :: "monitor_control \<Rightarrow> (u8, db_error) result" where
  "monitor_control_address control =
     and_then (ok_or (mc_raw_address control) (db_err ''Can't find address property.'')) (\<lambda>raw.
     and_then (map_err (\<lambda>_. db_err ''Can't convert address to int.'') (parse_integer raw)) (\<lambda>address.
       if \<not> (0 \<le> address \<and> address \<le> 255)
       then Err (db_err ''Address is outside the supported 0-255 range.'')
       else Ok (word_of_int address)))"

definition parse_int_decimal :: "string \<Rightarrow> (int, integer_error) result" where
  "parse_int_decimal input = i64_parse (trim_ascii_start input)"

definition monitor_control_delay :: "monitor_control \<Rightarrow> (int, db_error) result" where
  "monitor_control_delay control =
     (case mc_raw_delay control of
        Some raw \<Rightarrow>
          and_then (map_err (\<lambda>_. db_err ''Can't convert delay to int.'') (parse_int_decimal raw)) (\<lambda>delay.
            if - (2 ^ 31) \<le> delay \<and> delay < 2 ^ 31 then Ok delay
            else Err (db_err ''Delay is outside the signed 32-bit range.''))
      | None \<Rightarrow> Ok (-1))"

section \<open>Values\<close>

definition option_value_name :: "option_control \<Rightarrow> option_value \<Rightarrow> (string, db_error) result" where
  "option_value_name control v =
     (if oc_type control = Type_Command
      then Ok (case ov_name v of Some name \<Rightarrow> name | None \<Rightarrow> oc_name control)
      else ok_or (ov_name v) (db_err ''Can't find name property.''))"

definition value_step ::
  "(string \<Rightarrow> string) \<Rightarrow> option_control \<Rightarrow> monitor_control \<Rightarrow> option_value
     \<Rightarrow> db_value list \<times> bool list \<Rightarrow> (db_value list \<times> bool list, db_error) result" where
  "value_step translate control monitor v st =
     (case st of (values, matched) \<Rightarrow>
        case find_position (\<lambda>mv. mv_element_name mv = ''value'' \<and> mv_id mv = Some (ov_id v)) (mc_values monitor) of
          None \<Rightarrow> Ok (values, matched)
        | Some index \<Rightarrow>
            and_then (ok_or (mv_raw_value (mc_values monitor ! index)) (db_err ''Can't find value property.'')) (\<lambda>raw.
            and_then (map_err (\<lambda>_. db_err ''Can't convert value to int.'') (parse_integer raw)) (\<lambda>parsed.
              if \<not> (0 \<le> parsed \<and> parsed \<le> 65535)
              then Err (db_err ''Value is outside the supported 0-65535 range.'')
              else
                and_then (option_value_name control v) (\<lambda>name.
                  Ok (values @ [\<lparr>dv_id = ov_id v, dv_name = translate name, dv_value16 = word_of_int parsed\<rparr>],
                      matched[index := True])))))"

definition get_value_list ::
  "(string \<Rightarrow> string) \<Rightarrow> option_control \<Rightarrow> monitor_control \<Rightarrow> bool \<Rightarrow> (db_value list, db_error) result" where
  "get_value_list translate control monitor faulttolerance =
     and_then (fold_res (value_step translate control monitor) (oc_values control)
                ([], replicate (length (mc_values monitor)) False)) (\<lambda>(values, matched).
       if list_ex Not matched \<and> \<not> faulttolerance then Err (db_err ''Unmatched value in monitor XML.'')
       else Ok values)"

section \<open>Building\<close>

definition map_controls :: "(db_control list \<Rightarrow> db_control list) \<Rightarrow> monitor_build \<Rightarrow> monitor_build" where
  "map_controls f build =
     build\<lparr>mb_groups := map (\<lambda>g. g\<lparr>dg_subgroups := map (\<lambda>sg. sg\<lparr>ds_controls := f (ds_controls sg)\<rparr>) (dg_subgroups g)\<rparr>)
       (mb_groups build)\<rparr>"

definition suppress_address :: "u8 \<Rightarrow> unit loader" where
  "suppress_address address s =
     lret () (s\<lparr>ls_defined := (ls_defined s)(address := True),
                ls_build := map_controls (filter (\<lambda>c. dc_address c \<noteq> address)) (ls_build s)\<rparr>)"

definition push_control :: "nat \<Rightarrow> nat \<Rightarrow> db_control \<Rightarrow> monitor_build \<Rightarrow> monitor_build" where
  "push_control gi si control build =
     (let g = mb_groups build ! gi; sg = dg_subgroups g ! si
      in build\<lparr>mb_groups := (mb_groups build)[gi := g\<lparr>dg_subgroups := (dg_subgroups g)[si :=
           sg\<lparr>ds_controls := ds_controls sg @ [control]\<rparr>]\<rparr>]\<rparr>)"

definition type_code :: "control_type \<Rightarrow> int" where
  "type_code t = (case t of Type_Value \<Rightarrow> 0 | Type_Command \<Rightarrow> 1 | Type_List \<Rightarrow> 2)"

definition refresh_code :: "refresh \<Rightarrow> int" where
  "refresh_code r = (case r of Refresh_None \<Rightarrow> 0 | Refresh_All \<Rightarrow> 1)"

definition block_step ::
  "options_db \<Rightarrow> monitor_control \<Rightarrow> bool list \<Rightarrow> bool list loader" where
  "block_step options monitor matched =
     (if list_ex (\<lambda>c. oc_id c = mc_id monitor \<and> oc_unavailable c) (options_controls options)
      then lbind (lift (map_err (\<lambda>_. db_err_required ''Required shared control cannot be safely isolated by address.'')
                          (monitor_control_address monitor))) (\<lambda>address.
           lbind (suppress_address address) (\<lambda>_. lret (matched[mc_child_index monitor := True])))
      else lret matched)"

text \<open>The controls of the options in the order of the nested loops, each with its group and subgroup.\<close>

definition option_slots :: "options_db \<Rightarrow> (nat \<times> nat \<times> option_control) list" where
  "option_slots options =
     concat (map (\<lambda>(gi, g).
       concat (map (\<lambda>(si, sg). map (\<lambda>c. (gi, si, c)) (os_controls sg)) (enumerate 0 (og_subgroups g))))
       (enumerate 0 (od_groups options)))"

definition add_control ::
  "(string \<Rightarrow> string) \<Rightarrow> load_mode \<Rightarrow> monitor_control list \<Rightarrow> nat \<times> nat \<times> option_control \<Rightarrow> bool list \<Rightarrow> bool list loader" where
  "add_control translate mode controls slot matched s =
     (case slot of (gi, si, oc) \<Rightarrow>
        case find (\<lambda>c. mc_id c = oc_id oc) controls of
          None \<Rightarrow> lret matched s
        | Some monitor \<Rightarrow>
            (let matched = matched[mc_child_index monitor := True]
             in if mc_unavailable monitor \<or> oc_unavailable oc then lret matched s
                else
                  lbind (lift (monitor_control_address monitor)) (\<lambda>address s.
                    if \<not> lm_validate_all mode \<and> (c_vcp (ls_caps s) address = None \<or> ls_defined s address)
                    then lret matched s
                    else
                      lbind (lift (get_value_list translate oc monitor (lm_faulttolerance mode))) (\<lambda>values.
                      lbind (lift (monitor_control_delay monitor)) (\<lambda>delay s.
                        let values = (if oc_type oc = Type_Command \<and> values = []
                                      then [\<lparr>dv_id = ''default'', dv_name = translate (oc_name oc), dv_value16 = 1\<rparr>]
                                      else values);
                            control = \<lparr>dc_id = oc_id oc, dc_name = translate (oc_name oc), dc_address = address,
                                       dc_delay = delay, dc_type = type_code (oc_type oc),
                                       dc_refresh = refresh_code (oc_refresh oc), dc_values = values\<rparr>
                        in lret matched (s\<lparr>ls_build := push_control gi si control (ls_build s),
                                           ls_defined := (ls_defined s)(address := True)\<rparr>))) s) s))"

definition add_controls_from_options ::
  "(string \<Rightarrow> string) \<Rightarrow> load_mode \<Rightarrow> options_db \<Rightarrow> parsed_monitor_controls \<Rightarrow> unit loader" where
  "add_controls_from_options translate mode options parsed =
     lbind (lfor (block_step options) (pc_controls parsed) (map me_unavailable (pc_elements parsed))) (\<lambda>matched.
     lbind (lfor (add_control translate mode (pc_controls parsed)) (option_slots options) matched) (\<lambda>matched.
       if list_ex Not matched \<and> \<not> lm_faulttolerance mode
       then lfail (db_err ''Unmatched control in monitor XML.'')
       else lret ()))"

section \<open>Interpreting a profile\<close>

definition INIT_TYPE_UNKNOWN :: int where "INIT_TYPE_UNKNOWN = 0"
definition INIT_TYPE_STANDARD :: int where "INIT_TYPE_STANDARD = 1"
definition INIT_TYPE_SAMSUNG :: int where "INIT_TYPE_SAMSUNG = 2"

definition is_valid_monitor_profile_name :: "string \<Rightarrow> bool" where
  "is_valid_monitor_profile_name name \<longleftrightarrow>
     name \<noteq> [] \<and> list_all (\<lambda>c. is_ascii_alphanumeric c \<or> c = CHR ''_'' \<or> c = CHR ''-'') name"

definition apply_caps :: "(nat \<Rightarrow> bool) \<Rightarrow> string \<Rightarrow> int \<Rightarrow> db_error \<Rightarrow> unit loader" where
  "apply_caps avail input add err s =
     (if CHR 0x00 \<in> set input then lfail err s
      else case ddccontrol_caps_parse_inner avail input (ls_caps s) add (ls_heap s) of
             None \<Rightarrow> None
           | Some ((parsed, caps), h) \<Rightarrow>
               (let s = s\<lparr>ls_caps := caps, ls_heap := h\<rparr> in if parsed \<le> 0 then lfail err s else lret () s))"

definition find_root :: "db_context \<Rightarrow> string \<Rightarrow> nat \<Rightarrow> (node, db_error) result" where
  "find_root context pnpname level =
     (case (case cx_monitor_file context of
              Some file \<Rightarrow> if level = 0 \<and> mf_pnpid file = pnpname then Some (mf_root file) else None
            | None \<Rightarrow> None) of
        Some root \<Rightarrow> Ok root
      | None \<Rightarrow>
          (case bt_get (cx_profiles context) pnpname of
             None \<Rightarrow> Err (db_err_missing (''Monitor profile '' @ pnpname @ '' is unavailable.''))
           | Some root \<Rightarrow> map_err db_err root))"

definition set_name :: "node \<Rightarrow> unit loader" where
  "set_name root s =
     (if mb_name (ls_build s) = None
      then (case node_attr root ''name'' of
              None \<Rightarrow> lfail (db_err (node_error root ''Can't find name property.'')) s
            | Some name \<Rightarrow> lret () (s\<lparr>ls_build := (ls_build s)\<lparr>mb_name := Some name\<rparr>\<rparr>))
      else lret () s)"

definition init_of :: "string \<Rightarrow> int option" where
  "init_of t =
     (if t = ''standard'' then Some INIT_TYPE_STANDARD
      else if t = ''samsung'' then Some INIT_TYPE_SAMSUNG
      else None)"

definition set_init :: "load_mode \<Rightarrow> node \<Rightarrow> unit loader" where
  "set_init mode root s =
     (if mb_init (ls_build s) = INIT_TYPE_UNKNOWN \<or> lm_validate_all mode
      then (case node_attr root ''init'' of
              None \<Rightarrow> lret () s
            | Some t \<Rightarrow>
                (case init_of t of
                   None \<Rightarrow> lfail (db_err (node_error root ''Invalid type.'')) s
                 | Some init \<Rightarrow>
                     if mb_init (ls_build s) = INIT_TYPE_UNKNOWN
                     then lret () (s\<lparr>ls_build := (ls_build s)\<lparr>mb_init := init\<rparr>\<rparr>)
                     else lret () s))
      else lret () s)"

definition check_deprecated :: "load_mode \<Rightarrow> node \<Rightarrow> unit loader" where
  "check_deprecated mode root =
     (if node_attr root ''caps'' \<noteq> None \<and> \<not> lm_faulttolerance mode
      then lfail (db_err ''Error: caps property is deprecated.'')
      else if node_attr root ''include'' \<noteq> None \<and> \<not> lm_faulttolerance mode
      then lfail (db_err ''Error: include property is deprecated.'')
      else lret ())"

definition caps_child :: "(nat \<Rightarrow> bool) \<Rightarrow> node \<Rightarrow> unit loader" where
  "caps_child avail child =
     (if node_attr child ''remove'' = None \<and> node_attr child ''add'' = None
      then lfail (db_err (node_error child ''Can't find add or remove property in caps.''))
      else
        lbind (case node_attr child ''remove'' of
                 Some t \<Rightarrow> apply_caps avail t 0 (db_err (node_error child ''Invalid remove caps.''))
               | None \<Rightarrow> lret ()) (\<lambda>_.
          case node_attr child ''add'' of
            Some t \<Rightarrow> apply_caps avail t 1 (db_err (node_error child ''Invalid add caps.''))
          | None \<Rightarrow> lret ()))"

definition required_address :: "node \<Rightarrow> (u8, db_error) result" where
  "required_address control =
     ok_or (Option.bind (node_attr control ''address'') (\<lambda>raw. Option.bind (ok (parse_integer raw)) u8_try_from))
       (db_err_required ''Required control cannot be safely isolated by address.'')"

definition reserve_required :: "node \<Rightarrow> unit \<Rightarrow> unit loader" where
  "reserve_required control u =
     (if has_required control then lbind (lift (required_address control)) suppress_address else lret ())"

definition controls_child :: "(string \<Rightarrow> string) \<Rightarrow> db_context \<Rightarrow> load_mode \<Rightarrow> node \<Rightarrow> unit loader" where
  "controls_child translate context mode child =
     (if list_ex (\<lambda>n. node_tag n \<noteq> ''control'' \<and> has_required n) (node_children child)
      then lfail (db_err_required ''Unknown required controls operation.'')
      else
        lbind (lfor reserve_required (node_children child) ()) (\<lambda>_.
          add_controls_from_options translate mode (cx_options context) (parse_monitor_controls child)))"

definition enter_profile :: "string \<Rightarrow> unit loader" where
  "enter_profile pnpname s =
     (if \<not> is_valid_monitor_profile_name pnpname
      then lfail (db_err (''Invalid monitor profile name ('' @ pnpname @ '').'')) s
      else
        (let visits = mb_include_visits (ls_build s) + 1;
             s = s\<lparr>ls_build := (ls_build s)\<lparr>mb_include_visits := visits\<rparr>\<rparr>
         in if visits > 1000000 then lfail (db_err ''Expanded include visit limit exceeded.'') s
            else lret () s))"

definition open_root :: "db_context \<Rightarrow> load_mode \<Rightarrow> string \<Rightarrow> nat \<Rightarrow> node loader" where
  "open_root context mode pnpname level =
     lbind (lift (find_root context pnpname level)) (\<lambda>root.
       if node_required root
       then lfail (db_err_required (''Monitor profile '' @ pnpname @ '' requires an unsupported feature.''))
       else if node_tag root \<noteq> ''monitor''
       then lfail (db_err (''monitor/'' @ pnpname @ ''.xml of the wrong type, root node '' @ node_tag root @ '' != monitor''))
       else
         lbind (set_name root) (\<lambda>_.
         lbind (set_init mode root) (\<lambda>_.
         lbind (check_deprecated mode root) (\<lambda>_. lret root))))"

text \<open>One child of a profile; the flags are \<open>controls_or_include\<close> and \<open>seen_controls\<close>.\<close>

definition profile_child ::
  "(nat \<Rightarrow> bool) \<Rightarrow> (string \<Rightarrow> string) \<Rightarrow> db_context \<Rightarrow> load_mode \<Rightarrow> (string \<Rightarrow> unit loader) \<Rightarrow> node
     \<Rightarrow> bool \<times> bool \<Rightarrow> (bool \<times> bool) loader" where
  "profile_child avail translate context mode include_profile child flags =
     (case flags of (controls_or_include, seen_controls) \<Rightarrow>
        if node_required child \<or> (node_tag child \<noteq> ''controls'' \<and> has_required child)
        then lfail (db_err_required (node_error child ''Profile operation requires an unsupported feature.''))
        else if node_tag child = ''caps'' then
          lbind (caps_child avail child) (\<lambda>_. lret (controls_or_include, seen_controls))
        else if node_tag child = ''include'' then
          lbind (lift (map_err db_err (required_attr child ''file''))) (\<lambda>file.
          lbind (include_profile file) (\<lambda>_. lret (True, seen_controls)))
        else if node_tag child = ''controls'' then
          (if seen_controls then lfail (db_err (node_error child ''Two controls part in XML file.''))
           else lbind (controls_child translate context mode child) (\<lambda>_. lret (True, True)))
        else if lm_validate_all mode
        then lfail (db_err (node_error child ''Unknown monitor element.''))
        else lret (controls_or_include, seen_controls))"

lemma profile_child_cong [fundef_cong]:
  assumes "child = child'" and "flags = flags'" and "s = t" and "\<And>file u. f file u = g file u"
  shows "profile_child avail translate context mode f child flags s = profile_child avail translate context mode g child' flags' t"
proof -
  have "f = g" using assms(4) by (intro ext) simp
  then show ?thesis using assms(1-3) by simp
qed

function create_db_protected ::
  "(nat \<Rightarrow> bool) \<Rightarrow> (string \<Rightarrow> string) \<Rightarrow> db_context \<Rightarrow> load_mode \<Rightarrow> string \<Rightarrow> nat \<Rightarrow> unit loader" where
  "create_db_protected avail translate context mode pnpname level s =
     lbind (enter_profile pnpname) (\<lambda>_ s.
       if level > 15
       then lfail (db_err (''Error, include recursion level > 15 (file: '' @ pnpname @ '').'')) s
       else
         lbind (open_root context mode pnpname level) (\<lambda>root.
         lbind (\<lambda>s. lfor (\<lambda>child flags s. profile_child avail translate context mode
                   (\<lambda>file s. create_db_protected avail translate context mode file (level + 1) s) child flags s)
                 (node_children root) (False, False) s) (\<lambda>(controls_or_include, _).
           if \<not> controls_or_include
           then lfail (db_err ''document of the wrong type, can't find controls or include.'')
           else lret ())) s) s"
  by pat_completeness auto
termination
  by (relation "measure (\<lambda>(_, _, _, _, _, level, _). 16 - level)") auto

declare create_db_protected.simps [simp del]

text \<open>The two cases of the recursion level.\<close>

lemma create_db_deep:
  "level > 15 \<Longrightarrow> create_db_protected avail translate context mode pnpname level =
     lbind (enter_profile pnpname)
       (\<lambda>_. lfail (db_err (''Error, include recursion level > 15 (file: '' @ pnpname @ '').'')))"
  by (rule ext) (simp add: create_db_protected.simps)

definition finish_profile :: "bool \<times> bool \<Rightarrow> unit loader" where
  "finish_profile flags =
     (if \<not> fst flags then lfail (db_err ''document of the wrong type, can't find controls or include.'') else lret ())"

lemma create_db_shallow:
  "\<not> level > 15 \<Longrightarrow> create_db_protected avail translate context mode pnpname level =
     lbind (enter_profile pnpname) (\<lambda>_.
     lbind (open_root context mode pnpname level) (\<lambda>root.
     lbind (lfor (profile_child avail translate context mode
               (\<lambda>name. create_db_protected avail translate context mode name (level + 1)))
             (node_children root) (False, False)) finish_profile))"
  by (rule ext) (simp add: create_db_protected.simps [of _ _ _ _ _ level] finish_profile_def [abs_def] case_prod_unfold)

section \<open>Invariants of loading\<close>

definition preserves :: "(load_state \<Rightarrow> bool) \<Rightarrow> 'a loader \<Rightarrow> bool" where
  "preserves I m \<longleftrightarrow> (\<forall>s. I s \<longrightarrow> (case m s of None \<Rightarrow> False | Some (_, s') \<Rightarrow> I s'))"

lemma preservesI: "(\<And>s. I s \<Longrightarrow> case m s of None \<Rightarrow> False | Some (_, s') \<Rightarrow> I s') \<Longrightarrow> preserves I m"
  by (simp add: preserves_def)

lemma preservesD: "preserves I m \<Longrightarrow> I s \<Longrightarrow> \<exists>r s'. m s = Some (r, s') \<and> I s'"
  unfolding preserves_def by (cases "m s") fastforce+

lemma preserves_ret [simp, intro]: "preserves I (lret x)"
  by (simp add: preserves_def lret_def)

lemma preserves_lift [simp, intro]: "preserves I (lift r)"
  by (simp add: preserves_def lift_def)

lemma preserves_fail [simp, intro]: "preserves I (lfail e)"
  by (simp add: preserves_def lfail_def)

lemma preserves_bind [intro]:
  assumes "preserves I m" and "\<And>x. preserves I (f x)"
  shows "preserves I (lbind m f)"
proof (rule preservesI)
  fix s assume "I s"
  then obtain r s' where m: "m s = Some (r, s')" "I s'" using preservesD [OF assms(1)] by blast
  show "case lbind m f s of None \<Rightarrow> False | Some (_, s') \<Rightarrow> I s'"
  proof (cases r)
    case (Inr x)
    with m preservesD [OF assms(2) m(2), of x] show ?thesis by (auto simp: lbind_def)
  qed (use m in \<open>simp add: lbind_def\<close>)
qed

lemma preserves_for:
  assumes "\<And>x acc. x \<in> set xs \<Longrightarrow> preserves I (f x acc)" shows "preserves I (lfor f xs acc)"
  using assms
proof (induction xs arbitrary: acc)
  case (Cons x xs)
  have "preserves I (lbind (f x acc) (lfor f xs))" using Cons by (intro preserves_bind) auto
  then show ?case by (simp add: preserves_def)
qed (simp add: preserves_def lret_def)

text \<open>
  What loading does to its state: an invariant that survives each elementary change survives the whole
  interpretation of a profile with everything it includes.
\<close>

locale load_invariant =
  fixes avail :: "nat \<Rightarrow> bool"
    and mode :: load_mode
    and I :: "load_state \<Rightarrow> bool"
  assumes keep_suppress: "preserves I (suppress_address a)"
    and keep_push: "I s \<Longrightarrow> lm_validate_all mode \<or> \<not> ls_defined s a \<Longrightarrow> dc_address c = a
      \<Longrightarrow> I (s\<lparr>ls_build := push_control gi si c (ls_build s), ls_defined := (ls_defined s)(a := True)\<rparr>)"
    and keep_name: "I s \<Longrightarrow> I (s\<lparr>ls_build := (ls_build s)\<lparr>mb_name := n\<rparr>\<rparr>)"
    and keep_init: "I s \<Longrightarrow> I (s\<lparr>ls_build := (ls_build s)\<lparr>mb_init := i\<rparr>\<rparr>)"
    and keep_visits: "I s \<Longrightarrow> I (s\<lparr>ls_build := (ls_build s)\<lparr>mb_include_visits := k\<rparr>\<rparr>)"
    and keep_caps: "I s \<Longrightarrow> case ddccontrol_caps_parse_inner avail t (ls_caps s) add (ls_heap s) of
        None \<Rightarrow> False | Some ((_, caps), h) \<Rightarrow> I (s\<lparr>ls_caps := caps, ls_heap := h\<rparr>)"
begin

lemma block_step: "preserves I (block_step options monitor matched)"
  unfolding block_step_def using keep_suppress by (auto intro!: preserves_bind)

lemma add_control: "preserves I (add_control translate mode controls slot matched)"
proof (rule preservesI)
  fix s assume s: "I s"
  obtain gi si oc where slot: "slot = (gi, si, oc)" by (cases slot)
  show "case add_control translate mode controls slot matched s of None \<Rightarrow> False | Some (_, s') \<Rightarrow> I s'"
  proof (cases "find (\<lambda>c. mc_id c = oc_id oc) controls")
    case None
    with s show ?thesis by (simp add: add_control_def slot lret_def)
  next
    case (Some monitor)
    show ?thesis
    proof (cases "mc_unavailable monitor \<or> oc_unavailable oc")
      case True
      with s Some show ?thesis by (simp add: add_control_def slot lret_def Let_def)
    next
      case False
      show ?thesis
        using s Some False keep_push
        by (auto simp: add_control_def slot lret_def Let_def lbind_def lift_def split: sum.splits)
    qed
  qed
qed

lemma add_controls: "preserves I (add_controls_from_options translate mode options parsed)"
  unfolding add_controls_from_options_def
  by (intro preserves_bind preserves_for block_step add_control) auto

lemma controls_child: "preserves I (controls_child translate context mode child)"
  unfolding controls_child_def reserve_required_def
  using keep_suppress by (auto intro!: preserves_bind preserves_for add_controls)

lemma apply_caps: "preserves I (apply_caps avail t add err)"
proof (rule preservesI)
  fix s assume "I s"
  with keep_caps [OF this, of t add]
  show "case apply_caps avail t add err s of None \<Rightarrow> False | Some (_, s') \<Rightarrow> I s'"
    by (auto simp: apply_caps_def lfail_def lret_def Let_def split: option.splits)
qed

lemma caps_child: "preserves I (caps_child avail child)"
  unfolding caps_child_def by (auto intro!: preserves_bind apply_caps split: option.splits)

lemma enter_profile: "preserves I (enter_profile pnpname)"
  using keep_visits by (intro preservesI) (simp add: enter_profile_def lfail_def lret_def Let_def)

lemma set_name: "preserves I (set_name root)"
  using keep_name by (intro preservesI) (auto simp: set_name_def lfail_def lret_def split: option.splits)

lemma set_init: "preserves I (set_init mode root)"
  using keep_init by (intro preservesI) (auto simp: set_init_def lfail_def lret_def split: option.splits)

lemma open_root: "preserves I (open_root context mode pnpname level)"
  unfolding open_root_def check_deprecated_def
  by (auto intro!: preserves_bind set_name set_init)

lemma profile_child:
  "(\<And>file. preserves I (f file)) \<Longrightarrow> preserves I (profile_child avail translate context mode f child flags)"
  unfolding profile_child_def
  by (auto intro!: preserves_bind caps_child controls_child split: prod.splits)

lemma create_db: "preserves I (create_db_protected avail translate context mode pnpname level)"
proof (induction "16 - level" arbitrary: pnpname level rule: less_induct)
  case less
  show ?case
  proof (cases "level > 15")
    case True
    show ?thesis unfolding create_db_deep [OF True] by (intro preserves_bind enter_profile) auto
  next
    case False
    have "preserves I (create_db_protected avail translate context mode name (level + 1))" for name
      using False by (intro less) simp
    then show ?thesis unfolding create_db_shallow [OF False]
      by (auto simp: finish_profile_def intro!: preserves_bind enter_profile open_root preserves_for profile_child)
  qed
qed

end

section \<open>The controls of a build\<close>

definition group_controls :: "db_group \<Rightarrow> db_control list" where
  "group_controls g = concat (map ds_controls (dg_subgroups g))"

definition build_controls :: "monitor_build \<Rightarrow> db_control list" where
  "build_controls b = concat (map group_controls (mb_groups b))"

definition build_addresses :: "monitor_build \<Rightarrow> u8 list" where
  "build_addresses b = map dc_address (build_controls b)"

lemma mset_concat_update_nth:
  "i < length xs \<Longrightarrow> mset (f y) = mset (f (xs ! i)) + M \<Longrightarrow> mset (concat (map f (xs[i := y]))) = mset (concat (map f xs)) + M"
proof (induction xs arbitrary: i)
  case (Cons x xs)
  then show ?case by (cases i) auto
qed simp

lemma push_control_mset:
  "mset (build_controls (push_control gi si c b)) =
     (if gi < length (mb_groups b) \<and> si < length (dg_subgroups (mb_groups b ! gi))
      then mset (build_controls b) + {#c#} else mset (build_controls b))"
proof (cases "gi < length (mb_groups b) \<and> si < length (dg_subgroups (mb_groups b ! gi))")
  case True
  let ?g = "mb_groups b ! gi"
  let ?sg = "(dg_subgroups ?g ! si)\<lparr>ds_controls := ds_controls (dg_subgroups ?g ! si) @ [c]\<rparr>"
  have "mset (group_controls (?g\<lparr>dg_subgroups := (dg_subgroups ?g)[si := ?sg]\<rparr>)) = mset (group_controls ?g) + {#c#}"
    using mset_concat_update_nth [of si "dg_subgroups ?g" ds_controls ?sg "{#c#}"] True by (simp add: group_controls_def)
  from mset_concat_update_nth [of gi "mb_groups b" group_controls, OF _ this] True
  show ?thesis by (simp add: build_controls_def push_control_def Let_def)
next
  case False
  then show ?thesis
    by (cases "gi < length (mb_groups b)") (simp_all add: push_control_def Let_def list_update_beyond)
qed

lemma push_control_addresses:
  "mset (build_addresses (push_control gi si c b)) \<subseteq># add_mset (dc_address c) (mset (build_addresses b))"
proof -
  have "mset (build_addresses b') = image_mset dc_address (mset (build_controls b'))" for b'
    by (simp add: build_addresses_def)
  then show ?thesis by (simp add: push_control_mset)
qed

lemma suppress_controls:
  "build_controls (map_controls (filter P) b) = filter P (build_controls b)"
  by (simp add: build_controls_def map_controls_def group_controls_def filter_concat comp_def)

lemma build_controls_fields [simp]:
  "build_controls (b\<lparr>mb_name := n\<rparr>) = build_controls b"
  "build_controls (b\<lparr>mb_init := i\<rparr>) = build_controls b"
  "build_controls (b\<lparr>mb_include_visits := k\<rparr>) = build_controls b"
  by (simp_all add: build_controls_def)

lemma build_addresses_fields [simp]:
  "build_addresses (b\<lparr>mb_name := n\<rparr>) = build_addresses b"
  "build_addresses (b\<lparr>mb_init := i\<rparr>) = build_addresses b"
  "build_addresses (b\<lparr>mb_include_visits := k\<rparr>) = build_addresses b"
  by (simp_all add: build_addresses_def)

section \<open>Three invariants\<close>

text \<open>The capabilities own their blocks; the blocks in \<open>base\<close> belong to others and stay.\<close>

definition caps_owned :: "ptr set \<Rightarrow> load_state \<Rightarrow> bool" where
  "caps_owned base s \<longleftrightarrow>
     owns (ls_heap s) (ls_caps s) \<and> base \<inter> set (caps_addrs (ls_caps s)) = {}
     \<and> live (ls_heap s) = base \<union> set (caps_addrs (ls_caps s))"

lemma caps_owned_step:
  assumes "caps_owned base s"
  shows "case ddccontrol_caps_parse_inner avail t (ls_caps s) add (ls_heap s) of
        None \<Rightarrow> False | Some ((_, caps), h) \<Rightarrow> caps_owned base (s\<lparr>ls_caps := caps, ls_heap := h\<rparr>)"
proof -
  have own: "owns (ls_heap s) (ls_caps s)" using assms by (simp add: caps_owned_def)
  have base: "live (ls_heap s) - set (caps_addrs (ls_caps s)) = base" using assms by (auto simp: caps_owned_def)
  obtain n caps' h' where r: "ddccontrol_caps_parse_inner avail t (ls_caps s) add (ls_heap s) = Some ((n, caps'), h')"
    and "owns h' caps'" and l: "live h' = (live (ls_heap s) - set (caps_addrs (ls_caps s))) \<union> set (caps_addrs caps')"
    and d: "set (caps_addrs caps') \<inter> (live (ls_heap s) - set (caps_addrs (ls_caps s))) = {}"
    by (rule caps_parse_inner_ok [OF own])
  then show ?thesis using l [unfolded base] d [unfolded base] by (auto simp: caps_owned_def)
qed

text \<open>Every address is given to at most one control, and is marked as defined.\<close>

definition unique_addresses :: "load_state \<Rightarrow> bool" where
  "unique_addresses s \<longleftrightarrow>
     distinct (build_addresses (ls_build s)) \<and> list_all (ls_defined s) (build_addresses (ls_build s))"

text \<open>An address that is sealed has no control and will get none.\<close>

definition sealed :: "u8 set \<Rightarrow> load_state \<Rightarrow> bool" where
  "sealed A s \<longleftrightarrow> (\<forall>a\<in>A. ls_defined s a) \<and> A \<inter> set (build_addresses (ls_build s)) = {}"

lemma distinct_submset:
  assumes "mset xs \<subseteq># mset ys" and "distinct ys" shows "distinct xs"
proof -
  obtain M where "mset ys = mset xs + M" using assms(1) by (metis mset_subset_eq_exists_conv)
  moreover obtain zs where "mset zs = M" using ex_mset by blast
  ultimately have "mset ys = mset (xs @ zs)" by simp
  from mset_eq_imp_distinct_iff [OF this] assms(2) show ?thesis by simp
qed

lemma unique_push:
  assumes "unique_addresses s" and "\<not> ls_defined s a" and "dc_address c = a"
  shows "unique_addresses (s\<lparr>ls_build := push_control gi si c (ls_build s), ls_defined := (ls_defined s)(a := True)\<rparr>)"
proof -
  let ?new = "build_addresses (push_control gi si c (ls_build s))" and ?old = "build_addresses (ls_build s)"
  have sub: "mset ?new \<subseteq># mset (a # ?old)" using push_control_addresses [of gi si c "ls_build s"] assms(3) by simp
  have "distinct (a # ?old)" using assms by (auto simp: unique_addresses_def list_all_iff)
  then have "distinct ?new" by (rule distinct_submset [OF sub])
  moreover have "set ?new \<subseteq> insert a (set ?old)" using set_mset_mono [OF sub] by simp
  ultimately show ?thesis using assms by (auto simp: unique_addresses_def list_all_iff)
qed

lemma sealed_push:
  assumes "sealed A s" and "\<not> ls_defined s a" and "dc_address c = a"
  shows "sealed A (s\<lparr>ls_build := push_control gi si c (ls_build s), ls_defined := (ls_defined s)(a := True)\<rparr>)"
proof -
  let ?new = "build_addresses (push_control gi si c (ls_build s))" and ?old = "build_addresses (ls_build s)"
  have "mset ?new \<subseteq># mset (a # ?old)" using push_control_addresses [of gi si c "ls_build s"] assms(3) by simp
  then have "set ?new \<subseteq> insert a (set ?old)" using set_mset_mono by fastforce
  then show ?thesis using assms by (auto simp: sealed_def)
qed

lemma unique_suppress: "unique_addresses s \<Longrightarrow> case suppress_address a s of None \<Rightarrow> False | Some (_, s') \<Rightarrow> unique_addresses s'"
  by (auto simp: suppress_address_def lret_def unique_addresses_def build_addresses_def suppress_controls
      list_all_iff distinct_map inj_on_def)

lemma sealed_suppress: "sealed A s \<Longrightarrow> case suppress_address a s of None \<Rightarrow> False | Some (_, s') \<Rightarrow> sealed A s'"
  by (auto simp: suppress_address_def lret_def sealed_def build_addresses_def suppress_controls)

lemma suppress_seals: "sealed A s \<Longrightarrow> case suppress_address a s of None \<Rightarrow> False | Some (_, s') \<Rightarrow> sealed (insert a A) s'"
  by (auto simp: suppress_address_def lret_def sealed_def build_addresses_def suppress_controls)

definition strict_mode :: "bool \<Rightarrow> load_mode" where
  "strict_mode faulttolerance = \<lparr>lm_faulttolerance = faulttolerance, lm_validate_all = False\<rparr>"

interpretation owned_load: load_invariant avail mode "caps_owned base" for avail mode base
  using caps_owned_step
  by unfold_locales (auto simp: preserves_def suppress_address_def lret_def caps_owned_def)

interpretation unique_load: load_invariant avail "strict_mode ft" "\<lambda>s. caps_owned base s \<and> unique_addresses s" for avail ft base
proof
  show "preserves (\<lambda>s. caps_owned base s \<and> unique_addresses s) (suppress_address a)" for a
    using unique_suppress owned_load.keep_suppress [of base a] by (fastforce simp: preserves_def suppress_address_def lret_def)
next
  fix s :: load_state and a and c :: db_control and gi si
  assume "caps_owned base s \<and> unique_addresses s" "lm_validate_all (strict_mode ft) \<or> \<not> ls_defined s a" "dc_address c = a"
  then show "caps_owned base (s\<lparr>ls_build := push_control gi si c (ls_build s), ls_defined := (ls_defined s)(a := True)\<rparr>)
      \<and> unique_addresses (s\<lparr>ls_build := push_control gi si c (ls_build s), ls_defined := (ls_defined s)(a := True)\<rparr>)"
    using unique_push by (simp add: strict_mode_def caps_owned_def)
next
  fix s :: load_state and t add
  assume s: "caps_owned base s \<and> unique_addresses s"
  then show "case ddccontrol_caps_parse_inner avail t (ls_caps s) add (ls_heap s) of None \<Rightarrow> False
     | Some ((_, caps), h) \<Rightarrow> caps_owned base (s\<lparr>ls_caps := caps, ls_heap := h\<rparr>)
         \<and> unique_addresses (s\<lparr>ls_caps := caps, ls_heap := h\<rparr>)"
    using caps_owned_step [of base s avail t add] by (auto simp: unique_addresses_def split: option.splits)
qed (auto simp: caps_owned_def unique_addresses_def)

interpretation sealed_load: load_invariant avail "strict_mode ft" "\<lambda>s. caps_owned base s \<and> sealed A s" for avail ft base A
proof
  show "preserves (\<lambda>s. caps_owned base s \<and> sealed A s) (suppress_address a)" for a
    using sealed_suppress owned_load.keep_suppress [of base a] by (fastforce simp: preserves_def suppress_address_def lret_def)
next
  fix s :: load_state and a and c :: db_control and gi si
  assume "caps_owned base s \<and> sealed A s" "lm_validate_all (strict_mode ft) \<or> \<not> ls_defined s a" "dc_address c = a"
  then show "caps_owned base (s\<lparr>ls_build := push_control gi si c (ls_build s), ls_defined := (ls_defined s)(a := True)\<rparr>)
      \<and> sealed A (s\<lparr>ls_build := push_control gi si c (ls_build s), ls_defined := (ls_defined s)(a := True)\<rparr>)"
    using sealed_push by (simp add: strict_mode_def caps_owned_def)
next
  fix s :: load_state and t add
  assume s: "caps_owned base s \<and> sealed A s"
  then show "case ddccontrol_caps_parse_inner avail t (ls_caps s) add (ls_heap s) of None \<Rightarrow> False
     | Some ((_, caps), h) \<Rightarrow> caps_owned base (s\<lparr>ls_caps := caps, ls_heap := h\<rparr>)
         \<and> sealed A (s\<lparr>ls_caps := caps, ls_heap := h\<rparr>)"
    using caps_owned_step [of base s avail t add] by (auto simp: sealed_def split: option.splits)
qed (auto simp: caps_owned_def sealed_def)

section \<open>Reserved addresses\<close>

definition node_address :: "node \<Rightarrow> u8 option" where
  "node_address control =
     Option.bind (node_attr control ''address'') (\<lambda>raw. Option.bind (ok (parse_integer raw)) u8_try_from)"

definition shared_unavailable :: "options_db \<Rightarrow> string \<Rightarrow> bool" where
  "shared_unavailable options ident \<longleftrightarrow> list_ex (\<lambda>c. oc_id c = ident \<and> oc_unavailable c) (options_controls options)"

text \<open>
  An element of a controls section reserves its address if it carries required semantics, or if it names
  a control of the options that does.
\<close>

definition reserves :: "options_db \<Rightarrow> node \<Rightarrow> u8 \<Rightarrow> bool" where
  "reserves options control a \<longleftrightarrow>
     node_address control = Some a
     \<and> (has_required control
        \<or> node_tag control = ''control''
          \<and> (case node_attr control ''id'' of Some ident \<Rightarrow> shared_unavailable options ident | None \<Rightarrow> False))"

inductive protects :: "db_context \<Rightarrow> string \<Rightarrow> nat \<Rightarrow> u8 \<Rightarrow> bool" for cx :: db_context where
  protects_own: "find_root cx name level = Ok root \<Longrightarrow> child \<in> set (node_children root) \<Longrightarrow> node_tag child = ''controls''
    \<Longrightarrow> control \<in> set (node_children child) \<Longrightarrow> reserves (cx_options cx) control a \<Longrightarrow> protects cx name level a"
| protects_include: "find_root cx name level = Ok root \<Longrightarrow> child \<in> set (node_children root) \<Longrightarrow> node_tag child = ''include''
    \<Longrightarrow> node_attr child ''file'' = Some target \<Longrightarrow> protects cx target (level + 1) a \<Longrightarrow> protects cx name level a"

inductive_simps protects_iff: "protects cx name level a"

definition seals :: "ptr set \<Rightarrow> u8 set \<Rightarrow> 'a loader \<Rightarrow> bool" where
  "seals base A m \<longleftrightarrow> (\<forall>s r s'. caps_owned base s \<longrightarrow> m s = Some (Inr r, s') \<longrightarrow> sealed A s')"

abbreviation keeps_sealed :: "ptr set \<Rightarrow> 'a loader \<Rightarrow> bool" where
  "keeps_sealed base m \<equiv> (\<forall>A. preserves (\<lambda>s. caps_owned base s \<and> sealed A s) m)"

lemma sealed_Un: "sealed (A \<union> B) s \<longleftrightarrow> sealed A s \<and> sealed B s"
  by (auto simp: sealed_def)

lemma sealed_empty [simp]: "sealed {} s"
  by (simp add: sealed_def)

lemma seals_mono: "seals base B m \<Longrightarrow> A \<subseteq> B \<Longrightarrow> seals base A m"
  by (auto simp: seals_def sealed_def) blast

lemma seals_empty [simp]: "seals base {} m"
  by (simp add: seals_def)

lemma keeps_owned: "keeps_sealed base m \<Longrightarrow> preserves (caps_owned base) m"
  by (drule spec [of _ "{}"]) simp

lemma lbind_Ok:
  assumes "lbind m f s = Some (Inr y, s')"
  obtains x s1 where "m s = Some (Inr x, s1)" "f x s1 = Some (Inr y, s')"
  using assms by (auto simp: lbind_def split: option.splits prod.splits sum.splits)

lemma seals_fail [simp]: "seals base A (lfail e)"
  by (simp add: seals_def lfail_def)

lemma seals_bind_first:
  assumes "seals base A m" and "preserves (caps_owned base) m" and "\<And>x. keeps_sealed base (f x)"
  shows "seals base A (lbind m f)"
  unfolding seals_def
proof (intro allI impI)
  fix s y s' assume s: "caps_owned base s" and "lbind m f s = Some (Inr y, s')"
  then obtain x s1 where m: "m s = Some (Inr x, s1)" "f x s1 = Some (Inr y, s')" by (auto elim: lbind_Ok)
  then have "caps_owned base s1 \<and> sealed A s1"
    using assms(1,2) s preservesD [OF assms(2) s] by (auto simp: seals_def)
  with m(2) preservesD [OF spec [OF assms(3), of A x], of s1] show "sealed A s'" by auto
qed

lemma seals_bind_second:
  assumes "preserves (caps_owned base) m" and "\<And>x s s'. m s = Some (Inr x, s') \<Longrightarrow> seals base A (f x)"
  shows "seals base A (lbind m f)"
  unfolding seals_def
proof (intro allI impI)
  fix s y s' assume s: "caps_owned base s" and "lbind m f s = Some (Inr y, s')"
  then obtain x s1 where m: "m s = Some (Inr x, s1)" "f x s1 = Some (Inr y, s')" by (auto elim: lbind_Ok)
  then show "sealed A s'" using assms(2) [OF m(1)] preservesD [OF assms(1) s] by (auto simp: seals_def)
qed

lemma seals_for:
  assumes "\<And>x acc. x \<in> set xs \<Longrightarrow> seals base (A x) (f x acc)" and "\<And>x acc. keeps_sealed base (f x acc)"
  shows "seals base (\<Union>x\<in>set xs. A x) (lfor f xs acc)"
  using assms(1)
proof (induction xs arbitrary: acc)
  case (Cons x xs)
  have own: "preserves (caps_owned base) (f x acc)" using keeps_owned assms(2) by blast
  have rest: "keeps_sealed base (lfor f xs b)" for b
    using assms(2) by (intro allI preserves_for) blast
  have "seals base (A x) (lbind (f x acc) (lfor f xs))"
    using Cons.prems own rest by (intro seals_bind_first) auto
  moreover have "seals base (\<Union>x\<in>set xs. A x) (lbind (f x acc) (lfor f xs))"
    using Cons own by (intro seals_bind_second) auto
  ultimately show ?case by (auto simp: seals_def sealed_Un)
qed simp

lemma required_address_eq: "required_address control = Inr a \<longleftrightarrow> node_address control = Some a"
  by (simp add: required_address_def node_address_def)

lemma suppress_seals_one: "seals base {a} (suppress_address a)"
  using suppress_seals [of "{}" _ a] by (fastforce simp: seals_def suppress_address_def lret_def)

lemma reserve_required_seals:
  "seals base (if has_required control then {a. node_address control = Some a} else {}) (reserve_required control u)"
proof (cases "has_required control")
  case True
  have "seals base {a. node_address control = Some a} (lbind (lift (required_address control)) suppress_address)"
  proof (rule seals_bind_second)
    fix x s s' assume "lift (required_address control) s = Some (Inr x, s')"
    then have "node_address control = Some x" by (simp add: lift_def required_address_eq)
    then have "{a. node_address control = Some a} = {x}" by auto
    then show "seals base {a. node_address control = Some a} (suppress_address x)" using suppress_seals_one by simp
  qed simp
  with True show ?thesis by (simp add: reserve_required_def)
qed simp

lemma monitor_address_node:
  assumes "parse_monitor_control (i, control) = Some monitor"
  shows "monitor_control_address monitor = Inr a \<longleftrightarrow> node_address control = Some a"
proof -
  have raw: "mc_raw_address monitor = node_attr control ''address''"
    using assms by (auto simp: parse_monitor_control_def split: if_splits option.splits)
  show ?thesis
  proof (cases "node_attr control ''address''")
    case (Some t)
    then show ?thesis
      by (cases "parse_integer t") (auto simp: monitor_control_address_def node_address_def raw u8_try_from_def)
  qed (simp add: monitor_control_address_def node_address_def raw)
qed

lemma block_step_seals:
  "seals base (if shared_unavailable options (mc_id monitor) then {a. monitor_control_address monitor = Inr a} else {})
     (block_step options monitor matched)"
proof (cases "shared_unavailable options (mc_id monitor)")
  case True
  let ?m = "lift (map_err (\<lambda>_. db_err_required ''Required shared control cannot be safely isolated by address.'')
      (monitor_control_address monitor))"
  have "seals base {a. monitor_control_address monitor = Inr a}
      (lbind ?m (\<lambda>address. lbind (suppress_address address) (\<lambda>_. lret (matched[mc_child_index monitor := True]))))"
  proof (rule seals_bind_second)
    fix x s s' assume "?m s = Some (Inr x, s')"
    then have x: "{a. monitor_control_address monitor = Inr a} = {x}" by (auto simp: lift_def)
    show "seals base {a. monitor_control_address monitor = Inr a}
        (lbind (suppress_address x) (\<lambda>_. lret (matched[mc_child_index monitor := True])))"
      unfolding x by (rule seals_bind_first [OF suppress_seals_one owned_load.keep_suppress]) simp
  qed simp
  with True show ?thesis by (simp add: block_step_def shared_unavailable_def)
qed simp

lemma controls_child_seals:
  "seals base {a. \<exists>control\<in>set (node_children child). reserves (cx_options cx) control a}
     (controls_child translate cx (strict_mode ft) child)"
proof (cases "list_ex (\<lambda>n. node_tag n \<noteq> ''control'' \<and> has_required n) (node_children child)")
  case False
  let ?options = "cx_options cx" and ?kids = "node_children child"
  let ?parsed = "parse_monitor_controls child"
  let ?R = "\<Union>c\<in>set ?kids. if has_required c then {a. node_address c = Some a} else {}"
  let ?B = "\<Union>m\<in>set (pc_controls ?parsed). if shared_unavailable ?options (mc_id m) then {a. monitor_control_address m = Inr a} else {}"
  have keep_reserve: "keeps_sealed base (reserve_required c u)" for c u
    unfolding reserve_required_def using sealed_load.keep_suppress by (auto intro!: preserves_bind)
  have keep_add: "keeps_sealed base (add_controls_from_options translate (strict_mode ft) ?options ?parsed)"
    using sealed_load.add_controls by blast
  note own_reserve = keeps_owned [OF keep_reserve]
  have "seals base ?R (lfor reserve_required ?kids ())"
    using reserve_required_seals keep_reserve by (intro seals_for) auto
  then have R: "seals base ?R (lbind (lfor reserve_required ?kids ())
      (\<lambda>_. add_controls_from_options translate (strict_mode ft) ?options ?parsed))"
    using own_reserve keep_add by (intro seals_bind_first preserves_for) auto
  have "seals base ?B (lfor (block_step ?options) (pc_controls ?parsed) (map me_unavailable (pc_elements ?parsed)))"
    using block_step_seals sealed_load.block_step by (intro seals_for) auto
  then have "seals base ?B (add_controls_from_options translate (strict_mode ft) ?options ?parsed)"
    unfolding add_controls_from_options_def
    using owned_load.block_step sealed_load.add_control
    by (intro seals_bind_first preserves_for allI preserves_bind) auto
  then have B: "seals base ?B (lbind (lfor reserve_required ?kids ())
      (\<lambda>_. add_controls_from_options translate (strict_mode ft) ?options ?parsed))"
    using own_reserve by (intro seals_bind_second preserves_for) auto
  have "{a. \<exists>control\<in>set ?kids. reserves ?options control a} \<subseteq> ?R \<union> ?B"
  proof safe
    fix a control assume c: "control \<in> set ?kids" "reserves ?options control a" and nB: "a \<notin> ?B"
    show "a \<in> ?R"
    proof (cases "has_required control")
      case True
      with c show ?thesis by (force simp: reserves_def)
    next
      case False
      with c(2) obtain ident where i: "node_address control = Some a" "node_tag control = ''control''"
        "node_attr control ''id'' = Some ident" "shared_unavailable ?options ident"
        by (auto simp: reserves_def split: option.splits)
      obtain n where n: "n < length ?kids" "?kids ! n = control" using c(1) by (auto simp: in_set_conv_nth)
      then have "(n, control) \<in> set (enumerate 0 ?kids)" by (auto simp: in_set_enumerate_eq)
      moreover obtain m where m: "parse_monitor_control (n, control) = Some m" "mc_id m = ident"
        using i by (simp add: parse_monitor_control_def)
      ultimately have "m \<in> set (pc_controls ?parsed)"
        by (force simp: parse_monitor_controls_def map_filter_def image_iff)
      moreover have "monitor_control_address m = Inr a" using monitor_address_node [OF m(1)] i(1) by blast
      ultimately have "a \<in> ?B" using i(4) m(2) by force
      with nB show ?thesis by blast
    qed
  qed
  moreover have "seals base (?R \<union> ?B) (lbind (lfor reserve_required ?kids ())
      (\<lambda>_. add_controls_from_options translate (strict_mode ft) ?options ?parsed))"
    using R B by (simp add: seals_def sealed_Un)
  ultimately show ?thesis
    unfolding controls_child_def if_not_P [OF False] using seals_mono by blast
qed (simp add: controls_child_def)

text \<open>The addresses that a child of a profile protects.\<close>

definition child_protects :: "db_context \<Rightarrow> nat \<Rightarrow> node \<Rightarrow> u8 set" where
  "child_protects cx level child =
     (if node_tag child = ''controls''
      then {a. \<exists>control\<in>set (node_children child). reserves (cx_options cx) control a}
      else if node_tag child = ''include''
      then {a. \<exists>target. node_attr child ''file'' = Some target \<and> protects cx target (level + 1) a}
      else {})"

lemma protects_children:
  "find_root cx name level = Ok root \<Longrightarrow>
     {a. protects cx name level a} = (\<Union>child\<in>set (node_children root). child_protects cx level child)"
  by (subst protects_iff) (auto simp: child_protects_def)

lemma profile_child_seals:
  assumes "\<And>name. keeps_sealed base (f name)" and "\<And>name. seals base {a. protects cx name (level + 1) a} (f name)"
  shows "seals base (child_protects cx level child)
    (profile_child avail translate cx (strict_mode ft) f child flags)"
proof (cases "node_required child \<or> (node_tag child \<noteq> ''controls'' \<and> has_required child)")
  case False
  obtain ci seen where flags: "flags = (ci, seen)" by fastforce
  consider (controls) "node_tag child = ''controls''" | (inc) "node_tag child = ''include''"
    | (other) "node_tag child \<noteq> ''controls''" "node_tag child \<noteq> ''include''" by blast
  then show ?thesis
  proof cases
    case controls
    have "seals base (child_protects cx level child) (controls_child translate cx (strict_mode ft) child)"
      using controls_child_seals controls by (simp add: child_protects_def)
    then have "seals base (child_protects cx level child)
        (lbind (controls_child translate cx (strict_mode ft) child) (\<lambda>_. lret (True, True)))"
      using owned_load.controls_child by (intro seals_bind_first) auto
    with controls False show ?thesis by (simp add: profile_child_def flags)
  next
    case inc
    have "seals base (child_protects cx level child)
      (lbind (lift (map_err db_err (required_attr child ''file''))) (\<lambda>file. lbind (f file) (\<lambda>_. lret (True, seen))))"
    proof (rule seals_bind_second)
      fix x s s' assume "lift (map_err db_err (required_attr child ''file'')) s = Some (Inr x, s')"
      then have "node_attr child ''file'' = Some x" by (simp add: lift_def required_attr_def)
      then have p: "child_protects cx level child = {a. protects cx x (level + 1) a}"
        using inc by (simp add: child_protects_def)
      show "seals base (child_protects cx level child) (lbind (f x) (\<lambda>_. lret (True, seen)))"
        unfolding p using assms keeps_owned [OF assms(1)] by (intro seals_bind_first) auto
    qed simp
    with inc False show ?thesis by (simp add: profile_child_def flags)
  next
    case other
    then show ?thesis by (simp add: child_protects_def)
  qed
qed (simp add: profile_child_def case_prod_unfold)

lemma open_root_find:
  assumes "open_root cx mode name level s = Some (Inr root, s')" shows "find_root cx name level = Inr root"
proof -
  from assms obtain r where r: "find_root cx name level = Inr r"
    and "(if node_required r
       then lfail (db_err_required (''Monitor profile '' @ name @ '' requires an unsupported feature.''))
       else if node_tag r \<noteq> ''monitor''
       then lfail (db_err (''monitor/'' @ name @ ''.xml of the wrong type, root node '' @ node_tag r @ '' != monitor''))
       else lbind (set_name r) (\<lambda>_. lbind (set_init mode r) (\<lambda>_. lbind (check_deprecated mode r) (\<lambda>_. lret r)))) s
      = Some (Inr root, s')"
    unfolding open_root_def by (elim lbind_Ok) (simp add: lift_def)
  then have "r = root" by (auto simp: lfail_def lret_def split: if_splits elim!: lbind_Ok)
  with r show ?thesis by simp
qed

lemma create_db_seals:
  "seals base {a. protects cx name level a} (create_db_protected avail translate cx (strict_mode ft) name level)"
proof (induction "16 - level" arbitrary: name level rule: less_induct)
  case less
  show ?case
  proof (cases "level > 15")
    case True
    show ?thesis unfolding create_db_deep [OF True]
      by (intro seals_bind_second owned_load.enter_profile) simp
  next
    case False
    let ?rec = "\<lambda>name. create_db_protected avail translate cx (strict_mode ft) name (level + 1)"
    have rec: "keeps_sealed base (?rec f)" "seals base {a. protects cx f (level + 1) a} (?rec f)" for f
      using sealed_load.create_db less False by auto
    let ?step = "profile_child avail translate cx (strict_mode ft) ?rec"
    have step: "seals base (child_protects cx level child) (?step child flags)" for child flags
      by (rule profile_child_seals [OF rec])
    have keep: "keeps_sealed base (?step child flags)" for child flags
      by (intro allI sealed_load.profile_child sealed_load.create_db)
    note own = keeps_owned [OF keep]
    have loop: "seals base (\<Union>child\<in>set (node_children root). child_protects cx level child)
        (lbind (lfor ?step (node_children root) (False, False)) finish_profile)" for root
      using step keep own by (intro seals_bind_first seals_for preserves_for) (auto simp: finish_profile_def)
    show ?thesis unfolding create_db_shallow [OF False]
    proof (rule seals_bind_second [OF owned_load.enter_profile], rule seals_bind_second [OF owned_load.open_root])
      fix root s s' assume "open_root cx (strict_mode ft) name level s = Some (Inr root, s')"
      then have "find_root cx name level = Inr root" by (rule open_root_find)
      from protects_children [OF this] loop
      show "seals base {a. protects cx name level a} (lbind (lfor ?step (node_children root) (False, False)) finish_profile)"
        by simp
    qed
  qed
qed

end
