(* ===== verification/Monitor_Db.thy ===== *)
theory Monitor_Db
  imports Monitor_Load "HOL-Library.While_Combinator"
begin

text \<open>
  The entry point \<open>ddcci_create_db\<close> of \<^verbatim>\<open>crates/ddccontrol-db/src/lib.rs\<close>: the check whether a
  profile needs semantics that are not supported (\<open>profile_has_requirements\<close>, a worklist over the
  includes), the staging of the caller's capabilities, loading, pruning and the C tree. The theorems
  state what a caller may rely on: what a null result leaves behind, which addresses a tree exposes,
  and what the requirements flag says.
\<close>

section \<open>Required semantics of a profile\<close>

record requirement_state =
  rq_pending :: "(string \<times> bool) list"
  rq_visited :: "(string \<times> bool) set"
  rq_found :: bool

definition requirement_root :: "db_context \<Rightarrow> string \<times> bool \<Rightarrow> node option" where
  "requirement_root context item =
     (case item of (ident, top_level) \<Rightarrow>
        case (case cx_monitor_file context of
                Some file \<Rightarrow> if top_level \<and> mf_pnpid file = ident then Some (mf_root file) else None
              | None \<Rightarrow> None) of
          Some root \<Rightarrow> Some root
        | None \<Rightarrow> Option.bind (bt_get (cx_profiles context) ident) ok)"

definition requirement_here :: "options_db \<Rightarrow> node \<Rightarrow> bool" where
  "requirement_here options root \<longleftrightarrow>
     has_required root
     \<or> list_ex (\<lambda>child. node_tag child \<noteq> ''include'' \<and> node_tag child = ''controls''
          \<and> list_ex (\<lambda>control. node_tag control = ''control''
               \<and> (case node_attr control ''id'' of Some ident \<Rightarrow> shared_unavailable options ident | None \<Rightarrow> False))
             (node_children child)) (node_children root)"

definition include_files :: "node \<Rightarrow> string list" where
  "include_files root = List.map_filter (\<lambda>child. node_attr child ''file'') (includes_of root)"

definition requirement_step :: "db_context \<Rightarrow> requirement_state \<Rightarrow> requirement_state" where
  "requirement_step context st =
     (let item = last (rq_pending st); st = st\<lparr>rq_pending := butlast (rq_pending st)\<rparr>
      in if item \<in> rq_visited st then st
         else
           (let st = st\<lparr>rq_visited := insert item (rq_visited st)\<rparr>
            in case requirement_root context item of
                 None \<Rightarrow> st
               | Some root \<Rightarrow>
                   if requirement_here (cx_options context) root then st\<lparr>rq_found := True\<rparr>
                   else st\<lparr>rq_pending := rq_pending st @ map (\<lambda>file. (file, False)) (include_files root)\<rparr>))"

definition profile_has_requirements :: "db_context \<Rightarrow> string \<Rightarrow> bool option" where
  "profile_has_requirements context pnpname =
     map_option rq_found
       (while_option (\<lambda>st. rq_pending st \<noteq> [] \<and> \<not> rq_found st) (requirement_step context)
          \<lparr>rq_pending = [(pnpname, True)], rq_visited = {}, rq_found = False\<rparr>)"

section \<open>Creating the tree\<close>

definition groups_from_options :: "(string \<Rightarrow> string) \<Rightarrow> options_db \<Rightarrow> db_group list" where
  "groups_from_options translate options =
     map (\<lambda>g. \<lparr>dg_name = translate (og_name g),
               dg_subgroups = map (\<lambda>sg. \<lparr>ds_name = translate (os_name sg), ds_pattern = os_pattern sg, ds_controls = []\<rparr>)
                                (og_subgroups g)\<rparr>) (od_groups options)"

definition prune_empty_groups :: "db_group list \<Rightarrow> db_group list" where
  "prune_empty_groups groups =
     filter (\<lambda>g. dg_subgroups g \<noteq> [])
       (map (\<lambda>g. g\<lparr>dg_subgroups := filter (\<lambda>sg. ds_controls sg \<noteq> []) (dg_subgroups g)\<rparr>) groups)"

definition drop_caps :: "c_caps \<Rightarrow> unit mem" where
  "drop_caps caps = mem_bind (free_c_vcp_entries caps) (\<lambda>_. ret ())"

definition copy_caps :: "(nat \<Rightarrow> bool) \<Rightarrow> c_caps \<Rightarrow> c_caps option mem" where
  "copy_caps avail input =
     mem_bind (replace_c_caps avail \<lparr>c_vcp = \<lambda>_. None, c_monitor_type = c_monitor_type input\<rparr> (caps_from_c input))
       (\<lambda>(done, staged). if done then ret (Some staged) else mem_bind (drop_caps staged) (\<lambda>_. ret None))"

text \<open>The staged entries and the caller's are exchanged.\<close>

definition publish :: "c_caps \<Rightarrow> c_caps \<Rightarrow> c_caps \<times> c_caps" where
  "publish staged output =
     (staged\<lparr>c_vcp := c_vcp output, c_monitor_type := c_monitor_type output\<rparr>,
      output\<lparr>c_vcp := c_vcp staged, c_monitor_type := c_monitor_type staged\<rparr>)"

definition start_state :: "(string \<Rightarrow> string) \<Rightarrow> options_db \<Rightarrow> c_caps \<Rightarrow> heap \<Rightarrow> load_state" where
  "start_state translate options caps h =
     \<lparr>ls_build = \<lparr>mb_include_visits = 0, mb_name = None, mb_init = INIT_TYPE_UNKNOWN,
                  mb_groups = groups_from_options translate options\<rparr>,
      ls_caps = caps, ls_heap = h, ls_defined = \<lambda>_. False\<rparr>"

definition final_build :: "bool \<Rightarrow> monitor_build \<Rightarrow> monitor_build option" where
  "final_build faulttolerance build =
     map_option (\<lambda>build. build\<lparr>mb_groups := prune_empty_groups (mb_groups build)\<rparr>)
       (if mb_init build = INIT_TYPE_UNKNOWN
        then if faulttolerance then Some (build\<lparr>mb_init := INIT_TYPE_STANDARD\<rparr>) else None
        else Some build)"

definition overrides :: "db_context \<Rightarrow> string \<Rightarrow> bool" where
  "overrides context pnpname \<longleftrightarrow>
     (case cx_monitor_file context of Some file \<Rightarrow> mf_pnpid file = pnpname | None \<Rightarrow> False)"

text \<open>The result: the tree or null, the caller's capabilities, and the requirements flag.\<close>

definition create_loaded ::
  "(nat \<Rightarrow> bool) \<Rightarrow> bool \<Rightarrow> bool \<Rightarrow> c_caps \<Rightarrow> (unit, db_error) result \<times> load_state
     \<Rightarrow> ((c_monitor_db option \<times> c_caps \<times> bool) \<times> heap) option" where
  "create_loaded avail req faulttolerance caps loaded =
     (case loaded of (result, s) \<Rightarrow>
        case result of
          Inl err \<Rightarrow> mem_bind (drop_caps (ls_caps s)) (\<lambda>_. ret (None, caps, req \<or> de_required_feature err)) (ls_heap s)
        | Inr _ \<Rightarrow>
            (case final_build faulttolerance (ls_build s) of
               None \<Rightarrow> mem_bind (drop_caps (ls_caps s)) (\<lambda>_. ret (None, caps, req)) (ls_heap s)
             | Some build \<Rightarrow>
                 mem_bind (alloc_monitor avail build) (\<lambda>m. case m of
                   None \<Rightarrow> mem_bind (drop_caps (ls_caps s)) (\<lambda>_. ret (None, caps, req))
                 | Some monitor \<Rightarrow>
                     (case publish (ls_caps s) caps of (staged, caps) \<Rightarrow>
                        mem_bind (drop_caps staged) (\<lambda>_. ret (Some monitor, caps, False)))) (ls_heap s)))"

definition create_db ::
  "(nat \<Rightarrow> bool) \<Rightarrow> (string \<Rightarrow> string) \<Rightarrow> db_context \<Rightarrow> string \<Rightarrow> c_caps \<Rightarrow> int
     \<Rightarrow> (c_monitor_db option \<times> c_caps \<times> bool) mem" where
  "create_db avail translate context pnpname caps faulttolerance h =
     (case profile_has_requirements context pnpname of
        None \<Rightarrow> None
      | Some req \<Rightarrow>
          (let ft = (faulttolerance \<noteq> 0 \<and> \<not> overrides context pnpname)
           in case copy_caps avail caps h of
                None \<Rightarrow> None
              | Some (None, h) \<Rightarrow> Some ((None, caps, req), h)
              | Some (Some staged, h) \<Rightarrow>
                  (case create_db_protected avail translate context (strict_mode ft) pnpname 0
                          (start_state translate (cx_options context) staged h) of
                     None \<Rightarrow> None
                   | Some loaded \<Rightarrow> create_loaded avail req ft caps loaded)))"

definition create_db_inner ::
  "(nat \<Rightarrow> bool) \<Rightarrow> (string \<Rightarrow> string) \<Rightarrow> db_context option \<Rightarrow> string option \<Rightarrow> c_caps option \<Rightarrow> int
     \<Rightarrow> (c_monitor_db option \<times> c_caps option \<times> bool) mem" where
  "create_db_inner avail translate context pnpname caps faulttolerance =
     (case (pnpname, caps, context) of
        (Some name, Some caps, Some context) \<Rightarrow>
          mem_bind (create_db avail translate context (utf8_lossy name) caps faulttolerance)
            (\<lambda>(monitor, caps, failed). ret (monitor, Some caps, failed))
      | _ \<Rightarrow> ret (None, caps, False))"

section \<open>The worklist decides the requirements\<close>

text \<open>What the worklist may visit, and the specification it decides.\<close>

inductive requirement_reach :: "db_context \<Rightarrow> string \<Rightarrow> string \<times> bool \<Rightarrow> bool" for cx :: db_context and pnpname :: string where
  reach_start: "requirement_reach cx pnpname (pnpname, True)"
| reach_include: "requirement_reach cx pnpname item \<Longrightarrow> requirement_root cx item = Some root
    \<Longrightarrow> file_name \<in> set (include_files root) \<Longrightarrow> requirement_reach cx pnpname (file_name, False)"

definition requirement_at :: "db_context \<Rightarrow> string \<times> bool \<Rightarrow> bool" where
  "requirement_at cx item \<longleftrightarrow>
     (case requirement_root cx item of Some root \<Rightarrow> requirement_here (cx_options cx) root | None \<Rightarrow> False)"

definition requirement_next :: "db_context \<Rightarrow> string \<times> bool \<Rightarrow> (string \<times> bool) list" where
  "requirement_next cx item =
     (case requirement_root cx item of Some root \<Rightarrow> map (\<lambda>file. (file, False)) (include_files root) | None \<Rightarrow> [])"

lemma reach_next: "requirement_reach cx pnpname item \<Longrightarrow> x \<in> set (requirement_next cx item) \<Longrightarrow> requirement_reach cx pnpname x"
  by (auto simp: requirement_next_def split: option.splits intro: reach_include [OF _ sym])

lemma reach_closed:
  assumes "requirement_reach cx pnpname item" and "(pnpname, True) \<in> V"
    and "\<And>x y. x \<in> V \<Longrightarrow> y \<in> set (requirement_next cx x) \<Longrightarrow> y \<in> V"
  shows "item \<in> V"
  using assms(1)
proof (induction rule: requirement_reach.induct)
  case (reach_include item root file_name)
  then show ?case using assms(3) [of item] by (simp add: requirement_next_def)
qed (rule assms(2))

text \<open>A step in terms of the item taken from the list.\<close>

lemma requirement_step_eq:
  assumes "rq_pending st = ps @ [item]"
  shows "requirement_step cx st =
    (if item \<in> rq_visited st then st\<lparr>rq_pending := ps\<rparr>
     else if requirement_at cx item
     then st\<lparr>rq_pending := ps, rq_visited := insert item (rq_visited st), rq_found := True\<rparr>
     else st\<lparr>rq_pending := ps @ requirement_next cx item, rq_visited := insert item (rq_visited st)\<rparr>)"
  using assms
  by (auto simp: requirement_step_def requirement_at_def requirement_next_def Let_def split: option.splits)

definition requirement_inv :: "db_context \<Rightarrow> string \<Rightarrow> requirement_state \<Rightarrow> bool" where
  "requirement_inv cx pnpname st \<longleftrightarrow>
     (\<forall>x\<in>set (rq_pending st) \<union> rq_visited st. requirement_reach cx pnpname x)
     \<and> (if rq_found st then \<exists>x. requirement_reach cx pnpname x \<and> requirement_at cx x
        else (pnpname, True) \<in> rq_visited st \<union> set (rq_pending st)
          \<and> (\<forall>x\<in>rq_visited st. \<not> requirement_at cx x
               \<and> set (requirement_next cx x) \<subseteq> rq_visited st \<union> set (rq_pending st)))"

lemma requirement_inv_step:
  assumes inv: "requirement_inv cx pnpname st" and st: "rq_pending st = ps @ [item]" "\<not> rq_found st"
  shows "requirement_inv cx pnpname (requirement_step cx st)"
proof -
  have reach: "requirement_reach cx pnpname item" using inv st by (simp add: requirement_inv_def)
  consider "item \<in> rq_visited st" | "item \<notin> rq_visited st" "requirement_at cx item"
    | "item \<notin> rq_visited st" "\<not> requirement_at cx item" by blast
  then show ?thesis
  proof cases
    case 1
    then show ?thesis using inv st by (auto simp: requirement_step_eq [OF st(1)] requirement_inv_def)
  next
    case 2
    with reach have "\<exists>x. requirement_reach cx pnpname x \<and> requirement_at cx x" by blast
    with 2 show ?thesis using inv st reach
      unfolding requirement_step_eq [OF st(1)] requirement_inv_def by (simp del: split_paired_Ex)
  next
    case 3
    then show ?thesis using inv st reach reach_next [OF reach]
      by (auto simp: requirement_step_eq [OF st(1)] requirement_inv_def)
  qed
qed

text \<open>The weight of what is left: every unvisited profile with its includes, and the list.\<close>

definition requirement_items :: "db_context \<Rightarrow> (string \<times> bool) set" where
  "requirement_items cx = {item. requirement_root cx item \<noteq> None}"

lemma finite_items: "finite (requirement_items cx)"
proof -
  let ?ids = "dom (bt_get (cx_profiles cx)) \<union> (case cx_monitor_file cx of Some f \<Rightarrow> {mf_pnpid f} | None \<Rightarrow> {})"
  have "finite ?ids" by (auto simp: bt_get_def finite_dom_map_of split: option.splits)
  moreover have "requirement_items cx \<subseteq> ?ids \<times> UNIV"
    by (auto simp: requirement_items_def requirement_root_def dom_def bind_eq_Some_conv split: option.splits if_splits)
  ultimately show ?thesis using finite_subset [of "requirement_items cx" "?ids \<times> UNIV"] by simp
qed

definition requirement_weight :: "db_context \<Rightarrow> requirement_state \<Rightarrow> nat" where
  "requirement_weight cx st =
     (\<Sum>x\<in>requirement_items cx - rq_visited st. 1 + length (requirement_next cx x)) + length (rq_pending st)"

lemma requirement_weight_step:
  assumes st: "rq_pending st = ps @ [item]"
  shows "requirement_weight cx (requirement_step cx st) < requirement_weight cx st"
proof -
  let ?w = "\<lambda>x. 1 + length (requirement_next cx x)"
  let ?U = "requirement_items cx - rq_visited st"
  consider (old) "item \<in> rq_visited st" | (known) "item \<in> ?U" | (unknown) "item \<notin> rq_visited st" "item \<notin> requirement_items cx"
    by blast
  then show ?thesis
  proof cases
    case old
    then show ?thesis using st by (simp add: requirement_step_eq [OF st] requirement_weight_def)
  next
    case known
    have "requirement_items cx - insert item (rq_visited st) = ?U - {item}" by blast
    moreover have "sum ?w ?U = ?w item + sum ?w (?U - {item})"
      using known finite_items by (intro sum.remove) auto
    ultimately show ?thesis using known st by (simp add: requirement_step_eq [OF st] requirement_weight_def)
  next
    case unknown
    then have "requirement_items cx - insert item (rq_visited st) = ?U" by blast
    moreover have "requirement_root cx item = None" using unknown by (simp add: requirement_items_def)
    ultimately show ?thesis using unknown st
      by (simp add: requirement_step_eq [OF st] requirement_weight_def requirement_next_def requirement_at_def)
  qed
qed

lemma requirement_loop:
  assumes "requirement_inv cx pnpname st"
  obtains st' where "while_option (\<lambda>st. rq_pending st \<noteq> [] \<and> \<not> rq_found st) (requirement_step cx) st = Some st'"
    "requirement_inv cx pnpname st'" "rq_pending st' = [] \<or> rq_found st'"
proof -
  let ?b = "\<lambda>st. rq_pending st \<noteq> [] \<and> \<not> rq_found st"
  have step: "requirement_inv cx pnpname (requirement_step cx s) \<and> requirement_weight cx (requirement_step cx s) < requirement_weight cx s"
    if "requirement_inv cx pnpname s" "?b s" for s
    using that requirement_inv_step [of cx pnpname s "butlast (rq_pending s)" "last (rq_pending s)"]
      requirement_weight_step [of s "butlast (rq_pending s)" "last (rq_pending s)"] by simp
  have "\<exists>t. while_option ?b (requirement_step cx) st = Some t"
    by (rule measure_while_option_Some [where P = "requirement_inv cx pnpname" and f = "requirement_weight cx"])
      (use step assms in auto)
  then obtain t where t: "while_option ?b (requirement_step cx) st = Some t" by blast
  moreover have "requirement_inv cx pnpname t"
    using while_option_rule [of "requirement_inv cx pnpname", OF _ t assms] step by blast
  moreover have "rq_pending t = [] \<or> rq_found t" using while_option_stop [OF t] by blast
  ultimately show ?thesis using that by blast
qed

lemma requirements_exact:
  "profile_has_requirements cx pnpname = Some (\<exists>x. requirement_reach cx pnpname x \<and> requirement_at cx x)"
proof -
  let ?st = "\<lparr>rq_pending = [(pnpname, True)], rq_visited = {}, rq_found = False\<rparr>"
  have "requirement_inv cx pnpname ?st" by (simp add: requirement_inv_def reach_start)
  from requirement_loop [OF this] obtain t
    where t: "while_option (\<lambda>st. rq_pending st \<noteq> [] \<and> \<not> rq_found st) (requirement_step cx) ?st = Some t"
      "requirement_inv cx pnpname t" "rq_pending t = [] \<or> rq_found t" by blast
  have "rq_found t \<longleftrightarrow> (\<exists>x. requirement_reach cx pnpname x \<and> requirement_at cx x)"
  proof (cases "rq_found t")
    case False
    then have "requirement_reach cx pnpname x \<Longrightarrow> x \<in> rq_visited t" for x
      using t by (elim reach_closed) (auto simp: requirement_inv_def)
    with False t show ?thesis by (auto simp: requirement_inv_def)
  qed (use t in \<open>auto simp: requirement_inv_def\<close>)
  with t(1) show ?thesis by (simp add: profile_has_requirements_def)
qed

section \<open>Staged capabilities\<close>

lemma drop_caps_ok:
  "owns h caps \<Longrightarrow> drop_caps caps h = Some ((), h\<lparr>live := live h - set (caps_addrs caps)\<rparr>)"
  by (simp add: drop_caps_def mem_bind_def ret_def free_c_vcp_entries_ok)

lemma caps_addrs_cong: "c_vcp a = c_vcp b \<Longrightarrow> caps_addrs a = caps_addrs b"
  by (simp add: caps_addrs_def)

lemma no_caps_addrs: "c_vcp caps = (\<lambda>_. None) \<Longrightarrow> caps_addrs caps = []"
  by (simp add: caps_addrs_def slot_addrs_def)

lemma copy_caps_ok:
  assumes "heap_ok h"
  obtains (failed) h' where "copy_caps avail caps h = Some (None, h')" "heap_ok h'" "live h' = live h"
  | (staged) staged h' where "copy_caps avail caps h = Some (Some staged, h')" "owns h' staged"
      "live h' = live h \<union> set (caps_addrs staged)" "live h \<inter> set (caps_addrs staged) = {}"
proof -
  let ?none = "\<lparr>c_vcp = \<lambda>_. None, c_monitor_type = c_monitor_type caps\<rparr>"
  have none: "caps_addrs ?none = []" by (simp add: no_caps_addrs)
  then have "owns h ?none" using assms by (simp add: owns_def)
  then obtain b staged h' where
    r: "replace_c_caps avail ?none (caps_from_c caps) h = Some ((b, staged), h')" and own: "owns h' staged"
    and "live h' = (live h - set (caps_addrs ?none)) \<union> set (caps_addrs staged)"
      "set (caps_addrs staged) \<inter> (live h - set (caps_addrs ?none)) = {}"
    by (rule replace_c_caps_ok [OF _ caps_from_c_get(1)])
  then have l: "live h' = live h \<union> set (caps_addrs staged)" "live h \<inter> set (caps_addrs staged) = {}"
    unfolding none by auto
  show ?thesis
  proof (cases b)
    case True
    then show ?thesis using staged [of staged h'] r own l by (simp add: copy_caps_def mem_bind_def ret_def)
  next
    case False
    have "live h' - set (caps_addrs staged) = live h" using l by blast
    with False show ?thesis using failed [of "h'\<lparr>live := live h\<rparr>"] r own drop_caps_ok [OF own]
      by (auto simp: copy_caps_def mem_bind_def ret_def owns_def heap_ok_def)
  qed
qed

lemma start_unique: "unique_addresses (start_state translate options caps h)"
proof -
  let ?b = "ls_build (start_state translate options caps h)"
  have "concat (map group_controls (groups_from_options translate options)) = []"
    by (auto simp: groups_from_options_def group_controls_def)
  then have "build_controls ?b = []" unfolding build_controls_def start_state_def by (simp only: load_state.simps monitor_build.simps)
  then show ?thesis by (simp add: unique_addresses_def build_addresses_def)
qed

section \<open>The tree\<close>

definition tree_addresses :: "c_monitor_db \<Rightarrow> u8 list" where
  "tree_addresses m =
     concat (map (\<lambda>g. concat (map (\<lambda>sg. map cc_address (cs_controls sg)) (cg_subgroups g))) (cm_groups m))"

lemma list_all2_concat:
  "list_all2 R xs ys \<Longrightarrow> (\<And>x y. R x y \<Longrightarrow> f x = g y) \<Longrightarrow> concat (map f xs) = concat (map g ys)"
  by (induction rule: list_all2_induct) auto

lemma list_all2_map_eq:
  "list_all2 R xs ys \<Longrightarrow> (\<And>x y. R x y \<Longrightarrow> f x = g y) \<Longrightarrow> map f xs = map g ys"
  by (induction rule: list_all2_induct) auto

lemma rep_addresses:
  assumes "monitor_rep b m" shows "tree_addresses m = build_addresses b"
proof -
  have "map dc_address (ds_controls sg) = map cc_address (cs_controls p)" if "subgroup_rep sg p" for sg p
    using that by (intro list_all2_map_eq [of control_rep]) (auto simp: subgroup_rep_def control_rep_def)
  then have "concat (map (\<lambda>sg. map dc_address (ds_controls sg)) (dg_subgroups g))
      = concat (map (\<lambda>sg. map cc_address (cs_controls sg)) (cg_subgroups p))" if "group_rep g p" for g p
    using that by (intro list_all2_concat [of subgroup_rep]) (auto simp: group_rep_def)
  then have "concat (map (\<lambda>g. concat (map (\<lambda>sg. map dc_address (ds_controls sg)) (dg_subgroups g))) (mb_groups b)) = tree_addresses m"
    unfolding tree_addresses_def using assms by (intro list_all2_concat [of group_rep]) (auto simp: monitor_rep_def)
  then show ?thesis
    by (simp add: build_addresses_def build_controls_def group_controls_def [abs_def] map_concat comp_def)
qed

lemma prune_group_controls: "group_controls (g\<lparr>dg_subgroups := filter (\<lambda>sg. ds_controls sg \<noteq> []) (dg_subgroups g)\<rparr>) = group_controls g"
proof -
  have "concat (map ds_controls (filter (\<lambda>sg. ds_controls sg \<noteq> []) xs)) = concat (map ds_controls xs)" for xs :: "db_subgroup list"
    by (induction xs) auto
  then show ?thesis by (simp add: group_controls_def)
qed

lemma prune_controls: "concat (map group_controls (prune_empty_groups gs)) = concat (map group_controls gs)"
proof (induction gs)
  case (Cons g gs)
  have "group_controls g = []" if "filter (\<lambda>sg. ds_controls sg \<noteq> []) (dg_subgroups g) = []"
    using prune_group_controls [of g, symmetric] that by (simp add: group_controls_def)
  with Cons show ?case by (auto simp: prune_empty_groups_def prune_group_controls)
qed (simp add: prune_empty_groups_def)

lemma final_build_addresses: "final_build ft b = Some b' \<Longrightarrow> build_addresses b' = build_addresses b"
  by (auto simp: final_build_def build_addresses_def build_controls_def prune_controls split: if_splits)

section \<open>The outcome of creating a tree\<close>

text \<open>
  A call that fails gives back every block it took and leaves the caller's capabilities. A call that
  succeeds hands out the tree, and replaces the blocks of the caller's capabilities.
\<close>

lemma create_loaded_ok:
  assumes s: "caps_owned (live h) s" and own: "owns h caps"
  obtains (failed) flag h' where "create_loaded avail req ft caps (r, s) = Some ((None, caps, flag), h')" "heap_ok h'"
      "live h' = live h" "req \<Longrightarrow> flag"
  | (created) build m caps' h' where "create_loaded avail req ft caps (r, s) = Some ((Some m, caps', False), h')"
      "r = Inr ()" "final_build ft (ls_build s) = Some build" "monitor_rep build m" "owns h' caps'"
      "holds (h\<lparr>live := live h - set (caps_addrs caps)\<rparr>) (caps_addrs caps' @ monitor_addrs m) h'"
proof -
  have sown: "owns (ls_heap s) (ls_caps s)" and disj: "live h \<inter> set (caps_addrs (ls_caps s)) = {}"
    and live: "live (ls_heap s) = live h \<union> set (caps_addrs (ls_caps s))"
    using s by (auto simp: caps_owned_def)
  have dropped: "\<exists>h'. drop_caps (ls_caps s) h1 = Some ((), h') \<and> heap_ok h' \<and> live h' = live h"
    if "holds (ls_heap s) [] h1" for h1
  proof -
    have "owns h1 (ls_caps s)" using that sown by (auto simp: owns_def holds_def)
    moreover have "live h1 - set (caps_addrs (ls_caps s)) = live h" using that live disj by (auto simp: holds_def)
    ultimately show ?thesis using drop_caps_ok [of h1 "ls_caps s"] by (auto simp: owns_def heap_ok_def)
  qed
  have self: "holds (ls_heap s) [] (ls_heap s)" using sown by (simp add: holds_self owns_def)
  from dropped [OF self] obtain h0 where h0: "drop_caps (ls_caps s) (ls_heap s) = Some ((), h0)" "heap_ok h0" "live h0 = live h"
    by blast
  show ?thesis
  proof (cases r)
    case (Inl e)
    with h0 show ?thesis using failed [of "req \<or> de_required_feature e" h0] by (simp add: create_loaded_def mem_bind_def ret_def)
  next
    case (Inr u)
    show ?thesis
    proof (cases "final_build ft (ls_build s)")
      case None
      with h0 Inr show ?thesis using failed [of req h0] by (simp add: create_loaded_def mem_bind_def ret_def)
    next
      case (Some build)
      have "outcome (ls_heap s) monitor_addrs (monitor_rep build) (\<not> (\<forall>n. avail n) \<or> \<not> monitor_clean build)
          (alloc_monitor avail build) (ls_heap s)" using sown by (intro c_monitor.alloc_law) (simp add: owns_def)
      then consider (none) h1 where "alloc_monitor avail build (ls_heap s) = Some (None, h1)" "holds (ls_heap s) [] h1"
        | (tree) m h1 where "alloc_monitor avail build (ls_heap s) = Some (Some m, h1)" "monitor_rep build m"
            "holds (ls_heap s) (monitor_addrs m) h1"
        by (auto simp: outcome_def split: option.splits prod.splits)
      then show ?thesis
      proof cases
        case none
        from dropped [OF none(2)] obtain h2 where "drop_caps (ls_caps s) h1 = Some ((), h2)" "heap_ok h2" "live h2 = live h" by blast
        with none Inr Some show ?thesis using failed [of req h2] by (simp add: create_loaded_def mem_bind_def ret_def)
      next
        case tree
        obtain old new where pub: "publish (ls_caps s) caps = (old, new)" by fastforce
        then have addrs: "caps_addrs old = caps_addrs caps" "caps_addrs new = caps_addrs (ls_caps s)"
          by (auto simp: publish_def intro!: caps_addrs_cong)
        let ?h = "h1\<lparr>live := live h1 - set (caps_addrs old)\<rparr>"
        have "owns h1 old" using tree(3) own live by (auto simp: owns_def holds_def addrs)
        then have "drop_caps old h1 = Some ((), ?h)" by (rule drop_caps_ok)
        moreover have "holds (h\<lparr>live := live h - set (caps_addrs caps)\<rparr>) (caps_addrs new @ monitor_addrs m) ?h"
          using tree(3) own sown live disj by (auto simp: owns_def holds_def addrs heap_ok_def)
        moreover from this have "owns ?h new" by (auto simp: owns_def holds_def)
        ultimately show ?thesis using created [of m new ?h build] Inr Some tree(1,2) pub
          by (simp add: create_loaded_def mem_bind_def ret_def)
      qed
    qed
  qed
qed

lemma create_db_result:
  assumes own: "owns h caps"
  obtains (failed) flag h' where "create_db avail translate cx pnpname caps faulttolerance h = Some ((None, caps, flag), h')"
      "heap_ok h'" "live h' = live h" "(\<exists>x. requirement_reach cx pnpname x \<and> requirement_at cx x) \<Longrightarrow> flag"
  | (created) ft b build m caps' h'
    where "create_db avail translate cx pnpname caps faulttolerance h = Some ((Some m, caps', False), h')"
      "final_build ft b = Some build" "monitor_rep build m" "owns h' caps'"
      "holds (h\<lparr>live := live h - set (caps_addrs caps)\<rparr>) (caps_addrs caps' @ monitor_addrs m) h'"
      "distinct (build_addresses b)" "{a. protects cx pnpname 0 a} \<inter> set (build_addresses b) = {}"
proof -
  let ?req = "\<exists>x. requirement_reach cx pnpname x \<and> requirement_at cx x"
  let ?ft = "faulttolerance \<noteq> 0 \<and> \<not> overrides cx pnpname"
  have ok: "heap_ok h" using own by (simp add: owns_def)
  show ?thesis
  proof (cases rule: copy_caps_ok [OF ok, of avail caps, case_names failed staged])
    case (failed h')
    then show ?thesis using that(1) [of ?req h'] by (simp add: create_db_def requirements_exact)
  next
    case (staged staged h1)
    let ?s = "start_state translate (cx_options cx) staged h1"
    have s: "caps_owned (live h) ?s" using staged by (simp add: caps_owned_def start_state_def)
    then obtain r s' where load: "create_db_protected avail translate cx (strict_mode ?ft) pnpname 0 ?s = Some (r, s')"
      and s': "caps_owned (live h) s'" "unique_addresses s'"
      using preservesD [OF unique_load.create_db, of "live h" ?s] start_unique by blast
    have eq: "create_db avail translate cx pnpname caps faulttolerance h = create_loaded avail ?req ?ft caps (r, s')"
      using staged load by (simp add: create_db_def requirements_exact)
    show ?thesis
    proof (cases rule: create_loaded_ok [OF s'(1) own, of avail ?req ?ft r, case_names failed created])
      case (failed flag h')
      then show ?thesis using that(1) [of flag h'] eq by simp
    next
      case (created build m caps' h')
      have "sealed {a. protects cx pnpname 0 a} s'"
        using create_db_seals [of "live h" cx pnpname 0 avail translate ?ft] s load created(2) by (auto simp: seals_def)
      then show ?thesis using that(2) [of m caps' h' ?ft "ls_build s'" build] created s'(2) eq
        by (simp add: sealed_def unique_addresses_def)
    qed
  qed
qed

section \<open>What a caller may rely on\<close>

text \<open>
  C29: the search for required semantics ends, includes in a cycle or not, and finds them exactly if
  the profile, or a profile it includes directly or through others, carries a required element or
  names a shared control that does. The profile chosen by file stands in for the one of its name at
  the top level only.
\<close>

theorem profile_has_requirements_exact:
  "profile_has_requirements cx pnpname =
     Some (\<exists>item root. requirement_reach cx pnpname item \<and> requirement_root cx item = Some root
             \<and> requirement_here (cx_options cx) root)"
proof -
  have "requirement_at cx item \<longleftrightarrow> (\<exists>root. requirement_root cx item = Some root \<and> requirement_here (cx_options cx) root)" for item
    by (auto simp: requirement_at_def split: option.splits)
  then show ?thesis by (simp add: requirements_exact)
qed

text \<open>
  C30: creating a tree ends without a fault whatever allocations fail. A null result leaves the
  caller's capabilities and the live blocks as they were. A tree is made of blocks of its own, and the
  blocks of the caller's old capabilities are replaced by those of the new ones.
\<close>

theorem create_db_ownership:
  assumes "owns h caps"
  shows "\<exists>monitor caps' flag h'.
      create_db_inner avail translate context pnpname (Some caps) faulttolerance h = Some ((monitor, Some caps', flag), h')
      \<and> (case monitor of
           None \<Rightarrow> caps' = caps \<and> live h' = live h
         | Some m \<Rightarrow> owns h' caps'
             \<and> holds (h\<lparr>live := live h - set (caps_addrs caps)\<rparr>) (caps_addrs caps' @ monitor_addrs m) h')"
proof (cases "pnpname = None \<or> context = None")
  case True
  then show ?thesis by (auto simp: create_db_inner_def ret_def split: option.splits)
next
  case False
  then obtain name cx where some: "pnpname = Some name" "context = Some cx" by auto
  show ?thesis
    by (cases rule: create_db_result [OF assms, of avail translate cx "utf8_lossy name" faulttolerance])
      (auto simp: some create_db_inner_def mem_bind_def ret_def intro: exI [of _ False])
qed

text \<open>
  C31: no two controls of a tree have the same address, however the profile and its includes define
  them.
\<close>

theorem create_db_distinct_addresses:
  assumes "owns h caps"
    and "create_db_inner avail translate context pnpname (Some caps) faulttolerance h = Some ((Some m, caps', flag), h')"
  shows "distinct (tree_addresses m)"
proof -
  obtain name cx where some: "pnpname = Some name" "context = Some cx"
    using assms(2) by (auto simp: create_db_inner_def ret_def split: option.splits)
  show ?thesis
    by (cases rule: create_db_result [OF assms(1), of avail translate cx "utf8_lossy name" faulttolerance])
      (use assms(2) in \<open>simp_all add: some create_db_inner_def mem_bind_def ret_def rep_addresses final_build_addresses\<close>)
qed

text \<open>
  C32: a tree has no control at an address that the profile or an include reserves: the address of an
  element that carries required semantics, or that names a shared control that does. This holds
  wherever in the profiles another control with that address stands.
\<close>

theorem create_db_protects:
  assumes "owns h caps"
    and "create_db_inner avail translate (Some cx) (Some name) (Some caps) faulttolerance h = Some ((Some m, caps', flag), h')"
    and "protects cx (utf8_lossy name) 0 a"
  shows "a \<notin> set (tree_addresses m)"
  by (cases rule: create_db_result [OF assms(1), of avail translate cx "utf8_lossy name" faulttolerance])
    (use assms(2,3) in \<open>auto simp: create_db_inner_def mem_bind_def ret_def rep_addresses final_build_addresses\<close>)

text \<open>
  C33: the flag that forbids a generic replacement is set whenever no tree results and the profile or
  an include needs unsupported semantics, whatever the reason of the failure, and is clear with a tree.
\<close>

theorem create_db_requirements_flag:
  assumes "owns h caps"
    and "create_db_inner avail translate (Some cx) (Some name) (Some caps) faulttolerance h = Some ((monitor, caps', flag), h')"
  shows "if monitor = None
    then profile_has_requirements cx (utf8_lossy name) = Some True \<longrightarrow> flag
    else \<not> flag"
  by (cases rule: create_db_result [OF assms(1), of avail translate cx "utf8_lossy name" faulttolerance])
    (use assms(2) in \<open>auto simp: create_db_inner_def mem_bind_def ret_def requirements_exact\<close>)

section \<open>A sample\<close>

text \<open>
  A profile with one control that can be offered and one that is reserved, and capabilities that
  support the first.
\<close>

definition sample_profile :: node where
  "sample_profile =
     Node ''monitor'' [(''init'', ''standard''), (''name'', ''Sample'')]
       [Node ''controls'' []
          [Node ''control'' [(''address'', ''0x10''), (''id'', ''brightness'')] [] 3 False,
           Node ''control'' [(''address'', ''0x12''), (''id'', ''contrast'')] [] 4 True] 2 False] 1 False"

definition sample_context :: db_context where
  "sample_context =
     \<lparr>cx_profiles = [(''SAM0001'', Ok sample_profile)],
      cx_options = \<lparr>od_groups = [\<lparr>og_name = ''Color'', og_subgroups = [\<lparr>os_name = ''Levels'', os_pattern = None,
        os_controls = [\<lparr>oc_unavailable = False, oc_id = ''brightness'', oc_name = ''Brightness'', oc_type = Type_Value,
          oc_refresh = Refresh_None, oc_raw_address = None, oc_values = []\<rparr>]\<rparr>]\<rparr>]\<rparr>,
      cx_monitor_file = None\<rparr>"

definition sample_caps :: c_caps where
  "sample_caps = \<lparr>c_vcp = \<lambda>code. if code = 0x10 then Some \<lparr>ce_ptr = 0, ce_values_len = -1, ce_values = None\<rparr> else None, c_monitor_type = 1\<rparr>"

definition sample_heap :: heap where
  "sample_heap = \<lparr>calls = 1, live = {0}\<rparr>"

lemma sample_caps_addrs: "caps_addrs sample_caps = [0]"
proof -
  have "concat (map (\<lambda>code. if code = a then [p] else []) xs) = [p]" if "distinct xs" "a \<in> set xs" for a :: u8 and p :: ptr and xs
    using that
  proof (induction xs)
    case (Cons x xs)
    have "concat (map (\<lambda>code. if code = a then [p] else []) ys) = []" if "a \<notin> set ys" for ys using that by (induction ys) auto
    with Cons show ?case by auto
  qed simp
  from this [of all_codes "0x10" 0] show ?thesis
    by (simp add: caps_addrs_def sample_caps_def slot_addrs_def entry_addrs_def if_distrib cong: if_cong)
qed

lemma sample_owns: "owns sample_heap sample_caps"
  by (simp add: owns_def sample_caps_addrs heap_ok_def sample_heap_def)

definition sample_staged :: c_caps where
  "sample_staged = \<lparr>c_vcp = (\<lambda>_. None)(0x10 \<mapsto> \<lparr>ce_ptr = 1, ce_values_len = -1, ce_values = None\<rparr>), c_monitor_type = 1\<rparr>"

lemma sample_read: "caps_from_c sample_caps = \<lparr>caps_type = Lcd, caps_vcp = [(0x10, None)]\<rparr>"
  by (rule caps_from_c_eq) (auto simp: bt_invar_def sample_caps_def type_to_c_def small_values_def small_entry_def bt_get_def
      entry_rep_def entry_values_def)

lemma sample_no_entries:
  "heap_ok h \<Longrightarrow> free_c_vcp_entries \<lparr>c_vcp = \<lambda>_. None, c_monitor_type = t\<rparr> h = Some (\<lparr>c_vcp = \<lambda>_. None, c_monitor_type = t\<rparr>, h)"
  using free_c_vcp_entries_ok [of h "\<lparr>c_vcp = \<lambda>_. None, c_monitor_type = t\<rparr>"] by (simp add: owns_def no_caps_addrs)

lemmas copy_defs = sample_staged_def copy_caps_def sample_read replace_c_caps_def mem_bind_def alloc_entry_def malloc_def ret_def
  sample_heap_def type_to_c_def heap_ok_def drop_caps_def sample_no_entries

lemma sample_copy:
  "copy_caps (\<lambda>_. True) sample_caps sample_heap = Some (Some sample_staged, \<lparr>calls = 2, live = {0, 1}\<rparr>)"
  by (simp add: copy_defs insert_commute)

lemma sample_no_memory: "copy_caps (\<lambda>_. False) sample_caps sample_heap = Some (None, \<lparr>calls = 2, live = {0}\<rparr>)"
  by (simp add: copy_defs)

lemma sample_requirements: "profile_has_requirements sample_context ''SAM0001'' = Some True"
  by code_simp

lemma sample_numbers: "parse_integer ''0x10'' = Ok 16" "parse_integer ''0x12'' = Ok 18" "is_valid_monitor_profile_name ''SAM0001''"
  by code_simp+

lemmas loader_defs = sample_numbers lbind_def lret_def lfail_def lift_def enter_profile_def open_root_def find_root_def set_name_def
  set_init_def init_of_def check_deprecated_def profile_child_def controls_child_def reserve_required_def required_address_def
  suppress_address_def add_controls_from_options_def block_step_def add_control_def push_control_def finish_profile_def
  parse_monitor_controls_def parse_monitor_control_def map_filter_def parse_element_def monitor_control_address_def
  monitor_control_delay_def get_value_list_def option_slots_def options_controls_def start_state_def groups_from_options_def
  strict_mode_def sample_context_def sample_profile_def bt_get_def node_attr_def u8_try_from_def type_code_def refresh_code_def
  map_controls_def INIT_TYPE_UNKNOWN_def INIT_TYPE_STANDARD_def ok_or_def

lemma sample_load:
  "map_option (\<lambda>(r, s). (r, ls_build s)) (create_db_protected (\<lambda>_. True) (\<lambda>x. x) sample_context (strict_mode False) ''SAM0001'' 0
     (start_state (\<lambda>x. x) (cx_options sample_context) sample_staged \<lparr>calls = 2, live = {0, 1}\<rparr>))
   = Some (Inr (), \<lparr>mb_include_visits = 1, mb_name = Some ''Sample'', mb_init = 1,
       mb_groups = [\<lparr>dg_name = ''Color'', dg_subgroups = [\<lparr>ds_name = ''Levels'', ds_pattern = None,
         ds_controls = [\<lparr>dc_id = ''brightness'', dc_name = ''Brightness'', dc_address = 0x10, dc_delay = -1,
           dc_type = 0, dc_refresh = 0, dc_values = []\<rparr>]\<rparr>]\<rparr>]\<rparr>)"
proof -
  have "map_option (\<lambda>(r, s). (r, ls_build s))
     (lbind (enter_profile ''SAM0001'') (\<lambda>_.
      lbind (open_root sample_context (strict_mode False) ''SAM0001'' 0) (\<lambda>root.
      lbind (lfor (profile_child (\<lambda>_. True) (\<lambda>x. x) sample_context (strict_mode False) f)
             (node_children root) (False, False)) finish_profile))
     (start_state (\<lambda>x. x) (cx_options sample_context) sample_staged \<lparr>calls = 2, live = {0, 1}\<rparr>))
   = Some (Inr (), \<lparr>mb_include_visits = 1, mb_name = Some ''Sample'', mb_init = 1,
       mb_groups = [\<lparr>dg_name = ''Color'', dg_subgroups = [\<lparr>ds_name = ''Levels'', ds_pattern = None,
         ds_controls = [\<lparr>dc_id = ''brightness'', dc_name = ''Brightness'', dc_address = 0x10, dc_delay = -1,
           dc_type = 0, dc_refresh = 0, dc_values = []\<rparr>]\<rparr>]\<rparr>]\<rparr>)" for f
    by (simp add: loader_defs sample_staged_def)
  then show ?thesis by (simp only: create_db_shallow [of 0] less_nat_zero_code not_False_eq_True)
qed

lemma sample_created:
  obtains m caps' h' where "create_db_inner (\<lambda>_. True) (\<lambda>x. x) (Some sample_context) (Some ''SAM0001'') (Some sample_caps) 0 sample_heap
      = Some ((Some m, Some caps', False), h')"
    "tree_addresses m = [0x10]"
proof -
  let ?h = "\<lparr>calls = 2, live = {0, 1}\<rparr> :: heap"
  let ?s = "start_state (\<lambda>x. x) (cx_options sample_context) sample_staged ?h"
  let ?addr = "caps_addrs sample_staged"
  have ok: "heap_ok sample_heap" using sample_owns by (simp add: owns_def)
  have staged: "owns ?h sample_staged \<and> live ?h = live sample_heap \<union> set ?addr \<and> live sample_heap \<inter> set ?addr = {}"
  proof (cases rule: copy_caps_ok [OF ok, of "\<lambda>_. True" sample_caps, case_names failed staged])
    case (staged staged h')
    then have "staged = sample_staged" "h' = ?h" using sample_copy by simp_all
    with staged(2-4) show ?thesis by blast
  qed (use sample_copy in simp)
  then have s: "caps_owned (live sample_heap) ?s"
    unfolding caps_owned_def start_state_def by (simp only: load_state.simps)
  obtain s' where load: "create_db_protected (\<lambda>_. True) (\<lambda>x. x) sample_context (strict_mode False) ''SAM0001'' 0 ?s = Some (Inr (), s')"
    and build: "ls_build s' = \<lparr>mb_include_visits = 1, mb_name = Some ''Sample'', mb_init = 1,
       mb_groups = [\<lparr>dg_name = ''Color'', dg_subgroups = [\<lparr>ds_name = ''Levels'', ds_pattern = None,
         ds_controls = [\<lparr>dc_id = ''brightness'', dc_name = ''Brightness'', dc_address = 0x10, dc_delay = -1,
           dc_type = 0, dc_refresh = 0, dc_values = []\<rparr>]\<rparr>]\<rparr>]\<rparr>"
    using sample_load by auto
  have s': "caps_owned (live sample_heap) s'"
    using preservesD [OF owned_load.create_db s] load by (metis option.inject prod.inject)
  have final: "final_build False (ls_build s') = Some (ls_build s')"
    by (simp add: build final_build_def prune_empty_groups_def INIT_TYPE_UNKNOWN_def)
  have "monitor_clean (ls_build s')"
    by (simp add: build monitor_clean_def build_name_def group_clean_def subgroup_clean_def pattern_clean_def control_clean_def)
  then obtain m h1 where tree: "alloc_monitor (\<lambda>_. True) (ls_build s') (ls_heap s') = Some (Some m, h1)"
    using c_monitor.alloc_law [of "ls_heap s'" "ls_build s'" "\<lambda>_. True"] s'
    by (auto simp: outcome_def caps_owned_def owns_def split: option.splits prod.splits)
  have eq: "create_db (\<lambda>_. True) (\<lambda>x. x) sample_context ''SAM0001'' sample_caps 0 sample_heap
      = create_loaded (\<lambda>_. True) True False sample_caps (Inr (), s')"
    using load by (simp add: create_db_def sample_requirements sample_copy)
  have name: "utf8_lossy ''SAM0001'' = ''SAM0001''" by code_simp
  show ?thesis
  proof (cases rule: create_loaded_ok [OF s' sample_owns, of "\<lambda>_. True" True False "Inr ()", case_names failed created])
    case (failed flag h')
    then show ?thesis using final tree by (auto simp: create_loaded_def mem_bind_def ret_def split: option.splits prod.splits)
  next
    case (created build' m' caps' h')
    have "tree_addresses m' = [0x10]"
      using created(3,4) final rep_addresses [of build' m'] by (simp add: build build_addresses_def build_controls_def group_controls_def)
    then show ?thesis using that created(1) eq name by (simp add: create_db_inner_def mem_bind_def ret_def)
  qed
qed

theorem create_db_ownership_witness:
  "\<exists>m caps' flag h'.
      create_db_inner (\<lambda>_. True) (\<lambda>x. x) (Some sample_context) (Some ''SAM0001'') (Some sample_caps) 0 sample_heap
        = Some ((Some m, Some caps', flag), h')
      \<and> owns h' caps' \<and> holds (sample_heap\<lparr>live := {}\<rparr>) (caps_addrs caps' @ monitor_addrs m) h'"
proof -
  obtain m caps' h' where run: "create_db_inner (\<lambda>_. True) (\<lambda>x. x) (Some sample_context) (Some ''SAM0001'') (Some sample_caps) 0 sample_heap
      = Some ((Some m, Some caps', False), h')" by (rule sample_created)
  have "live sample_heap - set (caps_addrs sample_caps) = {}" by (simp add: sample_caps_addrs sample_heap_def)
  with run create_db_ownership [OF sample_owns, of "\<lambda>_. True" "\<lambda>x. x" "Some sample_context" "Some ''SAM0001''" 0]
  show ?thesis by auto
qed

theorem create_db_distinct_addresses_witness:
  "\<exists>m caps' flag h'.
      create_db_inner (\<lambda>_. True) (\<lambda>x. x) (Some sample_context) (Some ''SAM0001'') (Some sample_caps) 0 sample_heap
        = Some ((Some m, caps', flag), h') \<and> tree_addresses m = [0x10] \<and> distinct (tree_addresses m)"
proof -
  obtain m caps' h' where run: "create_db_inner (\<lambda>_. True) (\<lambda>x. x) (Some sample_context) (Some ''SAM0001'') (Some sample_caps) 0 sample_heap
      = Some ((Some m, Some caps', False), h')" "tree_addresses m = [0x10]" by (rule sample_created)
  from create_db_distinct_addresses [OF sample_owns run(1)] run show ?thesis by blast
qed

theorem create_db_protects_witness:
  "\<exists>m caps' flag h'.
      create_db_inner (\<lambda>_. True) (\<lambda>x. x) (Some sample_context) (Some ''SAM0001'') (Some sample_caps) 0 sample_heap
        = Some ((Some m, caps', flag), h')
      \<and> protects sample_context ''SAM0001'' 0 0x12 \<and> 0x12 \<notin> set (tree_addresses m)"
proof -
  obtain m caps' h' where run: "create_db_inner (\<lambda>_. True) (\<lambda>x. x) (Some sample_context) (Some ''SAM0001'') (Some sample_caps) 0 sample_heap
      = Some ((Some m, Some caps', False), h')" by (rule sample_created)
  have "utf8_lossy ''SAM0001'' = ''SAM0001''" by code_simp
  moreover have "protects sample_context ''SAM0001'' 0 0x12"
  proof (rule protects_own)
    show "find_root sample_context ''SAM0001'' 0 = Ok sample_profile"
      by (simp add: find_root_def sample_context_def bt_get_def)
    show "node_children sample_profile ! 0 \<in> set (node_children sample_profile)" by (simp add: sample_profile_def)
    show "node_tag (node_children sample_profile ! 0) = ''controls''" by (simp add: sample_profile_def)
    show "Node ''control'' [(''address'', ''0x12''), (''id'', ''contrast'')] [] 4 True
        \<in> set (node_children (node_children sample_profile ! 0))" by (simp add: sample_profile_def)
    show "reserves (cx_options sample_context) (Node ''control'' [(''address'', ''0x12''), (''id'', ''contrast'')] [] 4 True) 0x12"
      by (simp add: reserves_def node_address_def node_attr_def bt_get_def sample_numbers u8_try_from_def)
  qed
  ultimately show ?thesis using create_db_protects [OF sample_owns run, of "0x12"] run by auto
qed

theorem create_db_requirements_flag_witness:
  "\<exists>caps' flag h'.
      create_db_inner (\<lambda>_. False) (\<lambda>x. x) (Some sample_context) (Some ''SAM0001'') (Some sample_caps) 0 sample_heap
        = Some ((None, caps', flag), h') \<and> flag"
proof -
  have name: "utf8_lossy ''SAM0001'' = ''SAM0001''" by code_simp
  then obtain caps' flag h' where
    run: "create_db_inner (\<lambda>_. False) (\<lambda>x. x) (Some sample_context) (Some ''SAM0001'') (Some sample_caps) 0 sample_heap
        = Some ((None, caps', flag), h')"
    by (simp add: create_db_inner_def create_db_def sample_requirements sample_no_memory mem_bind_def ret_def)
  from create_db_requirements_flag [OF sample_owns run] have flag by (simp add: name sample_requirements)
  with run show ?thesis by blast
qed

end
