(* ===== verification/Xml_Source.thy ===== *)
theory Xml_Source
  imports Cbor_Value Utf8
begin

text \<open>
  \<^verbatim>\<open>crates/ddccontrol-db-format/src/xml.rs\<close>: which encoding an XML source declares, its decoding,
  and the removal of what precedes the XML declaration. The tables and decoders of the crate
  \<open>encoding_rs\<close> are a parameter, the record \<open>encodings\<close>. A cursor into a text is modelled by
  the rest of the text from the cursor on.
\<close>

section \<open>The encoding label\<close>

definition byte_is_whitespace :: "u8 \<Rightarrow> bool" where
  [rust_std]: "byte_is_whitespace b \<longleftrightarrow> b \<in> {9, 10, 12, 13, 32}"

definition trim_ascii_bytes_start :: "bytes \<Rightarrow> bytes" where
  "trim_ascii_bytes_start input =
     drop (case find_position (\<lambda>b. \<not> byte_is_whitespace b) input of Some i \<Rightarrow> i | None \<Rightarrow> length input) input"

text \<open>The input from the XML declaration on.\<close>

function xml_declaration_start :: "bytes \<Rightarrow> bytes option" where
  "xml_declaration_start bs =
     (case find_position (\<lambda>b. \<not> byte_is_whitespace b) bs of
        None \<Rightarrow> None
      | Some i \<Rightarrow>
          (let rest = drop i bs
           in if starts_with (str_bytes ''<?xml'') rest then Some rest
              else if \<not> starts_with (str_bytes ''<!--'') rest then None
              else case find_window (str_bytes ''-->'') (drop 4 rest) of
                     None \<Rightarrow> None
                   | Some comment_end \<Rightarrow> xml_declaration_start (drop (4 + comment_end + 3) rest)))"
  by pat_completeness auto
termination
  by (relation "measure length") (auto simp: find_position_eq_Some)

declare xml_declaration_start.simps [simp del]

definition quoted_label :: "bytes \<Rightarrow> bytes option" where
  "quoted_label after_equals =
     (case after_equals of
        [] \<Rightarrow> None
      | quote # rest \<Rightarrow>
          if quote \<noteq> byte_of (CHR 0x27) \<and> quote \<noteq> byte_of (CHR 0x22) then None
          else map_option (\<lambda>index. take index rest) (find_position (\<lambda>b. b = quote) rest))"

definition xml_declared_label :: "bytes \<Rightarrow> bytes option" where
  "xml_declared_label bs =
     (case xml_declaration_start bs of
        None \<Rightarrow> None
      | Some rest \<Rightarrow>
          (let prefix = take 256 rest;
               declaration_end = (case find_window (str_bytes ''?>'') prefix of Some i \<Rightarrow> i | None \<Rightarrow> length prefix);
               declaration = take declaration_end prefix
           in case find_window (str_bytes ''encoding'') declaration of
                None \<Rightarrow> None
              | Some encoding_index \<Rightarrow>
                  (let after_encoding = trim_ascii_bytes_start (drop (encoding_index + 8) declaration)
                   in case strip_prefix (str_bytes ''='') after_encoding of
                        None \<Rightarrow> None
                      | Some r \<Rightarrow> quoted_label (trim_ascii_bytes_start r))))"

section \<open>Decoding\<close>

record 'enc encodings =
  for_label :: "bytes \<Rightarrow> 'enc option"
  for_bom :: "bytes \<Rightarrow> ('enc \<times> nat) option"
  enc_decode :: "'enc \<Rightarrow> bytes \<Rightarrow> string \<times> bool"
  enc_utf8 :: 'enc

datatype source_error = Unsupported_source_encoding bytes | Malformed_source_encoding

definition xml_declared_encoding :: "'enc encodings \<Rightarrow> bytes \<Rightarrow> 'enc option" where
  "xml_declared_encoding encs bs = Option.bind (xml_declared_label bs) (for_label encs)"

definition decode_xml_bytes :: "'enc encodings \<Rightarrow> bytes \<Rightarrow> string" where
  "decode_xml_bytes encs bs =
     (let encoding = (case xml_declared_encoding encs bs of Some e \<Rightarrow> e | None \<Rightarrow> enc_utf8 encs)
      in fst (enc_decode encs encoding bs))"

text \<open>The rest of the text from its first character that is not white space.\<close>

function skip_whitespace :: "string \<Rightarrow> string" where
  "skip_whitespace s =
     (case next_char s of
        None \<Rightarrow> s
      | Some (c, r) \<Rightarrow> if is_whitespace c then skip_whitespace r else s)"
  by pat_completeness auto
termination
  by (relation "measure length") (auto dest: next_char_shorter)

declare skip_whitespace.simps [simp del]

lemma skip_whitespace_shorter: "length (skip_whitespace s) \<le> length s"
proof (induction s rule: skip_whitespace.induct)
  case (1 s)
  then show ?case by (subst skip_whitespace.simps) (fastforce split: option.splits dest: next_char_shorter)
qed

function skip_comments :: "string \<Rightarrow> string option" where
  "skip_comments s =
     (let rest = skip_whitespace s
      in if \<not> starts_with ''<!--'' rest then Some rest
         else case find_window ''-->'' (drop 4 rest) of
                None \<Rightarrow> None
              | Some comment_end \<Rightarrow> skip_comments (drop (4 + comment_end + 3) rest))"
  by pat_completeness auto
termination
proof (relation "measure length", simp)
  fix s rest comment_end
  assume "rest = skip_whitespace s" "\<not> \<not> starts_with ''<!--'' rest"
  then have "0 < length rest" "length rest \<le> length s"
    by (auto simp: starts_with_iff skip_whitespace_shorter)
  then show "(drop (4 + comment_end + 3) rest, s) \<in> measure length" by (simp del: length_greater_0_conv)
qed

declare skip_comments.simps [simp del]

definition normalize_xml_document :: "string \<Rightarrow> string" where
  "normalize_xml_document xml =
     (case skip_comments xml of
        None \<Rightarrow> xml
      | Some rest \<Rightarrow> if length rest < length xml \<and> starts_with ''<?xml'' rest then rest else xml)"

definition decode_source :: "'enc encodings \<Rightarrow> bytes \<Rightarrow> (string, source_error) result" where
  "decode_source encs bs =
     and_then
       (case for_bom encs bs of
          Some (encoding, _) \<Rightarrow> Ok encoding
        | None \<Rightarrow>
            (case xml_declared_label bs of
               Some label \<Rightarrow> ok_or (for_label encs label) (Unsupported_source_encoding label)
             | None \<Rightarrow> Ok (enc_utf8 encs)))
       (\<lambda>encoding.
          let (decoded, errors) = enc_decode encs encoding bs
          in if errors then Err Malformed_source_encoding else Ok (normalize_xml_document decoded))"

section \<open>What precedes the declaration\<close>

inductive misc :: "string \<Rightarrow> bool" where
  misc_Nil: "misc []"
| misc_space: "is_whitespace c \<Longrightarrow> is_scalar c \<Longrightarrow> misc p \<Longrightarrow> misc (utf8_encode c @ p)"
| misc_comment: "find_window ''-->'' (body @ ''-->'') = Some (length body) \<Longrightarrow> misc p
    \<Longrightarrow> misc (''<!--'' @ body @ ''-->'' @ p)"

lemma starts_with_append: "starts_with pat xs \<Longrightarrow> starts_with pat (xs @ ys)"
  by (auto simp: starts_with_iff)

lemma find_window_append: "find_window pat xs = Some i \<Longrightarrow> find_window pat (xs @ ys) = Some i"
proof (induction pat xs arbitrary: i rule: find_window.induct)
  case (2 pat x xs)
  show ?case
  proof (cases "starts_with pat (x # xs)")
    case True
    then show ?thesis using 2(2) starts_with_append [of pat "x # xs" ys] by simp
  next
    case False
    with 2(2) obtain j where j: "find_window pat xs = Some j" "i = Suc j" by auto
    have "\<not> starts_with pat (x # xs @ ys)"
    proof
      assume "starts_with pat (x # xs @ ys)"
      moreover from find_window_Some [OF j(1)] have "length pat \<le> length xs - j" "j < length xs"
        by (auto simp: starts_with_iff dest!: arg_cong [where f = length])
      ultimately have "starts_with pat (x # xs)" by (auto simp: starts_with_iff append_eq_append_conv2 Cons_eq_append_conv)
      with False show False by simp
    qed
    then show ?thesis using 2(1) [OF False j(1)] j(2) by simp
  qed
qed simp

lemma find_window_split:
  assumes "find_window pat xs = Some i" and "pat \<noteq> []"
  shows "xs = take i xs @ pat @ drop (i + length pat) xs" and "find_window pat (take i xs @ pat) = Some (length (take i xs))"
proof -
  obtain r where r: "drop i xs = pat @ r" and i: "i < length xs"
    using find_window_Some [OF assms(1)] by (auto simp: starts_with_iff)
  then have "drop (i + length pat) xs = r" by (metis add.commute append_eq_conv_conj drop_drop)
  with r show split: "xs = take i xs @ pat @ drop (i + length pat) xs" by (metis append_take_drop_id)
  show "find_window pat (take i xs @ pat) = Some (length (take i xs))"
  proof (cases "find_window pat (take i xs @ pat)")
    case None
    have "length (take i xs) < length (take i xs @ pat)"
      using assms(2) by simp
    from find_window_None [OF None this] show ?thesis by (simp add: starts_with_iff)
  next
    case (Some j)
    from find_window_append [OF this, of "drop (i + length pat) xs"] split assms show ?thesis using i Some by simp
  qed
qed

lemma skip_whitespace_space [simp]:
  "is_whitespace c \<Longrightarrow> is_scalar c \<Longrightarrow> skip_whitespace (utf8_encode c @ s) = skip_whitespace s"
  by (subst skip_whitespace.simps) (simp add: next_char_encode)

lemma skip_whitespace_tag [simp]: "skip_whitespace (CHR ''<'' # s) = CHR ''<'' # s"
  by (subst skip_whitespace.simps) (simp add: next_char_def byte_val_def is_whitespace_def)

lemma skip_whitespace_misc: "\<exists>p. s = p @ skip_whitespace s \<and> (\<forall>q. misc q \<longrightarrow> misc (p @ q))"
proof (induction s rule: skip_whitespace.induct)
  case (1 s)
  show ?case
  proof (cases "next_char s")
    case (Some x)
    obtain c r where x: "x = (c, r)" by fastforce
    note c = next_char_Some [OF Some [unfolded x]]
    show ?thesis
    proof (cases "is_whitespace c")
      case True
      with 1 Some x obtain p where p: "r = p @ skip_whitespace r" "\<forall>q. misc q \<longrightarrow> misc (p @ q)" by blast
      have "skip_whitespace s = skip_whitespace r" using c True skip_whitespace_space by metis
      moreover have "\<forall>q. misc q \<longrightarrow> misc ((utf8_encode c @ p) @ q)"
        using p(2) True c misc_space by (metis append_assoc)
      moreover have "s = (utf8_encode c @ p) @ skip_whitespace r" using c p(1) by (metis append_assoc)
      ultimately show ?thesis by metis
    next
      case False
      then have "skip_whitespace s = s" using Some x by (subst skip_whitespace.simps) simp
      then show ?thesis by (intro exI [of _ "[]"]) simp
    qed
  next
    case None
    then have "skip_whitespace s = s" by (subst skip_whitespace.simps) simp
    then show ?thesis by (intro exI [of _ "[]"]) simp
  qed
qed

lemma skip_comments_misc: "skip_comments s = Some r \<Longrightarrow> \<exists>p. misc p \<and> s = p @ r"
proof (induction s rule: skip_comments.induct)
  case (1 s)
  let ?w = "skip_whitespace s"
  obtain p where p: "s = p @ ?w" "\<forall>q. misc q \<longrightarrow> misc (p @ q)" using skip_whitespace_misc by blast
  show ?case
  proof (cases "starts_with ''<!--'' ?w")
    case False
    with 1(2) have "r = ?w" by (subst (asm) skip_comments.simps) (simp add: Let_def)
    with p misc_Nil show ?thesis by (metis append_Nil2)
  next
    case True
    then have w: "?w = ''<!--'' @ drop 4 ?w" by (auto simp: starts_with_iff)
    from 1(2) True obtain i where i: "find_window ''-->'' (drop 4 ?w) = Some i"
      and rest: "skip_comments (drop (4 + i + 3) ?w) = Some r"
      by (subst (asm) skip_comments.simps) (auto simp: Let_def split: option.splits)
    from 1(1) [OF refl _ i rest] True obtain q where q: "misc q" "drop (4 + i + 3) ?w = q @ r" by blast
    let ?body = "take i (drop 4 ?w)"
    note sp = find_window_split [OF i, simplified]
    have "misc (''<!--'' @ ?body @ ''-->'' @ q)" using sp(2) q(1) by (intro misc_comment) simp_all
    then have "misc (p @ ''<!--'' @ ?body @ ''-->'' @ q)" using p(2) by blast
    moreover have "drop 4 ?w = ?body @ ''-->'' @ q @ r"
      using sp(1) q(2) by (simp add: add.commute)
    then have "s = (p @ ''<!--'' @ ?body @ ''-->'' @ q) @ r" using p(1) w by (metis append_assoc)
    ultimately show ?thesis by blast
  qed
qed

lemma misc_skip_comments:
  assumes "misc p" and r: "starts_with ''<?xml'' r"
  shows "skip_comments (p @ r) = Some r"
  using assms(1)
proof induction
  case misc_Nil
  from r obtain t where "r = ''<?xml'' @ t" by (auto simp: starts_with_iff)
  then show ?case by (subst skip_comments.simps) (simp add: starts_with_def)
next
  case (misc_space c p)
  have "skip_comments (utf8_encode c @ p @ r) = skip_comments (p @ r)"
    using misc_space.hyps by (subst (1 2) skip_comments.simps) simp
  with misc_space.IH show ?case by simp
next
  case (misc_comment body p)
  have "find_window ''-->'' (body @ ''-->'' @ p @ r) = Some (length body)"
    using find_window_append [OF misc_comment.hyps(1), of "p @ r"] by simp
  moreover have "drop (7 + length body) (''<!--'' @ body @ ''-->'' @ p @ r) = p @ r"
    by (simp add: eval_nat_numeral)
  ultimately have "skip_comments (''<!--'' @ body @ ''-->'' @ p @ r) = skip_comments (p @ r)"
    by (subst skip_comments.simps) (simp add: starts_with_def)
  with misc_comment.IH show ?case by simp
qed

text \<open>
  C25: normalising a document removes exactly what precedes its XML declaration: if white space and
  complete comments are followed by a declaration, the result starts at the declaration; in every
  case the removed part consists of white space and complete comments, and a document without such
  a declaration is returned unchanged.
\<close>

theorem normalize_xml_document_exact:
  assumes "misc p" and "starts_with ''<?xml'' r"
  shows "normalize_xml_document (p @ r) = r
    \<and> (\<exists>q. misc q \<and> xml = q @ normalize_xml_document xml)
    \<and> (normalize_xml_document xml = xml \<or> starts_with ''<?xml'' (normalize_xml_document xml))"
proof (intro conjI)
  show "normalize_xml_document (p @ r) = r"
    using misc_skip_comments [OF assms] assms(2) by (simp add: normalize_xml_document_def)
  show "\<exists>q. misc q \<and> xml = q @ normalize_xml_document xml"
    using skip_comments_misc [of xml] misc_Nil
    by (auto simp: normalize_xml_document_def split: option.splits)
  show "normalize_xml_document xml = xml \<or> starts_with ''<?xml'' (normalize_xml_document xml)"
    by (auto simp: normalize_xml_document_def split: option.splits)
qed

theorem normalize_xml_document_exact_witness:
  "normalize_xml_document '' <!-- a --><?xml version=x?>'' = ''<?xml version=x?>''"
proof -
  have "find_window ''-->'' ('' a '' @ ''-->'') = Some (length '' a '')" by (simp add: starts_with_def)
  from misc_comment [OF this misc_Nil] have "misc (''<!-- a -->'')" by simp
  then have "misc (utf8_encode 32 @ ''<!-- a -->'')"
    by (rule misc_space [rotated 2]) (simp_all add: is_whitespace_def is_scalar_def)
  then have "misc '' <!-- a -->''" by (simp add: utf8_encode_def char_of_def bit_Suc_0_iff)
  from normalize_xml_document_exact [OF this, of "''<?xml version=x?>''" "[]"] show ?thesis
    by (simp add: starts_with_def)
qed

end
