(* ===== verification/Xml_Document.thy ===== *)
theory Xml_Document
  imports Options_Db Xml_Source
begin

text \<open>
  The XML files the crates write: a declaration, a root element and empty child elements on lines of
  their own. \<open>document_text\<close> is the text of such a document by the grammar of XML, and
  \<open>reads_documents\<close> says of an XML parser that it reads these texts as XML with namespaces defines; it
  is the hypothesis on the parser \<open>roxmltree\<close> for the round trips of the file formats. It speaks of
  documents without namespaces only: no element or attribute has a name that starts with \<open>xml\<close>, so
  that no attribute is a namespace declaration, and the numbers of attributes and elements stay far
  below the limits of the parser. A parser for these documents shows that the hypothesis can hold.
\<close>

section \<open>Documents\<close>

text \<open>The text of an attribute value: characters that need no reference, and references.\<close>

inductive raw_attribute :: "string \<Rightarrow> bool" where
  raw_Nil: "raw_attribute []"
| raw_char: "is_xml_character n \<Longrightarrow> \<not> special_char n \<Longrightarrow> raw_attribute t \<Longrightarrow> raw_attribute (utf8_encode n @ t)"
| raw_reference: "(p, c) \<in> set xml_references \<Longrightarrow> raw_attribute t \<Longrightarrow> raw_attribute (p @ t)"

record element =
  el_tag :: string
  el_attrs :: "(string \<times> string) list"

text \<open>Names; those that start with \<open>xml\<close> are reserved, and \<open>xmlns\<close> declares a namespace.\<close>

definition xml_name :: "string \<Rightarrow> bool" where
  "xml_name s \<longleftrightarrow> s \<noteq> [] \<and> list_all is_ascii_lowercase s \<and> \<not> starts_with ''xml'' s"

definition element_ok :: "element \<Rightarrow> bool" where
  "element_ok e \<longleftrightarrow>
     xml_name (el_tag e) \<and> distinct (map fst (el_attrs e)) \<and> length (el_attrs e) \<le> 16
     \<and> list_all (\<lambda>(n, t). xml_name n \<and> raw_attribute t) (el_attrs e)"

definition xml_header :: string where
  "xml_header = ''<?xml version='' @ [CHR 0x22] @ ''1.0'' @ [CHR 0x22] @ '' encoding='' @ [CHR 0x22] @ ''UTF-8'' @ [CHR 0x22] @ ''?>'' @ [CHR 0x0A]"

definition quote :: string where "quote = [CHR 0x22]"

definition newline :: string where "newline = [CHR 0x0A]"

definition attr_text :: "string \<times> string \<Rightarrow> string" where
  "attr_text a = '' '' @ fst a @ ''='' @ [CHR 0x22] @ snd a @ [CHR 0x22]"

definition open_text :: "element \<Rightarrow> string" where
  "open_text e = ''<'' @ el_tag e @ concat (map attr_text (el_attrs e))"

definition empty_text :: "element \<Rightarrow> string" where
  "empty_text e = ''  '' @ open_text e @ ''/>'' @ [CHR 0x0A]"

definition document_text :: "element \<Rightarrow> element list \<Rightarrow> string" where
  "document_text root kids =
     xml_header @ open_text root @ ''>'' @ [CHR 0x0A] @ concat (map empty_text kids)
     @ ''</'' @ el_tag root @ ''>'' @ [CHR 0x0A]"

definition shows_element :: "element \<Rightarrow> xml \<Rightarrow> bool" where
  "shows_element e x \<longleftrightarrow>
     x_tag x = el_tag e \<and> x_attribute x = map_option unescape \<circ> map_of (el_attrs e)"

definition reads_documents :: "(string \<Rightarrow> (xml, string) result) \<Rightarrow> bool" where
  "reads_documents parse_document \<longleftrightarrow>
     (\<forall>root kids. element_ok root \<and> list_all element_ok kids \<and> length kids < 2 ^ 20 \<longrightarrow>
        (\<exists>x. parse_document (document_text root kids) = Ok x \<and> shows_element root x
             \<and> list_all2 shows_element kids (x_element_children x)))"

section \<open>Files\<close>

text \<open>A file system: the bytes under each path. A path is a byte string.\<close>

type_synonym files = "string \<Rightarrow> bytes option"

definition durable :: "(string \<Rightarrow> bytes \<Rightarrow> files \<Rightarrow> bool \<times> files) \<Rightarrow> bool" where
  "durable fs_write \<longleftrightarrow> (\<forall>path bs fs fs'. fs_write path bs fs = (True, fs') \<longrightarrow> fs' path = Some bs)"

section \<open>The writer\<close>

lemma escape_raw:
  assumes "escape_char n = Inr u" and "raw_attribute t" shows "raw_attribute (u @ t)"
proof (cases "special_char n")
  case True
  have "u \<in> fst ` set xml_references"
    using True assms(1) by (elim insertE emptyE) (auto simp: escape_char_def xml_references_def)
  with assms(2) show ?thesis by (auto intro: raw_reference)
next
  case False
  then have "u = utf8_encode n" "is_xml_character n" using assms(1) by (auto simp: escape_char_def split: if_splits)
  with assms(2) False show ?thesis by (auto intro: raw_char)
qed

lemma push_chars_raw:
  "push_chars cs out = (out', Inr u) \<Longrightarrow>
     \<exists>t. out' = out @ t \<and> raw_attribute t \<and> unescape t = concat (map utf8_encode cs) \<and> list_all is_xml_character cs"
proof (induction cs arbitrary: out)
  case Nil
  then show ?case by (auto simp: unescape.simps intro: raw_Nil)
next
  case (Cons c cs)
  then obtain v where v: "escape_char c = Inr v" "push_chars cs (out @ v) = (out', Inr u)" by (auto split: sum.splits)
  from Cons.IH [OF v(2)] obtain t where t: "out' = (out @ v) @ t" "raw_attribute t"
    "unescape t = concat (map utf8_encode cs)" "list_all is_xml_character cs" by blast
  have "is_xml_character c" using v(1) escape_char_Ok by blast
  with t escape_raw [OF v(1) t(2)] escape_char_roundtrip [OF v(1), of t] show ?case
    by (intro exI [of _ "v @ t"]) simp
qed

lemma push_attribute_raw:
  assumes "push_attribute out input = (out', Inr u)" and "from_utf8 input"
  obtains t where "out' = out @ t" "raw_attribute t" "unescape t = input"
proof -
  obtain cs where "input = concat (map utf8_encode cs)" "str_chars input = cs" using assms(2) by (rule from_utf8E)
  with push_chars_raw [of cs out out' u] assms(1) that show ?thesis by (auto simp: push_attribute_def)
qed

section \<open>Bytes\<close>

lemma raw_utf8: "raw_attribute t \<Longrightarrow> from_utf8 t"
proof (induction rule: raw_attribute.induct)
  case (raw_char n t)
  then show ?case by (intro from_utf8_append from_utf8_encode xml_scalar)
next
  case (raw_reference p c t)
  then have "list_all (\<lambda>c. byte_val c < 128) p" by (auto simp: xml_references_def byte_val_def)
  with raw_reference from_utf8_ascii show ?case by (intro from_utf8_append) auto
qed (simp add: from_utf8_ascii)

lemma name_utf8: "xml_name n \<Longrightarrow> from_utf8 n"
  by (rule from_utf8_ascii) (auto simp: xml_name_def list_all_iff is_ascii_lowercase_def)

lemma open_utf8:
  assumes "element_ok e" shows "from_utf8 (open_text e)"
proof -
  have "from_utf8 (attr_text a)" if "a \<in> set (el_attrs e)" for a
  proof -
    have "from_utf8 (fst a)" "from_utf8 (snd a)"
      using that assms name_utf8 raw_utf8 by (auto simp: element_ok_def list_all_iff)
    then show ?thesis unfolding attr_text_def
      by (intro from_utf8_append) (simp_all add: from_utf8_ascii byte_val_def)
  qed
  then have "from_utf8 (concat (map attr_text (el_attrs e)))" by (intro from_utf8_concat) (simp add: list_all_iff)
  moreover have "from_utf8 (el_tag e)" using assms name_utf8 by (simp add: element_ok_def)
  moreover have "from_utf8 ''<''" by (simp add: from_utf8_ascii byte_val_def)
  ultimately show ?thesis unfolding open_text_def by (intro from_utf8_append)
qed

lemma document_utf8:
  assumes "element_ok root" and "list_all element_ok kids" shows "from_utf8 (document_text root kids)"
proof -
  have "from_utf8 (empty_text k)" if "k \<in> set kids" for k
    unfolding empty_text_def
    by (intro from_utf8_append open_utf8) (use that assms in \<open>auto simp: list_all_iff from_utf8_ascii byte_val_def\<close>)
  then have "from_utf8 (concat (map empty_text kids))" by (intro from_utf8_concat) (simp add: list_all_iff)
  moreover have "from_utf8 xml_header" by (rule from_utf8_ascii) (simp add: xml_header_def byte_val_def)
  moreover have "from_utf8 (el_tag root)" using assms(1) by (simp add: element_ok_def name_utf8)
  moreover have "from_utf8 ''>''" "from_utf8 [CHR 0x0A]" "from_utf8 ''</''" by (simp_all add: from_utf8_ascii byte_val_def)
  ultimately show ?thesis
    unfolding document_text_def using open_utf8 [OF assms(1)] by (intro from_utf8_append)
qed

section \<open>Values and the header\<close>

lemma foldl_append: "foldl (\<lambda>out c. out @ f c) out cs = out @ concat (map f cs)"
  by (induction cs arbitrary: out) auto

lemma plain_val: "plain c \<longleftrightarrow> \<not> special_char (byte_val c)"
  by (simp add: plain_def flip: byte_val_inject) (simp add: byte_val_def)

lemma plain_raw:
  assumes "list_all (\<lambda>c. plain c \<and> 32 \<le> byte_val c \<and> byte_val c < 128) t" shows "raw_attribute t"
  using assms
proof (induction t)
  case (Cons c t)
  let ?n = "byte_val c"
  have "utf8_encode ?n = [c]" using Cons.prems by (simp add: utf8_encode_def)
  moreover have "\<not> special_char ?n" using Cons.prems by (simp add: plain_val)
  moreover have "is_xml_character ?n" using Cons.prems by (simp add: is_xml_character_def)
  ultimately have "raw_attribute (utf8_encode ?n @ t)" using Cons by (intro raw_char) auto
  with \<open>utf8_encode ?n = [c]\<close> show ?case by simp
qed (rule raw_Nil)

lemma hex_plain: "list_all (\<lambda>c. plain c \<and> 32 \<le> byte_val c \<and> byte_val c < 128) (''0x'' @ format_hex n)"
proof -
  have "plain (digit_lower d) \<and> 32 \<le> byte_val (digit_lower d) \<and> byte_val (digit_lower d) < 128" if "d < 16" for d
  proof -
    have "byte_val (digit_lower d) \<in> {48..<58} \<union> {97..<103}" using that by (auto simp: digit_lower_def byte_val_char_of)
    then show ?thesis by (auto simp: plain_val)
  qed
  then have "list_all (\<lambda>c. plain c \<and> 32 \<le> byte_val c \<and> byte_val c < 128) (format_hex n)"
    using nat_digits_less [of 16 _ n] by (auto simp: format_hex_def list_all_iff)
  then show ?thesis by (simp add: plain_def byte_val_def)
qed

lemma raw_hex: "raw_attribute (''0x'' @ format_hex n)" "unescape (''0x'' @ format_hex n) = ''0x'' @ format_hex n"
proof -
  show "raw_attribute (''0x'' @ format_hex n)" by (rule plain_raw [OF hex_plain])
  have "list_all plain (''0x'' @ format_hex n)" using hex_plain [of n] by (auto simp: list_all_iff)
  from unescape_plains [OF this, of "[]"] show "unescape (''0x'' @ format_hex n) = ''0x'' @ format_hex n"
    by (simp add: unescape.simps [of "[]"])
qed

text \<open>What the round trip needs of the encodings: the label, and that UTF-8 text decodes to itself.\<close>

definition utf8_codec :: "'enc encodings \<Rightarrow> bool" where
  "utf8_codec encs \<longleftrightarrow>
     for_label encs (str_bytes ''UTF-8'') = Some (enc_utf8 encs)
     \<and> (\<forall>s. from_utf8 s \<and> starts_with ''<?xml'' s \<longrightarrow> enc_decode encs (enc_utf8 encs) (str_bytes s) = (s, False))"

lemma byte_of_inject [simp]: "byte_of c = byte_of d \<longleftrightarrow> c = d"
  using unat_byte_of byte_val_inject by metis

lemma strip_prefix_bytes: "strip_prefix (str_bytes p) (str_bytes s) = map_option str_bytes (strip_prefix p s)"
  by (induction p s rule: strip_prefix.induct) (auto simp: str_bytes_def)

lemma starts_with_bytes: "starts_with (str_bytes p) (str_bytes s) = starts_with p s"
  by (simp add: starts_with_def strip_prefix_bytes)

lemma find_window_bytes: "find_window (str_bytes p) (str_bytes s) = find_window p s"
proof (induction s)
  case (Cons c s)
  have "str_bytes (c # s) = byte_of c # str_bytes s" by (simp add: str_bytes_def)
  with Cons starts_with_bytes [of p "c # s"] show ?case by simp
qed (simp add: str_bytes_def)

lemma byte_is_whitespace_of: "byte_is_whitespace (byte_of c) \<longleftrightarrow> byte_val c \<in> {9, 10, 12, 13, 32}"
  by (simp add: byte_is_whitespace_def word_unat_eq_iff)

lemma header_Cons: "\<exists>r. xml_header @ s = CHR ''<'' # CHR ''?'' # r"
  by (simp add: xml_header_def)

lemma trim_header: "trim_ascii_bytes_start (str_bytes (xml_header @ s)) = str_bytes (xml_header @ s)"
proof -
  obtain r where r: "xml_header @ s = CHR ''<'' # CHR ''?'' # r" using header_Cons by blast
  have "\<not> byte_is_whitespace (byte_of (CHR ''<''))" by (simp add: byte_is_whitespace_of byte_val_def)
  then show ?thesis unfolding r by (simp add: trim_ascii_bytes_start_def str_bytes_def)
qed

definition header_declaration :: string where
  "header_declaration = '' version='' @ quote @ ''1.0'' @ quote @ '' encoding='' @ quote @ ''UTF-8'' @ quote"

lemma header_split: "xml_header @ s = ''<?xml'' @ header_declaration @ ''?>'' @ newline @ s"
  by (simp add: xml_header_def header_declaration_def quote_def newline_def)

section \<open>A parser of these documents\<close>

definition read_name :: "string \<Rightarrow> string \<times> string" where
  "read_name s = (takeWhile is_ascii_lowercase s, dropWhile is_ascii_lowercase s)"

definition read_attr :: "string \<Rightarrow> ((string \<times> string) \<times> string) option" where
  "read_attr s =
     (case read_name s of (name, r) \<Rightarrow>
        Option.bind (strip_prefix (''='' @ [CHR 0x22]) r) (\<lambda>r.
        Option.bind (strip_prefix [CHR 0x22] (dropWhile (\<lambda>c. c \<noteq> CHR 0x22) r)) (\<lambda>r'.
          Some ((name, takeWhile (\<lambda>c. c \<noteq> CHR 0x22) r), r'))))"

fun read_attrs :: "nat \<Rightarrow> string \<Rightarrow> ((string \<times> string) list \<times> string) option" where
  "read_attrs 0 s = None"
| "read_attrs (Suc k) s =
     (case strip_prefix '' '' s of
        None \<Rightarrow> Some ([], s)
      | Some r \<Rightarrow> Option.bind (read_attr r) (\<lambda>(a, r). map_option (\<lambda>(as, r). (a # as, r)) (read_attrs k r)))"

definition read_open :: "string \<Rightarrow> (element \<times> string) option" where
  "read_open s =
     Option.bind (strip_prefix ''<'' s) (\<lambda>r. case read_name r of (tag, r) \<Rightarrow>
       map_option (\<lambda>(as, r). (\<lparr>el_tag = tag, el_attrs = as\<rparr>, r)) (read_attrs (Suc (length r)) r))"

fun read_empties :: "nat \<Rightarrow> string \<Rightarrow> (element list \<times> string) option" where
  "read_empties 0 s = None"
| "read_empties (Suc k) s =
     (case strip_prefix ''  '' s of
        None \<Rightarrow> Some ([], s)
      | Some r \<Rightarrow>
          Option.bind (read_open r) (\<lambda>(e, r).
          Option.bind (strip_prefix (''/>'' @ [CHR 0x0A]) r) (\<lambda>r.
            map_option (\<lambda>(es, r). (e # es, r)) (read_empties k r))))"

definition element_xml :: "element \<Rightarrow> xml list \<Rightarrow> xml" where
  "element_xml e kids = XElement (el_tag e) (map (\<lambda>(n, t). (None, n, unescape t)) (el_attrs e)) (map Some kids) 0"

definition simple_parse :: "string \<Rightarrow> (xml, string) result" where
  "simple_parse s =
     ok_or (Option.bind (strip_prefix xml_header s) (\<lambda>r.
            Option.bind (read_open r) (\<lambda>(root, r).
            Option.bind (strip_prefix (''>'' @ [CHR 0x0A]) r) (\<lambda>r.
            Option.bind (read_empties (Suc (length r)) r) (\<lambda>(kids, r).
              if r = ''</'' @ el_tag root @ ''>'' @ [CHR 0x0A]
              then Some (element_xml root (map (\<lambda>k. element_xml k []) kids)) else None)))))
       ''unsupported document''"

lemma raw_no_quote: "raw_attribute t \<Longrightarrow> CHR 0x22 \<notin> set t"
proof (induction rule: raw_attribute.induct)
  case (raw_char n t)
  then have "list_all plain (utf8_encode n)" by (intro encode_plain xml_scalar)
  with raw_char show ?case by (auto simp: list_all_iff plain_def)
qed (auto simp: xml_references_def)

lemma read_name_ok:
  assumes "xml_name n" and "\<not> is_ascii_lowercase c" shows "read_name (n @ c # s) = (n, c # s)"
  using assms by (simp add: read_name_def xml_name_def list_all_iff takeWhile_append2 dropWhile_append2)

lemma not_lower [simp]:
  "\<not> is_ascii_lowercase CHR ''=''" "\<not> is_ascii_lowercase CHR '' ''" "\<not> is_ascii_lowercase CHR ''>''"
  "\<not> is_ascii_lowercase CHR ''/''"
  by (simp_all add: is_ascii_lowercase_def byte_val_def)

lemma read_attr_ok:
  assumes "xml_name n" and "raw_attribute t" shows "read_attr (n @ ''='' @ [CHR 0x22] @ t @ [CHR 0x22] @ s) = Some ((n, t), s)"
proof -
  have "\<forall>c\<in>set t. c \<noteq> CHR 0x22" using raw_no_quote [OF assms(2)] by blast
  then have "takeWhile (\<lambda>c. c \<noteq> CHR 0x22) (t @ CHR 0x22 # s) = t" "dropWhile (\<lambda>c. c \<noteq> CHR 0x22) (t @ CHR 0x22 # s) = CHR 0x22 # s"
    by (simp_all add: takeWhile_append2 dropWhile_append2)
  then show ?thesis using read_name_ok [OF assms(1)] by (simp add: read_attr_def)
qed

lemma read_attrs_ok:
  assumes "list_all (\<lambda>(n, t). xml_name n \<and> raw_attribute t) as" and "length as < k"
    and "c \<noteq> CHR '' ''"
  shows "read_attrs k (concat (map attr_text as) @ c # s) = Some (as, c # s)"
  using assms(1,2)
proof (induction as arbitrary: k)
  case Nil
  then show ?case using assms(3) [symmetric] by (cases k) auto
next
  case (Cons a as)
  obtain n t where a: "a = (n, t)" by fastforce
  obtain k' where k: "k = Suc k'" using Cons.prems(2) by (cases k) auto
  have "read_attr (n @ ''='' @ [CHR 0x22] @ t @ [CHR 0x22] @ concat (map attr_text as) @ c # s)
      = Some ((n, t), concat (map attr_text as) @ c # s)" using Cons.prems(1) a by (intro read_attr_ok) auto
  then show ?case using Cons a k by (simp add: attr_text_def [of "(n, t)"])
qed

declare read_attrs.simps [simp del]

lemma attr_length: "length as \<le> length (concat (map attr_text as))"
  by (induction as) (auto simp: attr_text_def)

lemma attrs_start: "\<exists>d r. concat (map attr_text as) @ c # s = d # r \<and> (d = CHR '' '' \<or> d = c)"
  by (cases as) (auto simp: attr_text_def)

lemma read_open_ok:
  assumes "element_ok e" and "c \<in> {CHR ''>'', CHR ''/''}" shows "read_open (open_text e @ c # s) = Some (e, c # s)"
proof -
  let ?as = "concat (map attr_text (el_attrs e)) @ c # s"
  obtain d r where d: "?as = d # r" "d = CHR '' '' \<or> d = c" using attrs_start by blast
  then have "\<not> is_ascii_lowercase d" using assms(2) by auto
  then have "read_name (el_tag e @ ?as) = (el_tag e, ?as)"
    unfolding d(1) using assms(1) by (intro read_name_ok) (auto simp: element_ok_def)
  moreover have "read_attrs (Suc (length ?as)) ?as = Some (el_attrs e, c # s)"
    using assms attr_length [of "el_attrs e"] by (intro read_attrs_ok) (auto simp: element_ok_def)
  ultimately show ?thesis by (simp add: read_open_def open_text_def)
qed

lemma read_empties_ok:
  assumes "list_all element_ok es" and "length es < k" and "c \<noteq> CHR '' ''"
  shows "read_empties k (concat (map empty_text es) @ c # s) = Some (es, c # s)"
  using assms(1,2)
proof (induction es arbitrary: k)
  case Nil
  then show ?case using assms(3) [symmetric] by (cases k) auto
next
  case (Cons e es)
  obtain k' where k: "k = Suc k'" using Cons.prems(2) by (cases k) auto
  have "read_open (open_text e @ CHR ''/'' # ''>'' @ CHR 0x0A # concat (map empty_text es) @ c # s)
      = Some (e, CHR ''/'' # ''>'' @ CHR 0x0A # concat (map empty_text es) @ c # s)"
    using Cons.prems(1) by (intro read_open_ok) auto
  then show ?case using Cons k by (simp add: empty_text_def [of e])
qed

declare read_empties.simps [simp del]

lemma empties_length: "length es \<le> length (concat (map empty_text es))"
  by (induction es) (auto simp: empty_text_def)

lemma x_attribute_map:
  "x_attribute (XElement tag (map (\<lambda>(n, t). (None, n, unescape t)) as) kids line) = map_option unescape \<circ> map_of as"
proof
  fix name
  show "x_attribute (XElement tag (map (\<lambda>(n, t). (None, n, unescape t)) as) kids line) name = (map_option unescape \<circ> map_of as) name"
    by (induction as) (auto simp: x_attribute_def)
qed

lemma simple_parse_reads: "reads_documents simple_parse"
  unfolding reads_documents_def
proof (intro allI impI)
  fix root kids assume ok: "element_ok root \<and> list_all element_ok kids \<and> length kids < 2 ^ 20"
  let ?tail = "''</'' @ el_tag root @ ''>'' @ [CHR 0x0A]"
  let ?kids = "concat (map empty_text kids) @ ?tail"
  have "read_open (open_text root @ CHR ''>'' # CHR 0x0A # ?kids) = Some (root, CHR ''>'' # CHR 0x0A # ?kids)"
    using ok by (intro read_open_ok) auto
  moreover have "read_empties (Suc (length ?kids)) ?kids = Some (kids, ?tail)"
    using ok empties_length [of kids] read_empties_ok [of kids "Suc (length ?kids)" "CHR ''<''" "''/'' @ el_tag root @ ''>'' @ [CHR 0x0A]"]
    by simp
  ultimately have "simple_parse (document_text root kids) = Ok (element_xml root (map (\<lambda>k. element_xml k []) kids))"
    by (simp add: simple_parse_def document_text_def)
  moreover have "shows_element e (element_xml e xs)" for e xs
    by (simp add: shows_element_def element_xml_def x_attribute_map)
  moreover have "x_element_children (element_xml root xs) = xs" for xs
    by (simp add: x_element_children_def element_xml_def map_filter_def comp_def)
  ultimately show "\<exists>x. simple_parse (document_text root kids) = Inr x \<and> shows_element root x
      \<and> list_all2 shows_element kids (x_element_children x)"
    by (simp add: list_all2_map2 list_all2_refl)
qed

end
