(* ===== verification/User_Profile.thy ===== *)
theory User_Profile
  imports Xml_Document C_Memory
begin

text \<open>
  User profiles: the file format of \<^verbatim>\<open>crates/ddccontrol-profile/src/lib.rs\<close> (a name, a monitor
  and at most 256 controls) and the C interface of module \<open>user_profile\<close> in
  \<^verbatim>\<open>crates/ddccontrol-db/src/lib.rs\<close> that loads and saves them. The XML parser, the character
  encodings, the file system and the success of each allocation are parameters.
\<close>

section \<open>Profiles\<close>

definition PROFILE_VERSION :: int where "PROFILE_VERSION = 1"

definition MAX_CONTROLS :: nat where "MAX_CONTROLS = 256"

record profile_control =
  uc_address :: u8
  uc_value :: u16

record profile =
  up_name :: string
  up_pnp_id :: string
  up_controls :: "profile_control list"

datatype bound_error = Not_an_integer string | Outside_bounds int nat

datatype profile_error =
    Document_error string
  | Wrong_root string
  | Missing_attribute string
  | Version_syntax
  | Version_unsupported int
  | Too_many_controls
  | Invalid_address bound_error
  | Invalid_value bound_error
  | Invalid_character nat
  | Undecodable_bytes
  | Missing_equals
  | Not_quoted
  | No_closing_quote
  | Unsupported_encoding bytes

type_synonym 'a profile_result = "('a, profile_error) result"

definition required_attribute :: "xml \<Rightarrow> string \<Rightarrow> string profile_result" where
  "required_attribute n name = ok_or (x_attribute n name) (Missing_attribute name)"

definition parse_bounded_integer :: "string \<Rightarrow> nat \<Rightarrow> (nat, bound_error) result" where
  "parse_bounded_integer input maximum =
     and_then (map_err (\<lambda>_. Not_an_integer input) (parse_integer input)) (\<lambda>v.
       if v < 0 \<or> v > int maximum then Err (Outside_bounds v maximum) else Ok (nat v))"

definition control_step :: "xml \<Rightarrow> profile_control list \<Rightarrow> profile_control list profile_result" where
  "control_step n controls =
     (if x_tag n \<noteq> ''control'' then Ok controls
      else if length controls = MAX_CONTROLS then Err Too_many_controls
      else
        and_then (required_attribute n ''address'') (\<lambda>raw.
        and_then (map_err Invalid_address (parse_bounded_integer raw 255)) (\<lambda>address.
        and_then (required_attribute n ''value'') (\<lambda>raw.
        and_then (map_err Invalid_value (parse_bounded_integer raw 65535)) (\<lambda>v.
          Ok (controls @ [\<lparr>uc_address = word_of_nat address, uc_value = word_of_nat v\<rparr>]))))))"

definition profile_parse :: "(string \<Rightarrow> (xml, string) result) \<Rightarrow> string \<Rightarrow> profile profile_result" where
  "profile_parse parse_document input =
     and_then (map_err Document_error (parse_document input)) (\<lambda>root.
       if x_tag root \<noteq> ''profile'' then Err (Wrong_root (x_tag root))
       else
         and_then (required_attribute root ''name'') (\<lambda>name.
         and_then (required_attribute root ''pnpid'') (\<lambda>pnp_id.
         and_then (required_attribute root ''version'') (\<lambda>raw.
         and_then (map_err (\<lambda>_. Version_syntax) (parse_integer raw)) (\<lambda>version.
           if version \<noteq> PROFILE_VERSION then Err (Version_unsupported version)
           else
             and_then (fold_res control_step (x_element_children root) []) (\<lambda>controls.
               Ok \<lparr>up_name = name, up_pnp_id = pnp_id, up_controls = controls\<rparr>))))))"

definition push_escaped_attribute :: "string \<Rightarrow> string \<Rightarrow> string profile_result" where
  "push_escaped_attribute out input =
     (case push_attribute out input of
        (out', Inr _) \<Rightarrow> Ok out'
      | (_, Inl character) \<Rightarrow> Err (Invalid_character character))"

definition control_line :: "profile_control \<Rightarrow> string" where
  "control_line c =
     ''  <control address='' @ quote @ ''0x'' @ format_hex (unat (uc_address c)) @ quote
     @ '' value='' @ quote @ ''0x'' @ format_hex (unat (uc_value c)) @ quote @ ''/>'' @ newline"

definition serialize :: "profile \<Rightarrow> string profile_result" where
  "serialize p =
     (if length (up_controls p) > MAX_CONTROLS then Err Too_many_controls
      else
        (let out = ''<?xml version='' @ quote @ ''1.0'' @ quote @ '' encoding='' @ quote @ ''UTF-8'' @ quote @ ''?>'' @ newline
                   @ ''<profile name='' @ quote
         in and_then (push_escaped_attribute out (up_name p)) (\<lambda>out.
            and_then (push_escaped_attribute (out @ quote @ '' pnpid='' @ quote) (up_pnp_id p)) (\<lambda>out.
              let out = out @ quote @ '' version='' @ quote @ ''1'' @ quote @ ''>'' @ newline;
                  out = foldl (\<lambda>out c. out @ control_line c) out (up_controls p)
              in Ok (out @ ''</profile>'' @ newline)))))"

section \<open>Encodings\<close>

lemma trim_bytes_length: "length (trim_ascii_bytes_start bs) \<le> length bs"
  by (simp add: trim_ascii_bytes_start_def)

text \<open>The input from the first byte that is neither white space nor part of a comment.\<close>

function skip_misc :: "bytes \<Rightarrow> bytes option" where
  "skip_misc bs =
     (let rest = trim_ascii_bytes_start bs
      in if \<not> starts_with (str_bytes ''<!--'') rest then Some rest
         else case find_window (str_bytes ''-->'') (drop 4 rest) of
                None \<Rightarrow> None
              | Some comment_end \<Rightarrow> skip_misc (drop (4 + comment_end + 3) rest))"
  by pat_completeness auto
termination
proof (relation "measure length", simp)
  fix bs rest :: bytes and comment_end
  assume "rest = trim_ascii_bytes_start bs" "\<not> \<not> starts_with (str_bytes ''<!--'') rest"
  then have "0 < length rest" "length rest \<le> length bs"
    using trim_bytes_length by (auto simp: starts_with_iff str_bytes_def)
  then show "(drop (4 + comment_end + 3) rest, bs) \<in> measure length" by (simp del: length_greater_0_conv)
qed

declare skip_misc.simps [simp del]

definition xml_declaration :: "bytes \<Rightarrow> bytes option" where
  "xml_declaration bs =
     Option.bind (skip_misc (if starts_with [0xEF, 0xBB, 0xBF] bs then drop 3 bs else bs)) (\<lambda>rest.
     Option.bind (strip_prefix (str_bytes ''<?xml'') rest) (\<lambda>declaration.
       let declaration_end = (case find_window (str_bytes ''?>'') declaration of Some i \<Rightarrow> i | None \<Rightarrow> length declaration)
       in Some (take declaration_end declaration)))"

definition xml_attribute :: "bytes \<Rightarrow> bytes \<Rightarrow> nat option" where
  "xml_attribute input name =
     find (\<lambda>index. take (length name) (drop index input) = name
             \<and> index > 0 \<and> byte_is_whitespace (input ! (index - 1))
             \<and> index + length name < length input
             \<and> (input ! (index + length name) = byte_of (CHR ''='') \<or> byte_is_whitespace (input ! (index + length name))))
       [0..<length input + 1 - length name]"

definition declared_label :: "bytes \<Rightarrow> bytes profile_result" where
  "declared_label after_equals =
     (case after_equals of
        [] \<Rightarrow> Err Not_quoted
      | q # rest \<Rightarrow>
          if q \<noteq> byte_of (CHR 0x27) \<and> q \<noteq> byte_of (CHR 0x22) then Err Not_quoted
          else case find_position (\<lambda>b. b = q) rest of
                 None \<Rightarrow> Err No_closing_quote
               | Some i \<Rightarrow> Ok (take i rest))"

definition profile_declared_encoding :: "'enc encodings \<Rightarrow> bytes \<Rightarrow> 'enc option profile_result" where
  "profile_declared_encoding encs bs =
     (case xml_declaration bs of
        None \<Rightarrow> Ok None
      | Some declaration \<Rightarrow>
          (case xml_attribute declaration (str_bytes ''encoding'') of
             None \<Rightarrow> Ok None
           | Some encoding_index \<Rightarrow>
               (let after_encoding = trim_ascii_bytes_start (drop (encoding_index + 8) declaration)
                in and_then (ok_or (strip_prefix (str_bytes ''='') after_encoding) Missing_equals) (\<lambda>rest.
                   and_then (declared_label (trim_ascii_bytes_start rest)) (\<lambda>label.
                     and_then (ok_or (for_label encs label) (Unsupported_encoding label)) (\<lambda>e. Ok (Some e)))))))"

definition profile_decode_xml_bytes :: "'enc encodings \<Rightarrow> bytes \<Rightarrow> string profile_result" where
  "profile_decode_xml_bytes encs bs =
     and_then (profile_declared_encoding encs bs) (\<lambda>declared.
       let encoding = (case declared of Some e \<Rightarrow> e | None \<Rightarrow> enc_utf8 encs);
           (decoded, had_errors) = enc_decode encs encoding bs
       in if had_errors then Err Undecodable_bytes else Ok decoded)"

definition profile_normalize_xml_document :: "string \<Rightarrow> string" where
  "profile_normalize_xml_document xml =
     (case skip_comments xml of
        None \<Rightarrow> xml
      | Some rest \<Rightarrow> if length rest < length xml \<and> starts_with ''<?xml'' rest then rest else xml)"

definition profile_parse_bytes ::
  "'enc encodings \<Rightarrow> (string \<Rightarrow> (xml, string) result) \<Rightarrow> bytes \<Rightarrow> profile profile_result" where
  "profile_parse_bytes encs parse_document input =
     and_then (profile_decode_xml_bytes encs input) (\<lambda>decoded.
       profile_parse parse_document (profile_normalize_xml_document decoded))"

section \<open>The C interface\<close>

record c_profile =
  cp_ptr :: ptr
  cp_filename :: "c_str option"
  cp_name :: "c_str option"
  cp_pnpid :: "c_str option"
  cp_size :: int
  cp_address :: "u8 list"
  cp_value :: "u16 list"
  cp_next :: "ptr option"

fun fill_controls :: "nat \<Rightarrow> profile_control list \<Rightarrow> u8 list \<times> u16 list \<Rightarrow> u8 list \<times> u16 list" where
  "fill_controls i [] arrays = arrays"
| "fill_controls i (c # cs) (address, v) = fill_controls (Suc i) cs (address[i := uc_address c], v[i := uc_value c])"

text \<open>More controls than the arrays hold: the index is out of bounds, and the panic leaves the blocks behind.\<close>

definition profile_to_c :: "(nat \<Rightarrow> bool) \<Rightarrow> string \<Rightarrow> profile \<Rightarrow> c_profile option mem" where
  "profile_to_c avail filename p =
     mem_bind (c_bytes avail filename) (\<lambda>r. case r of
       None \<Rightarrow> ret None
     | Some filename \<Rightarrow>
         mem_bind (c_bytes avail (up_name p)) (\<lambda>r. case r of
           None \<Rightarrow> mem_bind (free (fst filename)) (\<lambda>_. ret None)
         | Some name \<Rightarrow>
             mem_bind (c_bytes avail (up_pnp_id p)) (\<lambda>r. case r of
               None \<Rightarrow> mem_bind (mem_bind (free (fst filename)) (\<lambda>_. free (fst name))) (\<lambda>_. ret None)
             | Some pnpid \<Rightarrow>
                 mem_bind (malloc avail) (\<lambda>r. case r of
                   None \<Rightarrow>
                     mem_bind (mem_bind (free (fst filename)) (\<lambda>_. mem_bind (free (fst name)) (\<lambda>_. free (fst pnpid)))) (\<lambda>_. ret None)
                 | Some output \<Rightarrow>
                     if length (up_controls p) > MAX_CONTROLS then ret None
                     else
                       (let (address, v) = fill_controls 0 (up_controls p) (replicate MAX_CONTROLS 0, replicate MAX_CONTROLS 0)
                        in ret (Some \<lparr>cp_ptr = output, cp_filename = Some filename, cp_name = Some name, cp_pnpid = Some pnpid,
                                      cp_size = int (length (up_controls p)), cp_address = address, cp_value = v,
                                      cp_next = None\<rparr>))))))"

definition profile_load_inner ::
  "(nat \<Rightarrow> bool) \<Rightarrow> 'enc encodings \<Rightarrow> (string \<Rightarrow> (xml, string) result) \<Rightarrow> files \<Rightarrow> string option \<Rightarrow> c_profile option mem" where
  "profile_load_inner avail encs parse_document fs filename =
     (case filename of
        None \<Rightarrow> ret None
      | Some filename \<Rightarrow>
          (case fs filename of
             None \<Rightarrow> ret None
           | Some bs \<Rightarrow>
               (case profile_parse_bytes encs parse_document bs of
                  Inl _ \<Rightarrow> ret None
                | Inr p \<Rightarrow> profile_to_c avail filename p)))"

definition profile_from_c :: "c_profile \<Rightarrow> profile option" where
  "profile_from_c p =
     (case (cp_name p, cp_pnpid p) of
        (Some name, Some pnpid) \<Rightarrow>
          if cp_size p < 0 \<or> nat (cp_size p) > MAX_CONTROLS then None
          else if \<not> from_utf8 (snd name) \<or> \<not> from_utf8 (snd pnpid) then None
          else
            Some \<lparr>up_name = snd name, up_pnp_id = snd pnpid,
                  up_controls = map (\<lambda>i. \<lparr>uc_address = cp_address p ! i, uc_value = cp_value p ! i\<rparr>) [0..<nat (cp_size p)]\<rparr>
      | _ \<Rightarrow> None)"

definition profile_save_inner ::
  "(string \<Rightarrow> bytes \<Rightarrow> files \<Rightarrow> bool \<times> files) \<Rightarrow> c_profile option \<Rightarrow> files \<Rightarrow> int \<times> files" where
  "profile_save_inner fs_write profile fs =
     (case profile of
        None \<Rightarrow> (-1, fs)
      | Some p \<Rightarrow>
          (case cp_filename p of
             None \<Rightarrow> (-1, fs)
           | Some filename \<Rightarrow>
               (case profile_from_c p of
                  None \<Rightarrow> (-1, fs)
                | Some rust_profile \<Rightarrow>
                    (case serialize rust_profile of
                       Inl _ \<Rightarrow> (-1, fs)
                     | Inr xml \<Rightarrow>
                         (case fs_write (snd filename) (str_bytes xml) fs of
                            (True, fs) \<Rightarrow> (0, fs)
                          | (False, fs) \<Rightarrow> (-1, fs))))))"

section \<open>What is written\<close>

definition control_element :: "profile_control \<Rightarrow> element" where
  "control_element c =
     \<lparr>el_tag = ''control'',
      el_attrs = [(''address'', ''0x'' @ format_hex (unat (uc_address c))), (''value'', ''0x'' @ format_hex (unat (uc_value c)))]\<rparr>"

definition profile_element :: "string \<Rightarrow> string \<Rightarrow> element" where
  "profile_element name pnp_id = \<lparr>el_tag = ''profile'', el_attrs = [(''name'', name), (''pnpid'', pnp_id), (''version'', ''1'')]\<rparr>"

lemma control_line_text: "control_line c = empty_text (control_element c)"
  by (simp add: control_line_def empty_text_def open_text_def attr_text_def control_element_def quote_def newline_def)

lemma push_escaped_Ok: "push_escaped_attribute out input = Inr out' \<longleftrightarrow> (\<exists>u. push_attribute out input = (out', Inr u))"
  by (auto simp: push_escaped_attribute_def split: prod.splits sum.splits)

lemma serialize_text:
  assumes "serialize p = Inr xml" and "from_utf8 (up_name p)" and "from_utf8 (up_pnp_id p)"
  obtains tn ti where "xml = document_text (profile_element tn ti) (map control_element (up_controls p))"
    "raw_attribute tn" "unescape tn = up_name p" "raw_attribute ti" "unescape ti = up_pnp_id p"
    "length (up_controls p) \<le> MAX_CONTROLS"
proof -
  let ?start = "xml_header @ ''<profile name='' @ quote"
  have len: "length (up_controls p) \<le> MAX_CONTROLS" using assms(1) by (auto simp: serialize_def split: if_splits)
  then obtain o1 o2 u v where o1: "push_attribute ?start (up_name p) = (o1, Inr u)"
    and o2: "push_attribute (o1 @ quote @ '' pnpid='' @ quote) (up_pnp_id p) = (o2, Inr v)"
    and xml: "xml = foldl (\<lambda>out c. out @ control_line c)
        (o2 @ quote @ '' version='' @ quote @ ''1'' @ quote @ ''>'' @ newline) (up_controls p) @ ''</profile>'' @ newline"
    using assms(1)
    by (auto simp: serialize_def xml_header_def quote_def newline_def push_escaped_Ok Let_def)
  obtain tn where tn: "o1 = ?start @ tn" "raw_attribute tn" "unescape tn = up_name p"
    using push_attribute_raw [OF o1 assms(2)] by blast
  obtain ti where ti: "o2 = (o1 @ quote @ '' pnpid='' @ quote) @ ti" "raw_attribute ti" "unescape ti = up_pnp_id p"
    using push_attribute_raw [OF o2 assms(3)] by blast
  have "xml = document_text (profile_element tn ti) (map control_element (up_controls p))"
    by (simp add: xml foldl_append tn(1) ti(1) document_text_def open_text_def attr_text_def profile_element_def
        quote_def newline_def control_line_text [abs_def] comp_def)
  with that tn ti len show ?thesis by blast
qed

lemma push_escaped_succeeds:
  assumes "list_all is_xml_character (str_chars s)"
  obtains out' where "push_escaped_attribute out s = Inr out'"
proof -
  obtain out' r where p: "push_chars (str_chars s) out = (out', r)" by fastforce
  with push_chars_result [of "str_chars s" out] assms have "\<exists>u. r = Inr u" by (auto split: sum.splits)
  with p that show ?thesis by (auto simp: push_escaped_attribute_def push_attribute_def)
qed

lemma serialize_succeeds:
  assumes "length (up_controls p) \<le> MAX_CONTROLS" and "list_all is_xml_character (str_chars (up_name p))"
    and "list_all is_xml_character (str_chars (up_pnp_id p))"
  obtains xml where "serialize p = Inr xml"
proof -
  let ?start = "''<?xml version='' @ quote @ ''1.0'' @ quote @ '' encoding='' @ quote @ ''UTF-8'' @ quote @ ''?>'' @ newline
                   @ ''<profile name='' @ quote"
  obtain o1 where o1: "push_escaped_attribute ?start (up_name p) = Inr o1" by (rule push_escaped_succeeds [OF assms(2)])
  obtain o2 where "push_escaped_attribute (o1 @ quote @ '' pnpid='' @ quote) (up_pnp_id p) = Inr o2"
    by (rule push_escaped_succeeds [OF assms(3)])
  with o1 assms(1) that show ?thesis unfolding serialize_def Let_def by (simp del: append.simps append_assoc)
qed

section \<open>What is read\<close>

lemma parse_bounded_hex: "n \<le> m \<Longrightarrow> m < 2 ^ 63 \<Longrightarrow> parse_bounded_integer (''0x'' @ format_hex n) m = Inr n"
  using parse_format_hex_oct(1) [of "[]" n] by (simp add: parse_bounded_integer_def)

lemma raw_one: "raw_attribute ''1''" "unescape ''1'' = ''1''" "parse_integer ''1'' = Inr 1"
proof -
  show "raw_attribute ''1''" by (rule plain_raw) (simp add: plain_val, simp add: byte_val_def)
  show "unescape ''1'' = ''1''" "parse_integer ''1'' = Inr 1" by code_simp+
qed

lemma control_element_ok: "element_ok (control_element c)"
  by (simp add: element_ok_def control_element_def raw_hex [unfolded append.simps] xml_name_def starts_with_def)
    (simp add: is_ascii_lowercase_def byte_val_def)

lemma profile_element_ok: "raw_attribute n \<Longrightarrow> raw_attribute i \<Longrightarrow> element_ok (profile_element n i)"
  by (simp add: element_ok_def profile_element_def raw_one xml_name_def starts_with_def)
    (simp add: is_ascii_lowercase_def byte_val_def)

lemma unat_bounds: "unat (a :: u8) \<le> 255" "unat (v :: u16) \<le> 65535"
  using unsigned_less [of a, where ?'a = nat] unsigned_less [of v, where ?'a = nat] by simp_all

lemma control_step_ok:
  assumes "shows_element (control_element c) x" and "length acc < MAX_CONTROLS"
  shows "control_step x acc = Inr (acc @ [c])"
proof -
  have "x_tag x = ''control''" "x_attribute x ''address'' = Some (''0x'' @ format_hex (unat (uc_address c)))"
    "x_attribute x ''value'' = Some (''0x'' @ format_hex (unat (uc_value c)))"
    using assms(1) raw_hex(2) [of "unat (uc_address c)"] raw_hex(2) [of "unat (uc_value c)"]
    by (simp_all add: shows_element_def control_element_def)
  then show ?thesis using assms(2)
    by (simp add: control_step_def required_attribute_def parse_bounded_hex [unfolded append.simps] unat_bounds)
qed

lemma controls_ok:
  assumes "list_all2 shows_element (map control_element cs) xs" and "length acc + length cs \<le> MAX_CONTROLS"
  shows "fold_res control_step xs acc = Inr (acc @ cs)"
  using assms
proof (induction cs arbitrary: xs acc)
  case (Cons c cs)
  then obtain x ys where "xs = x # ys" "shows_element (control_element c) x" "list_all2 shows_element (map control_element cs) ys"
    by (auto simp: list_all2_Cons1)
  with Cons control_step_ok [of c x acc] show ?case by simp
qed simp

lemma profile_parse_text:
  assumes "reads_documents parse_document" and "raw_attribute tn" and "raw_attribute ti" and "length cs \<le> MAX_CONTROLS"
  shows "profile_parse parse_document (document_text (profile_element tn ti) (map control_element cs))
    = Inr \<lparr>up_name = unescape tn, up_pnp_id = unescape ti, up_controls = cs\<rparr>"
proof -
  have "list_all element_ok (map control_element cs)" by (simp add: list_all_iff control_element_ok)
  moreover have "length (map control_element cs) < 2 ^ 20" using assms(4) by (simp add: MAX_CONTROLS_def)
  ultimately obtain x where
    "parse_document (document_text (profile_element tn ti) (map control_element cs)) = Inr x"
    "shows_element (profile_element tn ti) x" "list_all2 shows_element (map control_element cs) (x_element_children x)"
    using assms(1) profile_element_ok [OF assms(2,3)] unfolding reads_documents_def by blast
  moreover from this have "fold_res control_step (x_element_children x) [] = Inr cs"
    using controls_ok [of cs _ "[]"] assms(4) by simp
  ultimately show ?thesis
    by (simp add: profile_parse_def shows_element_def profile_element_def required_attribute_def raw_one PROFILE_VERSION_def)
qed

section \<open>Decoding what is written\<close>

lemma xml_declaration_header: "xml_declaration (str_bytes (xml_header @ s)) = Some (str_bytes header_declaration)"
proof -
  let ?b = "str_bytes (xml_header @ s)"
  have bom: "\<not> starts_with [0xEF, 0xBB, 0xBF] ?b"
    by (simp add: header_split starts_with_def str_bytes_def word_unat_eq_iff) (simp add: byte_val_def)
  have "\<not> starts_with ''<!--'' (xml_header @ s)" by (simp add: header_split starts_with_def)
  then have skip: "skip_misc ?b = Some ?b"
    by (subst skip_misc.simps) (simp add: trim_header starts_with_bytes)
  let ?rest = "header_declaration @ ''?>'' @ newline @ s"
  have "find_window ''?>'' ?rest = Some (length header_declaration)"
    by (simp add: header_declaration_def quote_def starts_with_def)
  then have "find_window (str_bytes ''?>'') (str_bytes ?rest) = Some (length header_declaration)"
    by (simp only: find_window_bytes)
  moreover have "take (length header_declaration) (str_bytes ?rest) = str_bytes header_declaration"
    by (simp add: str_bytes_def)
  moreover have "strip_prefix (str_bytes ''<?xml'') ?b = Some (str_bytes ?rest)"
    unfolding header_split strip_prefix_bytes strip_prefix_append by simp
  ultimately show ?thesis using bom skip by (simp add: xml_declaration_def)
qed

lemma declared_header:
  assumes "for_label encs (str_bytes ''UTF-8'') = Some e"
  shows "profile_declared_encoding encs (str_bytes (xml_header @ s)) = Inr (Some e)"
proof -
  let ?i = 15
  have "xml_attribute (str_bytes header_declaration) (str_bytes ''encoding'') = Some ?i" by code_simp
  moreover have "ok_or (strip_prefix (str_bytes ''='') (trim_ascii_bytes_start (drop (?i + 8) (str_bytes header_declaration)))) Missing_equals
      = Inr (str_bytes (quote @ ''UTF-8'' @ quote))" by code_simp
  moreover have "declared_label (trim_ascii_bytes_start (str_bytes (quote @ ''UTF-8'' @ quote))) = Inr (str_bytes ''UTF-8'')" by code_simp
  ultimately show ?thesis using assms
    by (simp add: profile_declared_encoding_def xml_declaration_header Let_def)
qed

lemma normalize_header: "profile_normalize_xml_document (xml_header @ s) = xml_header @ s"
proof -
  obtain r where r: "xml_header @ s = CHR ''<'' # CHR ''?'' # r" using header_Cons by blast
  have "next_char (xml_header @ s) = Some (60, CHR ''?'' # r)" unfolding r by (simp add: next_char_def byte_val_def)
  moreover have "\<not> is_whitespace 60" by (simp add: is_whitespace_def)
  ultimately have "skip_whitespace (xml_header @ s) = xml_header @ s" by (subst skip_whitespace.simps) simp
  moreover have "\<not> starts_with ''<!--'' (xml_header @ s)" by (simp add: header_split starts_with_def)
  ultimately have "skip_comments (xml_header @ s) = Some (xml_header @ s)" by (subst skip_comments.simps) (simp add: Let_def)
  then show ?thesis by (simp add: profile_normalize_xml_document_def)
qed

lemma decode_written:
  assumes "utf8_codec encs" and "from_utf8 (xml_header @ s)"
  shows "profile_decode_xml_bytes encs (str_bytes (xml_header @ s)) = Inr (xml_header @ s)"
proof -
  have "starts_with ''<?xml'' (xml_header @ s)" by (simp add: header_split starts_with_def)
  with assms have "enc_decode encs (enc_utf8 encs) (str_bytes (xml_header @ s)) = (xml_header @ s, False)"
    by (simp add: utf8_codec_def)
  with assms(1) show ?thesis
    by (simp add: profile_decode_xml_bytes_def declared_header [where e = "enc_utf8 encs"] utf8_codec_def)
qed

lemma parse_bytes_serialized:
  assumes "serialize p = Inr xml" and "from_utf8 (up_name p)" and "from_utf8 (up_pnp_id p)"
    and "utf8_codec encs" and "reads_documents parse_document"
  shows "profile_parse_bytes encs parse_document (str_bytes xml) = Inr p"
proof -
  obtain tn ti where xml: "xml = document_text (profile_element tn ti) (map control_element (up_controls p))"
    and t: "raw_attribute tn" "unescape tn = up_name p" "raw_attribute ti" "unescape ti = up_pnp_id p"
    and len: "length (up_controls p) \<le> MAX_CONTROLS"
    by (rule serialize_text [OF assms(1-3)])
  have "from_utf8 xml" unfolding xml
    using t profile_element_ok control_element_ok by (intro document_utf8) (auto simp: list_all_iff)
  moreover obtain s where s: "xml = xml_header @ s" by (simp add: xml document_text_def)
  ultimately have "profile_decode_xml_bytes encs (str_bytes xml) = Inr xml" using decode_written [OF assms(4)] by simp
  moreover have "profile_normalize_xml_document xml = xml" using normalize_header s by simp
  moreover have "profile_parse parse_document xml = Inr p"
    using profile_parse_text [OF assms(5) t(1,3) len] t by (simp add: xml)
  ultimately show ?thesis by (simp add: profile_parse_bytes_def)
qed

section \<open>Ownership\<close>

definition profile_addrs :: "c_profile \<Rightarrow> ptr list" where
  "profile_addrs p =
     List.map_filter (map_option fst) [cp_filename p, cp_name p, cp_pnpid p] @ [cp_ptr p]"

definition profile_rep :: "string \<Rightarrow> profile \<Rightarrow> c_profile \<Rightarrow> bool" where
  "profile_rep filename p c \<longleftrightarrow>
     map_option snd (cp_filename c) = Some filename \<and> map_option snd (cp_name c) = Some (up_name p)
     \<and> map_option snd (cp_pnpid c) = Some (up_pnp_id p) \<and> cp_size c = int (length (up_controls p))
     \<and> length (cp_address c) = MAX_CONTROLS \<and> length (cp_value c) = MAX_CONTROLS
     \<and> take (length (up_controls p)) (cp_address c) = map uc_address (up_controls p)
     \<and> take (length (up_controls p)) (cp_value c) = map uc_value (up_controls p) \<and> cp_next c = None"

lemma fill_controls_ok:
  assumes "i + length cs \<le> length as" and "length vs = length as"
  shows "fill_controls i cs (as, vs) =
    (take i as @ map uc_address cs @ drop (i + length cs) as, take i vs @ map uc_value cs @ drop (i + length cs) vs)"
  using assms
proof (induction cs arbitrary: i as vs)
  case (Cons c cs)
  have step: "take (Suc i) (xs[i := x]) = take i xs @ [x]" if "i < length xs" for xs :: "'z list" and x
    using that by (simp add: take_Suc_conv_app_nth)
  from Cons.prems Cons.IH [of "Suc i" "as[i := uc_address c]" "vs[i := uc_value c]"] show ?case
    by (simp add: step)
qed simp

lemma profile_to_c_outcome:
  assumes "heap_ok h" and "length (up_controls p) \<le> MAX_CONTROLS"
  shows "outcome h profile_addrs (profile_rep filename p)
    (\<not> (\<forall>n. avail n) \<or> CHR 0x00 \<in> set filename \<or> CHR 0x00 \<in> set (up_name p) \<or> CHR 0x00 \<in> set (up_pnp_id p))
    (profile_to_c avail filename p) h"
  unfolding profile_to_c_def
proof (rule cstr.outcome_alloc [OF holds_self [OF assms(1)]], goal_cases)
  case (1 h')
  then show ?case by (intro outcome_ret_None) auto
next
  case (2 f h')
  note f = 2
  show ?case
  proof (rule cstr.outcome_alloc [OF f(1)], goal_cases)
    case (1 h')
    then show ?case by (intro outcome_fail [OF releases_free]) auto
  next
    case (2 n h')
    note n = 2
    show ?case
    proof (rule cstr.outcome_alloc [OF n(1)], goal_cases)
      case (1 h')
      then show ?case by (intro outcome_fail [OF releases_bind [OF releases_free releases_free]]) auto
    next
      case (2 i h')
      note i = 2
      show ?case
      proof (rule block.outcome_alloc [OF i(1)], goal_cases)
        case (1 h')
        then show ?case
          by (intro outcome_fail [OF releases_bind [OF releases_free releases_bind [OF releases_free releases_free]]]) auto
      next
        case (2 node h')
        have "fill_controls 0 (up_controls p) (replicate MAX_CONTROLS 0, replicate MAX_CONTROLS 0)
            = (map uc_address (up_controls p) @ drop (length (up_controls p)) (replicate MAX_CONTROLS 0),
               map uc_value (up_controls p) @ drop (length (up_controls p)) (replicate MAX_CONTROLS 0))"
          using fill_controls_ok [of 0 "up_controls p"] assms(2) by simp
        with 2 f(2) n(2) i(2) assms(2) show ?case
          by (simp del: drop_replicate) (intro outcome_ret_Some, auto simp: profile_rep_def profile_addrs_def map_filter_def)
      qed
    qed
  qed
qed

lemma control_step_bound: "control_step x acc = Inr cs \<Longrightarrow> length acc \<le> MAX_CONTROLS \<Longrightarrow> length cs \<le> MAX_CONTROLS"
  by (auto simp: control_step_def split: if_splits)

lemma controls_bound:
  "fold_res control_step xs acc = Inr cs \<Longrightarrow> length acc \<le> MAX_CONTROLS \<Longrightarrow> length cs \<le> MAX_CONTROLS"
  by (induction xs arbitrary: acc) (auto dest: control_step_bound)

lemma profile_bound: "profile_parse_bytes encs parse_document bs = Inr p \<Longrightarrow> length (up_controls p) \<le> MAX_CONTROLS"
  using controls_bound [of _ "[]"] by (auto simp: profile_parse_bytes_def profile_parse_def split: if_splits)

lemma profile_from_rep:
  assumes "profile_rep filename p c" and "from_utf8 (up_name p)" and "from_utf8 (up_pnp_id p)"
    and "length (up_controls p) \<le> MAX_CONTROLS"
  shows "profile_from_c c = Some p"
proof -
  let ?cs = "up_controls p"
  have "cp_address c ! i = uc_address (?cs ! i)" "cp_value c ! i = uc_value (?cs ! i)" if "i < length ?cs" for i
    using that assms(1) nth_take [of i "length ?cs" "cp_address c"] nth_take [of i "length ?cs" "cp_value c"]
    by (simp_all add: profile_rep_def)
  then have "map (\<lambda>i. \<lparr>uc_address = cp_address c ! i, uc_value = cp_value c ! i\<rparr>) [0..<length ?cs] = ?cs"
    by (intro nth_equalityI) simp_all
  with assms show ?thesis by (auto simp: profile_rep_def profile_from_c_def)
qed

section \<open>Loading and saving\<close>

text \<open>
  C34: loading a user profile ends without a fault, whatever the file holds and whatever allocation
  fails. A null result leaves no block behind. A profile that is returned shows the parsed file, has at
  most 256 controls, so that no array index is out of bounds, and consists of new blocks only.
\<close>

theorem profile_load_safe:
  assumes "heap_ok h"
  shows "case profile_load_inner avail encs parse_document fs filename h of
      None \<Rightarrow> False
    | Some (None, h') \<Rightarrow> live h' = live h
    | Some (Some c, h') \<Rightarrow>
        holds h (profile_addrs c) h'
        \<and> (\<exists>name bs p. filename = Some name \<and> fs name = Some bs \<and> profile_parse_bytes encs parse_document bs = Inr p
             \<and> profile_rep name p c \<and> length (up_controls p) \<le> MAX_CONTROLS)"
proof (cases "\<exists>name bs p. filename = Some name \<and> fs name = Some bs \<and> profile_parse_bytes encs parse_document bs = Inr p")
  case True
  then obtain name bs p where l: "filename = Some name" "fs name = Some bs" "profile_parse_bytes encs parse_document bs = Inr p"
    by blast
  from profile_to_c_outcome [OF assms profile_bound [OF l(3)], of name avail] l profile_bound [OF l(3)] show ?thesis
    by (auto simp: profile_load_inner_def outcome_def holds_def split: option.splits prod.splits)
next
  case False
  then have "profile_load_inner avail encs parse_document fs filename = ret None"
    by (auto simp: profile_load_inner_def split: option.splits sum.splits)
  then show ?thesis by (simp add: ret_def)
qed

definition c_strings :: "c_profile \<Rightarrow> bool" where
  "c_strings p \<longleftrightarrow> list_all (\<lambda>s. case s of None \<Rightarrow> True | Some (_, t) \<Rightarrow> CHR 0x00 \<notin> set t) [cp_filename p, cp_name p, cp_pnpid p]"

text \<open>What two structures show to a C program: texts and the controls in use, but not addresses.\<close>

definition same_settings :: "c_profile \<Rightarrow> c_profile \<Rightarrow> bool" where
  "same_settings p q \<longleftrightarrow>
     map_option snd (cp_filename q) = map_option snd (cp_filename p) \<and> map_option snd (cp_name q) = map_option snd (cp_name p)
     \<and> map_option snd (cp_pnpid q) = map_option snd (cp_pnpid p) \<and> cp_size q = cp_size p
     \<and> take (nat (cp_size p)) (cp_address q) = map ((!) (cp_address p)) [0..<nat (cp_size p)]
     \<and> take (nat (cp_size p)) (cp_value q) = map ((!) (cp_value p)) [0..<nat (cp_size p)]"

lemma rep_same_settings:
  assumes "profile_from_c p = Some rust" and "cp_filename p = Some filename" and "profile_rep (snd filename) rust q"
  shows "same_settings p q"
  using assms by (auto simp: profile_from_c_def profile_rep_def same_settings_def comp_def split: option.splits if_splits)

text \<open>
  C35: a profile that was saved successfully loads back: unless memory runs out, loading its file gives a
  structure with the same file name, name, monitor and controls, addresses and values in order. This rests on the XML parser reading the
  documents written, which have no namespaces, on UTF-8 decoding, and on a successful write being
  visible.
\<close>

theorem profile_save_load:
  assumes "reads_documents parse_document" and "utf8_codec encs" and "durable fs_write"
    and "heap_ok h" and "c_strings p" and "profile_save_inner fs_write (Some p) fs = (0, fs')"
  shows "case profile_load_inner avail encs parse_document fs' (map_option snd (cp_filename p)) h of
      None \<Rightarrow> False
    | Some (None, h') \<Rightarrow> (\<exists>n. \<not> avail n) \<and> live h' = live h
    | Some (Some q, h') \<Rightarrow> same_settings p q \<and> profile_from_c q = profile_from_c p \<and> profile_from_c p \<noteq> None
        \<and> holds h (profile_addrs q) h'"
proof -
  obtain filename rust xml where p: "cp_filename p = Some filename" "profile_from_c p = Some rust" "serialize rust = Inr xml"
    and "fs_write (snd filename) (str_bytes xml) fs = (True, fs')"
    using assms(6) by (auto simp: profile_save_inner_def split: option.splits sum.splits prod.splits bool.splits)
  then have stored: "fs' (snd filename) = Some (str_bytes xml)" using assms(3) by (simp add: durable_def)
  have utf: "from_utf8 (up_name rust)" "from_utf8 (up_pnp_id rust)" and len: "length (up_controls rust) \<le> MAX_CONTROLS"
    and nul: "CHR 0x00 \<notin> set (snd filename)" "CHR 0x00 \<notin> set (up_name rust)" "CHR 0x00 \<notin> set (up_pnp_id rust)"
    using p(1,2) assms(5) by (auto simp: profile_from_c_def c_strings_def split: option.splits if_splits)
  have "profile_load_inner avail encs parse_document fs' (map_option snd (cp_filename p)) = profile_to_c avail (snd filename) rust"
    using parse_bytes_serialized [OF p(3) utf assms(2,1)] p(1) stored by (simp add: profile_load_inner_def)
  with profile_to_c_outcome [OF assms(4) len, of "snd filename" avail] nul profile_from_rep [OF _ utf len] p(2)
    rep_same_settings [OF p(2,1)]
  show ?thesis by (auto simp: outcome_def holds_def split: option.splits prod.splits)
qed

section \<open>A sample\<close>

definition sample_encodings :: "unit encodings" where
  "sample_encodings =
     \<lparr>for_label = \<lambda>l. if l = str_bytes ''UTF-8'' then Some () else None, for_bom = \<lambda>_. None,
      enc_decode = \<lambda>_ bs. (bytes_str bs, False), enc_utf8 = ()\<rparr>"

lemma sample_codec: "utf8_codec sample_encodings"
  by (simp add: utf8_codec_def sample_encodings_def)

definition sample_user_profile :: c_profile where
  "sample_user_profile =
     \<lparr>cp_ptr = 0, cp_filename = Some (1, ''p.xml''), cp_name = Some (2, ''a<b''), cp_pnpid = Some (3, ''SAM0001''),
      cp_size = 1, cp_address = [0x10], cp_value = [50], cp_next = None\<rparr>"

lemma sample_save:
  obtains fs where "profile_save_inner (\<lambda>path bs fs. (True, fs(path \<mapsto> bs))) (Some sample_user_profile) (\<lambda>_. None) = (0, fs)"
proof -
  let ?p = "\<lparr>up_name = ''a<b'', up_pnp_id = ''SAM0001'', up_controls = [\<lparr>uc_address = 0x10, uc_value = 50\<rparr>]\<rparr>"
  have from_c: "profile_from_c sample_user_profile = Some ?p"
    by code_simp
  obtain xml where xml: "serialize ?p = Inr xml"
    by (rule serialize_succeeds [of ?p])
      (simp_all add: MAX_CONTROLS_def str_chars_ascii byte_val_def, simp_all add: is_xml_character_def)
  have name: "cp_filename sample_user_profile = Some (1, ''p.xml'')" by (simp add: sample_user_profile_def)
  show ?thesis
    by (rule that) (simp only: profile_save_inner_def option.case name from_c xml sum.case snd_conv prod.case bool.case)
qed

theorem profile_load_safe_witness:
  "case profile_load_inner (\<lambda>_. False) sample_encodings simple_parse (\<lambda>_. None) (Some ''p.xml'') \<lparr>calls = 0, live = {}\<rparr> of
      None \<Rightarrow> False | Some (c, h') \<Rightarrow> live h' = {}"
proof -
  have "heap_ok \<lparr>calls = 0, live = {}\<rparr>" by (simp add: heap_ok_def)
  from profile_load_safe [OF this, where avail = "\<lambda>_. False" and encs = sample_encodings and parse_document = simple_parse
      and fs = "\<lambda>_. None" and filename = "Some ''p.xml''"] show ?thesis
    by (auto split: option.splits)
qed

theorem profile_save_load_witness:
  "\<exists>fs q h'. profile_save_inner (\<lambda>path bs fs. (True, fs(path \<mapsto> bs))) (Some sample_user_profile) (\<lambda>_. None) = (0, fs)
     \<and> profile_load_inner (\<lambda>_. True) sample_encodings simple_parse fs (Some ''p.xml'') \<lparr>calls = 0, live = {}\<rparr> = Some (Some q, h')
     \<and> profile_from_c q = profile_from_c sample_user_profile"
proof -
  obtain fs where fs: "profile_save_inner (\<lambda>path bs fs. (True, fs(path \<mapsto> bs))) (Some sample_user_profile) (\<lambda>_. None) = (0, fs)"
    by (rule sample_save)
  have "durable (\<lambda>path bs fs. (True, fs(path \<mapsto> bs)))" by (simp add: durable_def)
  moreover have "heap_ok \<lparr>calls = 0, live = {}\<rparr>" by (simp add: heap_ok_def)
  moreover have "c_strings sample_user_profile" by (simp add: c_strings_def sample_user_profile_def)
  ultimately have "case profile_load_inner (\<lambda>_. True) sample_encodings simple_parse fs (Some ''p.xml'') \<lparr>calls = 0, live = {}\<rparr> of
      None \<Rightarrow> False | Some (None, h') \<Rightarrow> False
    | Some (Some q, h') \<Rightarrow> profile_from_c q = profile_from_c sample_user_profile"
    using profile_save_load [OF simple_parse_reads sample_codec _ _ _ fs, of _ "\<lambda>_. True"]
    by (fastforce simp: sample_user_profile_def [THEN arg_cong [where f = cp_filename]] split: option.splits)
  with fs show ?thesis by (auto split: option.splits)
qed

end
