(* ===== verification/Monitor_List.thy ===== *)
theory Monitor_List
  imports Xml_Document C_Memory
begin

text \<open>
  The cache of detected monitors: the file format of \<^verbatim>\<open>crates/ddccontrol-monitorlist/src/lib.rs\<close>
  and the C interface of \<^verbatim>\<open>crates/ddccontrol-db/src/monitor_list.rs\<close>, which hands out a linked
  list. The list under construction is dropped as a whole when an allocation fails, with the node that is
  only partly filled. The XML parser, the encodings, the file system and the success of each allocation
  are parameters.
\<close>

section \<open>Monitors\<close>

record list_monitor =
  lm_filename :: string
  lm_supported :: u8
  lm_name :: string
  lm_digital :: u8

datatype list_error =
    Invalid_bytes
  | Malformed_document string
  | Expected_monitorlist
  | Version_mismatch string string
  | Attribute_missing string
  | Invalid_flag string
  | Flag_out_of_range string
  | Invalid_xml_character nat
  | Unterminated_declaration
  | Invalid_declaration
  | Unsupported_xml_encoding

type_synonym 'a list_result = "('a, list_error) result"

record 'enc list_encodings =
  le_base :: "'enc encodings"
  le_utf16be :: 'enc
  le_utf16le :: 'enc

definition label_position :: "bytes \<Rightarrow> nat option" where
  "label_position declaration =
     find (\<lambda>index. take 8 (drop index declaration) = str_bytes ''encoding''
             \<and> index > 0 \<and> byte_is_whitespace (declaration ! (index - 1)))
       [0..<length declaration + 1 - 8]"

definition list_label :: "bytes \<Rightarrow> bytes list_result" where
  "list_label rest =
     (case rest of
        [] \<Rightarrow> Err Invalid_declaration
      | q # rest \<Rightarrow>
          if q \<noteq> byte_of (CHR 0x27) \<and> q \<noteq> byte_of (CHR 0x22) then Err Invalid_declaration
          else case find_position (\<lambda>b. b = q) rest of
                 None \<Rightarrow> Err Invalid_declaration
               | Some index \<Rightarrow> Ok (take index rest))"

definition declared_encoding :: "'enc encodings \<Rightarrow> bytes \<Rightarrow> 'enc option list_result" where
  "declared_encoding encs input =
     (case strip_prefix (str_bytes ''<?xml'') input of
        None \<Rightarrow> Ok None
      | Some [] \<Rightarrow> Ok None
      | Some (b # r) \<Rightarrow>
          if \<not> byte_is_whitespace b then Ok None
          else
            and_then (ok_or (find_window (str_bytes ''?>'') (b # r)) Unterminated_declaration) (\<lambda>index.
              let declaration = take index (b # r)
              in case label_position declaration of
                   None \<Rightarrow> Ok None
                 | Some index \<Rightarrow>
                     (let rest = trim_ascii_bytes_start (drop (index + 8) declaration)
                      in and_then (ok_or (strip_prefix (str_bytes ''='') rest) Invalid_declaration) (\<lambda>rest.
                         and_then (list_label (trim_ascii_bytes_start rest)) (\<lambda>label.
                         and_then (ok_or (for_label encs label) Unsupported_xml_encoding) (\<lambda>e. Ok (Some e)))))))"

definition attribute_of :: "xml \<Rightarrow> string \<Rightarrow> string list_result" where
  "attribute_of n name = ok_or (x_attribute n name) (Attribute_missing name)"

definition parse_byte :: "string \<Rightarrow> u8 list_result" where
  "parse_byte input =
     (if starts_with ''-'' (trim_ascii_start input) then Err (Invalid_flag input)
      else and_then (map_err (\<lambda>_. Invalid_flag input) (parse_integer input)) (\<lambda>v.
             ok_or (u8_try_from v) (Flag_out_of_range input)))"

definition parse_list_monitor :: "xml \<Rightarrow> list_monitor list_result" where
  "parse_list_monitor n =
     and_then (attribute_of n ''filename'') (\<lambda>filename.
     and_then (attribute_of n ''supported'') (\<lambda>raw.
     and_then (parse_byte raw) (\<lambda>supported.
     and_then (attribute_of n ''name'') (\<lambda>name.
     and_then (attribute_of n ''digital'') (\<lambda>raw.
     and_then (parse_byte raw) (\<lambda>digital.
       Ok \<lparr>lm_filename = filename, lm_supported = supported, lm_name = name, lm_digital = digital\<rparr>))))))"

definition list_parse :: "(string \<Rightarrow> (xml, string) result) \<Rightarrow> string \<Rightarrow> string \<Rightarrow> list_monitor list list_result" where
  "list_parse parse_document input version =
     and_then (map_err Malformed_document (parse_document input)) (\<lambda>root.
       if x_tag root \<noteq> ''monitorlist'' then Err Expected_monitorlist
       else
         and_then (attribute_of root ''ddccontrolversion'') (\<lambda>saved_version.
           if saved_version \<noteq> version then Err (Version_mismatch saved_version version)
           else collect (map parse_list_monitor (x_tagged ''monitor'' root))))"

definition list_parse_bytes ::
  "'enc list_encodings \<Rightarrow> (string \<Rightarrow> (xml, string) result) \<Rightarrow> bytes \<Rightarrow> string \<Rightarrow> list_monitor list list_result" where
  "list_parse_bytes encs parse_document input version =
     and_then
       (case for_bom (le_base encs) input of
          Some (encoding, _) \<Rightarrow> Ok encoding
        | None \<Rightarrow>
            if starts_with (str_bytes [CHR 0x00, CHR ''<'', CHR 0x00, CHR ''?'']) input then Ok (le_utf16be encs)
            else if starts_with (str_bytes [CHR ''<'', CHR 0x00, CHR ''?'', CHR 0x00]) input then Ok (le_utf16le encs)
            else and_then (declared_encoding (le_base encs) input) (\<lambda>declared.
                   Ok (case declared of Some e \<Rightarrow> e | None \<Rightarrow> enc_utf8 (le_base encs))))
       (\<lambda>encoding.
          let (decoded, had_errors) = enc_decode (le_base encs) encoding input
          in if had_errors then Err Invalid_bytes
             else and_then (declared_encoding (le_base encs) (str_bytes decoded)) (\<lambda>_.
                    list_parse parse_document decoded version))"

definition list_push_attribute :: "string \<Rightarrow> string \<Rightarrow> string list_result" where
  "list_push_attribute out input =
     (case push_attribute out input of
        (out', Inr _) \<Rightarrow> Ok out'
      | (_, Inl character) \<Rightarrow> Err (Invalid_xml_character character))"

definition write_monitor :: "list_monitor \<Rightarrow> string \<Rightarrow> string list_result" where
  "write_monitor m out =
     and_then (list_push_attribute (out @ ''  <monitor filename='' @ quote) (lm_filename m)) (\<lambda>out.
     and_then (list_push_attribute
                (out @ quote @ '' supported='' @ quote @ format_dec (unat (lm_supported m)) @ quote @ '' name='' @ quote)
                (lm_name m)) (\<lambda>out.
       Ok (out @ quote @ '' digital='' @ quote @ format_dec (unat (lm_digital m)) @ quote @ ''/>'' @ newline)))"

definition list_serialize :: "list_monitor list \<Rightarrow> string \<Rightarrow> string list_result" where
  "list_serialize monitors version =
     (let out = ''<?xml version='' @ quote @ ''1.0'' @ quote @ '' encoding='' @ quote @ ''UTF-8'' @ quote @ ''?>'' @ newline
                @ ''<monitorlist ddccontrolversion='' @ quote
      in and_then (list_push_attribute out version) (\<lambda>out.
         and_then (fold_res write_monitor monitors (out @ quote @ ''>'' @ newline)) (\<lambda>out.
           Ok (out @ ''</monitorlist>'' @ newline))))"

section \<open>The C interface\<close>

record c_monitor_list =
  cl_ptr :: ptr
  cl_filename :: "c_str option"
  cl_supported :: u8
  cl_name :: "c_str option"
  cl_digital :: u8

definition c_string :: "(nat \<Rightarrow> bool) \<Rightarrow> string \<Rightarrow> c_str option mem" where
  "c_string avail input =
     (if CHR 0x00 \<in> set input then ret None
      else mem_bind (malloc avail) (\<lambda>p. case p of None \<Rightarrow> ret None | Some a \<Rightarrow> ret (Some (a, input))))"

definition drop_node :: "c_monitor_list \<Rightarrow> unit mem" where
  "drop_node n =
     mem_bind (free_opt (map_option fst (cl_filename n))) (\<lambda>_.
     mem_bind (free_opt (map_option fst (cl_name n))) (\<lambda>_. free (cl_ptr n)))"

definition drop_list :: "c_monitor_list list \<Rightarrow> unit mem" where
  "drop_list l = for_each drop_node l"

fun list_to_c :: "(nat \<Rightarrow> bool) \<Rightarrow> list_monitor list \<Rightarrow> c_monitor_list list \<Rightarrow> c_monitor_list list option mem" where
  "list_to_c avail [] list = ret (Some list)"
| "list_to_c avail (m # ms) list =
     mem_bind (malloc avail) (\<lambda>r. case r of
       None \<Rightarrow> mem_bind (drop_list list) (\<lambda>_. ret None)
     | Some node \<Rightarrow>
         let n = \<lparr>cl_ptr = node, cl_filename = None, cl_supported = lm_supported m, cl_name = None, cl_digital = lm_digital m\<rparr>
         in mem_bind (c_string avail (lm_filename m)) (\<lambda>r. case r of
              None \<Rightarrow> mem_bind (drop_list (list @ [n])) (\<lambda>_. ret None)
            | Some filename \<Rightarrow>
                let n = n\<lparr>cl_filename := Some filename\<rparr>
                in mem_bind (c_string avail (lm_name m)) (\<lambda>r. case r of
                     None \<Rightarrow> mem_bind (drop_list (list @ [n])) (\<lambda>_. ret None)
                   | Some name \<Rightarrow> list_to_c avail ms (list @ [n\<lparr>cl_name := Some name\<rparr>]))))"

definition list_load_inner ::
  "(nat \<Rightarrow> bool) \<Rightarrow> 'enc list_encodings \<Rightarrow> (string \<Rightarrow> (xml, string) result) \<Rightarrow> files \<Rightarrow> string \<Rightarrow> string
     \<Rightarrow> c_monitor_list list option mem" where
  "list_load_inner avail encs parse_document fs filename version =
     (case fs filename of
        None \<Rightarrow> ret None
      | Some bs \<Rightarrow>
          if \<not> from_utf8 version then ret None
          else case list_parse_bytes encs parse_document bs version of
                 Inl _ \<Rightarrow> ret None
               | Inr monitors \<Rightarrow> list_to_c avail monitors [])"

text \<open>The status, and what is written to the output pointer: nothing on failure.\<close>

definition ddccontrol_monitorlist_load ::
  "(nat \<Rightarrow> bool) \<Rightarrow> 'enc list_encodings \<Rightarrow> (string \<Rightarrow> (xml, string) result) \<Rightarrow> files \<Rightarrow> string option \<Rightarrow> string option
     \<Rightarrow> c_monitor_list list option \<Rightarrow> (int \<times> c_monitor_list list option) mem" where
  "ddccontrol_monitorlist_load avail encs parse_document fs filename version output =
     (case (filename, version, output) of
        (Some filename, Some version, Some _) \<Rightarrow>
          mem_bind (list_load_inner avail encs parse_document fs filename version) (\<lambda>r. case r of
            None \<Rightarrow> ret (-1, output)
          | Some list \<Rightarrow> ret (0, Some list))
      | _ \<Rightarrow> ret (-1, output))"

fun list_from_c :: "c_monitor_list list \<Rightarrow> list_monitor list option" where
  "list_from_c [] = Some []"
| "list_from_c (n # ns) =
     (case (cl_filename n, cl_name n) of
        (Some filename, Some name) \<Rightarrow>
          if \<not> from_utf8 (snd filename) \<or> \<not> from_utf8 (snd name) then None
          else map_option (\<lambda>ms. \<lparr>lm_filename = snd filename, lm_supported = cl_supported n, lm_name = snd name,
                                 lm_digital = cl_digital n\<rparr> # ms) (list_from_c ns)
      | _ \<Rightarrow> None)"

definition list_save_inner ::
  "(string \<Rightarrow> bytes \<Rightarrow> files \<Rightarrow> bool \<times> files) \<Rightarrow> string \<Rightarrow> string \<Rightarrow> c_monitor_list list \<Rightarrow> files \<Rightarrow> bool \<times> files" where
  "list_save_inner fs_write filename version list fs =
     (case list_from_c list of
        None \<Rightarrow> (False, fs)
      | Some monitors \<Rightarrow>
          if \<not> from_utf8 version then (False, fs)
          else case list_serialize monitors version of
                 Inl _ \<Rightarrow> (False, fs)
               | Inr xml \<Rightarrow> fs_write filename (str_bytes xml) fs)"

definition ddccontrol_monitorlist_save ::
  "(string \<Rightarrow> bytes \<Rightarrow> files \<Rightarrow> bool \<times> files) \<Rightarrow> string option \<Rightarrow> string option \<Rightarrow> c_monitor_list list \<Rightarrow> files \<Rightarrow> int \<times> files" where
  "ddccontrol_monitorlist_save fs_write filename version list fs =
     (case (filename, version) of
        (Some filename, Some version) \<Rightarrow>
          (case list_save_inner fs_write filename version list fs of (saved, fs) \<Rightarrow> (if saved then 0 else -1, fs))
      | _ \<Rightarrow> (-1, fs))"

section \<open>What is written and read\<close>

text \<open>The element written for a monitor.\<close>

definition writes_monitor :: "list_monitor \<Rightarrow> element \<Rightarrow> bool" where
  "writes_monitor m e \<longleftrightarrow>
     (\<exists>tf tn. raw_attribute tf \<and> unescape tf = lm_filename m \<and> raw_attribute tn \<and> unescape tn = lm_name m
        \<and> e = \<lparr>el_tag = ''monitor'',
               el_attrs = [(''filename'', tf), (''supported'', format_dec (unat (lm_supported m))), (''name'', tn),
                           (''digital'', format_dec (unat (lm_digital m)))]\<rparr>)"

definition monitor_utf8 :: "list_monitor \<Rightarrow> bool" where
  "monitor_utf8 m \<longleftrightarrow> from_utf8 (lm_filename m) \<and> from_utf8 (lm_name m)"

lemma list_push_Ok:
  assumes "list_push_attribute out input = Inr out'" and "from_utf8 input"
  obtains t where "out' = out @ t" "raw_attribute t" "unescape t = input"
proof -
  obtain u where "push_attribute out input = (out', Inr u)"
    using assms(1) by (auto simp: list_push_attribute_def split: prod.splits sum.splits)
  then show ?thesis by (rule push_attribute_raw [OF _ assms(2)]) (rule that)
qed

lemma write_monitor_text:
  assumes "write_monitor m out = Inr out'" and "monitor_utf8 m"
  obtains e where "out' = out @ empty_text e" "writes_monitor m e"
proof -
  obtain o1 o2 where o: "list_push_attribute (out @ ''  <monitor filename='' @ quote) (lm_filename m) = Inr o1"
    "list_push_attribute
      (o1 @ quote @ '' supported='' @ quote @ format_dec (unat (lm_supported m)) @ quote @ '' name='' @ quote) (lm_name m) = Inr o2"
    and out': "out' = o2 @ quote @ '' digital='' @ quote @ format_dec (unat (lm_digital m)) @ quote @ ''/>'' @ newline"
    using assms(1) by (auto simp: write_monitor_def)
  obtain tf where tf: "o1 = (out @ ''  <monitor filename='' @ quote) @ tf" "raw_attribute tf" "unescape tf = lm_filename m"
    using list_push_Ok [OF o(1)] assms(2) by (auto simp: monitor_utf8_def)
  obtain tn where tn: "o2 = (o1 @ quote @ '' supported='' @ quote @ format_dec (unat (lm_supported m)) @ quote @ '' name='' @ quote) @ tn"
    "raw_attribute tn" "unescape tn = lm_name m"
    using list_push_Ok [OF o(2)] assms(2) by (auto simp: monitor_utf8_def)
  let ?e = "\<lparr>el_tag = ''monitor'',
      el_attrs = [(''filename'', tf), (''supported'', format_dec (unat (lm_supported m))), (''name'', tn),
        (''digital'', format_dec (unat (lm_digital m)))]\<rparr>"
  have "out' = out @ empty_text ?e"
    by (simp add: out' tf(1) tn(1) empty_text_def open_text_def attr_text_def quote_def newline_def)
  moreover have "writes_monitor m ?e" using tf tn by (auto simp: writes_monitor_def)
  ultimately show ?thesis using that by blast
qed

lemma write_monitors_text:
  assumes "fold_res write_monitor ms out = Inr out'" and "list_all monitor_utf8 ms"
  obtains es where "out' = out @ concat (map empty_text es)" "list_all2 writes_monitor ms es"
  using assms
proof (induction ms arbitrary: out thesis)
  case (Cons m ms)
  from Cons.prems obtain o1 where o1: "write_monitor m out = Inr o1" "fold_res write_monitor ms o1 = Inr out'" by auto
  obtain e where e: "o1 = out @ empty_text e" "writes_monitor m e"
    using write_monitor_text [OF o1(1)] Cons.prems by auto
  obtain es where "out' = o1 @ concat (map empty_text es)" "list_all2 writes_monitor ms es"
    using Cons.IH [OF _ o1(2)] Cons.prems by auto
  with e show ?case by (intro Cons.prems(1) [of "e # es"]) auto
qed simp

definition list_element :: "string \<Rightarrow> element" where
  "list_element version = \<lparr>el_tag = ''monitorlist'', el_attrs = [(''ddccontrolversion'', version)]\<rparr>"

lemma list_serialize_text:
  assumes "list_serialize ms version = Inr xml" and "list_all monitor_utf8 ms" and "from_utf8 version"
  obtains tv es where "xml = document_text (list_element tv) es" "raw_attribute tv" "unescape tv = version"
    "list_all2 writes_monitor ms es"
proof -
  let ?start = "xml_header @ ''<monitorlist ddccontrolversion='' @ quote"
  obtain o1 o2 where o1: "list_push_attribute ?start version = Inr o1"
    and o2: "fold_res write_monitor ms (o1 @ quote @ ''>'' @ newline) = Inr o2" and xml: "xml = o2 @ ''</monitorlist>'' @ newline"
    using assms(1) by (auto simp: list_serialize_def xml_header_def quote_def newline_def Let_def)
  obtain tv where tv: "o1 = ?start @ tv" "raw_attribute tv" "unescape tv = version" by (rule list_push_Ok [OF o1 assms(3)])
  obtain es where es: "o2 = (o1 @ quote @ ''>'' @ newline) @ concat (map empty_text es)" "list_all2 writes_monitor ms es"
    by (rule write_monitors_text [OF o2 assms(2)])
  have "xml = document_text (list_element tv) es"
    by (simp add: xml es(1) tv(1) document_text_def open_text_def attr_text_def list_element_def quote_def newline_def)
  with that tv es show ?thesis by blast
qed

lemma dec_plain: "list_all (\<lambda>c. plain c \<and> 32 \<le> byte_val c \<and> byte_val c < 128) (format_dec n)"
proof -
  have "byte_val (digit_lower d) \<in> {48..<58}" if "d < 10" for d using that by (auto simp: digit_lower_def byte_val_char_of)
  then have "plain (digit_lower d) \<and> 32 \<le> byte_val (digit_lower d) \<and> byte_val (digit_lower d) < 128" if "d < 10" for d
    using that by (fastforce simp: plain_val)
  then show ?thesis using nat_digits_less [of 10 _ n] by (auto simp: format_dec_def list_all_iff)
qed

lemma raw_dec: "raw_attribute (format_dec n)" "unescape (format_dec n) = format_dec n"
proof -
  show "raw_attribute (format_dec n)" by (rule plain_raw [OF dec_plain])
  have "list_all plain (format_dec n)" using dec_plain [of n] by (auto simp: list_all_iff)
  from unescape_plains [OF this, of "[]"] show "unescape (format_dec n) = format_dec n" by (simp add: unescape.simps [of "[]"])
qed

lemma parse_integer_small: "n < 256 \<Longrightarrow> parse_integer (format_dec n) = Inr (int n)"
  using parse_format_int [of "[]" "int n"] by (simp add: format_int_def)

lemma parse_byte_dec: "parse_byte (format_dec (unat (b :: u8))) = Inr b"
proof -
  have small: "unat b < 256" using unsigned_less [of b, where ?'a = nat] by simp
  obtain c r where f: "format_dec (unat b) = c # r" using literal_heads [of "unat b"] by (cases "format_dec (unat b)") auto
  then have "\<not> starts_with ''-'' (trim_ascii_start (format_dec (unat b)))"
    using literal_heads [of "unat b"] by (auto simp: trim_ascii_start_def starts_with_def)
  moreover have "parse_integer (format_dec (unat b)) = Inr (int (unat b))"
    using parse_integer_small [OF small] .
  ultimately show ?thesis using unsigned_less [of b, where ?'a = int] by (simp add: parse_byte_def u8_try_from_def)
qed

lemma writes_monitor_ok: "writes_monitor m e \<Longrightarrow> element_ok e"
  by (auto simp: writes_monitor_def element_ok_def raw_dec xml_name_def starts_with_def) (simp_all add: is_ascii_lowercase_def byte_val_def)

lemma list_element_ok: "raw_attribute t \<Longrightarrow> element_ok (list_element t)"
  by (simp add: element_ok_def list_element_def xml_name_def starts_with_def) (simp add: is_ascii_lowercase_def byte_val_def)

lemma parse_list_monitor_ok:
  "writes_monitor m e \<Longrightarrow> shows_element e x \<Longrightarrow> x_tag x = ''monitor'' \<and> parse_list_monitor x = Inr m"
  by (auto simp: writes_monitor_def shows_element_def parse_list_monitor_def attribute_of_def raw_dec parse_byte_dec)

lemma parse_monitors_ok:
  "list_all2 writes_monitor ms es \<Longrightarrow> list_all2 shows_element es xs \<Longrightarrow>
     filter (\<lambda>x. x_tag x = ''monitor'') xs = xs \<and> collect (map parse_list_monitor xs) = Inr ms"
proof (induction ms es arbitrary: xs rule: list_all2_induct)
  case (Cons m ms e es)
  from Cons.prems obtain x ys where "xs = x # ys" "shows_element e x" "list_all2 shows_element es ys" by (auto simp: list_all2_Cons1)
  with Cons parse_list_monitor_ok [of m e x] show ?case by simp
qed simp

lemma list_parse_text:
  assumes "reads_documents parse_document" and "raw_attribute tv" and "list_all2 writes_monitor ms es" and "length ms < 2 ^ 20"
  shows "list_parse parse_document (document_text (list_element tv) es) (unescape tv) = Inr ms"
proof -
  have "list_all element_ok es" using assms(3) writes_monitor_ok by (induction rule: list_all2_induct) auto
  moreover have "length es < 2 ^ 20" using assms(3,4) by (simp add: list_all2_lengthD)
  ultimately obtain x where
    "parse_document (document_text (list_element tv) es) = Inr x"
    "shows_element (list_element tv) x" "list_all2 shows_element es (x_element_children x)"
    using assms(1) list_element_ok [OF assms(2)] unfolding reads_documents_def by blast
  moreover from this have "collect (map parse_list_monitor (x_tagged ''monitor'' x)) = Inr ms"
    using parse_monitors_ok [OF assms(3)] by (simp add: x_tagged_def)
  ultimately show ?thesis by (simp add: list_parse_def shows_element_def list_element_def attribute_of_def)
qed

section \<open>Decoding what is written\<close>

definition list_codec :: "'enc list_encodings \<Rightarrow> bool" where
  "list_codec encs \<longleftrightarrow> utf8_codec (le_base encs)
     \<and> (\<forall>bs. starts_with (str_bytes ''<?xml'') bs \<longrightarrow> for_bom (le_base encs) bs = None)"

lemma list_declared_header:
  assumes "for_label encs (str_bytes ''UTF-8'') = Some e"
  shows "declared_encoding encs (str_bytes (xml_header @ s)) = Inr (Some e)"
proof -
  let ?rest = "header_declaration @ ''?>'' @ newline @ s"
  have strip: "strip_prefix (str_bytes ''<?xml'') (str_bytes (xml_header @ s)) = Some (str_bytes ?rest)"
    unfolding header_split strip_prefix_bytes strip_prefix_append by simp
  obtain r where r: "str_bytes ?rest = byte_of (CHR '' '') # r" by (simp add: header_declaration_def str_bytes_def)
  have "find_window ''?>'' ?rest = Some (length header_declaration)"
    by (simp add: header_declaration_def quote_def starts_with_def)
  then have window: "find_window (str_bytes ''?>'') (str_bytes ?rest) = Some (length header_declaration)"
    by (simp only: find_window_bytes)
  have part: "take (length header_declaration) (str_bytes ?rest) = str_bytes header_declaration" by (simp add: str_bytes_def)
  have space: "byte_is_whitespace (byte_of (CHR '' ''))" by (simp add: byte_is_whitespace_of byte_val_def)
  let ?i = 15
  have label: "label_position (str_bytes header_declaration) = Some ?i"
    "ok_or (strip_prefix (str_bytes ''='') (trim_ascii_bytes_start (drop (?i + 8) (str_bytes header_declaration)))) Invalid_declaration
      = Inr (str_bytes (quote @ ''UTF-8'' @ quote))"
    "list_label (trim_ascii_bytes_start (str_bytes (quote @ ''UTF-8'' @ quote))) = Inr (str_bytes ''UTF-8'')" by code_simp+
  show ?thesis
    unfolding declared_encoding_def strip option.case r list.case
    using window [unfolded r] part [unfolded r] space label assms by (simp add: Let_def)
qed

lemma list_parse_bytes_written:
  assumes "list_codec encs" and "from_utf8 (xml_header @ s)"
  shows "list_parse_bytes encs parse_document (str_bytes (xml_header @ s)) version = list_parse parse_document (xml_header @ s) version"
proof -
  let ?b = "str_bytes (xml_header @ s)"
  have "starts_with ''<?xml'' (xml_header @ s)" by (simp add: header_split starts_with_def)
  with assms have "enc_decode (le_base encs) (enc_utf8 (le_base encs)) ?b = (xml_header @ s, False)" and bom: "for_bom (le_base encs) ?b = None"
    by (simp_all add: list_codec_def utf8_codec_def starts_with_bytes)
  moreover have "declared_encoding (le_base encs) ?b = Inr (Some (enc_utf8 (le_base encs)))"
    using assms(1) by (intro list_declared_header) (simp add: list_codec_def utf8_codec_def)
  moreover have "\<not> starts_with [CHR 0x00, CHR ''<'', CHR 0x00, CHR ''?''] (xml_header @ s)"
    "\<not> starts_with [CHR ''<'', CHR 0x00, CHR ''?'', CHR 0x00] (xml_header @ s)" by (simp_all add: header_split starts_with_def)
  ultimately show ?thesis by (simp add: list_parse_bytes_def starts_with_bytes)
qed

section \<open>Ownership\<close>

definition opt_addr :: "c_str option \<Rightarrow> ptr list" where
  "opt_addr s = (case map_option fst s of Some a \<Rightarrow> [a] | None \<Rightarrow> [])"

definition node_addrs :: "c_monitor_list \<Rightarrow> ptr list" where
  "node_addrs n = opt_addr (cl_filename n) @ opt_addr (cl_name n) @ [cl_ptr n]"

lemma node_addrs_record [simp]:
  "node_addrs \<lparr>cl_ptr = p, cl_filename = f, cl_supported = s, cl_name = n, cl_digital = d\<rparr> = opt_addr f @ opt_addr n @ [p]"
  by (simp add: node_addrs_def)

lemma opt_addr_simps [simp]: "opt_addr None = []" "opt_addr (Some s) = [fst s]"
  by (simp_all add: opt_addr_def)

definition node_rep :: "list_monitor \<Rightarrow> c_monitor_list \<Rightarrow> bool" where
  "node_rep m n \<longleftrightarrow>
     map_option snd (cl_filename n) = Some (lm_filename m) \<and> cl_supported n = lm_supported m
     \<and> map_option snd (cl_name n) = Some (lm_name m) \<and> cl_digital n = lm_digital m"

definition node_clean :: "list_monitor \<Rightarrow> bool" where
  "node_clean m \<longleftrightarrow> CHR 0x00 \<notin> set (lm_filename m) \<and> CHR 0x00 \<notin> set (lm_name m)"

abbreviation list_addrs :: "c_monitor_list list \<Rightarrow> ptr list" where
  "list_addrs l \<equiv> concat (map node_addrs l)"

lemma c_string_eq: "c_string avail s = c_bytes avail s"
  by (simp add: c_string_def c_bytes_def)

lemma release_node: "releases (drop_node n) (node_addrs n)"
  unfolding drop_node_def node_addrs_def opt_addr_def
  by (rule releases_bind [OF releases_free_opt releases_bind [OF releases_free_opt releases_free]])

lemma release_list: "releases (drop_list l) (list_addrs l)"
  unfolding drop_list_def by (rule releases_for_each [OF release_node])

lemma drop_fails:
  assumes "holds h0 as h" and "mset (list_addrs l) = mset as" and bad
  shows "outcome h0 addrs good bad (mem_bind (drop_list l) (\<lambda>_. ret None)) h"
  using assms by (intro outcome_fail [OF release_list]) auto

lemma list_to_c_outcome:
  assumes "holds h0 (list_addrs l) h" and "list_all2 node_rep ys l"
  shows "outcome h0 list_addrs (list_all2 node_rep (ys @ ms)) (\<not> (\<forall>n. avail n) \<or> \<not> list_all node_clean ms) (list_to_c avail ms l) h"
  using assms
proof (induction ms arbitrary: l h ys)
  case Nil
  then show ?case by (simp add: outcome_ret_Some)
next
  case (Cons m ms)
  show ?case unfolding list_to_c.simps Let_def c_string_eq
  proof (rule block.outcome_alloc [OF Cons.prems(1)], goal_cases)
    case (1 h')
    then show ?case by (intro drop_fails) auto
  next
    case (2 node h')
    show ?case
    proof (rule cstr.outcome_alloc [OF 2(1)], goal_cases)
      case (1 h')
      then show ?case by (intro drop_fails) (auto simp: node_clean_def)
    next
      case (2 filename h')
      note filename = 2(2)
      show ?case
      proof (rule cstr.outcome_alloc [OF 2(1)], goal_cases)
        case (1 h')
        then show ?case by (intro drop_fails) (auto simp: node_clean_def)
      next
        case (2 name h')
        let ?n = "\<lparr>cl_ptr = node, cl_filename = Some filename, cl_supported = lm_supported m, cl_name = Some name,
            cl_digital = lm_digital m\<rparr>"
        have "holds h0 (list_addrs (l @ [?n])) h'"
          using 2(1) by (auto simp: holds_def)
        moreover have "node_rep m ?n" using filename 2(2) by (simp add: node_rep_def)
        then have "list_all2 node_rep (ys @ [m]) (l @ [?n])" using Cons.prems(2) by (intro list_all2_appendI) auto
        ultimately have "outcome h0 list_addrs (list_all2 node_rep ((ys @ [m]) @ ms)) (\<not> (\<forall>n. avail n) \<or> \<not> list_all node_clean ms)
            (list_to_c avail ms (l @ [?n])) h'" by (rule Cons.IH)
        then show ?case by (auto simp: outcome_def split: option.splits)
      qed
    qed
  qed
qed

lemma rep_from_c: "list_all2 node_rep ms l \<Longrightarrow> list_all monitor_utf8 ms \<Longrightarrow> list_from_c l = Some ms"
  by (induction rule: list_all2_induct) (auto simp: node_rep_def monitor_utf8_def)

lemma from_c_props: "list_from_c l = Some ms \<Longrightarrow> list_all monitor_utf8 ms \<and> list_all2 node_rep ms l"
proof (induction l arbitrary: ms)
  case (Cons n l)
  then show ?case by (auto simp: monitor_utf8_def node_rep_def split: option.splits if_splits)
qed simp

section \<open>Saving and loading\<close>

definition nodes_clean :: "c_monitor_list list \<Rightarrow> bool" where
  "nodes_clean l \<longleftrightarrow> list_all (\<lambda>n. CHR 0x00 \<notin> set (concat (List.map_filter (map_option snd) [cl_filename n, cl_name n]))) l"

lemma nodes_clean_rep: "list_all2 node_rep ms l \<Longrightarrow> nodes_clean l \<Longrightarrow> list_all node_clean ms"
  by (induction rule: list_all2_induct) (auto simp: nodes_clean_def node_rep_def node_clean_def map_filter_def)

lemma load_any:
  assumes "heap_ok h"
  shows "case ddccontrol_monitorlist_load avail encs parse_document fs filename version output h of
      None \<Rightarrow> False
    | Some ((status, output'), h') \<Rightarrow>
        if status = 0
        then \<exists>l f v bs ms. filename = Some f \<and> version = Some v \<and> output \<noteq> None \<and> fs f = Some bs
               \<and> list_parse_bytes encs parse_document bs v = Inr ms
               \<and> output' = Some l \<and> list_all2 node_rep ms l \<and> holds h (list_addrs l) h'
        else output' = output \<and> live h' = live h"
proof (cases "\<exists>f v out bs ms. filename = Some f \<and> version = Some v \<and> output = Some out \<and> fs f = Some bs \<and> from_utf8 v
    \<and> list_parse_bytes encs parse_document bs v = Inr ms")
  case True
  then obtain f v out bs ms where l: "filename = Some f" "version = Some v" "output = Some out" "fs f = Some bs" "from_utf8 v"
    "list_parse_bytes encs parse_document bs v = Inr ms" by blast
  then have inner: "list_load_inner avail encs parse_document fs f v = list_to_c avail ms []" by (simp add: list_load_inner_def)
  have "outcome h list_addrs (list_all2 node_rep ms) (\<not> (\<forall>n. avail n) \<or> \<not> list_all node_clean ms) (list_to_c avail ms []) h"
    using list_to_c_outcome [of h "[]" h "[]" ms avail] assms by (simp add: holds_self)
  with l show ?thesis
    by (auto simp: ddccontrol_monitorlist_load_def inner outcome_def mem_bind_def ret_def holds_def split: option.splits prod.splits)
next
  case False
  then have "ddccontrol_monitorlist_load avail encs parse_document fs filename version output = ret (-1, output)"
    by (auto simp: ddccontrol_monitorlist_load_def list_load_inner_def mem_bind_def ret_def split: option.splits sum.splits if_splits)
  then show ?thesis by (simp add: ret_def)
qed

text \<open>What two nodes show to a C program.\<close>

definition same_node :: "c_monitor_list \<Rightarrow> c_monitor_list \<Rightarrow> bool" where
  "same_node n n' \<longleftrightarrow>
     map_option snd (cl_filename n') = map_option snd (cl_filename n) \<and> cl_supported n' = cl_supported n
     \<and> map_option snd (cl_name n') = map_option snd (cl_name n) \<and> cl_digital n' = cl_digital n"

lemma rep_same_nodes: "list_all2 node_rep ms l \<Longrightarrow> list_all2 node_rep ms l' \<Longrightarrow> list_all2 same_node l l'"
  by (auto simp: list_all2_conv_all_nth node_rep_def same_node_def)

lemma load_saved:
  assumes "reads_documents parse_document" and "list_codec encs" and "durable fs_write" and "heap_ok h" and "nodes_clean l"
    and "length l < 2 ^ 20" and "ddccontrol_monitorlist_save fs_write (Some filename) (Some version) l fs = (0, fs')"
  shows "case ddccontrol_monitorlist_load avail encs parse_document fs' (Some filename) (Some version) (Some out) h of
      None \<Rightarrow> False
    | Some ((status, out'), h') \<Rightarrow>
        if status = 0 then \<exists>l'. out' = Some l' \<and> list_all2 same_node l l' \<and> list_from_c l' = list_from_c l \<and> list_from_c l \<noteq> None
            \<and> holds h (list_addrs l') h'
        else (\<exists>n. \<not> avail n) \<and> out' = Some out \<and> live h' = live h"
proof -
  obtain ms xml where l: "list_from_c l = Some ms" and version: "from_utf8 version" and xml: "list_serialize ms version = Inr xml"
    and saved: "fs_write filename (str_bytes xml) fs = (True, fs')"
    using assms(7) by (auto simp: ddccontrol_monitorlist_save_def list_save_inner_def split: option.splits if_splits sum.splits prod.splits)
  then have stored: "fs' filename = Some (str_bytes xml)" using assms(3) by (simp add: durable_def)
  have utf: "list_all monitor_utf8 ms" and rep: "list_all2 node_rep ms l" using from_c_props [OF l] by auto
  have len: "length ms < 2 ^ 20" using rep assms(6) by (simp add: list_all2_lengthD)
  obtain tv es where doc: "xml = document_text (list_element tv) es" "raw_attribute tv" "unescape tv = version"
    "list_all2 writes_monitor ms es" by (rule list_serialize_text [OF xml utf version])
  have "list_all element_ok es" using doc(4) writes_monitor_ok by (induction rule: list_all2_induct) auto
  then have "from_utf8 xml" unfolding doc(1) using list_element_ok [OF doc(2)] by (intro document_utf8)
  moreover obtain s where "xml = xml_header @ s" by (simp add: doc(1) document_text_def)
  ultimately have "list_parse_bytes encs parse_document (str_bytes xml) version = Inr ms"
    using list_parse_bytes_written [OF assms(2)] list_parse_text [OF assms(1) doc(2,4) len] doc(1,3) by simp
  then have inner: "list_load_inner avail encs parse_document fs' filename version = list_to_c avail ms []"
    using stored version by (simp add: list_load_inner_def)
  have "outcome h list_addrs (list_all2 node_rep ms) (\<not> (\<forall>n. avail n) \<or> \<not> list_all node_clean ms) (list_to_c avail ms []) h"
    using list_to_c_outcome [of h "[]" h "[]" ms avail] assms(4) by (simp add: holds_self)
  with nodes_clean_rep [OF rep assms(5)] rep_from_c [OF _ utf] rep_same_nodes [OF rep] l show ?thesis
    by (auto simp: ddccontrol_monitorlist_load_def inner outcome_def mem_bind_def ret_def holds_def split: option.splits prod.splits)
qed

text \<open>
  C36: whatever is in any file, and whichever arguments are missing, a load of a monitor list that fails
  writes nothing to the output and leaves no block behind, however far the list was built; a list that
  is returned consists of new blocks only and holds what was parsed from the file. A list that was saved
  loads back under the same program version: nodes with the same monitors in order, duplicates included,
  unless memory runs out. The round trip rests on the XML parser reading the documents written (of fewer than
  \<open>2 ^ 20\<close> monitors), on UTF-8 decoding, and on a successful write being visible; the failures rest
  on nothing.
\<close>

theorem monitor_list_save_load:
  assumes "heap_ok h"
  shows "(case ddccontrol_monitorlist_load avail any_encs any_parser any_fs any_name any_version output h of
       None \<Rightarrow> False
     | Some ((status, output'), h') \<Rightarrow>
         if status = 0
         then \<exists>l f v bs ms. any_name = Some f \<and> any_version = Some v \<and> output \<noteq> None \<and> any_fs f = Some bs
                \<and> list_parse_bytes any_encs any_parser bs v = Inr ms
                \<and> output' = Some l \<and> list_all2 node_rep ms l \<and> holds h (list_addrs l) h'
         else output' = output \<and> live h' = live h)
    \<and> (reads_documents parse_document \<and> list_codec encs \<and> durable fs_write \<and> nodes_clean l \<and> length l < 2 ^ 20
         \<and> ddccontrol_monitorlist_save fs_write (Some filename) (Some version) l fs = (0, fs') \<longrightarrow>
       (case ddccontrol_monitorlist_load avail encs parse_document fs' (Some filename) (Some version) (Some out) h of
          None \<Rightarrow> False
        | Some ((status, out'), h') \<Rightarrow>
            if status = 0 then \<exists>l'. out' = Some l' \<and> list_all2 same_node l l' \<and> list_from_c l' = list_from_c l \<and> list_from_c l \<noteq> None
            \<and> holds h (list_addrs l') h'
            else (\<exists>n. \<not> avail n) \<and> out' = Some out \<and> live h' = live h))"
  using load_any [OF assms] load_saved [OF _ _ _ assms] by blast

section \<open>A sample\<close>

definition sample_list_encodings :: "unit list_encodings" where
  "sample_list_encodings =
     \<lparr>le_base = \<lparr>for_label = \<lambda>l. if l = str_bytes ''UTF-8'' then Some () else None, for_bom = \<lambda>_. None,
        enc_decode = \<lambda>_ bs. (bytes_str bs, False), enc_utf8 = ()\<rparr>, le_utf16be = (), le_utf16le = ()\<rparr>"

lemma sample_list_codec: "list_codec sample_list_encodings"
  by (simp add: list_codec_def utf8_codec_def sample_list_encodings_def)

definition sample_list :: "c_monitor_list list" where
  "sample_list =
     [\<lparr>cl_ptr = 0, cl_filename = Some (1, ''dev:0''), cl_supported = 1, cl_name = Some (2, ''A''), cl_digital = 0\<rparr>]"

lemma list_push_succeeds:
  assumes "list_all is_xml_character (str_chars s)"
  obtains out' where "list_push_attribute out s = Inr out'"
proof -
  obtain out' r where p: "push_chars (str_chars s) out = (out', r)" by fastforce
  with push_chars_result [of "str_chars s" out] assms have "\<exists>u. r = Inr u" by (auto split: sum.splits)
  with p that show ?thesis by (auto simp: list_push_attribute_def push_attribute_def)
qed

lemma sample_list_saved:
  obtains fs where "ddccontrol_monitorlist_save (\<lambda>path bs fs. (True, fs(path \<mapsto> bs))) (Some ''f'') (Some ''1'') sample_list (\<lambda>_. None) = (0, fs)"
proof -
  let ?m = "\<lparr>lm_filename = ''dev:0'', lm_supported = 1, lm_name = ''A'', lm_digital = 0\<rparr>"
  have xml: "list_all is_xml_character (str_chars s)" if "s \<in> {''1'', ''dev:0'', ''A''}" for s
    using that by (auto simp: str_chars_ascii byte_val_def) (simp_all add: is_xml_character_def)
  have utf: "from_utf8 s" if "s \<in> {''1'', ''dev:0'', ''A''}" for s
    using that by (auto simp: from_utf8_ascii byte_val_def)
  have push: "\<exists>out'. list_push_attribute out s = Inr out'" if "s \<in> {''1'', ''dev:0'', ''A''}" for out s
    using list_push_succeeds [OF xml [OF that]] by blast
  have "\<exists>out'. write_monitor ?m out = Inr out'" for out
  proof -
    obtain o1 where o1: "list_push_attribute (out @ ''  <monitor filename='' @ quote) ''dev:0'' = Inr o1" using push by blast
    obtain o2 where "list_push_attribute (o1 @ quote @ '' supported='' @ quote @ format_dec (unat (1 :: u8)) @ quote @ '' name='' @ quote) ''A'' = Inr o2"
      using push by blast
    with o1 show ?thesis by (simp add: write_monitor_def del: append.simps append_assoc)
  qed
  then have fold: "\<exists>out'. fold_res write_monitor [?m] out = Inr out'" for out by simp
  let ?start = "''<?xml version='' @ quote @ ''1.0'' @ quote @ '' encoding='' @ quote @ ''UTF-8'' @ quote @ ''?>'' @ newline
                @ ''<monitorlist ddccontrolversion='' @ quote"
  obtain o1 where o1: "list_push_attribute ?start ''1'' = Inr o1" using push by blast
  obtain o2 where "fold_res write_monitor [?m] (o1 @ quote @ ''>'' @ newline) = Inr o2" using fold by blast
  with o1 obtain xml where "list_serialize [?m] ''1'' = Inr xml"
    unfolding list_serialize_def Let_def by (simp del: append.simps append_assoc fold_res.simps)
  moreover have "list_from_c sample_list = Some [?m]" using utf by (simp add: sample_list_def)
  ultimately show ?thesis
    using that utf by (simp add: ddccontrol_monitorlist_save_def list_save_inner_def)
qed

theorem monitor_list_save_load_witness:
  "\<exists>fs l' h'. ddccontrol_monitorlist_save (\<lambda>path bs fs. (True, fs(path \<mapsto> bs))) (Some ''f'') (Some ''1'') sample_list (\<lambda>_. None) = (0, fs)
     \<and> ddccontrol_monitorlist_load (\<lambda>_. True) sample_list_encodings simple_parse fs (Some ''f'') (Some ''1'') (Some []) \<lparr>calls = 0, live = {}\<rparr>
         = Some ((0, Some l'), h') \<and> list_from_c l' = list_from_c sample_list"
proof -
  obtain fs where fs: "ddccontrol_monitorlist_save (\<lambda>path bs fs. (True, fs(path \<mapsto> bs))) (Some ''f'') (Some ''1'') sample_list (\<lambda>_. None) = (0, fs)"
    by (rule sample_list_saved)
  have "durable (\<lambda>path bs fs. (True, fs(path \<mapsto> bs)))" by (simp add: durable_def)
  moreover have "heap_ok \<lparr>calls = 0, live = {}\<rparr>" by (simp add: heap_ok_def)
  moreover have "nodes_clean sample_list" by (simp add: nodes_clean_def sample_list_def map_filter_def)
  ultimately have "case ddccontrol_monitorlist_load (\<lambda>_. True) sample_list_encodings simple_parse fs (Some ''f'') (Some ''1'') (Some [])
        \<lparr>calls = 0, live = {}\<rparr> of
      None \<Rightarrow> False
    | Some ((status, out'), h') \<Rightarrow> status = 0 \<and> (\<exists>l'. out' = Some l' \<and> list_from_c l' = list_from_c sample_list)"
    using monitor_list_save_load [THEN conjunct2, of "\<lparr>calls = 0, live = {}\<rparr>" simple_parse sample_list_encodings
        "\<lambda>path bs fs. (True, fs(path \<mapsto> bs))" sample_list "''f''" "''1''" "\<lambda>_. None" fs "\<lambda>_. True" "[]"]
      simple_parse_reads sample_list_codec fs
    by (auto simp: sample_list_def [THEN arg_cong [where f = length]] split: option.splits if_splits)
  with fs show ?thesis by (auto split: option.splits)
qed

end
