(* ===== verification/Db_Files.thy ===== *)
theory Db_Files
  imports Monitor_Load Db_Writing Xml_Source
begin

text \<open>
  Reading the database from its directory, \<open>load_context\<close> of \<^verbatim>\<open>crates/ddccontrol-db/src/lib.rs\<close>:
  the CBOR file if there is one, otherwise the XML files, scanned twice and compared, and checked
  against the manifest if there is one. Other processes may change the directory at any time: a world
  gives the file system that each access sees, and the operations count the accesses. The result is
  \<open>None\<close> for a panic or a loop that does not end; a theorem shows that neither happens.
\<close>

section \<open>The file system\<close>

text \<open>
  Opening a path gives a handle, which keeps its file when the path is given another one. The
  metadata are the length and the time of modification, if there is one; reading a handle to its end
  and listing a directory count as one access, and an entry of a directory may be an error.
\<close>

datatype opened = Opened nat | Not_found | Open_failed

record fs_view =
  fv_open :: "string \<Rightarrow> opened"
  fv_stat :: "string \<Rightarrow> (nat \<times> int option) option"
  fv_metadata :: "nat \<Rightarrow> (nat \<times> int option) option"
  fv_read :: "nat \<Rightarrow> bytes option"
  fv_list :: "string \<Rightarrow> string option list option"

type_synonym world = "nat \<Rightarrow> fs_view"

datatype load_error =
    Cannot_inspect string
  | Cannot_read string
  | Exceeds_limit string
  | Changed_while_reading string
  | No_directory
  | Cannot_enumerate
  | Too_many_profiles
  | Source_too_large string
  | Disappeared string
  | Size_overflow
  | Snapshot_too_large
  | Invalid_cbor string
  | Changed_while_loading
  | Load_message string

type_synonym ('a, 'e) file_io = "world \<Rightarrow> nat \<Rightarrow> (('a, 'e) result \<times> nat) option"
type_synonym 'a io = "('a, load_error) file_io"

definition io_ret :: "'a \<Rightarrow> ('a, 'e) file_io" where
  "io_ret x w n = Some (Ok x, n)"

definition io_fail :: "'e \<Rightarrow> ('a, 'e) file_io" where
  "io_fail e w n = Some (Err e, n)"

definition io_lift :: "('a, 'e) result \<Rightarrow> ('a, 'e) file_io" where
  "io_lift r w n = Some (r, n)"

definition io_bind :: "('a, 'e) file_io \<Rightarrow> ('a \<Rightarrow> ('b, 'e) file_io) \<Rightarrow> ('b, 'e) file_io" where
  "io_bind m f w n =
     (case m w n of
        None \<Rightarrow> None
      | Some (Inl e, n') \<Rightarrow> Some (Err e, n')
      | Some (Inr x, n') \<Rightarrow> f x w n')"

text \<open>One access.\<close>

definition access :: "(fs_view \<Rightarrow> 'a) \<Rightarrow> ('a, 'e) file_io" where
  "access f w n = Some (Ok (f (w n)), n + 1)"

definition path_join :: "string \<Rightarrow> string \<Rightarrow> string" where
  [rust_std]: "path_join dir name = (if dir = [] \<or> last dir = CHR ''/'' then dir @ name else dir @ ''/'' @ name)"

section \<open>Reading\<close>

definition SIZE_LIMIT :: nat where
  "SIZE_LIMIT = 256 * 1024 * 1024"

definition read_optional :: "string \<Rightarrow> bytes option io" where
  "read_optional path =
     io_bind (access (\<lambda>v. fv_open v path)) (\<lambda>r. case r of
       Not_found \<Rightarrow> io_ret None
     | Open_failed \<Rightarrow> io_fail (Cannot_read path)
     | Opened h \<Rightarrow>
         io_bind (access (\<lambda>v. fv_metadata v h)) (\<lambda>before. case before of
           None \<Rightarrow> io_fail (Cannot_inspect path)
         | Some (before_len, before_modified) \<Rightarrow>
             io_bind (access (\<lambda>v. fv_read v h)) (\<lambda>r. case r of
               None \<Rightarrow> io_fail (Cannot_read path)
             | Some data \<Rightarrow>
                 (let bs = take (SIZE_LIMIT + 1) data
                  in if length bs > SIZE_LIMIT then io_fail (Exceeds_limit path)
                     else
                       io_bind (access (\<lambda>v. fv_metadata v h)) (\<lambda>after. case after of
                         None \<Rightarrow> io_fail (Cannot_inspect path)
                       | Some (after_len, after_modified) \<Rightarrow>
                           if before_len \<noteq> after_len \<or> before_modified \<noteq> after_modified
                           then io_fail (Changed_while_reading path)
                           else io_ret (Some bs))))))"

fun profile_names :: "string option list \<Rightarrow> string list \<Rightarrow> (string list, load_error) result" where
  "profile_names [] names = Ok names"
| "profile_names (None # entries) names = Err Cannot_enumerate"
| "profile_names (Some name # entries) names =
     profile_names entries
       (if \<not> from_utf8 name then names
        else case strip_suffix ''.xml'' name of
               Some stem \<Rightarrow> if is_valid_monitor_profile_name stem then names @ [''monitor/'' @ name] else names
             | None \<Rightarrow> names)"

fun snapshot_loop :: "string \<Rightarrow> string list \<Rightarrow> nat \<times> snapshot_files \<Rightarrow> snapshot_files io" where
  "snapshot_loop datadir [] (used, files) = io_ret files"
| "snapshot_loop datadir (name # names) (used, files) =
     (let path = path_join datadir name
      in io_bind (access (\<lambda>v. fv_stat v path)) (\<lambda>metadata. case metadata of
           None \<Rightarrow> io_fail (Cannot_read name)
         | Some (len, _) \<Rightarrow>
             if len > SIZE_LIMIT then io_fail (Source_too_large name)
             else
               io_bind (read_optional path) (\<lambda>r. case r of
                 None \<Rightarrow> io_fail (Disappeared name)
               | Some bs \<Rightarrow>
                   if used + length bs \<ge> 2 ^ 64 then io_fail Size_overflow
                   else if used + length bs > SIZE_LIMIT then io_fail Snapshot_too_large
                   else snapshot_loop datadir names (used + length bs, bt_insert name bs files))))"

definition read_xml_snapshot :: "string \<Rightarrow> snapshot_files io" where
  "read_xml_snapshot datadir =
     io_bind (access (\<lambda>v. fv_list v (path_join datadir ''monitor''))) (\<lambda>directory. case directory of
       None \<Rightarrow> io_fail No_directory
     | Some entries \<Rightarrow>
         io_bind (io_lift (profile_names entries [''options.xml''])) (\<lambda>names.
           if length names > 65537 then io_fail Too_many_profiles
           else snapshot_loop datadir (sort names) (0, [])))"

section \<open>The context\<close>

text \<open>The code the reader calls: the digest, the two CBOR coders, the encodings and the XML parser.\<close>

record 'enc readers =
  rd_sha256 :: "bytes \<Rightarrow> bytes"
  rd_into_writer :: "cbor \<Rightarrow> bytes"
  rd_from_reader :: "bytes \<Rightarrow> cbor checked"
  rd_encodings :: "'enc encodings"
  rd_document :: "string \<Rightarrow> xml checked"

definition profile_of_path :: "string \<Rightarrow> string option" where
  "profile_of_path path = Option.bind (strip_prefix ''monitor/'' path) (strip_suffix ''.xml'')"

definition source_text :: "'enc readers \<Rightarrow> bytes \<Rightarrow> string" where
  "source_text rd bs = normalize_xml_document (decode_xml_bytes (rd_encodings rd) bs)"

definition xml_profiles :: "'enc readers \<Rightarrow> snapshot_files \<Rightarrow> (string, node checked) btree" where
  "xml_profiles rd files =
     fold (\<lambda>(path, bs) profiles. case profile_of_path path of
             None \<Rightarrow> profiles
           | Some ident \<Rightarrow> bt_insert ident (parse_xml (rd_document rd) (source_text rd bs)) profiles) files []"

definition cbor_context :: "'enc readers \<Rightarrow> bytes \<Rightarrow> db_context io" where
  "cbor_context rd bs w n =
     (case decode (rd_sha256 rd) (rd_into_writer rd) (rd_from_reader rd) bs of
        None \<Rightarrow> None
      | Some (Inl err) \<Rightarrow> io_fail (Invalid_cbor err) w n
      | Some (Inr database) \<Rightarrow>
          io_bind (io_lift (map_err Load_message (load_options_node (db_options database)))) (\<lambda>options.
            io_ret \<lparr>cx_profiles = map (\<lambda>(ident, node). (ident, Ok node)) (db_profiles database), cx_options = options,
                    cx_monitor_file = None\<rparr>) w n)"

definition xml_context :: "'enc readers \<Rightarrow> snapshot_files \<Rightarrow> db_context io" where
  "xml_context rd files w n =
     (case bt_get files ''options.xml'' of
        None \<Rightarrow> None
      | Some bs \<Rightarrow>
          io_bind (io_lift (map_err Load_message
              (and_then (parse_xml (rd_document rd) (source_text rd bs)) load_options_node))) (\<lambda>options.
            io_ret \<lparr>cx_profiles = xml_profiles rd files, cx_options = options, cx_monitor_file = None\<rparr>) w n)"

definition load_xml :: "'enc readers \<Rightarrow> string \<Rightarrow> db_context io" where
  "load_xml rd datadir =
     io_bind (read_optional (path_join datadir ''ddccontrol-db.snapshot'')) (\<lambda>manifest.
     io_bind (read_xml_snapshot datadir) (\<lambda>files.
     io_bind (read_xml_snapshot datadir) (\<lambda>again.
       if files \<noteq> again then io_fail Changed_while_loading
       else
         io_bind (read_optional (path_join datadir ''ddccontrol-db.snapshot'')) (\<lambda>manifest_again.
           if manifest \<noteq> manifest_again then io_fail Changed_while_loading
           else
             io_bind (io_lift (case manifest of
                        Some m \<Rightarrow> map_err Load_message (verify_manifest (rd_sha256 rd) (rd_from_reader rd) m files)
                      | None \<Rightarrow> Ok ())) (\<lambda>_.
               xml_context rd files)))))"

definition load_context :: "'enc readers \<Rightarrow> string \<Rightarrow> db_context io" where
  "load_context rd datadir =
     io_bind (read_optional (path_join datadir ''ddccontrol-db.cbor'')) (\<lambda>cbor. case cbor of
       Some bs \<Rightarrow> cbor_context rd bs
     | None \<Rightarrow> load_xml rd datadir)"

section \<open>Every operation ends\<close>

definition runs :: "('a, 'e) file_io \<Rightarrow> bool" where
  "runs m \<longleftrightarrow> (\<forall>w n. \<exists>r n'. m w n = Some (r, n') \<and> n \<le> n')"

lemma runs_simple [simp, intro]: "runs (io_ret x)" "runs (io_fail e)" "runs (io_lift r)" "runs (access f)"
  by (simp_all add: runs_def io_ret_def io_fail_def io_lift_def access_def)

lemma runs_bind [intro]:
  assumes "runs m" and "\<And>x. runs (f x)" shows "runs (io_bind m f)"
  unfolding runs_def
proof (intro allI)
  fix w n
  obtain r k where m: "m w n = Some (r, k)" "n \<le> k" using assms(1) unfolding runs_def by blast
  show "\<exists>r n'. io_bind m f w n = Some (r, n') \<and> n \<le> n'"
  proof (cases r)
    case (Inr x)
    obtain r' k' where "f x w k = Some (r', k')" "k \<le> k'" using assms(2) unfolding runs_def by blast
    with m Inr show ?thesis by (simp add: io_bind_def)
  qed (use m in \<open>simp add: io_bind_def\<close>)
qed

lemma runsD: "runs m \<Longrightarrow> m w n = Some (r, n') \<Longrightarrow> n \<le> n'"
  unfolding runs_def by (metis option.inject prod.inject)

lemma io_bind_Ok:
  assumes "io_bind m f w n = Some (Inr y, n')"
  obtains x k where "m w n = Some (Inr x, k)" "f x w k = Some (Inr y, n')"
  using assms by (auto simp: io_bind_def split: option.splits prod.splits sum.splits)

lemma runs_read_optional: "runs (read_optional path)"
  unfolding read_optional_def Let_def by (auto intro!: runs_bind split: option.splits opened.splits)

lemma runs_snapshot_loop: "runs (snapshot_loop datadir names st)"
proof (induction datadir names st rule: snapshot_loop.induct)
  case (2 datadir name names used files)
  then show ?case
    unfolding snapshot_loop.simps Let_def by (auto intro!: runs_bind runs_read_optional split: option.splits)
qed simp

lemma runs_read_xml_snapshot: "runs (read_xml_snapshot datadir)"
  unfolding read_xml_snapshot_def by (auto intro!: runs_bind runs_snapshot_loop split: option.splits)

lemma decode_total: "\<exists>r. decode sha256 into_writer from_reader bs = Some r"
proof (cases "cbor_value from_reader bs")
  case (Inr root)
  with decode_value_total [of sha256 into_writer root True] show ?thesis by (auto simp: decode_def split: option.splits)
qed (simp add: decode_def)

lemma runs_cbor_context: "runs (cbor_context rd bs)"
proof -
  obtain r where r: "decode (rd_sha256 rd) (rd_into_writer rd) (rd_from_reader rd) bs = Some r"
    using decode_total by blast
  have "cbor_context rd bs =
    (case r of Inl err \<Rightarrow> io_fail (Invalid_cbor err)
     | Inr database \<Rightarrow> io_bind (io_lift (map_err Load_message (load_options_node (db_options database)))) (\<lambda>options.
            io_ret \<lparr>cx_profiles = map (\<lambda>(ident, node). (ident, Ok node)) (db_profiles database), cx_options = options,
                    cx_monitor_file = None\<rparr>))"
    by (rule ext, rule ext) (simp add: cbor_context_def r split: sum.splits)
  then show ?thesis by (auto intro!: runs_bind split: sum.splits)
qed

section \<open>What is read\<close>

text \<open>
  Between two accesses a path is opened, its handle read, and the metadata of the handle are the same
  before and after.
\<close>

definition seen :: "world \<Rightarrow> nat \<Rightarrow> nat \<Rightarrow> string \<Rightarrow> bytes \<Rightarrow> bool" where
  "seen w lo hi path bs \<longleftrightarrow>
     (\<exists>k h. lo \<le> k \<and> k + 3 < hi \<and> fv_open (w k) path = Opened h \<and> fv_read (w (k + 2)) h = Some bs
        \<and> fv_metadata (w (k + 1)) h = fv_metadata (w (k + 3)) h)"

lemma seen_mono: "seen w lo hi path bs \<Longrightarrow> lo' \<le> lo \<Longrightarrow> hi \<le> hi' \<Longrightarrow> seen w lo' hi' path bs"
  unfolding seen_def by (meson le_trans less_le_trans)

lemma read_optional_Some:
  assumes "read_optional path w n = Some (Inr (Some bs), n')"
  shows "seen w n n' path bs \<and> length bs \<le> SIZE_LIMIT"
proof -
  from assms obtain h where o: "fv_open (w n) path = Opened h"
    by (auto simp: read_optional_def io_bind_def access_def io_ret_def io_fail_def split: opened.splits)
  have "fv_read (w (n + 2)) h = Some bs \<and> fv_metadata (w (n + 1)) h = fv_metadata (w (n + 3)) h \<and> n' = n + 4
      \<and> length bs \<le> SIZE_LIMIT"
    using assms
    by (auto simp: read_optional_def io_bind_def access_def io_ret_def io_fail_def Let_def o numeral_2_eq_2 numeral_3_eq_3
             split: option.splits if_splits)
  then show ?thesis using o unfolding seen_def by (intro conjI exI [of _ n] exI [of _ h]) auto
qed

lemma read_optional_None:
  "read_optional path w n = Some (Inr None, n') \<Longrightarrow> fv_open (w n) path = Not_found \<and> n' = n + 1"
  by (auto simp: read_optional_def io_bind_def access_def io_ret_def io_fail_def Let_def split: option.splits opened.splits if_splits prod.splits)

definition bytes_in :: "snapshot_files \<Rightarrow> nat" where
  "bytes_in files = sum_list (map (length \<circ> snd) files)"

lemma bytes_in_insert: "bytes_in (bt_insert name bs files) \<le> bytes_in files + length bs"
  by (induction name bs files rule: bt_insert.induct) (auto simp: bytes_in_def)

lemma snapshot_loop_ok:
  assumes "snapshot_loop datadir names (used, files) w n = Some (Inr files', n')"
    and "bt_invar files" and "bytes_in files \<le> used" and "used \<le> SIZE_LIMIT"
  shows "bt_invar files' \<and> bytes_in files' \<le> SIZE_LIMIT \<and> dom (bt_get files') = dom (bt_get files) \<union> set names
    \<and> (\<forall>name bs. bt_get files' name = Some bs \<longrightarrow> bt_get files name = Some bs \<or> seen w n n' (path_join datadir name) bs)"
  using assms
proof (induction names arbitrary: used files n)
  case Nil
  then show ?case by (auto simp: io_ret_def)
next
  case (Cons name names)
  let ?path = "path_join datadir name"
  from Cons.prems(1) obtain k bs where k: "read_optional ?path w (Suc n) = Some (Inr (Some bs), k)"
    and small: "used + length bs \<le> SIZE_LIMIT"
    and rest: "snapshot_loop datadir names (used + length bs, bt_insert name bs files) w k = Some (Inr files', n')"
    by (auto simp: Let_def access_def io_fail_def split: option.splits if_splits prod.splits elim!: io_bind_Ok)
  have times: "Suc n \<le> k" "k \<le> n'" using runsD [OF runs_read_optional k] runsD [OF runs_snapshot_loop rest] by auto
  have "bytes_in (bt_insert name bs files) \<le> used + length bs" using bytes_in_insert [of name bs files] Cons.prems(3) by simp
  from Cons.IH [OF rest bt_invar_insert [OF Cons.prems(2)] this small]
  have ih: "bt_invar files'" "bytes_in files' \<le> SIZE_LIMIT" "dom (bt_get files') = dom (bt_get (bt_insert name bs files)) \<union> set names"
    "\<And>na b. bt_get files' na = Some b \<Longrightarrow> bt_get (bt_insert name bs files) na = Some b \<or> seen w k n' (path_join datadir na) b"
    by auto
  have here: "seen w n n' ?path bs" using read_optional_Some [OF k] times by (auto intro: seen_mono)
  have "bt_get files na = Some b \<or> seen w n n' (path_join datadir na) b" if "bt_get files' na = Some b" for na b
    using ih(4) [OF that] here times seen_mono [of w k n' "path_join datadir na" b n n']
    by (auto simp: bt_get_insert split: if_splits)
  with ih show ?case by (auto simp: bt_get_insert)
qed

lemma profile_names_keep: "profile_names entries names = Inr names' \<Longrightarrow> set names \<subseteq> set names'"
  by (induction entries names rule: profile_names.induct) (auto split: if_splits option.splits)

lemma read_xml_snapshot_ok:
  assumes "read_xml_snapshot datadir w n = Some (Inr files, n')"
  shows "bt_invar files \<and> bytes_in files \<le> SIZE_LIMIT \<and> bt_get files ''options.xml'' \<noteq> None
    \<and> (\<forall>name bs. bt_get files name = Some bs \<longrightarrow> seen w n n' (path_join datadir name) bs)"
proof -
  from assms obtain entries names where names: "profile_names entries [''options.xml''] = Inr names"
    and loop: "snapshot_loop datadir (sort names) (0, []) w (Suc n) = Some (Inr files, n')"
    by (auto simp: read_xml_snapshot_def access_def io_lift_def io_fail_def split: option.splits if_splits elim!: io_bind_Ok)
  from snapshot_loop_ok [OF loop] have r: "bt_invar files" "bytes_in files \<le> SIZE_LIMIT" "dom (bt_get files) = set names"
    "\<And>name bs. bt_get files name = Some bs \<Longrightarrow> seen w (Suc n) n' (path_join datadir name) bs"
    by (auto simp: bytes_in_def bt_get_def)
  moreover have "''options.xml'' \<in> set names" using profile_names_keep [OF names] by simp
  ultimately show ?thesis using seen_mono [of w "Suc n" n' _ _ n n'] by (auto simp: dom_def)
qed

lemma profile_of_path_eq: "profile_of_path path = Some ident \<longleftrightarrow> path = profile_path ident"
  by (auto simp: profile_of_path_def profile_path_def bind_eq_Some_conv strip_prefix_eq_Some strip_suffix_eq_Some)

lemma xml_profiles_get:
  assumes "bt_invar files"
  shows "bt_get (xml_profiles rd files) ident
    = map_option (\<lambda>bs. parse_xml (rd_document rd) (source_text rd bs)) (bt_get files (profile_path ident))"
proof -
  let ?f = "\<lambda>(path, bs) profiles. case profile_of_path path of
             None \<Rightarrow> profiles
           | Some ident \<Rightarrow> bt_insert ident (parse_xml (rd_document rd) (source_text rd bs)) profiles"
  have "bt_get (fold ?f fs acc) ident =
      (case bt_get fs (profile_path ident) of
         Some bs \<Rightarrow> Some (parse_xml (rd_document rd) (source_text rd bs)) | None \<Rightarrow> bt_get acc ident)"
    if "distinct (map fst fs)" for fs acc
    using that
  proof (induction fs arbitrary: acc)
    case (Cons e fs)
    obtain path bs where e: "e = (path, bs)" by fastforce
    show ?case
    proof (cases "path = profile_path ident")
      case True
      then have "bt_get fs (profile_path ident) = None" using Cons.prems e by (auto simp: bt_get_def map_of_eq_None_iff)
      with Cons True e profile_of_path_eq [of path ident] show ?thesis by (simp add: bt_get_insert) (simp add: bt_get_def)
    next
      case False
      then have "bt_get (?f (path, bs) acc) ident = bt_get acc ident"
        by (auto simp: bt_get_insert profile_of_path_eq split: option.splits)
      with Cons False e show ?thesis by (simp add: bt_get_def split: option.splits)
    qed
  qed (simp add: bt_get_def)
  from this [OF bt.distinct_keys [OF assms], of "[]"] show ?thesis
    by (simp add: xml_profiles_def bt.get_empty split: option.splits)
qed

section \<open>Loading\<close>

text \<open>Every file of a snapshot was seen between two accesses.\<close>

definition pinned :: "world \<Rightarrow> nat \<Rightarrow> nat \<Rightarrow> string \<Rightarrow> snapshot_files \<Rightarrow> bool" where
  "pinned w lo hi datadir files \<longleftrightarrow>
     (\<forall>name bs. bt_get files name = Some bs \<longrightarrow> seen w lo hi (path_join datadir name) bs)"

text \<open>
  No manifest was found, or one was seen between two accesses and it lists exactly the digests of
  the files.
\<close>

definition manifest_agrees :: "'enc readers \<Rightarrow> world \<Rightarrow> nat \<Rightarrow> nat \<Rightarrow> string \<Rightarrow> bytes option \<Rightarrow> snapshot_files \<Rightarrow> bool" where
  "manifest_agrees rd w lo hi datadir m files \<longleftrightarrow>
     (let path = path_join datadir ''ddccontrol-db.snapshot''
      in case m of
           None \<Rightarrow> \<exists>k. lo \<le> k \<and> k < hi \<and> fv_open (w k) path = Not_found
         | Some bs \<Rightarrow> seen w lo hi path bs
             \<and> (\<exists>v. cbor_value (rd_from_reader rd) bs = Ok v \<and> manifest v = Ok (file_digests (rd_sha256 rd) files)))"

definition from_cbor :: "'enc readers \<Rightarrow> bytes \<Rightarrow> db_context \<Rightarrow> bool" where
  "from_cbor rd bs context \<longleftrightarrow>
     (\<exists>database. decode (rd_sha256 rd) (rd_into_writer rd) (rd_from_reader rd) bs = Some (Ok database)
        \<and> load_options_node (db_options database) = Ok (cx_options context)
        \<and> cx_profiles context = map (\<lambda>(ident, node). (ident, Ok node)) (db_profiles database))"

definition from_xml :: "'enc readers \<Rightarrow> snapshot_files \<Rightarrow> db_context \<Rightarrow> bool" where
  "from_xml rd files context \<longleftrightarrow>
     (\<exists>bs. bt_get files ''options.xml'' = Some bs
        \<and> and_then (parse_xml (rd_document rd) (source_text rd bs)) load_options_node = Ok (cx_options context))
     \<and> (\<forall>ident. bt_get (cx_profiles context) ident
          = map_option (\<lambda>bs. parse_xml (rd_document rd) (source_text rd bs)) (bt_get files (profile_path ident)))"

lemma cbor_context_ok:
  "cbor_context rd bs w n = Some (Inr context, n') \<Longrightarrow> from_cbor rd bs context \<and> cx_monitor_file context = None"
  by (auto simp: cbor_context_def from_cbor_def io_bind_def io_lift_def io_ret_def io_fail_def map_err_eq_Inr
           split: option.splits sum.splits)

lemma xml_context_runs:
  assumes "bt_get files ''options.xml'' = Some bs"
  shows "\<exists>r. xml_context rd files w n = Some (r, n)"
  using assms by (simp add: xml_context_def io_bind_def io_lift_def io_ret_def split: sum.splits)

lemma xml_context_ok:
  "xml_context rd files w n = Some (Inr context, n') \<Longrightarrow> bt_invar files \<Longrightarrow>
     from_xml rd files context \<and> cx_monitor_file context = None"
  by (auto simp: xml_context_def from_xml_def io_bind_def io_lift_def io_ret_def map_err_eq_Inr xml_profiles_get
           split: option.splits sum.splits)

text \<open>A step that gives a result, and its continuation.\<close>

lemma io_bind_cases:
  assumes "runs m"
    and "\<And>e k. m w n = Some (Inl e, k) \<Longrightarrow> n \<le> k \<Longrightarrow> P (Some (Inl e, k))"
    and "\<And>x k. m w n = Some (Inr x, k) \<Longrightarrow> n \<le> k \<Longrightarrow> P (f x w k)"
  shows "P (io_bind m f w n)"
proof -
  obtain r k where m: "m w n = Some (r, k)" "n \<le> k" using assms(1) unfolding runs_def by blast
  with assms(2,3) show ?thesis by (cases r) (simp_all add: io_bind_def)
qed

lemma manifest_agreesI:
  assumes "read_optional (path_join datadir ''ddccontrol-db.snapshot'') w j = Some (Inr m, j')" and "lo \<le> j" and "j' \<le> hi"
    and "case m of Some bs \<Rightarrow> verify_manifest (rd_sha256 rd) (rd_from_reader rd) bs files = Ok () | None \<Rightarrow> True"
    and "bt_invar files"
  shows "manifest_agrees rd w lo hi datadir m files"
proof (cases m)
  case None
  with read_optional_None assms(1) have "fv_open (w j) (path_join datadir ''ddccontrol-db.snapshot'') = Not_found" "j < hi"
    using assms(3) by fastforce+
  with None assms(2) show ?thesis by (auto simp: manifest_agrees_def)
next
  case (Some bs)
  with read_optional_Some assms(1) have "seen w j j' (path_join datadir ''ddccontrol-db.snapshot'') bs" by blast
  with Some assms(2-5) show ?thesis by (auto simp: manifest_agrees_def verify_manifest_iff intro: seen_mono)
qed

definition consistent :: "'enc readers \<Rightarrow> string \<Rightarrow> world \<Rightarrow> nat \<Rightarrow> nat \<Rightarrow> db_context \<Rightarrow> bool" where
  "consistent rd datadir w lo hi context \<longleftrightarrow>
     (\<exists>files m k. bt_invar files \<and> bytes_in files \<le> SIZE_LIMIT \<and> from_xml rd files context
        \<and> pinned w lo k datadir files \<and> manifest_agrees rd w lo k datadir m files
        \<and> pinned w k hi datadir files \<and> manifest_agrees rd w k hi datadir m files)"

lemma xml_phase:
  assumes m: "read_optional (path_join datadir ''ddccontrol-db.snapshot'') w n = Some (Inr m, n1)"
    and f: "read_xml_snapshot datadir w n1 = Some (Inr files, n2)"
    and a: "read_xml_snapshot datadir w n2 = Some (Inr files, n3)"
    and ma: "read_optional (path_join datadir ''ddccontrol-db.snapshot'') w n3 = Some (Inr m, n4)"
    and v: "case m of Some bs \<Rightarrow> verify_manifest (rd_sha256 rd) (rd_from_reader rd) bs files = Ok () | None \<Rightarrow> True"
    and x: "xml_context rd files w n4 = Some (Inr context, n5)"
  shows "consistent rd datadir w n n5 context \<and> cx_monitor_file context = None"
proof -
  note first = read_xml_snapshot_ok [OF f]
  note second = read_xml_snapshot_ok [OF a]
  have t: "n \<le> n1" "n1 \<le> n2" "n2 \<le> n3" "n3 \<le> n4"
    using runsD [OF runs_read_optional m] runsD [OF runs_read_xml_snapshot f] runsD [OF runs_read_xml_snapshot a]
      runsD [OF runs_read_optional ma] by auto
  from first obtain bs where bs: "bt_get files ''options.xml'' = Some bs" by auto
  with x xml_context_runs [OF bs, of rd w n4] have n5: "n5 = n4" by auto
  from first t have "pinned w n n2 datadir files" unfolding pinned_def by (blast intro: seen_mono)
  moreover from second t have "pinned w n2 n5 datadir files" unfolding pinned_def n5 by (blast intro: seen_mono)
  moreover have "manifest_agrees rd w n n2 datadir m files" using t first v by (intro manifest_agreesI [OF m]) auto
  moreover have "manifest_agrees rd w n2 n5 datadir m files" using t first v n5 by (intro manifest_agreesI [OF ma]) auto
  ultimately show ?thesis using first xml_context_ok [OF x] unfolding consistent_def by blast
qed

lemma load_xml_ok:
  "case load_xml rd datadir w n of
     None \<Rightarrow> False
   | Some (Inl e, n') \<Rightarrow> n \<le> n'
   | Some (Inr context, n') \<Rightarrow> n \<le> n' \<and> consistent rd datadir w n n' context \<and> cx_monitor_file context = None"
  (is "?P (load_xml rd datadir w n)")
  unfolding load_xml_def
proof (rule io_bind_cases [where P = ?P, OF runs_read_optional], goal_cases)
  case (2 m n1)
  note m = this
  show ?case
  proof (rule io_bind_cases [where P = ?P, OF runs_read_xml_snapshot], goal_cases)
    case (2 files n2)
    note f = this
    then obtain bs where bs: "bt_get files ''options.xml'' = Some bs" using read_xml_snapshot_ok by blast
    show ?case
    proof (rule io_bind_cases [where P = ?P, OF runs_read_xml_snapshot], goal_cases)
      case (2 again n3)
      note a = this
      show ?case
      proof (cases "files = again")
        case same: True
        show ?thesis unfolding same
        proof (simp, rule io_bind_cases [where P = ?P, OF runs_read_optional], goal_cases)
          case (2 m' n4)
          obtain r where x: "xml_context rd again w n4 = Some (r, n4)" using xml_context_runs bs same by blast
          let ?v = "case m of Some bs \<Rightarrow> map_err Load_message (verify_manifest (rd_sha256 rd) (rd_from_reader rd) bs again)
            | None \<Rightarrow> Ok ()"
          show ?case
          proof (cases "m = m' \<and> ?v = Ok ()")
            case True
            then have "consistent rd datadir w n n4 cx \<and> cx_monitor_file cx = None" if "r = Inr cx" for cx
              using xml_phase [OF m(1) f(1) [unfolded same] a(1) 2(1) [unfolded True [THEN conjunct1, symmetric]]] True x that
              by (auto simp: map_err_eq_Inr split: option.splits)
            with True m f a 2 x show ?thesis by (cases r) (auto simp: io_bind_def io_lift_def)
          next
            case False
            with m f a 2 show ?thesis by (cases ?v) (auto simp: io_bind_def io_lift_def io_fail_def)
          qed
        qed (use m f a in simp)
      qed (use m f a in \<open>simp add: io_fail_def\<close>)
    qed (use m f in simp)
  qed (use m in simp)
qed simp

lemma load_context_no_file:
  assumes "load_context rd datadir w n = Some (Inr context, n')" shows "cx_monitor_file context = None"
proof -
  from assms obtain cbor n1 where "(case cbor of Some bs \<Rightarrow> cbor_context rd bs | None \<Rightarrow> load_xml rd datadir) w n1 = Some (Inr context, n')"
    unfolding load_context_def by (elim io_bind_Ok)
  then show ?thesis using cbor_context_ok [of rd _ w n1 "context" n'] load_xml_ok [where rd = rd and datadir = datadir and w = w and n = n1]
    by (cases cbor) auto
qed

text \<open>
  C37: Loading the database directory never panics and always ends, whatever other processes do to
  the directory. When it succeeds no monitor file is set, and either the CBOR file was opened, read
  with stable metadata, and decodes to exactly the profiles and options of the session, or there was
  no CBOR file and one set of XML sources explains the session: the files are at most 256 MiB in
  all, every one of them was read with the same bytes twice, the second time after the whole
  first scan, the manifest was the same both times and, if there is one, lists exactly the digests of
  these files, and the profile of every identifier is the parse of its own file.
\<close>

theorem load_context_consistent:
  "case load_context rd datadir w n of
     None \<Rightarrow> False
   | Some (Inl e, n') \<Rightarrow> n \<le> n'
   | Some (Inr context, n') \<Rightarrow> cx_monitor_file context = None
       \<and> ((\<exists>bs. seen w n n' (path_join datadir ''ddccontrol-db.cbor'') bs \<and> from_cbor rd bs context)
          \<or> (fv_open (w n) (path_join datadir ''ddccontrol-db.cbor'') = Not_found
             \<and> consistent rd datadir w (n + 1) n' context))"
  (is "?P (load_context rd datadir w n)")
  unfolding load_context_def
proof (rule io_bind_cases [where P = ?P, OF runs_read_optional], goal_cases)
  case (2 cbor n1)
  show ?case
  proof (cases cbor)
    case (Some bs)
    obtain r n' where r: "cbor_context rd bs w n1 = Some (r, n')" "n1 \<le> n'" using runs_cbor_context unfolding runs_def by blast
    have "seen w n n' (path_join datadir ''ddccontrol-db.cbor'') bs"
      using read_optional_Some 2 Some r(2) by (blast intro: seen_mono)
    then show ?thesis using Some 2 r cbor_context_ok [of rd bs w n1] by (cases r) auto
  next
    case None
    then show ?thesis using load_xml_ok [where rd = rd and datadir = datadir and w = w and n = n1] read_optional_None 2
      by (fastforce split: option.splits sum.splits)
  qed
qed simp

end
