(* ===== verification/Db_Session.thy ===== *)
theory Db_Session
  imports Monitor_Db Db_Files Edid
begin

text \<open>
  The database session of \<^verbatim>\<open>crates/ddccontrol-db/src/lib.rs\<close>: the global context and the flag of
  the last load, with the C entry points that change them: \<open>ddcci_init_db\<close>, \<open>ddcci_set_monitor_file\<close>,
  \<open>ddcci_release_db\<close>, \<open>ddcci_create_db\<close>, and those that read them. The flag is per thread in the code;
  the session is that of one thread. Sequences of calls are a step relation; the main theorem is that
  a monitor file that was accepted can always be loaded later, whatever the capabilities.
\<close>

section \<open>State and operations\<close>

record session =
  se_context :: "db_context option"
  se_failed :: bool

definition empty_session :: session where
  "empty_session = \<lparr>se_context = None, se_failed = False\<rparr>"

definition init_db_inner ::
  "'enc readers \<Rightarrow> string \<Rightarrow> string option \<Rightarrow> world \<Rightarrow> nat \<Rightarrow> session \<Rightarrow> (int \<times> session) option" where
  "init_db_inner rd DEFAULT_DATADIR usedatadir w n s =
     (let s = s\<lparr>se_context := None\<rparr>;
          datadir = (case usedatadir of None \<Rightarrow> DEFAULT_DATADIR | Some path \<Rightarrow> path)
      in case load_context rd datadir w n of
           None \<Rightarrow> None
         | Some (Inr cx, _) \<Rightarrow> Some (1, s\<lparr>se_context := Some cx\<rparr>)
         | Some (Inl _, _) \<Rightarrow> Some (0, s))"

text \<open>\<open>Path::file_name\<close>: the last component, if it is a name.\<close>

fun path_parts :: "string \<Rightarrow> string list" where
  "path_parts [] = [[]]"
| "path_parts (c # cs) =
     (if c = CHR ''/'' then [] # path_parts cs
      else case path_parts cs of p # ps \<Rightarrow> (c # p) # ps | [] \<Rightarrow> [[c]])"

definition path_file_name :: "string \<Rightarrow> string option" where
  [rust_std]: "path_file_name path =
     (case rev (filter (\<lambda>p. p \<noteq> [] \<and> p \<noteq> ''.'') (path_parts path)) of
        [] \<Rightarrow> None
      | p # _ \<Rightarrow> if p = ''..'' then None else Some p)"

definition override_id :: "string \<Rightarrow> string option" where
  "override_id path =
     Option.bind (path_file_name path) (\<lambda>name.
       if \<not> from_utf8 name then None
       else
         Option.bind (strip_suffix ''.xml'' name) (\<lambda>ident.
           if is_valid_pnp_id ident \<and> \<not> list_ex is_ascii_lowercase ident then Some ident else None))"

definition read_xml_file :: "'enc readers \<Rightarrow> string \<Rightarrow> string io" where
  "read_xml_file rd path =
     io_bind (access (\<lambda>v. fv_open v path)) (\<lambda>r. case r of
       Opened h \<Rightarrow>
         io_bind (access (\<lambda>v. fv_read v h)) (\<lambda>r. case r of
           None \<Rightarrow> io_fail (Cannot_read path)
         | Some bs \<Rightarrow> io_ret (source_text rd bs))
     | _ \<Rightarrow> io_fail (Cannot_read path))"

definition validate_mode :: load_mode where
  "validate_mode = \<lparr>lm_faulttolerance = False, lm_validate_all = True\<rparr>"

definition validation_caps :: c_caps where
  "validation_caps = \<lparr>c_vcp = \<lambda>_. None, c_monitor_type = 0\<rparr>"

definition validate_override ::
  "(nat \<Rightarrow> bool) \<Rightarrow> (string \<Rightarrow> string) \<Rightarrow> db_context \<Rightarrow> string \<Rightarrow> unit checked mem" where
  "validate_override avail translate cx pnpid h =
     (case create_db_protected avail translate cx validate_mode pnpid 0
             (start_state translate (cx_options cx) validation_caps h) of
        None \<Rightarrow> None
      | Some (r, s) \<Rightarrow>
          mem_bind (drop_caps (ls_caps s)) (\<lambda>_. ret
            (case r of
               Inl err \<Rightarrow> Err (de_message err)
             | Inr _ \<Rightarrow> if mb_init (ls_build s) = INIT_TYPE_UNKNOWN then Err ''init mode not set.'' else Ok ()))
            (ls_heap s))"

datatype override_error =
    Path_required
  | Invalid_filename string
  | Not_initialized
  | Cannot_access string
  | Invalid_document string
  | Invalid_monitor_file string string

definition set_monitor_file_inner ::
  "'enc readers \<Rightarrow> (nat \<Rightarrow> bool) \<Rightarrow> (string \<Rightarrow> string) \<Rightarrow> string option \<Rightarrow> world \<Rightarrow> nat \<Rightarrow> session
     \<Rightarrow> ((string, override_error) result \<times> session) mem" where
  "set_monitor_file_inner rd avail translate filename w n s h =
     (case filename of
        None \<Rightarrow> ret (Err Path_required, s) h
      | Some path \<Rightarrow>
          (case override_id path of
             None \<Rightarrow> ret (Err (Invalid_filename path), s) h
           | Some pnpid \<Rightarrow>
               (case se_context s of
                  None \<Rightarrow> ret (Err Not_initialized, s) h
                | Some cx \<Rightarrow>
                    (case read_xml_file rd path w n of
                       None \<Rightarrow> None
                     | Some (Inl _, _) \<Rightarrow> ret (Err (Cannot_access path), s) h
                     | Some (Inr xml, _) \<Rightarrow>
                         (case parse_xml (rd_document rd) xml of
                            Inl e \<Rightarrow> ret (Err (Invalid_document e), s) h
                          | Inr root \<Rightarrow>
                              (let cx = cx\<lparr>cx_monitor_file := Some \<lparr>mf_pnpid = pnpid, mf_root = root\<rparr>\<rparr>
                               in mem_bind (validate_override avail translate cx pnpid) (\<lambda>r. case r of
                                    Inl e \<Rightarrow> ret (Err (Invalid_monitor_file path e), s)
                                  | Inr _ \<Rightarrow> ret (Ok pnpid, s\<lparr>se_context := Some cx\<rparr>)) h))))))"

text \<open>The entry points. The identifier is written over the first eight bytes of the caller's buffer.\<close>

definition ddcci_init_db ::
  "'enc readers \<Rightarrow> string \<Rightarrow> string option \<Rightarrow> world \<Rightarrow> nat \<Rightarrow> session \<Rightarrow> (int \<times> session) option" where
  "ddcci_init_db = init_db_inner"

definition ddcci_set_monitor_file ::
  "'enc readers \<Rightarrow> (nat \<Rightarrow> bool) \<Rightarrow> (string \<Rightarrow> string) \<Rightarrow> string option \<Rightarrow> string option \<Rightarrow> world \<Rightarrow> nat \<Rightarrow> session
     \<Rightarrow> (int \<times> string option \<times> session) mem" where
  "ddcci_set_monitor_file rd avail translate filename pnpid w n s =
     mem_bind (set_monitor_file_inner rd avail translate filename w n s) (\<lambda>(r, s). case r of
       Inr ident \<Rightarrow> ret (1, map_option (\<lambda>buffer. take 7 ident @ [CHR 0x00] @ drop 8 buffer) pnpid, s)
     | Inl _ \<Rightarrow> ret (0, pnpid, s))"

definition ddcci_monitor_file_matches :: "string option \<Rightarrow> session \<Rightarrow> int" where
  "ddcci_monitor_file_matches pnpid s =
     (case pnpid of
        None \<Rightarrow> 0
      | Some ident \<Rightarrow>
          (case Option.bind (se_context s) cx_monitor_file of
             None \<Rightarrow> 0
           | Some file \<Rightarrow> if mf_pnpid file = ident then 1 else 0))"

definition ddcci_release_db :: "session \<Rightarrow> session" where
  "ddcci_release_db s = s\<lparr>se_context := None\<rparr>"

definition ddcci_create_db ::
  "(nat \<Rightarrow> bool) \<Rightarrow> (string \<Rightarrow> string) \<Rightarrow> string option \<Rightarrow> c_caps option \<Rightarrow> int \<Rightarrow> session
     \<Rightarrow> (c_monitor_db option \<times> c_caps option \<times> session) mem" where
  "ddcci_create_db avail translate pnpname caps faulttolerance s =
     mem_bind (create_db_inner avail translate (se_context s) pnpname caps faulttolerance) (\<lambda>(monitor, caps, failed).
       ret (monitor, caps, s\<lparr>se_failed := failed\<rparr>))"

definition ddcci_db_requirements_failed :: "session \<Rightarrow> int" where
  "ddcci_db_requirements_failed s = (if se_failed s then 1 else 0)"

section \<open>Sessions\<close>

text \<open>The sessions that calls of one process reach, with any files, any arguments and any luck in allocating.\<close>

inductive session_reach :: "'enc readers \<Rightarrow> (string \<Rightarrow> string) \<Rightarrow> string \<Rightarrow> session \<Rightarrow> bool"
  for rd :: "'enc readers" and translate :: "string \<Rightarrow> string" and DEFAULT_DATADIR :: string where
  reach_empty: "session_reach rd translate DEFAULT_DATADIR empty_session"
| reach_init: "session_reach rd translate DEFAULT_DATADIR s \<Longrightarrow> ddcci_init_db rd DEFAULT_DATADIR usedatadir w n s = Some (status, s')
    \<Longrightarrow> session_reach rd translate DEFAULT_DATADIR s'"
| reach_set: "session_reach rd translate DEFAULT_DATADIR s \<Longrightarrow> heap_ok h
    \<Longrightarrow> ddcci_set_monitor_file rd avail translate filename pnpid w n s h = Some ((status, pnpid', s'), h')
    \<Longrightarrow> session_reach rd translate DEFAULT_DATADIR s'"
| reach_release: "session_reach rd translate DEFAULT_DATADIR s
    \<Longrightarrow> session_reach rd translate DEFAULT_DATADIR (ddcci_release_db s)"
| reach_create: "session_reach rd translate DEFAULT_DATADIR s
    \<Longrightarrow> ddcci_create_db avail translate pnpname caps faulttolerance s h = Some ((monitor, caps', s'), h')
    \<Longrightarrow> session_reach rd translate DEFAULT_DATADIR s'"

section \<open>Validation simulates loading\<close>

text \<open>
  Validation checks every control and loading only those that are supported and not yet defined, so
  a load reaches what a successful validation reached, with the same name, init mode and number of
  visits. The texts of the build stay free of NUL.
\<close>

definition clean_text :: "string \<Rightarrow> bool" where
  "clean_text s \<longleftrightarrow> CHR 0x00 \<notin> set s"

definition option_clean :: "(string \<Rightarrow> string) \<Rightarrow> option_control \<Rightarrow> bool" where
  "option_clean translate oc \<longleftrightarrow>
     clean_text (oc_id oc) \<and> clean_text (translate (oc_name oc))
     \<and> list_all (\<lambda>v. clean_text (ov_id v) \<and> (case ov_name v of None \<Rightarrow> True | Some name \<Rightarrow> clean_text (translate name)))
         (oc_values oc)"

definition options_clean :: "(string \<Rightarrow> string) \<Rightarrow> options_db \<Rightarrow> bool" where
  "options_clean translate options \<longleftrightarrow>
     list_all (\<lambda>g. clean_text (translate (og_name g))
       \<and> list_all (\<lambda>sg. clean_text (translate (os_name sg)) \<and> pattern_clean (os_pattern sg)
            \<and> list_all (option_clean translate) (os_controls sg)) (og_subgroups g)) (od_groups options)"

definition root_clean :: "node \<Rightarrow> bool" where
  "root_clean root \<longleftrightarrow> (case node_attr root ''name'' of None \<Rightarrow> True | Some name \<Rightarrow> clean_text name)"

definition context_clean :: "(string \<Rightarrow> string) \<Rightarrow> db_context \<Rightarrow> bool" where
  "context_clean translate cx \<longleftrightarrow>
     options_clean translate (cx_options cx)
     \<and> list_all (\<lambda>(_, r). case r of Inr root \<Rightarrow> root_clean root | Inl _ \<Rightarrow> True) (cx_profiles cx)
     \<and> (case cx_monitor_file cx of Some file \<Rightarrow> root_clean (mf_root file) | None \<Rightarrow> True)"

definition state_agrees :: "load_state \<Rightarrow> load_state \<Rightarrow> bool" where
  "state_agrees v s \<longleftrightarrow>
     mb_name (ls_build v) = mb_name (ls_build s) \<and> mb_init (ls_build v) = mb_init (ls_build s)
     \<and> mb_include_visits (ls_build v) = mb_include_visits (ls_build s)
     \<and> owns (ls_heap v) (ls_caps v) \<and> owns (ls_heap s) (ls_caps s) \<and> monitor_clean (ls_build s)"

definition simulates :: "'a loader \<Rightarrow> 'a loader \<Rightarrow> bool" where
  "simulates m m' \<longleftrightarrow>
     (\<forall>v s x v'. state_agrees v s \<longrightarrow> m v = Some (Inr x, v') \<longrightarrow> (\<exists>s'. m' s = Some (Inr x, s') \<and> state_agrees v' s'))"

lemma simulatesI:
  "(\<And>v s x v'. state_agrees v s \<Longrightarrow> m v = Some (Inr x, v') \<Longrightarrow> \<exists>s'. m' s = Some (Inr x, s') \<and> state_agrees v' s') \<Longrightarrow> simulates m m'"
  by (simp add: simulates_def)

lemma simulatesD:
  assumes "simulates m m'" and "state_agrees v s" and "m v = Some (Inr x, v')"
  obtains s' where "m' s = Some (Inr x, s')" "state_agrees v' s'"
  using assms unfolding simulates_def by blast

lemma simulates_simple [simp, intro]:
  "simulates (lret x) (lret x)" "simulates (lift r) (lift r)" "simulates (lfail e) m"
  by (simp_all add: simulates_def lret_def lift_def lfail_def)

lemma simulates_bind [intro]:
  assumes "simulates m m'" and "\<And>x. simulates (f x) (f' x)"
  shows "simulates (lbind m f) (lbind m' f')"
proof (rule simulatesI)
  fix v s y v' assume "state_agrees v s" and "lbind m f v = Some (Inr y, v')"
  then obtain x v1 where "m v = Some (Inr x, v1)" "f x v1 = Some (Inr y, v')" by (elim lbind_Ok)
  with assms \<open>state_agrees v s\<close> show "\<exists>s'. lbind m' f' s = Some (Inr y, s') \<and> state_agrees v' s'"
    by (force simp: lbind_def elim!: simulatesD)
qed

lemma simulates_for:
  assumes "\<And>x acc. x \<in> set xs \<Longrightarrow> simulates (f x acc) (f' x acc)"
  shows "simulates (lfor f xs acc) (lfor f' xs acc)"
  using assms
proof (induction xs arbitrary: acc)
  case (Cons x xs)
  then have "simulates (lbind (f x acc) (lfor f xs)) (lbind (f' x acc) (lfor f' xs))" by (intro simulates_bind) auto
  then show ?case by (simp add: simulates_def)
qed (simp add: simulates_def lret_def)

lemma simulates_step:
  assumes "\<And>v s. state_agrees v s \<Longrightarrow> \<exists>v' s'. m v = Some (Inr x, v') \<and> m' s = Some (Inr x, s') \<and> state_agrees v' s'"
  shows "simulates m m'"
  using assms by (intro simulatesI) fastforce

lemma clean_map_controls: "monitor_clean b \<Longrightarrow> monitor_clean (map_controls (filter P) b)"
  by (auto simp: monitor_clean_def map_controls_def build_name_def list_all_iff group_clean_def subgroup_clean_def)

lemma simulates_suppress: "simulates (suppress_address a) (suppress_address a)"
  by (rule simulates_step [where x = "()"])
    (auto simp: suppress_address_def lret_def state_agrees_def clean_map_controls, simp_all add: map_controls_def)

lemma simulates_block: "simulates (block_step options monitor matched) (block_step options monitor matched)"
  unfolding block_step_def by (auto intro!: simulates_bind simulates_suppress)

lemma caps_edit_items: "snd (rust_edit add c input) = snd (rust_edit add c' input)"
  by (simp add: rust_edit_def apply_add_eq apply_remove_eq split: sum.splits)

text \<open>A positive result is the number of items of the string; without failed allocations it is that number.\<close>

lemma caps_parse_items:
  assumes "owns h caps"
  obtains n caps' h' where "ddccontrol_caps_parse_inner avail t caps add h = Some ((n, caps'), h')" "owns h' caps'"
    "0 < n \<or> (\<forall>k. avail k) \<Longrightarrow> n = (case snd (rust_edit add default_caps (utf8_lossy t)) of Inr items \<Rightarrow> c_int_of items | Inl _ \<Rightarrow> -1)"
proof -
  obtain rust r where e: "rust_edit add (caps_from_c caps) (utf8_lossy t) = (rust, r)" by fastforce
  have r: "snd (rust_edit add default_caps (utf8_lossy t)) = r"
    using caps_edit_items [of add default_caps "utf8_lossy t" "caps_from_c caps"] e by simp
  obtain n caps' h' where "ddccontrol_caps_parse_inner avail t caps add h = Some ((n, caps'), h')" "owns h' caps'"
    and "case (rust, r) of
        (rust, Inr items) \<Rightarrow> n = c_int_of items \<and> (small_values rust \<longrightarrow> caps_from_c caps' = rust)
          \<or> n = -1 \<and> no_entries caps' \<and> (\<exists>n. \<not> avail n)
      | (_, Inl _) \<Rightarrow> n = -1 \<and> no_entries caps'" by (rule caps_parse_inner_ok [OF assms, of avail t add, unfolded e])
  moreover from this(3) have "0 < n \<or> (\<forall>k. avail k) \<Longrightarrow> n = (case r of Inr items \<Rightarrow> c_int_of items | Inl _ \<Rightarrow> -1)"
    by (cases r) auto
  ultimately show ?thesis using that [of n caps' h'] by (simp add: r)
qed

lemma simulates_caps:
  assumes "\<And>n. avail' n"
  shows "simulates (apply_caps avail t add err) (apply_caps avail' t add err)"
proof (rule simulatesI)
  fix v s x v' assume a: "state_agrees v s" and run: "apply_caps avail t add err v = Some (Inr x, v')"
  have own: "owns (ls_heap v) (ls_caps v)" "owns (ls_heap s) (ls_caps s)" using a by (simp_all add: state_agrees_def)
  obtain n caps h where v: "ddccontrol_caps_parse_inner avail t (ls_caps v) add (ls_heap v) = Some ((n, caps), h)" "owns h caps"
    "0 < n \<Longrightarrow> n = (case snd (rust_edit add default_caps (utf8_lossy t)) of Inr items \<Rightarrow> c_int_of items | Inl _ \<Rightarrow> -1)"
    by (rule caps_parse_items [OF own(1), of avail t add]) auto
  obtain n' caps' h' where s: "ddccontrol_caps_parse_inner avail' t (ls_caps s) add (ls_heap s) = Some ((n', caps'), h')" "owns h' caps'"
    "n' = (case snd (rust_edit add default_caps (utf8_lossy t)) of Inr items \<Rightarrow> c_int_of items | Inl _ \<Rightarrow> -1)"
    by (rule caps_parse_items [OF own(2), of avail' t add]) (use assms in auto)
  have clean: "CHR 0x00 \<notin> set t" and n: "0 < n" and x: "v' = v\<lparr>ls_caps := caps, ls_heap := h\<rparr>"
    using run v(1) by (auto simp: apply_caps_def lfail_def lret_def Let_def split: if_splits)
  have "n' = n" using v(3) [OF n] s(3) by simp
  with s(1) n clean have "apply_caps avail' t add err s = Some (Inr x, s\<lparr>ls_caps := caps', ls_heap := h'\<rparr>)"
    by (simp add: apply_caps_def lret_def)
  then show "\<exists>s'. apply_caps avail' t add err s = Some (Inr x, s') \<and> state_agrees v' s'"
    using a v(2) s(2) by (auto simp: x state_agrees_def)
qed

lemma simulates_caps_child: "(\<And>n. avail' n) \<Longrightarrow> simulates (caps_child avail child) (caps_child avail' child)"
  unfolding caps_child_def by (auto intro!: simulates_bind simulates_caps split: option.splits)

lemma simulates_enter: "simulates (enter_profile pnpname) (enter_profile pnpname)"
  by (rule simulatesI) (auto simp: enter_profile_def lfail_def lret_def Let_def state_agrees_def monitor_clean_def build_name_def split: if_splits)

lemma simulates_name: "root_clean root \<Longrightarrow> simulates (set_name root) (set_name root)"
  by (rule simulatesI)
    (auto simp: set_name_def lfail_def lret_def state_agrees_def monitor_clean_def build_name_def root_clean_def clean_text_def
       split: if_splits option.splits)

lemma simulates_init: "simulates (set_init validate_mode root) (set_init (strict_mode False) root)"
  by (rule simulatesI)
    (auto simp: set_init_def validate_mode_def strict_mode_def lfail_def lret_def state_agrees_def monitor_clean_def build_name_def
       split: if_splits option.splits)

text \<open>A control that validation accepts is added, or passed over, by a load.\<close>

lemma value_step_clean:
  assumes "value_step translate oc monitor v (vs, m) = Inr (vs', m')"
    and "option_clean translate oc" and "v \<in> set (oc_values oc)" and "list_all value_clean vs"
  shows "list_all value_clean vs'"
proof -
  have "clean_text (ov_id v)" "clean_text (translate (oc_name oc))" "\<And>name. ov_name v = Some name \<Longrightarrow> clean_text (translate name)"
    using assms(2,3) by (auto simp: option_clean_def list_all_iff)
  then show ?thesis using assms(1,4)
    by (auto simp: value_step_def option_value_name_def value_clean_def clean_text_def
          and_then_eq_Inr map_err_eq_Inr ok_or_eq_Inr split: option.splits if_splits)
qed

lemma values_clean:
  assumes "get_value_list translate oc monitor ft = Inr vs" and "option_clean translate oc"
  shows "list_all value_clean vs"
proof -
  have "list_all value_clean vs'"
    if "fold_res (value_step translate oc monitor) xs (vs0, m) = Inr (vs', m')" "set xs \<subseteq> set (oc_values oc)"
      "list_all value_clean vs0" for xs vs0 m vs' m'
    using that
  proof (induction xs arbitrary: vs0 m)
    case (Cons x xs)
    then obtain vs1 m1 where "value_step translate oc monitor x (vs0, m) = Inr (vs1, m1)"
      "fold_res (value_step translate oc monitor) xs (vs1, m1) = Inr (vs', m')"
      by (auto simp: and_then_eq_Inr)
    with Cons value_step_clean [OF _ assms(2)] show ?case by (auto split: prod.splits)
  qed simp
  then show ?thesis using assms(1)
    by (auto simp: get_value_list_def and_then_eq_Inr split: prod.splits if_splits)
qed

lemma list_all_update: "list_all P xs \<Longrightarrow> (i < length xs \<Longrightarrow> P (xs ! i) \<Longrightarrow> P x) \<Longrightarrow> list_all P (xs[i := x])"
  by (cases "i < length xs") (auto simp: list_all_length nth_list_update)

lemma clean_push: "monitor_clean b \<Longrightarrow> control_clean c \<Longrightarrow> monitor_clean (push_control gi si c b)"
  by (auto simp: monitor_clean_def push_control_def Let_def build_name_def group_clean_def subgroup_clean_def
      intro!: list_all_update)

lemma simulates_add_control:
  assumes "option_clean translate oc"
  shows "simulates (add_control translate validate_mode controls (gi, si, oc) matched)
           (add_control translate (strict_mode False) controls (gi, si, oc) matched)"
proof (cases "find (\<lambda>c. mc_id c = oc_id oc) controls")
  case (Some monitor)
  show ?thesis
  proof (rule simulatesI)
    fix v s x v' assume a: "state_agrees v s"
      and run: "add_control translate validate_mode controls (gi, si, oc) matched v = Some (Inr x, v')"
    let ?go = "\<exists>s'. add_control translate (strict_mode False) controls (gi, si, oc) matched s = Some (Inr x, s') \<and> state_agrees v' s'"
    show ?go
    proof (cases "mc_unavailable monitor \<or> oc_unavailable oc")
      case True
      with run a Some show ?thesis by (auto simp: add_control_def lret_def Let_def)
    next
      case False
      with run Some obtain address vs delay where ok: "monitor_control_address monitor = Inr address"
        "get_value_list translate oc monitor False = Inr vs" "monitor_control_delay monitor = Inr delay"
        and x: "x = matched[mc_child_index monitor := True]"
        and av: "state_agrees v' s"
        using a by (auto simp: add_control_def lret_def Let_def lbind_def lift_def validate_mode_def state_agrees_def push_control_def
            split: sum.splits)
      let ?c = "\<lambda>vs. \<lparr>dc_id = oc_id oc, dc_name = translate (oc_name oc), dc_address = address, dc_delay = delay,
        dc_type = type_code (oc_type oc), dc_refresh = refresh_code (oc_refresh oc), dc_values = vs\<rparr>"
      have clean: "control_clean (?c vs)" "control_clean (?c [\<lparr>dv_id = ''default'', dv_name = translate (oc_name oc), dv_value16 = 1\<rparr>])"
        using values_clean [OF ok(2) assms] assms by (auto simp: control_clean_def option_clean_def clean_text_def value_clean_def)
      have "state_agrees v' (s\<lparr>ls_build := push_control gi si c (ls_build s), ls_defined := d\<rparr>)" if "control_clean c" for c d
        using av clean_push [OF _ that] by (auto simp: state_agrees_def push_control_def Let_def)
      with clean av show ?thesis using Some False ok x
        by (auto simp: add_control_def lret_def Let_def lbind_def lift_def strict_mode_def)
    qed
  qed
qed (simp add: add_control_def [abs_def] simulates_def lret_def)

lemma slot_clean: "options_clean translate options \<Longrightarrow> slot \<in> set (option_slots options) \<Longrightarrow> option_clean translate (snd (snd slot))"
  by (auto simp: options_clean_def option_slots_def list_all_length in_set_conv_nth nth_enumerate_eq)

lemma simulates_controls_child:
  assumes "options_clean translate (cx_options cx)"
  shows "simulates (controls_child translate cx validate_mode child) (controls_child translate cx (strict_mode False) child)"
proof -
  have slot: "simulates (add_control translate validate_mode controls slot matched) (add_control translate (strict_mode False) controls slot matched)"
    if "slot \<in> set (option_slots (cx_options cx))" for controls slot matched
    using slot_clean [OF assms that] simulates_add_control by (cases slot) auto
  have "simulates (add_controls_from_options translate validate_mode (cx_options cx) parsed)
      (add_controls_from_options translate (strict_mode False) (cx_options cx) parsed)" for parsed
    unfolding add_controls_from_options_def validate_mode_def strict_mode_def load_mode.simps
    by (intro simulates_bind simulates_for simulates_block slot [unfolded validate_mode_def strict_mode_def]) auto
  then show ?thesis unfolding controls_child_def reserve_required_def
    by (auto intro!: simulates_bind simulates_for simulates_suppress)
qed

lemma find_root_clean: "context_clean translate cx \<Longrightarrow> find_root cx pnpname level = Inr root \<Longrightarrow> root_clean root"
  by (auto simp: find_root_def context_clean_def list_all_iff bt_get_def map_err_eq_Inr dest!: map_of_SomeD split: option.splits if_splits)

lemma simulates_open_root:
  assumes "context_clean translate cx"
  shows "simulates (open_root cx validate_mode pnpname level) (open_root cx (strict_mode False) pnpname level)"
proof (cases "find_root cx pnpname level")
  case (Inl e)
  then show ?thesis by (simp add: open_root_def simulates_def lbind_def lift_def)
next
  case (Inr root)
  have lift: "lbind (lift (Inr root)) f = f root" for f :: "node \<Rightarrow> node loader"
    by (rule ext) (simp add: lbind_def lift_def)
  have "simulates (check_deprecated validate_mode root) (check_deprecated (strict_mode False) root)"
    by (auto simp: check_deprecated_def validate_mode_def strict_mode_def)
  then show ?thesis using find_root_clean [OF assms Inr] unfolding open_root_def Inr lift
    by (auto intro!: simulates_bind simulates_name simulates_init)
qed

lemma simulates_child:
  assumes "\<And>n. avail' n" and "options_clean translate (cx_options cx)" and "\<And>name. simulates (f name) (f' name)"
  shows "simulates (profile_child avail translate cx validate_mode f child flags)
           (profile_child avail' translate cx (strict_mode False) f' child flags)"
proof -
  have "lm_validate_all validate_mode" by (simp add: validate_mode_def)
  then show ?thesis unfolding profile_child_def using assms
    by (auto intro!: simulates_bind simulates_caps_child simulates_controls_child split: prod.splits)
qed

lemma simulates_create_db:
  assumes "\<And>n. avail' n" and "context_clean translate cx"
  shows "simulates (create_db_protected avail translate cx validate_mode pnpname level)
           (create_db_protected avail' translate cx (strict_mode False) pnpname level)"
proof (induction "16 - level" arbitrary: pnpname level rule: less_induct)
  case less
  show ?case
  proof (cases "level > 15")
    case True
    show ?thesis unfolding create_db_deep [OF True] by (intro simulates_bind simulates_enter) auto
  next
    case False
    have "simulates (create_db_protected avail translate cx validate_mode name (level + 1))
        (create_db_protected avail' translate cx (strict_mode False) name (level + 1))" for name
      using False by (intro less) simp
    then show ?thesis unfolding create_db_shallow [OF False] using assms
      by (intro simulates_bind simulates_enter simulates_open_root simulates_for simulates_child)
        (auto simp: finish_profile_def context_clean_def)
  qed
qed

section \<open>Accepted files\<close>

text \<open>A context whose monitor file, if there is one, has passed validation.\<close>

definition accepted :: "(string \<Rightarrow> string) \<Rightarrow> db_context \<Rightarrow> bool" where
  "accepted translate cx \<longleftrightarrow>
     (case cx_monitor_file cx of
        None \<Rightarrow> True
      | Some file \<Rightarrow> is_valid_pnp_id (mf_pnpid file)
          \<and> (\<exists>avail h h'. heap_ok h \<and> validate_override avail translate cx (mf_pnpid file) h = Some (Inr (), h')))"

lemma override_idD: "override_id path = Some ident \<Longrightarrow> is_valid_pnp_id ident"
  by (auto simp: override_id_def bind_eq_Some_conv split: if_splits)

lemma set_monitor_file_cases:
  assumes "set_monitor_file_inner rd avail translate filename w n s h = Some ((r, s'), h')"
  obtains (failed) e where "r = Inl e" "s' = s"
  | (accepted) ident cx root where "r = Inr ident" "is_valid_pnp_id ident" "se_context s = Some cx"
      "s' = s\<lparr>se_context := Some (cx\<lparr>cx_monitor_file := Some \<lparr>mf_pnpid = ident, mf_root = root\<rparr>\<rparr>)\<rparr>"
      "validate_override avail translate (cx\<lparr>cx_monitor_file := Some \<lparr>mf_pnpid = ident, mf_root = root\<rparr>\<rparr>) ident h = Some (Inr (), h')"
proof (cases "(\<exists>e. r = Inl e) \<and> s' = s")
  case False
  have early: "ret (Inl e, s) h = Some ((r, s'), h') \<longleftrightarrow> False" for e using False by (auto simp: ret_def)
  obtain path where p: "filename = Some path" using assms early by (cases filename) (auto simp: set_monitor_file_inner_def)
  obtain ident where i: "override_id path = Some ident"
    using assms early by (cases "override_id path") (auto simp: set_monitor_file_inner_def p)
  obtain cx where cx: "se_context s = Some cx" using assms early by (cases "se_context s") (auto simp: set_monitor_file_inner_def p i)
  obtain xml n' where x: "read_xml_file rd path w n = Some (Inr xml, n')"
    using assms early by (auto simp: set_monitor_file_inner_def p i cx split: option.splits sum.splits)
  obtain root where root: "parse_xml (rd_document rd) xml = Inr root"
    using assms early by (cases "parse_xml (rd_document rd) xml") (auto simp: set_monitor_file_inner_def p i cx x)
  let ?cx = "cx\<lparr>cx_monitor_file := Some \<lparr>mf_pnpid = ident, mf_root = root\<rparr>\<rparr>"
  have "validate_override avail translate ?cx ident h = Some (Inr (), h')" "r = Inr ident" "s' = s\<lparr>se_context := Some ?cx\<rparr>"
    using assms False by (auto simp: set_monitor_file_inner_def p i cx x root ret_def mem_bind_def Let_def split: option.splits sum.splits)
  then show ?thesis using accepted override_idD [OF i] cx by blast
qed (use failed in blast)

lemma session_accepted:
  assumes "session_reach rd translate dir s" and "se_context s = Some cx"
  shows "accepted translate cx"
  using assms
proof (induction arbitrary: cx rule: session_reach.induct)
  case (reach_init s usedatadir w n status s')
  let ?dir = "case usedatadir of None \<Rightarrow> dir | Some path \<Rightarrow> path"
  obtain n' where "load_context rd ?dir w n = Some (Inr cx, n')"
  proof (cases "load_context rd ?dir w n")
    case (Some p)
    with reach_init.hyps reach_init.prems that show ?thesis
      by (cases p; cases "fst p") (auto simp: ddcci_init_db_def init_db_inner_def Let_def)
  qed (use reach_init in \<open>simp add: ddcci_init_db_def init_db_inner_def Let_def\<close>)
  then show ?case by (auto simp: accepted_def dest: load_context_no_file)
next
  case (reach_set s h avail filename pnpid w n status pnpid' s' h')
  then obtain r where "set_monitor_file_inner rd avail translate filename w n s h = Some ((r, s'), h')"
    by (auto simp: ddcci_set_monitor_file_def mem_bind_def ret_def split: option.splits sum.splits)
  then show ?case
  proof (cases rule: set_monitor_file_cases)
    case (accepted ident cx0 root)
    with reach_set.prems have "cx = cx0\<lparr>cx_monitor_file := Some \<lparr>mf_pnpid = ident, mf_root = root\<rparr>\<rparr>" by simp
    with accepted reach_set.hyps(2) show ?thesis unfolding accepted_def by auto
  qed (use reach_set in simp)
next
  case (reach_create s avail pnpname caps faulttolerance h monitor caps' s' h')
  then show ?case by (auto simp: ddcci_create_db_def mem_bind_def ret_def split: option.splits)
qed (simp_all add: empty_session_def ddcci_release_db_def)

lemma start_clean: "options_clean translate options \<Longrightarrow> monitor_clean (ls_build (start_state translate options caps h))"
  by (auto simp: start_state_def monitor_clean_def build_name_def groups_from_options_def options_clean_def list_all_iff
      group_clean_def subgroup_clean_def clean_text_def)

lemma prune_clean: "monitor_clean b \<Longrightarrow> monitor_clean (b\<lparr>mb_groups := prune_empty_groups (mb_groups b)\<rparr>)"
  by (auto simp: monitor_clean_def build_name_def prune_empty_groups_def list_all_iff group_clean_def)

lemma copy_caps_succeeds:
  assumes "heap_ok h" and "\<And>n. avail n"
  obtains staged h' where "copy_caps avail caps h = Some (Some staged, h')" "owns h' staged"
    "live h' = live h \<union> set (caps_addrs staged)" "live h \<inter> set (caps_addrs staged) = {}"
proof (cases rule: copy_caps_ok [OF assms(1), of avail caps, case_names failed staged])
  case (failed h')
  let ?none = "\<lparr>c_vcp = \<lambda>_. None, c_monitor_type = c_monitor_type caps\<rparr>"
  have "owns h ?none" using assms by (simp add: owns_def no_caps_addrs)
  then obtain b staged h1 where "replace_c_caps avail ?none (caps_from_c caps) h = Some ((b, staged), h1)" "\<not> b \<Longrightarrow> \<exists>n. \<not> avail n"
    by (rule replace_c_caps_ok [where avail = avail and rust = "caps_from_c caps", OF _ caps_from_c_get(1)]) blast
  with failed(1) assms(2) show ?thesis by (cases b) (auto simp: copy_caps_def mem_bind_def ret_def)
qed (rule that)

lemma ascii_pnp: "is_valid_pnp_id ident \<Longrightarrow> utf8_lossy ident = ident"
proof -
  assume "is_valid_pnp_id ident"
  then have "list_all (\<lambda>c. byte_val c < 128) (take 3 ident)" "list_all (\<lambda>c. byte_val c < 128) (drop 3 ident)"
    unfolding is_valid_pnp_id_def list_all_iff
    by (auto simp: is_ascii_uppercase_def is_ascii_hexdigit_def is_ascii_digit_def is_ascii_lowercase_def)
  then have "list_all (\<lambda>c. byte_val c < 128) ident"
    using list_all_append [of _ "take 3 ident" "drop 3 ident"] by simp
  then show ?thesis by (simp only: from_utf8_ascii utf8_lossy_valid)
qed

lemma validate_overrideD:
  assumes "validate_override avail translate cx pnpid h = Some (Inr (), h')"
  obtains v where "create_db_protected avail translate cx validate_mode pnpid 0
      (start_state translate (cx_options cx) validation_caps h) = Some (Inr (), v)"
    "mb_init (ls_build v) \<noteq> INIT_TYPE_UNKNOWN"
proof (cases "create_db_protected avail translate cx validate_mode pnpid 0 (start_state translate (cx_options cx) validation_caps h)")
  case (Some p)
  obtain r v where p: "p = (r, v)" by fastforce
  with assms Some have "r = Inr ()" "mb_init (ls_build v) \<noteq> INIT_TYPE_UNKNOWN"
    by (auto simp: validate_override_def mem_bind_def ret_def split: option.splits sum.splits if_splits)
  with that Some p show ?thesis by blast
qed (use assms in \<open>simp add: validate_override_def\<close>)

lemma accepted_loads:
  assumes acc: "accepted translate cx" and f: "cx_monitor_file cx = Some f" and clean: "context_clean translate cx"
    and own: "owns h caps" and avail: "\<And>n. avail n"
  obtains m caps' h' where "create_db avail translate cx (mf_pnpid f) caps ft h = Some ((Some m, caps', False), h')"
    "cm_init m \<noteq> INIT_TYPE_UNKNOWN"
proof -
  let ?id = "mf_pnpid f" let ?start = "start_state translate (cx_options cx)"
  have ok: "heap_ok h" using own by (simp add: owns_def)
  from acc f obtain avail0 h0 h0' where a: "heap_ok h0" "validate_override avail0 translate cx ?id h0 = Some (Inr (), h0')"
    by (auto simp: accepted_def)
  then obtain v where v: "heap_ok h0"
    "create_db_protected avail0 translate cx validate_mode ?id 0 (?start validation_caps h0) = Some (Inr (), v)"
    "mb_init (ls_build v) \<noteq> INIT_TYPE_UNKNOWN"
    using validate_overrideD by metis
  obtain staged h1 where st: "copy_caps avail caps h = Some (Some staged, h1)" "owns h1 staged"
    "live h1 = live h \<union> set (caps_addrs staged)" "live h \<inter> set (caps_addrs staged) = {}"
    by (rule copy_caps_succeeds [OF ok avail])
  have "state_agrees (?start validation_caps h0) (?start staged h1)"
    using v(1) st(2) start_clean [of translate "cx_options cx" staged h1] clean
    by (auto simp: state_agrees_def start_state_def owns_def validation_caps_def no_caps_addrs context_clean_def)
  then obtain s' where s': "create_db_protected avail translate cx (strict_mode False) ?id 0 (?start staged h1) = Some (Inr (), s')"
      "state_agrees v s'" by (rule simulatesD [OF simulates_create_db [OF avail clean] _ v(2)])
  have "caps_owned (live h) (?start staged h1)" using st by (simp add: caps_owned_def start_state_def)
  then have owned: "caps_owned (live h) s'" using preservesD [OF owned_load.create_db] s'(1) by (metis option.inject prod.inject)
  let ?b = "(ls_build s')\<lparr>mb_groups := prune_empty_groups (mb_groups (ls_build s'))\<rparr>"
  have init: "mb_init (ls_build s') \<noteq> INIT_TYPE_UNKNOWN" using s'(2) v(3) by (simp add: state_agrees_def)
  then have final: "final_build False (ls_build s') = Some ?b" by (simp add: final_build_def)
  have "monitor_clean ?b" using s'(2) prune_clean by (auto simp: state_agrees_def)
  then obtain m0 h2 where tree: "alloc_monitor avail ?b (ls_heap s') = Some (Some m0, h2)"
    using c_monitor.alloc_law [of "ls_heap s'" ?b avail] owned avail
    by (auto simp: outcome_def caps_owned_def owns_def split: option.splits prod.splits)
  obtain req where req: "profile_has_requirements cx ?id = Some req" using requirements_exact by blast
  have ft: "(ft \<noteq> 0 \<and> \<not> overrides cx ?id) = False" using f by (simp add: overrides_def)
  have eq: "create_db avail translate cx ?id caps ft h = create_loaded avail req False caps (Inr (), s')"
    unfolding create_db_def Let_def ft using s' st(1) req by simp
  show ?thesis
  proof (cases rule: create_loaded_ok [OF owned own, of avail req False "Inr ()", case_names failed created])
    case (failed flag h')
    then show ?thesis using final tree by (auto simp: create_loaded_def mem_bind_def ret_def split: option.splits prod.splits)
  next
    case (created build m caps' h')
    then have "cm_init m \<noteq> INIT_TYPE_UNKNOWN" using final init by (auto simp: monitor_rep_def)
    then show ?thesis using that created(1) eq by simp
  qed
qed

text \<open>
  C38: A monitor file that the session has accepted can always be loaded: in every session that calls
  can reach, if an override is set then creating the tree for its identifier succeeds with any
  capabilities, with or without fault tolerance, as long as memory suffices and no text contains NUL.
  The tree has an init mode, the requirements flag is off, and the context is unchanged.
\<close>

theorem accepted_override_loads:
  assumes "session_reach rd translate DEFAULT_DATADIR s" and "se_context s = Some cx" and "cx_monitor_file cx = Some f"
    and "context_clean translate cx" and "owns h caps" and "\<forall>n. avail n"
  shows "\<exists>m caps' h'. ddcci_create_db avail translate (Some (mf_pnpid f)) (Some caps) faulttolerance s h
      = Some ((Some m, Some caps', s\<lparr>se_failed := False\<rparr>), h')
    \<and> cm_init m \<noteq> INIT_TYPE_UNKNOWN \<and> ddcci_monitor_file_matches (Some (mf_pnpid f)) s = 1"
proof -
  have acc: "accepted translate cx" by (rule session_accepted [OF assms(1,2)])
  obtain m caps' h' where "create_db avail translate cx (mf_pnpid f) caps faulttolerance h = Some ((Some m, caps', False), h')"
    "cm_init m \<noteq> INIT_TYPE_UNKNOWN" by (rule accepted_loads [OF acc assms(3-5) spec [OF assms(6)]])
  moreover have "utf8_lossy (mf_pnpid f) = mf_pnpid f" using acc assms(3) by (simp add: accepted_def ascii_pnp)
  ultimately show ?thesis using assms(2,3)
    by (simp add: ddcci_create_db_def create_db_inner_def mem_bind_def ret_def ddcci_monitor_file_matches_def)
qed

section \<open>A session\<close>

text \<open>A directory with empty options and a monitor file beside it.\<close>

definition sample_view :: fs_view where
  "sample_view =
     \<lparr>fv_open = \<lambda>path. if path = ''/db/options.xml'' then Opened 0 else if path = ''/DEL1234.xml'' then Opened 1 else Not_found,
      fv_stat = \<lambda>_. Some (1, None), fv_metadata = \<lambda>_. Some (1, None), fv_read = \<lambda>h. Some [if h = 0 then 79 else 77],
      fv_list = \<lambda>_. Some []\<rparr>"

definition sample_readers :: "unit readers" where
  "sample_readers =
     \<lparr>rd_sha256 = \<lambda>_. [], rd_into_writer = \<lambda>_. [], rd_from_reader = \<lambda>_. Err [],
      rd_encodings = \<lparr>for_label = \<lambda>_. None, for_bom = \<lambda>_. None, enc_decode = \<lambda>_ bs. (bytes_str bs, False), enc_utf8 = ()\<rparr>,
      rd_document = \<lambda>t. if t = ''O'' then Ok (XElement ''options'' [(None, ''dbversion'', ''3''), (None, ''date'', ''1'')] [] 1)
        else Ok (XElement ''monitor'' [(None, ''name'', ''M''), (None, ''init'', ''standard'')] [Some (XElement ''controls'' [] [] 1)] 1)\<rparr>"

definition sample_empty :: db_context where
  "sample_empty = \<lparr>cx_profiles = [], cx_options = \<lparr>od_groups = []\<rparr>, cx_monitor_file = None\<rparr>"

definition sample_root :: node where
  "sample_root = Node ''monitor'' [(''init'', ''standard''), (''name'', ''M'')] [Node ''controls'' [] [] 1 False] 1 False"

lemma normalize_single: "normalize_xml_document [c] = [c]"
  by (simp add: normalize_xml_document_def starts_with_def split: option.split)

lemma sample_chars: "char_of (79 :: nat) = CHR ''O''" "char_of (77 :: nat) = CHR ''M''"
  by code_simp+

lemma sample_texts: "source_text sample_readers [79] = ''O''" "source_text sample_readers [77] = ''M''"
  by (simp_all add: source_text_def sample_readers_def decode_xml_bytes_def normalize_single bytes_str_def sample_chars)

lemma sample_version: "check_dbversion ''3'' = Ok ()"
  by code_simp

lemma sample_documents:
  "parse_xml (rd_document sample_readers) ''M'' = Ok sample_root"
  "and_then (parse_xml (rd_document sample_readers) ''O'') load_options_node = Ok \<lparr>od_groups = []\<rparr>"
  by (simp_all add: sample_readers_def parse_xml_def sample_root_def load_options_node_def owned_attr_def node_attr_def
      level_required_def tagged_def bt_get_def sample_version)

lemma sample_init: "ddcci_init_db sample_readers ''/db'' None (\<lambda>_. sample_view) 0 empty_session
    = Some (1, \<lparr>se_context = Some sample_empty, se_failed = False\<rparr>)"
  by (simp add: ddcci_init_db_def init_db_inner_def empty_session_def load_context_def load_xml_def read_xml_snapshot_def
     read_optional_def io_bind_def access_def io_ret_def io_lift_def path_join_def sample_view_def xml_context_def bt_get_def
     sample_texts sample_documents xml_profiles_def profile_of_path_def SIZE_LIMIT_def sample_empty_def Let_def)

definition sample_override :: db_context where
  "sample_override = sample_empty\<lparr>cx_monitor_file := Some \<lparr>mf_pnpid = ''DEL1234'', mf_root = sample_root\<rparr>\<rparr>"

lemma sample_id: "override_id ''/DEL1234.xml'' = Some ''DEL1234''" "is_valid_monitor_profile_name ''DEL1234''"
  by code_simp+

lemma sample_valid: "validate_override (\<lambda>_. True) (\<lambda>x. x) sample_override ''DEL1234'' \<lparr>calls = 0, live = {}\<rparr>
    = Some (Ok (), \<lparr>calls = 0, live = {}\<rparr>)"
proof -
  let ?h = "\<lparr>calls = 0, live = {}\<rparr> :: heap"
  have "lbind (enter_profile ''DEL1234'') (\<lambda>_.
      lbind (open_root sample_override validate_mode ''DEL1234'' 0) (\<lambda>root.
      lbind (lfor (profile_child (\<lambda>_. True) (\<lambda>x. x) sample_override validate_mode f)
             (node_children root) (False, False)) finish_profile))
     (start_state (\<lambda>x. x) (cx_options sample_override) validation_caps ?h)
    = Some (Inr (), \<lparr>ls_build = \<lparr>mb_include_visits = 1, mb_name = Some ''M'', mb_init = 1, mb_groups = []\<rparr>,
        ls_caps = validation_caps, ls_heap = ?h, ls_defined = \<lambda>_. False\<rparr>)" for f
    by (simp add: loader_defs sample_id sample_override_def sample_empty_def sample_root_def validate_mode_def)
  then have "create_db_protected (\<lambda>_. True) (\<lambda>x. x) sample_override validate_mode ''DEL1234'' 0
      (start_state (\<lambda>x. x) (cx_options sample_override) validation_caps ?h)
    = Some (Inr (), \<lparr>ls_build = \<lparr>mb_include_visits = 1, mb_name = Some ''M'', mb_init = 1, mb_groups = []\<rparr>,
        ls_caps = validation_caps, ls_heap = ?h, ls_defined = \<lambda>_. False\<rparr>)"
    by (simp only: create_db_shallow [of 0] less_nat_zero_code not_False_eq_True)
  moreover have "drop_caps validation_caps ?h = Some ((), ?h)"
    using drop_caps_ok [of ?h validation_caps] by (simp add: owns_def validation_caps_def no_caps_addrs heap_ok_def)
  ultimately show ?thesis by (simp add: validate_override_def mem_bind_def ret_def INIT_TYPE_UNKNOWN_def)
qed

lemma sample_set:
  "ddcci_set_monitor_file sample_readers (\<lambda>_. True) (\<lambda>x. x) (Some ''/DEL1234.xml'') None (\<lambda>_. sample_view) 0
     \<lparr>se_context = Some sample_empty, se_failed = False\<rparr> \<lparr>calls = 0, live = {}\<rparr>
   = Some ((1, None, \<lparr>se_context = Some sample_override, se_failed = False\<rparr>), \<lparr>calls = 0, live = {}\<rparr>)"
  using sample_valid
  by (simp add: ddcci_set_monitor_file_def set_monitor_file_inner_def mem_bind_def ret_def sample_id read_xml_file_def io_bind_def
      access_def io_ret_def sample_view_def sample_texts sample_documents Let_def sample_override_def)

theorem accepted_override_loads_witness:
  "\<exists>m caps' h'. ddcci_create_db (\<lambda>_. True) (\<lambda>x. x) (Some ''DEL1234'') (Some sample_caps) 1
       \<lparr>se_context = Some sample_override, se_failed = False\<rparr> sample_heap
      = Some ((Some m, Some caps', \<lparr>se_context = Some sample_override, se_failed = False\<rparr>), h')
    \<and> cm_init m \<noteq> INIT_TYPE_UNKNOWN"
proof -
  let ?s = "\<lparr>se_context = Some sample_override, se_failed = False\<rparr>"
  have "session_reach sample_readers (\<lambda>x. x) ''/db'' ?s"
    by (rule reach_set [OF reach_init [OF reach_empty sample_init] _ sample_set]) (simp add: heap_ok_def)
  moreover have "context_clean (\<lambda>x. x) sample_override"
    by (simp add: context_clean_def sample_override_def sample_empty_def options_clean_def root_clean_def sample_root_def
        node_attr_def bt_get_def clean_text_def)
  ultimately show ?thesis
    using accepted_override_loads [of sample_readers "\<lambda>x. x" "''/db''" ?s sample_override "\<lparr>mf_pnpid = ''DEL1234'', mf_root = sample_root\<rparr>"
        sample_heap sample_caps "\<lambda>_. True" 1] sample_owns
    by (auto simp: sample_override_def)
qed

end
