(* ===== verification/Scan_Backend.thy ===== *)
theory Scan_Backend
  imports Protocol Edid Utf8 Cbor_Value
begin

text \<open>
  Direct access to monitors for the scan tool, \<^verbatim>\<open>crates/ddccontrol-scanmonitor/src/backend.rs\<close>:
  transfers over a Linux I2C device, retries, reading the EDID, a control and the capability string.
  The system call is a parameter that answers from the whole history of transfers, so that a monitor
  may behave in any way; an operation returns its result and the history. The pause between transfers
  is not modelled. The theorems show that the scanner only ever sends read requests, that it stops
  after a bounded number of transfers, and that a capability string consists of fragments that were
  each received intact for their own offset.
\<close>

section \<open>Transfers\<close>

record event =
  ev_address :: u16
  ev_read :: bool
  ev_bytes :: bytes
  ev_result :: int

type_synonym ioctl = "event list \<Rightarrow> u16 \<Rightarrow> bool \<Rightarrow> bytes \<Rightarrow> int \<times> bytes"

datatype scan_error =
    Message_too_long
  | Os_error
  | Incomplete_transfer
  | Edid_error edid_error
  | Invalid_manufacturer
  | Invalid_request protocol_error
  | Invalid_reply protocol_error
  | Invalid_control_reply protocol_error
  | Invalid_fragment protocol_error
  | Capabilities_not_utf8
  | Capabilities_too_long
  | No_attempt

type_synonym 'a link = "ioctl \<Rightarrow> event list \<Rightarrow> ('a, scan_error) result \<times> event list"

definition link_ret :: "('a, scan_error) result \<Rightarrow> 'a link" where
  "link_ret r sys log = (r, log)"

definition link_bind :: "'a link \<Rightarrow> ('a \<Rightarrow> 'b link) \<Rightarrow> 'b link" where
  "link_bind m f sys log =
     (case m sys log of (Inl e, log) \<Rightarrow> (Err e, log) | (Inr x, log) \<Rightarrow> f x sys log)"

definition DDC_ADDRESS :: u16 where "DDC_ADDRESS = 0x37"
definition EDID_ADDRESS :: u16 where "EDID_ADDRESS = 0x50"

text \<open>A read overwrites the front of the buffer.\<close>

definition overlay :: "bytes \<Rightarrow> bytes \<Rightarrow> bytes" where
  "overlay reply buffer = take (length buffer) reply @ drop (length reply) buffer"

definition transfer :: "u16 \<Rightarrow> bool \<Rightarrow> bytes \<Rightarrow> bytes link" where
  "transfer address rd bs sys log =
     (if length bs > 65535 then (Err Message_too_long, log)
      else
        (case sys log address rd bs of (result, reply) \<Rightarrow>
           let buffer = (if rd then overlay reply bs else bs);
               log = log @ [\<lparr>ev_address = address, ev_read = rd, ev_bytes = buffer, ev_result = result\<rparr>]
           in (if result = 1 then Ok buffer
               else if result = -1 then Err Os_error
               else Err Incomplete_transfer, log)))"

fun retry_from :: "nat \<Rightarrow> 'a link \<Rightarrow> scan_error \<Rightarrow> 'a link" where
  "retry_from 0 operation last_error sys log = (Err last_error, log)"
| "retry_from (Suc n) operation last_error sys log =
     (case operation sys log of
        (Inr v, log) \<Rightarrow> (Ok v, log)
      | (Inl e, log) \<Rightarrow> retry_from n operation e sys log)"

definition retry :: "'a link \<Rightarrow> 'a link" where
  "retry operation = retry_from 3 operation No_attempt"

section \<open>Requests\<close>

definition edid_attempt :: "edid link" where
  "edid_attempt =
     link_bind (transfer EDID_ADDRESS False [0]) (\<lambda>_.
     link_bind (transfer EDID_ADDRESS True (replicate EDID_BLOCK_LEN 0)) (\<lambda>bs.
     link_ret (and_then (map_err Edid_error (edid_parse bs)) (\<lambda>info.
       if \<not> is_valid_pnp_id (edid_pnp_id info) then Err Invalid_manufacturer else Ok info))))"

definition read_edid :: "edid link" where
  "read_edid = retry edid_attempt"

definition exchange :: "bytes \<Rightarrow> nat \<Rightarrow> bytes link" where
  "exchange payload reply_size =
     link_bind (link_ret (map_err Invalid_request (build_frame (ucast DDC_ADDRESS) payload))) (\<lambda>request.
     link_bind (transfer DDC_ADDRESS False (frame_as_bytes request)) (\<lambda>_.
     link_bind (transfer DDC_ADDRESS True (replicate (reply_size + FRAME_OVERHEAD) 0)) (\<lambda>response.
     link_ret (and_then (map_err Invalid_reply (parse_frame (ucast DDC_ADDRESS) response reply_size)) (\<lambda>frame.
       Ok (reply_payload frame))))))"

record reading =
  rd_current :: u16
  rd_maximum :: u16

definition control_attempt :: "u8 \<Rightarrow> reading option link" where
  "control_attempt code =
     link_bind (exchange [0x01, code] 8) (\<lambda>reply.
     link_ret (and_then (map_err Invalid_control_reply (parse_vcp_reply reply code)) (\<lambda>reply.
       Ok (if vcp_supported reply then Some \<lparr>rd_current = vcp_value reply, rd_maximum = vcp_maximum reply\<rparr> else None))))"

definition read_control :: "u8 \<Rightarrow> reading option link" where
  "read_control code = retry (control_attempt code)"

definition fragment_attempt :: "u16 \<Rightarrow> bytes link" where
  "fragment_attempt offset =
     (case u16_to_be offset of (high, low) \<Rightarrow>
        link_bind (exchange [0xf3, high, low] 64) (\<lambda>reply.
        link_ret (map_err Invalid_fragment (parse_caps_reply reply offset))))"

function read_capabilities_from :: "bytes \<Rightarrow> string link" where
  "read_capabilities_from bs sys log =
     (case retry (fragment_attempt (of_nat (length bs))) sys log of
        (Inl e, log) \<Rightarrow> (Err e, log)
      | (Inr fragment, log) \<Rightarrow>
          if fragment = []
          then (if from_utf8 (bytes_str bs) then Ok (bytes_str bs) else Err Capabilities_not_utf8, log)
          else if length bs + length fragment > 65535 then (Err Capabilities_too_long, log)
          else read_capabilities_from (bs @ fragment) sys log)"
  by pat_completeness auto
termination
  by (relation "measure (\<lambda>(bs, _). 65536 - length bs)") (auto simp: length_greater_0_conv [symmetric] simp del: length_greater_0_conv)

declare read_capabilities_from.simps [simp del]

definition read_capabilities :: "string link" where
  "read_capabilities = read_capabilities_from []"

section \<open>Names\<close>

definition edid_name :: "edid \<Rightarrow> string option" where
  "edid_name info =
     (let name = str_trim (monitor_name (edid_details info)) in if name = [] then None else Some name)"

text \<open>The loop over the places of \<^verbatim>\<open>model(\<close>, with the byte before each.\<close>

fun model_from :: "char option \<Rightarrow> string \<Rightarrow> string option" where
  "model_from prev [] = None"
| "model_from prev (c # cs) =
     (if starts_with ''model('' (c # cs)
         \<and> (case prev of None \<Rightarrow> True | Some p \<Rightarrow> p = CHR ''('' \<or> p = CHR '')'' \<or> is_ascii_whitespace p)
      then
        (let rest = drop 6 (c # cs)
         in if CHR '')'' \<notin> set rest then None
            else
              (let model = str_trim (takeWhile (\<lambda>x. x \<noteq> CHR '')'') rest)
               in if model \<noteq> [] \<and> CHR ''('' \<notin> set model then Some model else model_from (Some c) cs))
      else model_from (Some c) cs)"

definition capability_model :: "string \<Rightarrow> string option" where
  "capability_model capabilities = model_from None capabilities"

definition device_number :: "string \<Rightarrow> nat option" where
  "device_number name =
     Option.bind (strip_prefix ''i2c-'' name) (\<lambda>number.
       if number = [] \<or> \<not> list_all is_ascii_digit number then None
       else
         (let n = horner 10 (map (\<lambda>c. byte_val c - 48) number) in if n < 2 ^ 32 then Some n else None))"

section \<open>Devices\<close>

text \<open>
  The directory \<^verbatim>\<open>/dev\<close> with its entries, some of which cannot be read, and what opening a path
  gives: a device, or an error, which may be that permission is denied.
\<close>

datatype open_error = Permission_denied | Other_error

record bus =
  bus_entries :: "string option list option"
  bus_open :: "string \<Rightarrow> (ioctl, open_error) result"

datatype bus_error =
    Cannot_list
  | No_devices
  | Denied nat
  | Not_a_device
  | Cannot_open string open_error
  | Cannot_identify string scan_error

record monitor =
  mon_device :: string
  mon_name :: string

record opened_monitor =
  om_pnp_id :: string
  om_capabilities :: string
  om_name :: "string option"
  om_kernel :: ioctl
  om_log :: "event list"

text \<open>
  Devices are probed one after the other and each is opened afresh; with the monitors found, the history
  of every device that was opened is kept, whether or not it could be identified.
\<close>

definition list_step ::
  "bus \<Rightarrow> nat \<times> string \<Rightarrow> monitor list \<times> nat \<times> (string \<times> event list) list \<Rightarrow> monitor list \<times> nat \<times> (string \<times> event list) list" where
  "list_step b device st =
     (case (device, st) of ((_, path), (monitors, denied, logs)) \<Rightarrow>
        case bus_open b path of
          Inl Permission_denied \<Rightarrow> (monitors, denied + 1, logs)
        | Inl Other_error \<Rightarrow> (monitors, denied, logs)
        | Inr sys \<Rightarrow>
            (case read_edid sys [] of
               (Inr info, log) \<Rightarrow>
                 (monitors @ [\<lparr>mon_device = ''dev:'' @ path,
                    mon_name = (case edid_name info of Some name \<Rightarrow> name | None \<Rightarrow> edid_pnp_id info)\<rparr>], denied, logs @ [(path, log)])
             | (Inl _, log) \<Rightarrow> (monitors, denied, logs @ [(path, log)])))"

definition list_devices :: "bus \<Rightarrow> (monitor list, bus_error) result \<times> (string \<times> event list) list" where
  "list_devices b =
     (case bus_entries b of
        None \<Rightarrow> (Err Cannot_list, [])
      | Some entries \<Rightarrow>
          (let devices = sort_key fst (List.map_filter (\<lambda>entry. case entry of
                 None \<Rightarrow> None
               | Some name \<Rightarrow> if from_utf8 name then map_option (\<lambda>n. (n, ''/dev/'' @ name)) (device_number name) else None) entries)
           in if devices = [] then (Err No_devices, [])
              else
                (case fold (list_step b) devices ([], 0, []) of (monitors, denied, logs) \<Rightarrow>
                   (if denied \<noteq> 0 \<and> monitors = [] then Err (Denied denied) else Ok monitors, logs))))"

text \<open>Opening a monitor gives the history of transfers also where it fails.\<close>

definition open_monitor :: "bus \<Rightarrow> string \<Rightarrow> (opened_monitor, bus_error) result \<times> event list" where
  "open_monitor b device =
     (case strip_prefix ''dev:/dev/'' device of
        None \<Rightarrow> (Err Not_a_device, [])
      | Some name \<Rightarrow>
          if device_number name = None then (Err Not_a_device, [])
          else
            (case bus_open b (''/dev/'' @ name) of
               Inl e \<Rightarrow> (Err (Cannot_open device e), [])
             | Inr sys \<Rightarrow>
                 (case read_edid sys [] of
                    (Inl e, log) \<Rightarrow> (Err (Cannot_identify device e), log)
                  | (Inr info, log) \<Rightarrow>
                      (case read_capabilities sys log of (r, log) \<Rightarrow>
                         let capabilities = (case r of Inr c \<Rightarrow> c | Inl _ \<Rightarrow> [])
                         in (Ok \<lparr>om_pnp_id = edid_pnp_id info, om_capabilities = capabilities,
                                 om_name = (case edid_name info of Some name \<Rightarrow> Some name | None \<Rightarrow> capability_model capabilities),
                                 om_kernel = sys, om_log = log\<rparr>, log)))))"

definition om_read :: "u8 \<Rightarrow> opened_monitor \<Rightarrow> (reading option, scan_error) result \<times> opened_monitor" where
  "om_read code m =
     (case read_control code (om_kernel m) (om_log m) of (r, log) \<Rightarrow> (r, m\<lparr>om_log := log\<rparr>))"

section \<open>What is sent\<close>

text \<open>The three requests the tool may send; it reads from the two addresses it may send them to.\<close>

inductive read_request :: "u16 \<Rightarrow> bytes \<Rightarrow> bool" where
  edid_offset: "read_request 0x50 [0]"
| get_vcp: "build_frame 0x37 [0x01, code] = Ok f \<Longrightarrow> read_request 0x37 (frame_as_bytes f)"
| get_capabilities: "build_frame 0x37 [0xf3, high, low] = Ok f \<Longrightarrow> read_request 0x37 (frame_as_bytes f)"

definition harmless :: "event \<Rightarrow> bool" where
  "harmless ev \<longleftrightarrow>
     (if ev_read ev then ev_address ev = 0x37 \<or> ev_address ev = 0x50 else read_request (ev_address ev) (ev_bytes ev))"

text \<open>An operation extends the history by at most \<open>k\<close> harmless transfers, and its result comes with \<open>Q\<close>.\<close>

definition conducts :: "nat \<Rightarrow> ('a \<Rightarrow> event list \<Rightarrow> bool) \<Rightarrow> 'a link \<Rightarrow> bool" where
  "conducts k Q m \<longleftrightarrow>
     (\<forall>sys log. \<exists>evs. snd (m sys log) = log @ evs \<and> list_all harmless evs \<and> length evs \<le> k
        \<and> (\<forall>x. fst (m sys log) = Inr x \<longrightarrow> Q x evs))"

lemma conductsD:
  assumes "conducts k Q m"
  obtains r evs where "m sys log = (r, log @ evs)" "list_all harmless evs" "length evs \<le> k" "\<forall>x. r = Inr x \<longrightarrow> Q x evs"
  using assms unfolding conducts_def by (metis prod.collapse)

lemma conductsI:
  assumes "\<And>sys log. \<exists>r evs. m sys log = (r, log @ evs) \<and> list_all harmless evs \<and> length evs \<le> k \<and> (\<forall>x. r = Inr x \<longrightarrow> Q x evs)"
  shows "conducts k Q m"
  unfolding conducts_def using assms by (metis fst_conv snd_conv)

lemma conducts_ret: "(\<And>x. r = Inr x \<Longrightarrow> Q x []) \<Longrightarrow> conducts 0 Q (link_ret r)"
  by (simp add: conducts_def link_ret_def)

lemma conducts_bind:
  assumes "conducts k Q m" and "\<And>x evs. Q x evs \<Longrightarrow> conducts j (R x) (f x)" and "\<And>x y evs evs'. Q x evs \<Longrightarrow> R x y evs' \<Longrightarrow> S y (evs @ evs')"
  shows "conducts (k + j) S (link_bind m f)"
proof (rule conductsI)
  fix sys log
  obtain r evs where m: "m sys log = (r, log @ evs)" "list_all harmless evs" "length evs \<le> k" "\<forall>x. r = Inr x \<longrightarrow> Q x evs"
    by (rule conductsD [OF assms(1), of sys log])
  show "\<exists>r evs. link_bind m f sys log = (r, log @ evs) \<and> list_all harmless evs \<and> length evs \<le> k + j \<and> (\<forall>y. r = Inr y \<longrightarrow> S y evs)"
  proof (cases r)
    case (Inl e)
    with m show ?thesis by (auto simp: link_bind_def)
  next
    case (Inr x)
    obtain r' evs' where "f x sys (log @ evs) = (r', (log @ evs) @ evs')" "list_all harmless evs'" "length evs' \<le> j"
      "\<forall>y. r' = Inr y \<longrightarrow> R x y evs'" by (rule conductsD [OF assms(2) [OF m(4) [rule_format, OF Inr]], of sys "log @ evs"])
    with m Inr assms(3) show ?thesis by (intro exI [of _ r'] exI [of _ "evs @ evs'"]) (auto simp: link_bind_def)
  qed
qed

lemma conducts_transfer:
  assumes "\<not> rd \<Longrightarrow> read_request address bs" and "address = 0x37 \<or> address = 0x50"
  shows "conducts 1 (\<lambda>x evs. evs = [\<lparr>ev_address = address, ev_read = rd, ev_bytes = x, ev_result = 1\<rparr>]) (transfer address rd bs)"
  using assms by (intro conductsI) (auto simp: transfer_def harmless_def Let_def split: prod.splits)

lemma conducts_retry:
  assumes "conducts k Q m" and "\<And>x evs evs'. Q x evs' \<Longrightarrow> Q x (evs @ evs')"
  shows "conducts (3 * k) Q (retry m)"
proof -
  have "conducts (n * k) Q (retry_from n m e)" for n e
  proof (induction n arbitrary: e)
    case (Suc n)
    show ?case
    proof (rule conductsI)
      fix sys log
      obtain r evs where m: "m sys log = (r, log @ evs)" "list_all harmless evs" "length evs \<le> k" "\<forall>x. r = Inr x \<longrightarrow> Q x evs"
        by (rule conductsD [OF assms(1), of sys log])
      show "\<exists>r evs. retry_from (Suc n) m e sys log = (r, log @ evs) \<and> list_all harmless evs \<and> length evs \<le> Suc n * k
          \<and> (\<forall>x. r = Inr x \<longrightarrow> Q x evs)"
      proof (cases r)
        case (Inl e')
        obtain r' evs' where "retry_from n m e' sys (log @ evs) = (r', (log @ evs) @ evs')" "list_all harmless evs'" "length evs' \<le> n * k"
          "\<forall>x. r' = Inr x \<longrightarrow> Q x evs'" by (rule conductsD [OF Suc.IH, of e' sys "log @ evs"])
        with m Inl assms(2) show ?thesis by (intro exI [of _ r'] exI [of _ "evs @ evs'"]) auto
      next
        case (Inr x)
        with m show ?thesis by auto
      qed
    qed
  qed (simp add: conducts_def)
  then show ?thesis unfolding retry_def by blast
qed

lemma conducts_weaken: "conducts k Q m \<Longrightarrow> (\<And>x evs. Q x evs \<Longrightarrow> R x evs) \<Longrightarrow> conducts k R m"
  unfolding conducts_def by meson

lemma conducts_read_edid: "conducts 6 (\<lambda>info _. is_valid_pnp_id (edid_pnp_id info)) read_edid"
proof -
  have w: "conducts 1 (\<lambda>_ _. True) (transfer EDID_ADDRESS rd bs)" if "\<not> rd \<Longrightarrow> bs = [0]" for rd bs
    by (rule conducts_weaken [OF conducts_transfer]) (use that edid_offset in \<open>auto simp: EDID_ADDRESS_def\<close>)
  have "conducts (1 + (1 + 0)) (\<lambda>info _. is_valid_pnp_id (edid_pnp_id info)) edid_attempt"
    unfolding edid_attempt_def by (rule conducts_bind [OF w conducts_bind [OF w conducts_ret]]) (auto split: if_splits)
  from conducts_retry [OF this] show ?thesis by (simp add: read_edid_def)
qed

text \<open>A payload received in an intact reply frame.\<close>

definition received :: "nat \<Rightarrow> bytes \<Rightarrow> event list \<Rightarrow> bool" where
  "received limit payload evs \<longleftrightarrow>
     (\<exists>ev\<in>set evs. ev_read ev \<and> ev_address ev = 0x37 \<and> ev_result ev = 1
        \<and> (\<exists>missing. parse_frame 0x37 (ev_bytes ev) limit = Ok \<lparr>reply_payload = payload, missing_length_flag = missing\<rparr>))"

lemma conducts_exchange:
  assumes "\<And>f. build_frame 0x37 payload = Ok f \<Longrightarrow> read_request 0x37 (frame_as_bytes f)"
  shows "conducts 2 (received limit) (exchange payload limit)"
proof -
  have a: "(ucast DDC_ADDRESS :: u8) = 0x37" by (simp add: DDC_ADDRESS_def)
  have "conducts (0 + (1 + (1 + 0))) (received limit) (exchange payload limit)"
    unfolding exchange_def a
  proof (rule conducts_bind [where Q = "\<lambda>request evs. build_frame 0x37 payload = Ok request \<and> evs = []" and R = "\<lambda>_. received limit", OF conducts_ret])
    show "conducts (1 + (1 + 0)) (received limit)
        (link_bind (transfer DDC_ADDRESS False (frame_as_bytes request)) (\<lambda>_.
         link_bind (transfer DDC_ADDRESS True (replicate (limit + FRAME_OVERHEAD) 0)) (\<lambda>response.
         link_ret (and_then (map_err Invalid_reply (parse_frame 0x37 response limit)) (\<lambda>frame. Ok (reply_payload frame))))))"
      if "build_frame 0x37 payload = Ok request \<and> evs = []" for request evs
    proof (rule conducts_bind [where R = "\<lambda>_. received limit", OF conducts_transfer])
      show "read_request DDC_ADDRESS (frame_as_bytes request)" using assms that by (simp add: DDC_ADDRESS_def)
      show "conducts (1 + 0) (received limit)
          (link_bind (transfer DDC_ADDRESS True (replicate (limit + FRAME_OVERHEAD) 0)) (\<lambda>response.
           link_ret (and_then (map_err Invalid_reply (parse_frame 0x37 response limit)) (\<lambda>frame. Ok (reply_payload frame)))))"
      proof (rule conducts_bind [where R = "\<lambda>response payload evs. (\<exists>f. parse_frame 0x37 response limit = Ok f \<and> payload = reply_payload f) \<and> evs = []",
            OF conducts_transfer conducts_ret])
        fix response payload and evs evs' :: "event list"
        assume "evs = [\<lparr>ev_address = DDC_ADDRESS, ev_read = True, ev_bytes = response, ev_result = 1\<rparr>]"
          and "(\<exists>f. parse_frame 0x37 response limit = Ok f \<and> payload = reply_payload f) \<and> evs' = []"
        then show "received limit payload (evs @ evs')"
          by (auto simp: received_def DDC_ADDRESS_def) (metis (full_types) reply.surjective old.unit.exhaust)
      qed (auto simp: DDC_ADDRESS_def)
    qed (auto simp: received_def DDC_ADDRESS_def)
  qed auto
  then show ?thesis by (simp add: numeral_2_eq_2)
qed

lemma received_mono: "received limit payload evs \<Longrightarrow> set evs \<subseteq> set evs' \<Longrightarrow> received limit payload evs'"
  unfolding received_def by blast

definition control_received :: "u8 \<Rightarrow> reading option \<Rightarrow> event list \<Rightarrow> bool" where
  "control_received code r evs \<longleftrightarrow>
     (\<exists>payload v. received 8 payload evs \<and> parse_vcp_reply payload code = Ok v
        \<and> r = (if vcp_supported v then Some \<lparr>rd_current = vcp_value v, rd_maximum = vcp_maximum v\<rparr> else None))"

lemma control_received_mono: "control_received code r evs \<Longrightarrow> set evs \<subseteq> set evs' \<Longrightarrow> control_received code r evs'"
  unfolding control_received_def using received_mono [of 8 _ evs evs'] by blast

lemma conducts_read_control: "conducts 6 (control_received code) (read_control code)"
proof -
  have "conducts (2 + 0) (control_received code) (control_attempt code)"
    unfolding control_attempt_def
  proof (rule conducts_bind [where R = "\<lambda>payload r evs. evs = [] \<and> (\<exists>v. parse_vcp_reply payload code = Ok v
        \<and> r = (if vcp_supported v then Some \<lparr>rd_current = vcp_value v, rd_maximum = vcp_maximum v\<rparr> else None))",
      OF conducts_exchange conducts_ret])
    show "read_request 0x37 (frame_as_bytes f)" if "build_frame 0x37 [0x01, code] = Ok f" for f
      using that by (rule get_vcp)
    show "control_received code r (evs @ evs')" if "received 8 payload evs" and "evs' = [] \<and> (\<exists>v. parse_vcp_reply payload code = Ok v
        \<and> r = (if vcp_supported v then Some \<lparr>rd_current = vcp_value v, rd_maximum = vcp_maximum v\<rparr> else None))" for payload r evs evs'
      using that unfolding control_received_def by (simp only: append_Nil2) blast
  qed auto
  then have "conducts (3 * 2) (control_received code) (read_control code)" unfolding read_control_def
    by (intro conducts_retry) (auto intro: control_received_mono)
  then show ?thesis by simp
qed

definition fragment_received :: "nat \<Rightarrow> bytes \<Rightarrow> event list \<Rightarrow> bool" where
  "fragment_received offset fragment evs \<longleftrightarrow>
     (\<exists>payload. received 64 payload evs \<and> parse_caps_reply payload (of_nat offset) = Ok fragment)"

lemma fragment_received_mono: "fragment_received offset f evs \<Longrightarrow> set evs \<subseteq> set evs' \<Longrightarrow> fragment_received offset f evs'"
  unfolding fragment_received_def using received_mono [of 64 _ evs evs'] by blast

lemma conducts_fragment: "conducts 6 (fragment_received offset) (retry (fragment_attempt (of_nat offset)))"
proof -
  obtain high low where be: "u16_to_be (of_nat offset) = (high, low)" by fastforce
  have "conducts (2 + 0) (fragment_received offset) (fragment_attempt (of_nat offset))"
    unfolding fragment_attempt_def be prod.case
  proof (rule conducts_bind [where R = "\<lambda>payload f evs. evs = [] \<and> parse_caps_reply payload (of_nat offset) = Ok f",
      OF conducts_exchange conducts_ret])
    show "read_request 0x37 (frame_as_bytes f)" if "build_frame 0x37 [0xf3, high, low] = Ok f" for f
      using that by (rule get_capabilities)
  qed (auto simp: fragment_received_def)
  then have "conducts (3 * 2) (fragment_received offset) (retry (fragment_attempt (of_nat offset)))"
    by (intro conducts_retry) (auto intro: fragment_received_mono)
  then show ?thesis by simp
qed

text \<open>Fragments received one after the other, each for its own offset, up to the empty one.\<close>

fun assembled :: "nat \<Rightarrow> bytes list \<Rightarrow> event list \<Rightarrow> bool" where
  "assembled offset [] evs \<longleftrightarrow> fragment_received offset [] evs"
| "assembled offset (f # fs) evs \<longleftrightarrow> f \<noteq> [] \<and> fragment_received offset f evs \<and> assembled (offset + length f) fs evs"

lemma assembled_mono: "assembled offset fs evs \<Longrightarrow> set evs \<subseteq> set evs' \<Longrightarrow> assembled offset fs evs'"
  by (induction fs arbitrary: offset) (auto intro: fragment_received_mono)

definition caps_received :: "bytes \<Rightarrow> string \<Rightarrow> event list \<Rightarrow> bool" where
  "caps_received bs s evs \<longleftrightarrow>
     (\<exists>fs. s = bytes_str (bs @ concat fs) \<and> from_utf8 s \<and> length s \<le> 65535 \<and> assembled (length bs) fs evs)"

lemma caps_received_mono: "caps_received bs s evs \<Longrightarrow> set evs \<subseteq> set evs' \<Longrightarrow> caps_received bs s evs'"
  unfolding caps_received_def using assembled_mono by blast

lemma read_capabilities_step:
  "read_capabilities_from bs = link_bind (retry (fragment_attempt (of_nat (length bs)))) (\<lambda>fragment.
     if fragment = [] then link_ret (if from_utf8 (bytes_str bs) then Ok (bytes_str bs) else Err Capabilities_not_utf8)
     else if length bs + length fragment > 65535 then link_ret (Err Capabilities_too_long)
     else read_capabilities_from (bs @ fragment))"
  by (intro ext) (auto simp: read_capabilities_from.simps [of bs] link_bind_def link_ret_def split: prod.splits sum.splits)

lemma conducts_more: "conducts k Q m \<Longrightarrow> k \<le> j \<Longrightarrow> conducts j Q m"
  unfolding conducts_def by (meson le_trans)

lemma conducts_capabilities:
  "length bs \<le> 65535 \<Longrightarrow> conducts (6 * (65536 - length bs)) (caps_received bs) (read_capabilities_from bs)"
proof (induction "65536 - length bs" arbitrary: bs rule: less_induct)
  case less
  let ?rest = "\<lambda>fragment. if fragment = [] then link_ret (if from_utf8 (bytes_str bs) then Ok (bytes_str bs) else Err Capabilities_not_utf8)
     else if length bs + length fragment > 65535 then link_ret (Err Capabilities_too_long)
     else read_capabilities_from (bs @ fragment)"
  let ?R = "\<lambda>fragment s evs. if fragment = [] then s = bytes_str bs \<and> from_utf8 s else caps_received (bs @ fragment) s evs"
  have "conducts (6 * (65535 - length bs)) (?R fragment) (?rest fragment)" for fragment
  proof (cases "fragment = [] \<or> length bs + length fragment > 65535")
    case True
    then show ?thesis by (auto intro!: conducts_more [OF conducts_ret] split: if_splits)
  next
    case False
    then have "conducts (6 * (65536 - length (bs @ fragment))) (caps_received (bs @ fragment)) (read_capabilities_from (bs @ fragment))"
      using less.prems by (intro less.hyps) (auto simp: length_greater_0_conv [symmetric] simp del: length_greater_0_conv)
    then have "conducts (6 * (65535 - length bs)) (caps_received (bs @ fragment)) (read_capabilities_from (bs @ fragment))"
      by (rule conducts_more) (use False in \<open>cases fragment; simp\<close>)
    then show ?thesis using False by simp
  qed
  then have "conducts (6 + 6 * (65535 - length bs)) (caps_received bs) (link_bind (retry (fragment_attempt (of_nat (length bs)))) ?rest)"
  proof (rule conducts_bind [OF conducts_fragment])
    fix fragment s evs evs' assume f: "fragment_received (length bs) fragment evs" and s: "?R fragment s evs'"
    have f': "fragment_received (length bs) fragment (evs @ evs')" using f by (auto intro: fragment_received_mono)
    show "caps_received bs s (evs @ evs')"
    proof (cases "fragment = []")
      case True
      with f' s less.prems show ?thesis unfolding caps_received_def by (intro exI [of _ "[]"]) (auto simp: bytes_str_def)
    next
      case False
      with s obtain fs where "s = bytes_str ((bs @ fragment) @ concat fs)" "from_utf8 s" "length s \<le> 65535"
        "assembled (length (bs @ fragment)) fs evs'" by (auto simp: caps_received_def)
      with f' False show ?thesis unfolding caps_received_def
        by (intro exI [of _ "fragment # fs"]) (auto intro: assembled_mono)
    qed
  qed
  moreover have "6 + 6 * (65535 - length bs) = 6 * (65536 - length bs)" using less.prems by simp
  ultimately show ?case unfolding read_capabilities_step [of bs] by simp
qed

section \<open>The scanner only reads\<close>

text \<open>The loop of \<^verbatim>\<open>main.rs\<close> over the control addresses.\<close>

fun read_all :: "u8 list \<Rightarrow> opened_monitor \<Rightarrow> (u8 \<times> (reading option, scan_error) result) list \<times> opened_monitor" where
  "read_all [] m = ([], m)"
| "read_all (code # codes) m =
     (case om_read code m of (r, m) \<Rightarrow> case read_all codes m of (rs, m) \<Rightarrow> ((code, r) # rs, m))"

definition values_received :: "(u8 \<times> (reading option, scan_error) result) list \<Rightarrow> event list \<Rightarrow> bool" where
  "values_received rs evs \<longleftrightarrow> (\<forall>code v. (code, Inr v) \<in> set rs \<longrightarrow> control_received code v evs)"

lemma values_received_mono: "values_received rs evs \<Longrightarrow> set evs \<subseteq> set evs' \<Longrightarrow> values_received rs evs'"
  unfolding values_received_def using control_received_mono by blast

lemma read_all_harmless:
  "read_all codes m = (rs, m') \<Longrightarrow>
     \<exists>evs. om_log m' = om_log m @ evs \<and> list_all harmless evs \<and> length evs \<le> 6 * length codes
       \<and> values_received rs evs"
proof (induction codes arbitrary: m rs)
  case (Cons code codes)
  obtain r evs where r: "read_control code (om_kernel m) (om_log m) = (r, om_log m @ evs)" "list_all harmless evs" "length evs \<le> 6"
    "\<forall>x. r = Inr x \<longrightarrow> control_received code x evs"
    by (rule conductsD [OF conducts_read_control, of code "om_kernel m" "om_log m"])
  let ?m = "m\<lparr>om_log := om_log m @ evs\<rparr>"
  from Cons.prems r(1) obtain rs' where rs: "read_all codes ?m = (rs', m')" "rs = (code, r) # rs'"
    by (auto simp: om_read_def split: prod.splits)
  from Cons.IH [OF rs(1)] obtain evs' where e: "om_log m' = om_log ?m @ evs'" "list_all harmless evs'" "length evs' \<le> 6 * length codes"
    "values_received rs' evs'" by blast
  have "values_received rs (evs @ evs')"
    using rs(2) values_received_mono [OF e(4), of "evs @ evs'"] r(4) control_received_mono [of code _ evs "evs @ evs'"]
    unfolding values_received_def by auto
  with r e show ?case by (intro exI [of _ "evs @ evs'"]) auto
qed (simp add: values_received_def)

lemma read_edid_log:
  assumes "read_edid sys [] = (r, log)"
  shows "list_all harmless log \<and> length log \<le> 6 \<and> (case r of Inr info \<Rightarrow> is_valid_pnp_id (edid_pnp_id info) | Inl _ \<Rightarrow> True)"
proof -
  obtain r' evs where "read_edid sys [] = (r', [] @ evs)" "list_all harmless evs" "length evs \<le> 6"
    "\<forall>info. r' = Inr info \<longrightarrow> is_valid_pnp_id (edid_pnp_id info)"
    by (rule conductsD [OF conducts_read_edid, of sys "[]"])
  with assms show ?thesis by (auto split: sum.splits)
qed

text \<open>Opening: what was sent on every way out, and what a monitor that could be opened is made of.\<close>

lemma open_monitor_log:
  assumes "open_monitor b device = (r, log)"
  shows "list_all harmless log \<and> length log \<le> 393222
    \<and> (case r of
         Inl (Cannot_identify d e) \<Rightarrow> length log \<le> 6
       | Inl _ \<Rightarrow> log = []
       | Inr m \<Rightarrow> om_log m = log \<and> is_valid_pnp_id (om_pnp_id m)
           \<and> (om_capabilities m = [] \<or> caps_received [] (om_capabilities m) log))"
proof -
  let ?opened = "\<lambda>sys info r log. \<lparr>om_pnp_id = edid_pnp_id info, om_capabilities = (case r of Inr c \<Rightarrow> c | Inl _ \<Rightarrow> []),
    om_name = (case edid_name info of Some name \<Rightarrow> Some name | None \<Rightarrow> capability_model (case r of Inr c \<Rightarrow> c | Inl _ \<Rightarrow> [])),
    om_kernel = sys, om_log = log\<rparr>"
  from assms consider (early) e where "r = Inl e" "log = []" "\<And>d e'. e \<noteq> Cannot_identify d e'"
    | (unidentified) sys e where "read_edid sys [] = (Inl e, log)" "r = Inl (Cannot_identify device e)"
    | (opened) sys info log0 c where "read_edid sys [] = (Inr info, log0)" "read_capabilities sys log0 = (c, log)"
        "r = Inr (?opened sys info c log)"
    by (auto simp: open_monitor_def Let_def split: option.splits if_splits sum.splits prod.splits)
  then show ?thesis
  proof cases
    case early
    then show ?thesis by (cases e) auto
  next
    case unidentified
    with read_edid_log [OF unidentified(1)] show ?thesis by auto
  next
    case opened
    have a: "list_all harmless log0" "length log0 \<le> 6" "is_valid_pnp_id (edid_pnp_id info)"
      using read_edid_log [OF opened(1)] by auto
    have "conducts (6 * 65536) (caps_received []) read_capabilities"
      using conducts_capabilities [of "[]"] by (simp add: read_capabilities_def)
    then obtain evs where "log = log0 @ evs" "list_all harmless evs" "length evs \<le> 6 * 65536" "\<forall>x. c = Inr x \<longrightarrow> caps_received [] x evs"
      using conductsD [of "6 * 65536" "caps_received []" read_capabilities sys log0] opened(2) by (metis prod.inject)
    then show ?thesis using opened(3) a by (auto intro: caps_received_mono split: sum.splits)
  qed
qed

lemma open_monitor_ok:
  "open_monitor b device = (Ok m, log) \<Longrightarrow> om_log m = log \<and> is_valid_pnp_id (om_pnp_id m)"
  using open_monitor_log [of b device "Ok m" log] by simp

text \<open>Listing: the histories are those of I2C devices in \<^verbatim>\<open>/dev\<close>, each probed once at most per entry.\<close>

definition probe_ok :: "string \<times> event list \<Rightarrow> bool" where
  "probe_ok probe \<longleftrightarrow>
     (case probe of (path, log) \<Rightarrow>
        (\<exists>name. path = ''/dev/'' @ name \<and> device_number name \<noteq> None) \<and> list_all harmless log \<and> length log \<le> 6)"

lemma list_step_ok:
  assumes "list_step b (n, ''/dev/'' @ name) (monitors, denied, logs) = (monitors', denied', logs')" and "device_number name \<noteq> None"
    and "list_all probe_ok logs" and "mon_device ` set monitors \<subseteq> (\<lambda>probe. ''dev:'' @ fst probe) ` set logs"
  shows "list_all probe_ok logs' \<and> length logs' \<le> length logs + 1
    \<and> mon_device ` set monitors' \<subseteq> (\<lambda>probe. ''dev:'' @ fst probe) ` set logs'"
proof (cases "bus_open b (''/dev/'' @ name)")
  case (Inl e)
  with assms show ?thesis by (cases e) (auto simp: list_step_def)
next
  case (Inr sys)
  obtain r log where e: "read_edid sys [] = (r, log)" by (metis surj_pair)
  have "probe_ok (''/dev/'' @ name, log)" using read_edid_log [OF e] assms(2) by (auto simp: probe_ok_def)
  moreover have "logs' = logs @ [(''/dev/'' @ name, log)]"
    and "mon_device ` set monitors' \<subseteq> insert (''dev:'' @ ''/dev/'' @ name) (mon_device ` set monitors)"
    using Inr e assms(1) by (auto simp: list_step_def split: sum.splits)
  moreover have "insert (''dev:'' @ ''/dev/'' @ name) (mon_device ` set monitors) \<subseteq> (\<lambda>probe. ''dev:'' @ fst probe) ` set (logs @ [(''/dev/'' @ name, log)])"
    using assms(4) by (simp add: subset_insertI2)
  ultimately show ?thesis using assms(3) by (auto dest: subset_trans)
qed

lemma list_fold_ok:
  assumes "fold (list_step b) devices (monitors, denied, logs) = (monitors', denied', logs')"
    and "\<And>n path. (n, path) \<in> set devices \<Longrightarrow> \<exists>name. path = ''/dev/'' @ name \<and> device_number name \<noteq> None"
    and "list_all probe_ok logs" and "mon_device ` set monitors \<subseteq> (\<lambda>probe. ''dev:'' @ fst probe) ` set logs"
  shows "list_all probe_ok logs' \<and> length logs' \<le> length logs + length devices
    \<and> mon_device ` set monitors' \<subseteq> (\<lambda>probe. ''dev:'' @ fst probe) ` set logs'"
  using assms
proof (induction devices arbitrary: monitors denied logs)
  case (Cons device devices)
  obtain n path where device: "device = (n, path)" by (metis surj_pair)
  from Cons.prems(2) [of n path] device obtain name where name: "path = ''/dev/'' @ name" "device_number name \<noteq> None" by auto
  obtain ms d ls where st: "list_step b device (monitors, denied, logs) = (ms, d, ls)" by (metis surj_pair)
  note step = list_step_ok [OF st [unfolded device name(1)] name(2) Cons.prems(3,4)]
  have "list_all probe_ok logs' \<and> length logs' \<le> length ls + length devices
    \<and> mon_device ` set monitors' \<subseteq> (\<lambda>probe. ''dev:'' @ fst probe) ` set logs'"
    by (rule Cons.IH [of ms d ls]) (use Cons.prems(1,2) st step in auto)
  with step show ?case by simp
qed simp

lemma map_filter_in: "x \<in> set (List.map_filter f xs) \<Longrightarrow> \<exists>y. f y = Some x"
  by (auto simp: List.map_filter_def)

lemma list_devices_ok:
  assumes "list_devices b = (r, logs)"
  shows "list_all probe_ok logs \<and> length logs \<le> (case bus_entries b of Some entries \<Rightarrow> length entries | None \<Rightarrow> 0)
    \<and> (case r of Inr monitors \<Rightarrow> mon_device ` set monitors \<subseteq> (\<lambda>probe. ''dev:'' @ fst probe) ` set logs | Inl _ \<Rightarrow> True)"
proof (cases "bus_entries b")
  case (Some entries)
  let ?device = "\<lambda>entry. case entry of None \<Rightarrow> None
    | Some name \<Rightarrow> if from_utf8 name then map_option (\<lambda>n. (n, ''/dev/'' @ name)) (device_number name) else None"
  define devices where devices: "devices = sort_key fst (List.map_filter ?device entries)"
  have len: "length devices \<le> length entries" unfolding devices by (simp add: List.map_filter_def)
  have named: "\<exists>name. path = ''/dev/'' @ name \<and> device_number name \<noteq> None" if "(n, path) \<in> set devices" for n path
  proof -
    from that have "(n, path) \<in> set (List.map_filter ?device entries)" unfolding devices set_sort .
    from map_filter_in [OF this] obtain entry where "?device entry = Some (n, path)" ..
    then obtain name where "map_option (\<lambda>n. (n, ''/dev/'' @ name)) (device_number name) = Some (n, path)"
      by (cases entry) (simp_all split: if_splits)
    then show ?thesis by (cases "device_number name") auto
  qed
  obtain ms d ls where f: "fold (list_step b) devices ([], 0, []) = (ms, d, ls)" by (rule prod_cases3)
  have "list_all probe_ok ls \<and> length ls \<le> length ([] :: (string \<times> event list) list) + length devices
      \<and> mon_device ` set ms \<subseteq> (\<lambda>probe. ''dev:'' @ fst probe) ` set ls"
    by (rule list_fold_ok [OF f named]) auto
  moreover have "list_devices b = (if devices = [] then (Err No_devices, [])
      else (if d \<noteq> 0 \<and> ms = [] then Err (Denied d) else Ok ms, ls))"
    unfolding list_devices_def Some option.case Let_def devices [symmetric] f prod.case ..
  ultimately show ?thesis using len Some assms by (cases "devices = []"; cases "d \<noteq> 0 \<and> ms = []") simp_all
qed (use assms in \<open>auto simp: list_devices_def\<close>)

text \<open>
  C39: whatever a monitor answers, every message the scanner sends is the EDID offset or a request to
  read a control or the capabilities, it reads from no other address, and it ends after a bounded
  number of transfers. This holds for a device that is opened, whether or not it can be identified: an
  error before a device is open sends nothing, a monitor without a valid EDID is sent at most six
  transfers, and one that is identified at most 393222 and then six for each control read, in any
  sequence of controls. It holds for the listing too, which sends at most six transfers to each device
  and only to I2C devices of the directory, and every monitor listed was probed. The identifier of an opened monitor is valid; its
  capability string is empty, or it has at most 65535 bytes and is put together from fragments, each of
  which was received in an intact reply for its own offset, up to an empty one; and every value read
  was received in an intact reply for its own control.
\<close>

theorem scanner_only_reads:
  "(case open_monitor b device of (r, log) \<Rightarrow>
      list_all harmless log \<and> length log \<le> 393222
      \<and> (case r of
           Inl (Cannot_identify d e) \<Rightarrow> length log \<le> 6
         | Inl _ \<Rightarrow> log = []
         | Inr m \<Rightarrow> om_log m = log \<and> is_valid_pnp_id (om_pnp_id m)
             \<and> (om_capabilities m = [] \<or> caps_received [] (om_capabilities m) log)
             \<and> (case read_all codes m of (rs, m') \<Rightarrow>
                  (\<exists>evs. om_log m' = log @ evs \<and> list_all harmless evs \<and> length evs \<le> 6 * length codes
                     \<and> values_received rs evs))))
   \<and> (case list_devices b of (r, logs) \<Rightarrow>
        list_all (\<lambda>(path, log). (\<exists>name. path = ''/dev/'' @ name \<and> device_number name \<noteq> None)
          \<and> list_all harmless log \<and> length log \<le> 6) logs
        \<and> length logs \<le> (case bus_entries b of Some entries \<Rightarrow> length entries | None \<Rightarrow> 0)
        \<and> (case r of Inr monitors \<Rightarrow> mon_device ` set monitors \<subseteq> (\<lambda>probe. ''dev:'' @ fst probe) ` set logs | Inl _ \<Rightarrow> True))"
proof (intro conjI)
  obtain r log where o: "open_monitor b device = (r, log)" by (metis surj_pair)
  show "case open_monitor b device of (r, log) \<Rightarrow>
      list_all harmless log \<and> length log \<le> 393222
      \<and> (case r of
           Inl (Cannot_identify d e) \<Rightarrow> length log \<le> 6
         | Inl _ \<Rightarrow> log = []
         | Inr m \<Rightarrow> om_log m = log \<and> is_valid_pnp_id (om_pnp_id m)
             \<and> (om_capabilities m = [] \<or> caps_received [] (om_capabilities m) log)
             \<and> (case read_all codes m of (rs, m') \<Rightarrow>
                  (\<exists>evs. om_log m' = log @ evs \<and> list_all harmless evs \<and> length evs \<le> 6 * length codes
                     \<and> values_received rs evs)))"
  proof (cases r)
    case (Inl e)
    with open_monitor_log [OF o] o show ?thesis by simp
  next
    case (Inr m)
    obtain rs m' where rs: "read_all codes m = (rs, m')" by (metis surj_pair)
    show ?thesis using open_monitor_log [OF o] read_all_harmless [OF rs] unfolding o Inr by (simp add: rs)
  qed
  obtain r' logs where l: "list_devices b = (r', logs)" by (metis surj_pair)
  show "case list_devices b of (r, logs) \<Rightarrow>
        list_all (\<lambda>(path, log). (\<exists>name. path = ''/dev/'' @ name \<and> device_number name \<noteq> None)
          \<and> list_all harmless log \<and> length log \<le> 6) logs
        \<and> length logs \<le> (case bus_entries b of Some entries \<Rightarrow> length entries | None \<Rightarrow> 0)
        \<and> (case r of Inr monitors \<Rightarrow> mon_device ` set monitors \<subseteq> (\<lambda>probe. ''dev:'' @ fst probe) ` set logs | Inl _ \<Rightarrow> True)"
    using list_devices_ok [OF l] l by (simp add: probe_ok_def [abs_def])
qed

end
