(* ===== verification/Scan_Xml.thy ===== *)
theory Scan_Xml
  imports Scan_Backend Options_Db Caps
begin

text \<open>
  The profile that the scan tool writes, \<^verbatim>\<open>crates/ddccontrol-scanmonitor/src/xml.rs\<close>: the index of
  the database's vocabulary by address, and the generated document, in which a control is active only
  if its meaning is beyond doubt and is otherwise left in a comment. The theorem says what remains of
  the document for a reader that skips comments, whatever texts the monitor and the database hold.
\<close>

section \<open>Model\<close>

record scan =
  sc_pnp_id :: string
  sc_name :: string
  sc_caps :: caps
  sc_readings :: "(u8, reading) btree"

type_synonym options_index = "(u8, option_control list) btree"

definition same_mapping :: "option_control \<Rightarrow> option_control \<Rightarrow> bool" where
  "same_mapping candidate control \<longleftrightarrow>
     oc_id candidate = oc_id control \<and> oc_name candidate = oc_name control \<and> oc_type candidate = oc_type control
     \<and> map (\<lambda>v. (ov_id v, value_value v)) (oc_values candidate) = map (\<lambda>v. (ov_id v, value_value v)) (oc_values control)"

definition index_step :: "option_control \<Rightarrow> options_index \<Rightarrow> options_index checked" where
  "index_step control index =
     and_then (control_address control) (\<lambda>a. case a of
       None \<Rightarrow> Ok index
     | Some address \<Rightarrow>
         (let candidates = (case bt_get index address of Some cs \<Rightarrow> cs | None \<Rightarrow> [])
          in Ok (bt_insert address
                   (if list_ex (\<lambda>c. same_mapping c control) candidates then candidates else candidates @ [control]) index)))"

definition index_options :: "options_db \<Rightarrow> options_index checked" where
  "index_options database = fold_res index_step (options_controls database) []"

definition line_feed :: string where "line_feed = [CHR 0x0A]"
definition tabs :: "nat \<Rightarrow> string" where "tabs n = replicate n (CHR 0x09)"
definition dquote :: string where "dquote = [CHR 0x22]"

definition hex_02 :: "nat \<Rightarrow> string" where
  [rust_std]: "hex_02 n = zero_pad 2 (format_hex_upper n)"

definition xml_char :: "nat \<Rightarrow> nat" where
  "xml_char c = (if is_xml_character c then c else 0xfffd)"

text \<open>Writing a cleaned attribute never fails, so that only the text matters.\<close>

definition attribute :: "string \<Rightarrow> string" where
  "attribute v = fst (push_attribute [] (concat (map utf8_encode (map xml_char (str_chars v)))))"

fun comment_chars :: "bool \<Rightarrow> nat list \<Rightarrow> string" where
  "comment_chars previous_dash [] = []"
| "comment_chars previous_dash (c # cs) =
     (if c = 45 \<and> previous_dash then '' '' else []) @ utf8_encode c @ comment_chars (c = 45) cs"

definition comment_text :: "string \<Rightarrow> string \<Rightarrow> string" where
  "comment_text indent t = indent @ ''<!-- '' @ comment_chars False (map xml_char (str_chars t)) @ '' -->'' @ line_feed"

definition str_join :: "string \<Rightarrow> string list \<Rightarrow> string" where
  [rust_std]: "str_join sep ts = (case ts of [] \<Rightarrow> [] | t # ts \<Rightarrow> t @ concat (map (\<lambda>u. sep @ u) ts))"

definition hex_values :: "u16 list \<Rightarrow> string" where
  "hex_values vs = str_join '' '' (map (\<lambda>v. ''0x'' @ hex_02 (unat v)) vs)"

definition advertised_values :: "caps \<Rightarrow> u8 \<Rightarrow> u16 list option" where
  "advertised_values c code = Option.bind (caps_entry c code) (\<lambda>e. e)"

definition scan_codes :: "scan \<Rightarrow> u8 list" where
  "scan_codes s = sort (remdups (vcp_codes (sc_caps s) @ bt_keys (sc_readings s)))"

definition normalized_caps :: "scan \<Rightarrow> u8 list \<Rightarrow> string" where
  "normalized_caps s codes =
     ''('' @ (case caps_type (sc_caps s) of Lcd \<Rightarrow> ''type(lcd)'' | Crt \<Rightarrow> ''type(crt)'' | Unknown \<Rightarrow> [])
     @ ''vcp('' @ str_join '' '' (map (\<lambda>code. hex_02 (unat code)
          @ (case advertised_values (sc_caps s) code of
               Some vs \<Rightarrow> ''('' @ str_join '' '' (map (\<lambda>v. hex_02 (unat v)) vs) @ '')''
             | None \<Rightarrow> [])) codes) @ ''))''"

definition matching_values :: "option_control \<Rightarrow> u16 list option \<Rightarrow> (string \<times> u16) list" where
  "matching_values control advertised =
     List.map_filter (\<lambda>v. case value_value v of
         None \<Rightarrow> None
       | Some number \<Rightarrow>
           if (case advertised of Some vs \<Rightarrow> number \<in> set vs | None \<Rightarrow> False) then Some (ov_id v, number) else None)
       (oc_values control)"

definition ambiguous_values :: "(string \<times> u16) list \<Rightarrow> bool" where
  "ambiguous_values vs \<longleftrightarrow>
     length (remdups (map fst vs)) \<noteq> length vs \<or> length (remdups (map snd vs)) \<noteq> length vs"

definition control_xml :: "option_control \<Rightarrow> u8 \<Rightarrow> (string \<times> u16) list \<Rightarrow> string" where
  "control_xml control code vs =
     tabs 2 @ ''<control id='' @ dquote @ attribute (oc_id control) @ dquote @ '' address='' @ dquote @ ''0x'' @ hex_02 (unat code) @ dquote
     @ (if vs = [] then ''/>'' @ line_feed
        else ''>'' @ line_feed
          @ concat (map (\<lambda>(ident, v). tabs 3 @ ''<value id='' @ dquote @ attribute ident @ dquote @ '' value='' @ dquote @ ''0x''
               @ hex_02 (unat v) @ dquote @ ''/>'' @ line_feed) vs)
          @ tabs 2 @ ''</control>'' @ line_feed)"

definition enum_notes :: "option_control \<Rightarrow> u16 list option \<Rightarrow> (string \<times> u16) list \<Rightarrow> string" where
  "enum_notes control advertised mapped =
     (case advertised of
        None \<Rightarrow> []
      | Some vs \<Rightarrow>
          (let unknown = filter (\<lambda>number. \<not> list_ex (\<lambda>(_, m). m = number) mapped) vs
           in if unknown = [] then []
              else comment_text (tabs 2) (oc_id control @ '': advertised values without a database mapping: '' @ hex_values unknown
                     @ ''.'' @ line_feed @ ''Do not infer their meanings from the numbers alone.'')))
     @ (if mapped = [] \<and> oc_values control \<noteq> []
        then comment_text (tabs 2) (oc_id control @ '': available value IDs: '' @ str_join '', '' (map ov_id (oc_values control))
               @ ''.'' @ line_feed @ ''Add <value id='' @ dquote @ ''VERIFIED_ID'' @ dquote @ '' value='' @ dquote @ ''VERIFIED_NUMBER''
               @ dquote @ ''/> inside'' @ line_feed @ ''the candidate control after confirming the mapping.'')
        else [])"

definition observation :: "scan \<Rightarrow> u8 \<Rightarrow> string" where
  "observation s code =
     ''VCP 0x'' @ hex_02 (unat code)
     @ (case bt_get (sc_readings s) code of
          Some r \<Rightarrow> '': current='' @ format_dec (unat (rd_current r)) @ '', maximum='' @ format_dec (unat (rd_maximum r))
        | None \<Rightarrow> if code \<ge> 0xe0 then '': advertised; vendor address not probed'' else '': advertised, but no successful read'')
     @ (case advertised_values (sc_caps s) code of
          Some vs \<Rightarrow> ''; advertised values: '' @ hex_values vs
        | None \<Rightarrow> [])"

definition reasons :: "scan \<Rightarrow> options_index \<Rightarrow> u8 \<Rightarrow> option_control list \<Rightarrow> option_control \<Rightarrow> string list" where
  "reasons s options code candidates candidate =
     (let reading = bt_get (sc_readings s) code;
          values = matching_values candidate (advertised_values (sc_caps s) code)
      in (if reading = None then [''no successful read''] else [])
       @ (if length candidates > 1 then [''several option IDs share this address; choose the verified one''] else [])
       @ (if list_ex (\<lambda>(other_code, controls). other_code \<noteq> code \<and> list_ex (\<lambda>c. oc_id c = oc_id candidate) controls) options
          then [''this option ID has several possible addresses; choose the verified one''] else [])
       @ (if code \<ge> 0xe0 then [''manufacturer-specific address; verify this mapping on the monitor''] else [])
       @ (if oc_type candidate = Type_Command then [''commands require manual verification before enabling''] else [])
       @ (if oc_type candidate = Type_Value
             \<and> (case reading of Some r \<Rightarrow> rd_maximum r = 0 \<or> rd_current r > rd_maximum r | None \<Rightarrow> False)
          then [''the reported range does not establish an adjustable scalar''] else [])
       @ (if oc_type candidate = Type_List
          then if values = [] then [''no confirmed enum mappings; add verified value IDs and numbers'']
               else if ambiguous_values values then [''enum IDs or numbers have more than one possible meaning''] else []
          else []))"

definition candidate_xml :: "scan \<Rightarrow> options_index \<Rightarrow> u8 \<Rightarrow> option_control list \<Rightarrow> option_control \<Rightarrow> string" where
  "candidate_xml s options code candidates candidate =
     (let advertised = advertised_values (sc_caps s) code;
          values = matching_values candidate advertised;
          why = reasons s options code candidates candidate;
          control = control_xml candidate code values
      in (if why = [] then comment_text (tabs 2) (oc_name candidate) @ control
          else comment_text (tabs 2) (''Candidate '' @ oc_id candidate @ '' ('' @ oc_name candidate @ ''): '' @ str_join ''; '' why @ ''.'')
            @ comment_text (tabs 2) (line_feed @ control @ tabs 2))
       @ (if oc_type candidate = Type_List then enum_notes candidate advertised values else []))"

definition code_xml :: "scan \<Rightarrow> options_index \<Rightarrow> u8 \<Rightarrow> string" where
  "code_xml s options code =
     comment_text (tabs 2) (observation s code)
     @ (case bt_get options code of
          None \<Rightarrow> comment_text (tabs 2) (''Unknown control: options.xml has no address mapping.'' @ line_feed
                     @ ''Identify its meaning and an existing option ID before adding a control.'')
        | Some candidates \<Rightarrow> concat (map (candidate_xml s options code candidates) candidates))"

definition preamble :: "string \<Rightarrow> string" where
  "preamble pnp_id =
     ''Generated by ddccontrol-scanmonitor for '' @ pnp_id @ ''.'' @ line_feed
     @ ''Save as '' @ pnp_id @ ''.xml in the database's monitor directory.'' @ line_feed
     @ ''The scan does not set control values; setting values has not been tested.'' @ line_feed
     @ ''Active controls have readable, unambiguous database mappings.'' @ line_feed
     @ ''Review and test them on the monitor before submitting this file.'' @ line_feed
     @ ''To enable a candidate, verify its meaning and values, then remove'' @ line_feed
     @ ''its surrounding XML comment. Keep only one control per address.'' @ line_feed
     @ ''Change init to samsung only if the monitor requires Samsung initialization.''"

definition generate :: "scan \<Rightarrow> options_index \<Rightarrow> string" where
  "generate s options =
     (let codes = scan_codes s
      in ''<?xml version='' @ dquote @ ''1.0'' @ dquote @ '' encoding='' @ dquote @ ''UTF-8'' @ dquote @ ''?>'' @ line_feed
         @ comment_text [] (preamble (sc_pnp_id s))
         @ ''<monitor name='' @ dquote @ attribute (if str_trim (sc_name s) = [] then sc_pnp_id s else sc_name s) @ dquote
         @ '' init='' @ dquote @ ''standard'' @ dquote @ ''>'' @ line_feed
         @ (if codes = [] then [] else tabs 1 @ ''<caps add='' @ dquote @ attribute (normalized_caps s codes) @ dquote @ ''/>'' @ line_feed)
         @ tabs 1 @ ''<controls>'' @ line_feed
         @ concat (map (code_xml s options) codes)
         @ tabs 1 @ ''</controls>'' @ line_feed @ ''</monitor>'' @ line_feed)"

section \<open>What a reader sees\<close>

text \<open>Removing the comments of a document, and then the tabs and line feeds between elements.\<close>

function strip_comments :: "string \<Rightarrow> string" where
  "strip_comments [] = []"
| "strip_comments (c # cs) =
     (if starts_with ''<!--'' (c # cs)
      then (case find_window ''-->'' (drop 4 (c # cs)) of
              Some i \<Rightarrow> strip_comments (drop (i + 3) (drop 4 (c # cs)))
            | None \<Rightarrow> [])
      else c # strip_comments cs)"
  by pat_completeness auto
termination
  by (relation "measure length") (auto simp: starts_with_iff)

declare strip_comments.simps(2) [simp del]

definition bare :: "string \<Rightarrow> string" where
  "bare t = filter (\<lambda>c. c \<noteq> CHR 0x09 \<and> c \<noteq> CHR 0x0A) t"

definition squeeze :: "string \<Rightarrow> string" where
  "squeeze t = bare (strip_comments t)"

definition visible :: "string \<Rightarrow> string \<Rightarrow> bool" where
  "visible t v \<longleftrightarrow> (\<forall>rest. squeeze (t @ rest) = v @ squeeze rest)"

lemma visible_append: "visible t v \<Longrightarrow> visible t' v' \<Longrightarrow> visible (t @ t') (v @ v')"
  by (simp add: visible_def)

lemma visible_Nil: "visible [] []"
  by (simp add: visible_def)

lemma visible_concat: "(\<And>x. x \<in> set xs \<Longrightarrow> visible (f x) (g x)) \<Longrightarrow> visible (concat (map f xs)) (concat (map g xs))"
  by (induction xs) (auto intro: visible_append visible_Nil)

text \<open>Text that opens no comment, whatever follows it.\<close>

fun opens_none :: "string \<Rightarrow> bool" where
  "opens_none [] = True"
| "opens_none (c # cs) \<longleftrightarrow> (c = CHR ''<'' \<longrightarrow> cs \<noteq> [] \<and> hd cs \<noteq> CHR ''!'') \<and> opens_none cs"

lemma visible_plain: "opens_none t \<Longrightarrow> visible t (bare t)"
proof (induction t)
  case (Cons c t)
  have "\<not> starts_with ''<!--'' (c # t @ rest)" for rest
    using Cons.prems by (cases t) (auto simp: starts_with_iff)
  with Cons show ?case by (auto simp: visible_def squeeze_def bare_def strip_comments.simps(2))
qed (simp add: visible_Nil bare_def)

lemma opens_none_append [simp]: "opens_none a \<Longrightarrow> opens_none b \<Longrightarrow> opens_none (a @ b)"
  by (induction a) (auto simp: hd_append)

lemma opens_none_concat: "(\<And>x. x \<in> set xs \<Longrightarrow> opens_none (f x)) \<Longrightarrow> opens_none (concat (map f xs))"
  by (induction xs) auto

lemma opens_none_safe: "CHR ''<'' \<notin> set t \<Longrightarrow> opens_none t"
  by (induction t) auto

lemma xml_char_ok: "is_xml_character (xml_char c)"
  by (simp add: xml_char_def is_xml_character_def)

lemma attribute_safe: "list_all safe_char (attribute v)"
proof -
  let ?cs = "map xml_char (str_chars v)"
  have xml: "list_all is_xml_character ?cs" by (simp add: list_all_iff xml_char_ok)
  then have "list_all is_scalar ?cs" using xml_scalar by (auto simp: list_all_iff)
  then have eq: "attribute v = fst (push_chars ?cs [])" by (simp add: attribute_def push_attribute_def del: map_map)
  obtain t r where p: "push_chars ?cs [] = (t, r)" by fastforce
  show ?thesis using push_chars_result [of ?cs "[]"] xml by (cases r) (auto simp: eq p)
qed

lemma opens_none_attribute [simp]: "opens_none (attribute v)"
  using attribute_safe [of v] by (intro opens_none_safe) (auto simp: list_all_iff safe_char_def)

lemma hex_02_chars: "c \<in> set (hex_02 n) \<Longrightarrow> is_ascii_hexdigit c"
proof -
  have "d < 16" if "d \<in> set (nat_digits 16 n)" for d using nat_digits_less [of 16] that by auto
  moreover have "is_ascii_hexdigit CHR ''0''" by code_simp
  ultimately show "c \<in> set (hex_02 n) \<Longrightarrow> is_ascii_hexdigit c"
    by (auto simp: hex_02_def zero_pad_def format_hex_upper_def digit_upper_hex)
qed

lemma opens_none_hex [simp]: "opens_none (hex_02 n)"
  by (intro opens_none_safe) (auto dest!: hex_02_chars simp: is_ascii_hexdigit_def is_ascii_digit_def byte_val_def)

lemma opens_none_layout [simp]: "opens_none (tabs n)" "opens_none line_feed" "opens_none dquote"
  by (auto simp: tabs_def line_feed_def dquote_def intro: opens_none_safe)

section \<open>Comments\<close>

fun dashes_apart :: "string \<Rightarrow> bool" where
  "dashes_apart (a # b # t) \<longleftrightarrow> \<not> (a = CHR ''-'' \<and> b = CHR ''-'') \<and> dashes_apart (b # t)"
| "dashes_apart _ = True"

lemma dashes_apart_Cons: "dashes_apart (a # t) \<longleftrightarrow> (a = CHR ''-'' \<longrightarrow> t = [] \<or> hd t \<noteq> CHR ''-'') \<and> dashes_apart t"
  by (cases t) auto

lemma dashes_apart_free: "CHR ''-'' \<notin> set p \<Longrightarrow> dashes_apart (p @ t) \<longleftrightarrow> dashes_apart t"
  by (induction p) (auto simp: dashes_apart_Cons)

lemma encode_dash: "is_scalar c \<Longrightarrow> c \<noteq> 45 \<Longrightarrow> CHR ''-'' \<notin> set (utf8_encode c)"
proof
  assume c: "is_scalar c" "c \<noteq> 45" "CHR ''-'' \<in> set (utf8_encode c)"
  with utf8_bytes [of "CHR ''-''" c] have "c < 128" "CHR ''-'' = char_of c" by (auto simp: byte_val_def)
  then have "byte_val CHR ''-'' = c" by (simp add: byte_val_char_of)
  then show False using c(2) by (simp add: byte_val_def)
qed

lemma comment_apart:
  assumes "list_all is_scalar cs"
  shows "dashes_apart (comment_chars p cs) \<and> (p \<longrightarrow> comment_chars p cs = [] \<or> hd (comment_chars p cs) \<noteq> CHR ''-'')"
  using assms
proof (induction cs arbitrary: p)
  case (Cons c cs)
  have ih: "dashes_apart (comment_chars q cs)" "q \<Longrightarrow> comment_chars q cs = [] \<or> hd (comment_chars q cs) \<noteq> CHR ''-''" for q
    using Cons by auto
  show ?case
  proof (cases "c = 45")
    case True
    have "utf8_encode 45 = ''-''" by code_simp
    with True ih [of True] show ?thesis by (auto simp: dashes_apart_Cons)
  next
    case False
    then have free: "CHR ''-'' \<notin> set (utf8_encode c)" using Cons.prems encode_dash by simp
    moreover have "hd (utf8_encode c) \<noteq> CHR ''-''" using free hd_in_set [OF utf8_encode_not_Nil, of c] by metis
    ultimately show ?thesis using False ih [of False] by (auto simp: dashes_apart_free hd_append)
  qed
qed simp

lemma find_comment_end:
  assumes "dashes_apart b" shows "find_window ''-->'' (b @ '' -->'' @ u) = Some (length b + 1)"
  using assms
proof (induction b)
  case Nil
  then show ?case by (simp add: starts_with_iff)
next
  case (Cons c b)
  have "\<not> starts_with ''-->'' (c # b @ '' -->'' @ u)"
    using Cons.prems by (cases b) (auto simp: starts_with_iff)
  with Cons show ?case by (simp add: dashes_apart_Cons)
qed

lemma bare_layout [simp]: "bare (tabs n) = []" "bare line_feed = []"
  by (simp_all add: bare_def tabs_def line_feed_def)

lemma visible_comment: "visible (comment_text (tabs n) t) []"
proof -
  let ?b = "comment_chars False (map xml_char (str_chars t))"
  have "list_all is_scalar (map xml_char (str_chars t))" using xml_scalar xml_char_ok by (auto simp: list_all_iff)
  then have b: "dashes_apart ?b" using comment_apart by blast
  have "strip_comments (''<!-- '' @ ?b @ '' -->'' @ u) = strip_comments u" for u
  proof -
    have "dashes_apart ('' '' @ ?b)" using b by (simp add: dashes_apart_Cons)
    then have w: "find_window ''-->'' (CHR '' '' # ?b @ '' -->'' @ u) = Some (length ?b + 2)"
      using find_comment_end [of "'' '' @ ?b" u] by simp
    have d: "drop (5 + length ?b) (CHR '' '' # ?b @ '' -->'' @ u) = u"
      by (simp add: numeral_eq_Suc)
    show ?thesis using w d by (simp add: strip_comments.simps(2) starts_with_iff)
  qed
  then have "visible (''<!-- '' @ ?b @ '' -->'') []" by (simp add: visible_def squeeze_def)
  from visible_append [OF visible_plain [OF opens_none_layout(1), of n] visible_append [OF this visible_plain [OF opens_none_layout(2)]]]
  show ?thesis by (simp add: comment_text_def)
qed

lemma visible_comment_top: "visible (comment_text [] t) []"
  using visible_comment [of 0] by (simp add: tabs_def)

lemma opens_none_control [simp]: "opens_none (control_xml c code vs)"
  unfolding control_xml_def by (auto intro!: opens_none_append opens_none_concat)

lemma visible_notes: "visible (enum_notes c advertised vs) []"
  unfolding enum_notes_def
  by (auto simp: Let_def visible_Nil intro!: visible_append [where v = "[]" and v' = "[]", simplified] visible_comment split: option.splits)

section \<open>Enabled controls\<close>

text \<open>The only candidate for a readable address outside the vendor's range, with no doubt about what it does.\<close>

definition enabled :: "scan \<Rightarrow> options_index \<Rightarrow> u8 \<Rightarrow> option_control \<Rightarrow> bool" where
  "enabled s options code c \<longleftrightarrow>
     bt_get options code = Some [c] \<and> code < 0xe0
     \<and> (\<forall>other cs. bt_get options other = Some cs \<longrightarrow> other \<noteq> code \<longrightarrow> oc_id c \<notin> oc_id ` set cs)
     \<and> (\<exists>r. bt_get (sc_readings s) code = Some r \<and> (oc_type c = Type_Value \<longrightarrow> rd_maximum r \<noteq> 0 \<and> rd_current r \<le> rd_maximum r))
     \<and> oc_type c \<noteq> Type_Command
     \<and> (oc_type c = Type_List \<longrightarrow>
          (let vs = matching_values c (advertised_values (sc_caps s) code)
           in vs \<noteq> [] \<and> distinct (map fst vs) \<and> distinct (map snd vs)))"

definition candidates_at :: "options_index \<Rightarrow> u8 \<Rightarrow> option_control list" where
  "candidates_at options code = (case bt_get options code of Some cs \<Rightarrow> cs | None \<Rightarrow> [])"

definition enabled_controls :: "scan \<Rightarrow> options_index \<Rightarrow> (u8 \<times> option_control) list" where
  "enabled_controls s options =
     concat (map (\<lambda>code. map (\<lambda>c. (code, c)) (filter (enabled s options code) (candidates_at options code))) (scan_codes s))"

lemma ambiguous_iff: "ambiguous_values vs \<longleftrightarrow> \<not> (distinct (map fst vs) \<and> distinct (map snd vs))"
  by (simp add: ambiguous_values_def) (metis card_distinct distinct_card length_map length_remdups_card_conv)

lemma reasons_none:
  assumes "bt_invar options" and "bt_get options code = Some candidates" and "c \<in> set candidates"
  shows "reasons s options code candidates c = [] \<longleftrightarrow> enabled s options code c"
proof -
  have one: "\<not> length candidates > 1 \<longleftrightarrow> candidates = [c]"
    using assms(3) by (cases candidates) (auto simp: length_Suc_conv)
  have others: "list_ex (\<lambda>(other, cs). other \<noteq> code \<and> list_ex (\<lambda>d. oc_id d = oc_id c) cs) options
    \<longleftrightarrow> (\<exists>other cs. bt_get options other = Some cs \<and> other \<noteq> code \<and> oc_id c \<in> oc_id ` set cs)"
    unfolding bt.get_entry [OF assms(1)] by (induction options) (auto simp: list_ex_iff image_iff eq_commute [of "oc_id c"])
  show ?thesis using assms(2) one others
    by (auto simp: reasons_def enabled_def Let_def ambiguous_iff linorder_not_less linorder_not_le split: option.splits if_splits)
qed

text \<open>The index holds controls of the database at their own addresses.\<close>

definition index_ok :: "option_control set \<Rightarrow> options_index \<Rightarrow> bool" where
  "index_ok controls options \<longleftrightarrow>
     bt_invar options
     \<and> (\<forall>code cs. bt_get options code = Some cs \<longrightarrow> (\<forall>c\<in>set cs. c \<in> controls \<and> control_address c = Ok (Some code)))"

lemma index_step_ok:
  assumes "index_ok controls index" and "control \<in> controls" and "index_step control index = Inr index'"
  shows "index_ok controls index'"
proof -
  obtain a where a: "control_address control = Inr a" using assms(3) by (auto simp: index_step_def)
  show ?thesis
  proof (cases a)
    case None
    with a assms show ?thesis by (simp add: index_step_def)
  next
    case (Some address)
    let ?old = "case bt_get index address of Some cs \<Rightarrow> cs | None \<Rightarrow> []"
    have old: "c \<in> controls \<and> control_address c = Ok (Some address)" if "c \<in> set ?old" for c
      using assms(1) that by (cases "bt_get index address") (auto simp: index_ok_def)
    define new where "new = (if list_ex (\<lambda>c. same_mapping c control) ?old then ?old else ?old @ [control])"
    have new: "index' = bt_insert address new index" "set new \<subseteq> insert control (set ?old)"
      using assms(3) unfolding new_def by (simp_all add: index_step_def a Some Let_def subset_insertI)
    then have "c \<in> controls \<and> control_address c = Ok (Some address)" if "c \<in> set new" for c
      using that old a Some assms(2) by auto
    with assms(1) new(1) show ?thesis by (auto simp: index_ok_def bt_invar_insert bt_get_insert split: if_splits)
  qed
qed

interpretation index_loop: fallible_loop index_step "index_ok controls" "\<lambda>c. c \<in> controls" for controls
  by unfold_locales (rule index_step_ok)

lemma index_options_ok: "index_options database = Inr options \<Longrightarrow> index_ok (set (options_controls database)) options"
  unfolding index_options_def
  by (rule index_loop.loop_inv) (auto simp: list_all_iff index_ok_def bt_invar_def bt_get_def)

lemma visible_candidate:
  assumes "bt_invar options" and "bt_get options code = Some candidates" and "c \<in> set candidates"
  shows "visible (candidate_xml s options code candidates c)
    (if enabled s options code c then bare (control_xml c code (matching_values c (advertised_values (sc_caps s) code))) else [])"
proof -
  have remarks: "visible (if oc_type c = Type_List then enum_notes c a vs else []) []" for a vs
    by (simp add: visible_notes visible_Nil)
  show ?thesis
  proof (cases "enabled s options code c")
    case True
    with reasons_none [OF assms] have "reasons s options code candidates c = []" by simp
    with True visible_append [OF visible_comment visible_append [OF visible_plain [OF opens_none_control] remarks]] show ?thesis
      by (simp add: candidate_xml_def Let_def)
  next
    case False
    with reasons_none [OF assms] have "reasons s options code candidates c \<noteq> []" by simp
    with False visible_append [OF visible_comment visible_append [OF visible_comment remarks]] show ?thesis
      by (simp add: candidate_xml_def Let_def)
  qed
qed

lemma visible_code:
  assumes "bt_invar options"
  shows "visible (code_xml s options code)
    (concat (map (\<lambda>c. bare (control_xml c code (matching_values c (advertised_values (sc_caps s) code))))
       (filter (enabled s options code) (candidates_at options code))))"
proof (cases "bt_get options code")
  case None
  with visible_append [OF visible_comment visible_comment] show ?thesis by (simp add: code_xml_def candidates_at_def)
next
  case (Some candidates)
  let ?v = "\<lambda>c. bare (control_xml c code (matching_values c (advertised_values (sc_caps s) code)))"
  have "visible (concat (map (candidate_xml s options code candidates) candidates))
      (concat (map (\<lambda>c. if enabled s options code c then ?v c else []) candidates))"
    using visible_candidate [OF assms Some] by (rule visible_concat)
  moreover have "concat (map (\<lambda>c. if P c then f c else []) xs) = concat (map f (filter P xs))" for P and f :: "option_control \<Rightarrow> string" and xs
    by (induction xs) auto
  ultimately show ?thesis using visible_append [OF visible_comment] Some by (fastforce simp: code_xml_def candidates_at_def)
qed

lemma distinct_enabled:
  "distinct (map fst (enabled_controls s options)) \<and> distinct (map (oc_id \<circ> snd) (enabled_controls s options))"
proof -
  define at where "at = (\<lambda>code. map (\<lambda>c. (code, c)) (filter (enabled s options code) (candidates_at options code)))"
  have short: "at code = [] \<or> (\<exists>c. at code = [(code, c)] \<and> enabled s options code c)" for code
  proof (cases "filter (enabled s options code) (candidates_at options code)")
    case (Cons c cs)
    then have "c \<in> set (filter (enabled s options code) (candidates_at options code))" by simp
    then have c: "enabled s options code c" by simp
    then have "candidates_at options code = [c]" by (simp add: enabled_def candidates_at_def)
    with c show ?thesis by (simp add: at_def)
  qed (simp add: at_def)
  have at: "(other, d) \<in> set (concat (map at codes)) \<Longrightarrow> other \<in> set codes \<and> enabled s options other d" for other d codes
    by (auto simp: at_def)
  have "distinct (map fst (concat (map at codes))) \<and> distinct (map (oc_id \<circ> snd) (concat (map at codes)))"
    if "distinct codes" for codes
    using that
  proof (induction codes)
    case (Cons code codes)
    define later where "later = concat (map at codes)"
    have ih: "distinct (map fst later)" "distinct (map (oc_id \<circ> snd) later)" using Cons.IH Cons.prems unfolding later_def by (simp_all only: distinct.simps)
    from short [of code] show ?case
    proof
      assume "\<exists>c. at code = [(code, c)] \<and> enabled s options code c"
      then obtain c where c: "at code = [(code, c)]" "enabled s options code c" by blast
      have "oc_id d \<noteq> oc_id c \<and> other \<noteq> code" if "(other, d) \<in> set later" for other d
      proof -
        have d: "enabled s options other d" "other \<noteq> code" using at [of other d codes] that Cons.prems by (auto simp: later_def)
        then have "bt_get options other = Some [d]" by (simp add: enabled_def)
        then have "oc_id c \<notin> oc_id ` set [d]" using c(2) d(2) unfolding enabled_def by blast
        then show ?thesis using d(2) by simp
      qed
      then have "oc_id c \<notin> set (map (oc_id \<circ> snd) later) \<and> code \<notin> set (map fst later)" by force
      with ih c(1) show ?thesis by (simp add: later_def [symmetric] comp_def)
    qed (use ih in \<open>simp add: later_def [symmetric] comp_def\<close>)
  qed simp
  from this [of "scan_codes s"] show ?thesis by (simp add: enabled_controls_def scan_codes_def at_def)
qed

lemma enabled_controls_ok:
  assumes "index_ok controls options"
  shows "list_all (\<lambda>(code, c). c \<in> controls \<and> control_address c = Ok (Some code) \<and> bt_get (sc_readings s) code \<noteq> None)
    (enabled_controls s options)"
proof -
  have "c \<in> controls \<and> control_address c = Ok (Some code) \<and> bt_get (sc_readings s) code \<noteq> None" if "enabled s options code c" for code c
    using that assms by (auto simp: enabled_def index_ok_def)
  then show ?thesis by (auto simp: enabled_controls_def list_all_iff)
qed

lemma bare_append: "bare (a @ b) = bare a @ bare b"
  by (simp add: bare_def)

lemma visible_all:
  assumes "bt_invar options"
  shows "visible (concat (map (code_xml s options) (scan_codes s)))
    (concat (map (\<lambda>(code, c). bare (control_xml c code (matching_values c (advertised_values (sc_caps s) code)))) (enabled_controls s options)))"
proof -
  have "concat (map (\<lambda>(code, c). f code c) (concat (map (\<lambda>code. map (\<lambda>c. (code, c)) (g code)) codes)))
      = concat (map (\<lambda>code. concat (map (f code) (g code))) codes)"
    for f :: "u8 \<Rightarrow> option_control \<Rightarrow> string" and g codes
    by (induction codes) (simp_all add: comp_def)
  then show ?thesis using visible_concat [of "scan_codes s" "code_xml s options", OF visible_code [OF assms]]
    by (simp add: enabled_controls_def)
qed

text \<open>
  C40: what is active in a generated profile. A reader that skips comments sees the XML declaration,
  one monitor element with the name, the capabilities and the list of exactly the enabled controls,
  and nothing else: no text of the monitor or the database ends a comment or opens an element.
  Each of these is a control of the database at its own address, the only one for that address, and
  readable; no two have the same address or the same identifier.
\<close>

theorem generated_profile_safe:
  assumes "index_options database = Ok options"
  shows "squeeze (generate s options) =
      bare (''<?xml version='' @ dquote @ ''1.0'' @ dquote @ '' encoding='' @ dquote @ ''UTF-8'' @ dquote @ ''?>''
        @ ''<monitor name='' @ dquote @ attribute (if str_trim (sc_name s) = [] then sc_pnp_id s else sc_name s) @ dquote
        @ '' init='' @ dquote @ ''standard'' @ dquote @ ''>''
        @ (if scan_codes s = [] then [] else ''<caps add='' @ dquote @ attribute (normalized_caps s (scan_codes s)) @ dquote @ ''/>'')
        @ ''<controls>'')
      @ concat (map (\<lambda>(code, c). bare (control_xml c code (matching_values c (advertised_values (sc_caps s) code))))
          (enabled_controls s options))
      @ ''</controls></monitor>''
    \<and> list_all (\<lambda>(code, c). c \<in> set (options_controls database) \<and> control_address c = Ok (Some code)
         \<and> bt_get (sc_readings s) code \<noteq> None) (enabled_controls s options)
    \<and> distinct (map fst (enabled_controls s options)) \<and> distinct (map (oc_id \<circ> snd) (enabled_controls s options))"
proof -
  have ok: "index_ok (set (options_controls database)) options" by (rule index_options_ok [OF assms])
  then have inv: "bt_invar options" by (simp add: index_ok_def)
  let ?head = "''<?xml version='' @ dquote @ ''1.0'' @ dquote @ '' encoding='' @ dquote @ ''UTF-8'' @ dquote @ ''?>'' @ line_feed"
  let ?open = "''<monitor name='' @ dquote @ attribute (if str_trim (sc_name s) = [] then sc_pnp_id s else sc_name s) @ dquote
      @ '' init='' @ dquote @ ''standard'' @ dquote @ ''>'' @ line_feed
      @ (if scan_codes s = [] then [] else tabs 1 @ ''<caps add='' @ dquote @ attribute (normalized_caps s (scan_codes s)) @ dquote @ ''/>'' @ line_feed)
      @ tabs 1 @ ''<controls>'' @ line_feed"
  let ?close = "tabs 1 @ ''</controls>'' @ line_feed @ ''</monitor>'' @ line_feed"
  have plain: "opens_none ?head" "opens_none ?open" "opens_none ?close" by (auto intro!: opens_none_append)
  note v = visible_append [OF visible_plain [OF plain(1)] visible_append [OF visible_comment_top visible_append [OF visible_plain [OF plain(2)]
    visible_append [OF visible_all [OF inv] visible_plain [OF plain(3)]]]]]
  have "generate s options = ?head @ comment_text [] (preamble (sc_pnp_id s)) @ ?open
      @ concat (map (code_xml s options) (scan_codes s)) @ ?close" by (simp add: generate_def Let_def)
  then have "squeeze (generate s options) = bare ?head @ [] @ bare ?open
      @ concat (map (\<lambda>(code, c). bare (control_xml c code (matching_values c (advertised_values (sc_caps s) code)))) (enabled_controls s options))
      @ bare ?close"
    using v [unfolded visible_def, rule_format, of "preamble (sc_pnp_id s)" s "[]"] by (simp add: squeeze_def bare_def)
  then show ?thesis using distinct_enabled enabled_controls_ok [OF ok] by (simp add: bare_def line_feed_def tabs_def)
qed

lemma attribute_plain:
  assumes "list_all (\<lambda>c. 32 \<le> byte_val c \<and> byte_val c < 128 \<and> plain c) v"
  shows "attribute v = v"
proof -
  have encode: "utf8_encode (byte_val c) = [c]" if "byte_val c < 128" for c
    using that by (simp add: utf8_encode_def byte_val_def)
  have ascii: "list_all (\<lambda>c. byte_val c < 128) v" using assms by (simp add: list_all_iff)
  have "map xml_char (map byte_val v) = map byte_val v" using assms by (auto simp: list_all_iff xml_char_def is_xml_character_def)
  moreover have "concat (map utf8_encode (map byte_val v)) = v" using ascii by (induction v) (simp_all add: encode)
  moreover have "escape_char (byte_val c) = Ok [c]" if "32 \<le> byte_val c \<and> byte_val c < 128 \<and> plain c" for c
  proof -
    have "byte_val c \<notin> {38, 60, 62, 34, 39}" using that by (auto simp: plain_def simp flip: byte_val_inject) (simp_all add: byte_val_def)
    then show ?thesis using that encode [of c] by (simp add: escape_char_def is_xml_character_def)
  qed
  then have "push_chars (map byte_val v) out = (out @ v, Ok ())" for out using assms by (induction v arbitrary: out) simp_all
  ultimately show ?thesis using ascii by (simp add: attribute_def push_attribute_def str_chars_ascii del: map_map)
qed

text \<open>A brightness control that was read, and a name that tries to leave its comment.\<close>

definition sample_options :: options_db where
  "sample_options = \<lparr>od_groups = [\<lparr>og_name = ''G'', og_subgroups = [\<lparr>os_name = ''S'', os_pattern = None,
     os_controls = [\<lparr>oc_unavailable = False, oc_id = ''brightness'', oc_name = ''--><b/>'', oc_type = Type_Value,
       oc_refresh = Refresh_None, oc_raw_address = Some ''0x10'', oc_values = []\<rparr>]\<rparr>]\<rparr>]\<rparr>"

definition sample_scan :: scan where
  "sample_scan = \<lparr>sc_pnp_id = ''DEL1234'', sc_name = ''M'', sc_caps = default_caps,
     sc_readings = [(0x10, \<lparr>rd_current = 50, rd_maximum = 100\<rparr>)]\<rparr>"

theorem generated_profile_safe_witness:
  "\<exists>options. index_options sample_options = Ok options
     \<and> squeeze (generate sample_scan options) =
         bare (''<?xml version='' @ dquote @ ''1.0'' @ dquote @ '' encoding='' @ dquote @ ''UTF-8'' @ dquote @ ''?>''
           @ ''<monitor name='' @ dquote @ ''M'' @ dquote @ '' init='' @ dquote @ ''standard'' @ dquote @ ''>''
           @ ''<caps add='' @ dquote @ ''(vcp(10))'' @ dquote @ ''/>'' @ ''<controls>'')
         @ bare (''<control id='' @ dquote @ ''brightness'' @ dquote @ '' address='' @ dquote @ ''0x10'' @ dquote @ ''/>'')
         @ ''</controls></monitor>''"
proof -
  let ?c = "hd (options_controls sample_options)"
  have i: "index_options sample_options = Ok [(0x10, [?c])]" by code_simp
  have codes: "scan_codes sample_scan = [0x10]" by code_simp
  have "enabled sample_scan [(0x10, [?c])] 0x10 ?c"
    by (auto simp: enabled_def bt_get_def sample_scan_def sample_options_def options_controls_def split: if_splits)
  then have en: "enabled_controls sample_scan [(0x10, [?c])] = [(0x10, ?c)]"
    by (simp add: enabled_controls_def codes candidates_at_def bt_get_def)
  have texts: "attribute ''M'' = ''M''" "attribute ''brightness'' = ''brightness''" "attribute ''(vcp(10))'' = ''(vcp(10))''"
    by (rule attribute_plain, code_simp)+
  have hex: "hex_02 (unat (0x10 :: u8)) = ''10''" by code_simp
  have M: "char_of (77 :: nat) = CHR ''M''" by code_simp
  have facts: "str_trim (sc_name sample_scan) = ''M''" "sc_name sample_scan = ''M''" "normalized_caps sample_scan [0x10] = ''(vcp(10))''"
    "matching_values ?c (advertised_values (sc_caps sample_scan) 0x10) = []" "oc_id ?c = ''brightness''"
    using hex M
    by (simp_all add: sample_scan_def sample_options_def str_trim_def str_chars_ascii byte_val_def is_whitespace_def utf8_encode_def
        normalized_caps_def default_caps_def advertised_values_def caps_entry_def bt_get_def str_join_def matching_values_def options_controls_def)
  note facts hex
  moreover from facts hex texts have
    "bare (control_xml ?c 0x10 (matching_values ?c (advertised_values (sc_caps sample_scan) 0x10)))
      = bare (''<control id='' @ dquote @ ''brightness'' @ dquote @ '' address='' @ dquote @ ''0x10'' @ dquote @ ''/>'')"
    by (simp add: control_xml_def bare_def tabs_def line_feed_def)
  moreover note texts
  ultimately show ?thesis using generated_profile_safe [OF i, of sample_scan] i en codes by simp
qed

end
