(* ===== verification/Scan_Main.thy ===== *)
theory Scan_Main
  imports Scan_Xml Db_Files
begin

text \<open>
  The command line of the scan tool, \<^verbatim>\<open>crates/ddccontrol-scanmonitor/src/main.rs\<close>: the arguments,
  the choice of a device, and a run, which reads the options, identifies the monitor, reads its controls
  and writes a profile. What a run finds outside (devices, files, the terminal, and how writing ends) is
  the record \<open>surroundings\<close>; a run returns what it would report and the files it leaves. A run looks
  whether its output exists, then reads the monitor for minutes, and creates the file only then, so the
  two looks at the files are separate: \<open>su_seen\<close> is what the first one finds, and the files a run is
  given are those at the time of creation, with any change others have made in between. Between the
  creation and the end of writing others are taken to leave the new file alone. Progress messages are
  not modelled. The theorem says that no existing file is ever changed, and what a new one holds.
\<close>

section \<open>Arguments\<close>

record args =
  ar_device :: "string option"
  ar_output :: "string option"
  ar_db_path :: "string option"
  ar_list :: bool
  ar_help :: bool
  ar_version :: bool

definition default_args :: args where
  "default_args = \<lparr>ar_device = None, ar_output = None, ar_db_path = None, ar_list = False, ar_help = False, ar_version = False\<rparr>"

datatype main_error =
    Requires_path string
  | Given_twice string
  | Only_one_monitor
  | Unknown_argument string
  | List_conflict
  | No_database
  | Enter_number nat
  | No_monitors
  | Several_monitors
  | No_selection
  | Input_error
  | Bus bus_error
  | Options_error string
  | Already_exists string
  | Cannot_create string
  | Cannot_write string
  | No_readable_controls

fun parse_args_from :: "string list \<Rightarrow> args \<Rightarrow> (args, main_error) result" where
  "parse_args_from [] parsed = Ok parsed"
| "parse_args_from (arg # rest_args) parsed =
     (if \<not> from_utf8 arg then Err (Unknown_argument arg)
      else if arg = ''-h'' \<or> arg = ''--help'' then parse_args_from rest_args (parsed\<lparr>ar_help := True\<rparr>)
      else if arg = ''-V'' \<or> arg = ''--version'' then parse_args_from rest_args (parsed\<lparr>ar_version := True\<rparr>)
      else if arg = ''--list'' then parse_args_from rest_args (parsed\<lparr>ar_list := True\<rparr>)
      else if arg = ''-o'' \<or> arg = ''--output'' \<or> arg = ''-b'' \<or> arg = ''--db-path''
      then (case rest_args of
              [] \<Rightarrow> Err (Requires_path arg)
            | v # rest_args \<Rightarrow>
                if v = [] then Err (Requires_path arg)
                else if arg = ''-o'' \<or> arg = ''--output''
                then (if ar_output parsed \<noteq> None then Err (Given_twice arg)
                      else parse_args_from rest_args (parsed\<lparr>ar_output := Some v\<rparr>))
                else (if ar_db_path parsed \<noteq> None then Err (Given_twice arg)
                      else parse_args_from rest_args (parsed\<lparr>ar_db_path := Some v\<rparr>)))
      else if starts_with ''dev:/dev/'' arg
      then (if ar_device parsed \<noteq> None then Err Only_one_monitor
            else parse_args_from rest_args (parsed\<lparr>ar_device := Some arg\<rparr>))
      else Err (Unknown_argument arg))"

definition parse_args :: "string list \<Rightarrow> (args, main_error) result" where
  "parse_args argv =
     and_then (parse_args_from argv default_args) (\<lambda>parsed.
       if ar_list parsed \<and> (ar_device parsed \<noteq> None \<or> ar_output parsed \<noteq> None) then Err List_conflict else Ok parsed)"

section \<open>Choosing a monitor\<close>

text \<open>\<open>str::parse::<usize>\<close>.\<close>

definition parse_usize :: "string \<Rightarrow> nat option" where
  [rust_std]: "parse_usize t =
     (let digits = (case t of c # r \<Rightarrow> if c = CHR ''+'' then r else t | [] \<Rightarrow> [])
      in if digits = [] \<or> \<not> list_all is_ascii_digit digits then None
         else let n = horner 10 (map (\<lambda>c. byte_val c - 48) digits) in if n < 2 ^ 64 then Some n else None)"

definition select_monitor :: "monitor list \<Rightarrow> string \<Rightarrow> (nat, main_error) result" where
  "select_monitor monitors line =
     (case parse_usize (str_trim line) of
        None \<Rightarrow> Err (Enter_number (length monitors))
      | Some index \<Rightarrow>
          if index > 0 \<and> index \<le> length monitors then Ok (index - 1) else Err (Enter_number (length monitors)))"

text \<open>The lines of the terminal; a line may be an error, and after the last one the input has ended.\<close>

fun choose_loop :: "monitor list \<Rightarrow> string option list \<Rightarrow> (string, main_error) result" where
  "choose_loop monitors [] = Err No_selection"
| "choose_loop monitors (None # inputs) = Err Input_error"
| "choose_loop monitors (Some line # inputs) =
     (if line = [] then Err No_selection
      else case select_monitor monitors line of
             Inr index \<Rightarrow> Ok (mon_device (monitors ! index))
           | Inl _ \<Rightarrow> choose_loop monitors inputs)"

definition choose_device :: "bus \<Rightarrow> bool \<Rightarrow> string option list \<Rightarrow> (string, main_error) result" where
  "choose_device b terminal inputs =
     and_then (map_err Bus (fst (list_devices b))) (\<lambda>monitors. case monitors of
       [] \<Rightarrow> Err No_monitors
     | [m] \<Rightarrow> Ok (mon_device m)
     | _ \<Rightarrow> if \<not> terminal then Err Several_monitors else choose_loop monitors inputs)"

definition database_path :: "string option \<Rightarrow> (string \<Rightarrow> bool) \<Rightarrow> string option \<Rightarrow> (string, main_error) result" where
  "database_path DDCCONTROL_DATADIR is_file explicit =
     (case explicit of
        Some path \<Rightarrow> Ok path
      | None \<Rightarrow>
          (case DDCCONTROL_DATADIR of
             Some path \<Rightarrow> Ok path
           | None \<Rightarrow>
               ok_or (find (\<lambda>path. is_file (path_join path ''options.xml''))
                       [''/usr/share/ddccontrol-db'', ''/usr/local/share/ddccontrol-db'']) No_database))"

definition print_monitors :: "monitor list \<Rightarrow> string" where
  "print_monitors monitors =
     concat (map (\<lambda>(index, m). ''  '' @ format_dec (index + 1) @ ''. '' @ mon_name m @ '' ('' @ mon_device m @ '')'' @ line_feed)
       (enumerate 0 monitors))"

section \<open>Writing\<close>

text \<open>
  How a write ends: the file cannot be created; or it is created and then writing or syncing fails,
  with some content in the file that may or may not be removable; or it is written. The creation is
  exclusive, against the files as they are at that moment.
\<close>

datatype write_fate = Create_fails | Write_fails string bool | Writes

definition write_new :: "write_fate \<Rightarrow> string \<Rightarrow> string \<Rightarrow> (string \<rightharpoonup> string) \<Rightarrow> (unit, main_error) result \<times> (string \<rightharpoonup> string)" where
  "write_new fate path contents files =
     (if files path \<noteq> None then (Err (Already_exists path), files)
      else case fate of
             Create_fails \<Rightarrow> (Err (Cannot_create path), files)
           | Write_fails partial removed \<Rightarrow> (Err (Cannot_write path), if removed then files else files(path \<mapsto> partial))
           | Writes \<Rightarrow> (Ok (), files(path \<mapsto> contents)))"

section \<open>A run\<close>

record 'enc surroundings =
  su_bus :: bus
  su_datadir :: "string option"
  su_is_file :: "string \<Rightarrow> bool"
  su_read :: "string \<Rightarrow> bytes option"
  su_readers :: "'enc readers"
  su_terminal :: bool
  su_inputs :: "string option list"
  su_seen :: "string \<Rightarrow> bool"
  su_fate :: write_fate

datatype report = Help | Version | Listing string | Created string scan options_index

definition options_load :: "'enc readers \<Rightarrow> (string \<Rightarrow> bytes option) \<Rightarrow> string \<Rightarrow> options_db checked" where
  "options_load rd read_file datadir =
     and_then (ok_or (read_file (path_join datadir ''options.xml'')) ''I/O error while reading options.xml.'') (\<lambda>bs.
       options_parse (rd_document rd) (source_text rd bs))"

definition scan_addresses :: "caps \<Rightarrow> options_index \<Rightarrow> u8 list" where
  "scan_addresses c options = sort (remdups (filter (\<lambda>code. code < 0xe0) (vcp_codes c @ bt_keys options)))"

definition collect_readings :: "(u8 \<times> (reading option, scan_error) result) list \<Rightarrow> (u8, reading) btree" where
  "collect_readings rs =
     fold (\<lambda>(code, r) readings. case r of Inr (Some v) \<Rightarrow> bt_insert code v readings | _ \<Rightarrow> readings) rs []"

definition run_scan ::
  "'enc surroundings \<Rightarrow> string \<Rightarrow> options_index \<Rightarrow> string option \<Rightarrow> (string \<rightharpoonup> string)
     \<Rightarrow> (report, main_error) result \<times> (string \<rightharpoonup> string)" where
  "run_scan su device options target files =
     (case open_monitor (su_bus su) device of
        (Inl e, _) \<Rightarrow> (Err (Bus e), files)
      | (Inr opened, _) \<Rightarrow>
          (let path = (case target of Some p \<Rightarrow> p | None \<Rightarrow> om_pnp_id opened @ ''.xml'')
           in if su_seen su path then (Err (Already_exists path), files)
              else
                (let c = (case caps_parse (om_capabilities opened) of Inr c \<Rightarrow> c | Inl _ \<Rightarrow> default_caps);
                     readings = collect_readings (fst (read_all (scan_addresses c options) opened))
                 in if readings = [] then (Err No_readable_controls, files)
                    else
                      (let s = \<lparr>sc_pnp_id = om_pnp_id opened,
                                sc_name = (case om_name opened of Some n \<Rightarrow> n | None \<Rightarrow> ''Unknown monitor (edit this name)''),
                                sc_caps = c, sc_readings = readings\<rparr>
                       in case write_new (su_fate su) path (generate s options) files of
                            (Inl e, files) \<Rightarrow> (Err e, files)
                          | (Inr _, files) \<Rightarrow> (Ok (Created path s options), files)))))"

definition run_args :: "'enc surroundings \<Rightarrow> args \<Rightarrow> (string \<rightharpoonup> string) \<Rightarrow> (report, main_error) result \<times> (string \<rightharpoonup> string)" where
  "run_args su a files =
     (if ar_help a then (Ok Help, files)
      else if ar_version a then (Ok Version, files)
      else if ar_list a then
        (and_then (map_err Bus (fst (list_devices (su_bus su)))) (\<lambda>monitors.
           if monitors = [] then Err No_monitors else Ok (Listing (print_monitors monitors))), files)
      else
        (case and_then (database_path (su_datadir su) (su_is_file su) (ar_db_path a)) (\<lambda>db_path.
              and_then (map_err Options_error (options_load (su_readers su) (su_read su) db_path)) (\<lambda>database.
              and_then (map_err Options_error (index_options database)) (\<lambda>options.
              and_then (case ar_device a of Some device \<Rightarrow> Ok device | None \<Rightarrow> choose_device (su_bus su) (su_terminal su) (su_inputs su)) (\<lambda>device.
                Ok (device, options))))) of
           Inl e \<Rightarrow> (Err e, files)
         | Inr (device, options) \<Rightarrow> run_scan su device options (ar_output a) files))"

definition main_run :: "'enc surroundings \<Rightarrow> string list \<Rightarrow> (string \<rightharpoonup> string) \<Rightarrow> (report, main_error) result \<times> (string \<rightharpoonup> string)" where
  "main_run su argv files =
     (case parse_args argv of Inl e \<Rightarrow> (Err e, files) | Inr a \<Rightarrow> run_args su a files)"

section \<open>What was asked for\<close>

text \<open>
  An option with a value: the value follows the option; without one, the option occurs only as the
  value of another.
\<close>

definition asks :: "string list \<Rightarrow> string set \<Rightarrow> string option \<Rightarrow> bool" where
  "asks argv opts v \<longleftrightarrow>
     (case v of
        Some p \<Rightarrow> \<exists>us opt vs. argv = us @ opt # p # vs \<and> opt \<in> opts
      | None \<Rightarrow> \<forall>us opt vs. argv = us @ opt # vs \<and> opt \<in> opts \<longrightarrow>
          us \<noteq> [] \<and> last us \<in> {''-o'', ''--output'', ''-b'', ''--db-path''})"

definition asks_device :: "string list \<Rightarrow> string option \<Rightarrow> bool" where
  "asks_device argv v \<longleftrightarrow> (case v of Some d \<Rightarrow> d \<in> set argv \<and> starts_with ''dev:/dev/'' d | None \<Rightarrow> True)"

lemma asks_Nil: "asks [] opts None"
  by (simp add: asks_def)

lemma asks_here: "opt \<in> opts \<Longrightarrow> asks (opt # p # argv) opts (Some p)"
  unfolding asks_def option.case by (metis append_Nil)

lemma asks_skip:
  assumes "asks argv opts v" and "arg \<notin> opts"
  shows "asks (arg # argv) opts v"
proof (cases v)
  case None
  have "us \<noteq> [] \<and> last us \<in> {''-o'', ''--output'', ''-b'', ''--db-path''}" if "arg # argv = us @ opt # vs" "opt \<in> opts" for us opt vs
    using that assms None by (cases us) (auto simp: asks_def split: if_splits)
  with None show ?thesis unfolding asks_def by simp
next
  case (Some p)
  with assms(1) obtain us opt vs where "argv = us @ opt # p # vs" "opt \<in> opts" by (auto simp: asks_def)
  then have "arg # argv = (arg # us) @ opt # p # vs \<and> opt \<in> opts" by simp
  then show ?thesis unfolding Some asks_def option.case by blast
qed

lemma asks_value:
  assumes "asks argv opts v" and "arg \<notin> opts" and "arg \<in> {''-o'', ''--output'', ''-b'', ''--db-path''}"
  shows "asks (arg # w # argv) opts v"
proof (cases v)
  case None
  have "us \<noteq> [] \<and> last us \<in> {''-o'', ''--output'', ''-b'', ''--db-path''}" if "arg # w # argv = us @ opt # vs" "opt \<in> opts" for us opt vs
  proof (cases us)
    case Nil
    with that assms(2) show ?thesis by simp
  next
    case (Cons u us')
    with that have u: "u = arg" "w # argv = us' @ opt # vs" by auto
    show ?thesis
    proof (cases us')
      case Nil
      with Cons u(1) assms(3) show ?thesis by simp
    next
      case (Cons u' us'')
      with u(2) that(2) assms(1) None have "us'' \<noteq> [] \<and> last us'' \<in> {''-o'', ''--output'', ''-b'', ''--db-path''}"
        unfolding asks_def by auto
      with \<open>us = u # us'\<close> Cons show ?thesis by simp
    qed
  qed
  with None show ?thesis unfolding asks_def by simp
next
  case (Some p)
  with assms(1) obtain us opt vs where "argv = us @ opt # p # vs" "opt \<in> opts" by (auto simp: asks_def)
  then have "arg # w # argv = (arg # w # us) @ opt # p # vs \<and> opt \<in> opts" by simp
  then show ?thesis unfolding Some asks_def option.case by blast
qed

definition asked :: "string list \<Rightarrow> args \<Rightarrow> args \<Rightarrow> bool" where
  "asked argv parsed a \<longleftrightarrow>
     (if ar_output parsed = None then asks argv {''-o'', ''--output''} (ar_output a) else ar_output a = ar_output parsed)
     \<and> (if ar_db_path parsed = None then asks argv {''-b'', ''--db-path''} (ar_db_path a) else ar_db_path a = ar_db_path parsed)
     \<and> (if ar_device parsed = None then asks_device argv (ar_device a) else ar_device a = ar_device parsed)"

lemma parse_args_step:
  assumes "parse_args_from (arg # rest_args) parsed = Ok a"
  shows "(arg \<notin> {''-o'', ''--output'', ''-b'', ''--db-path''}
        \<and> (\<exists>parsed'. parse_args_from rest_args parsed' = Ok a \<and> ar_output parsed' = ar_output parsed \<and> ar_db_path parsed' = ar_db_path parsed
             \<and> (ar_device parsed' = ar_device parsed
                \<or> ar_device parsed = None \<and> ar_device parsed' = Some arg \<and> starts_with ''dev:/dev/'' arg)))
    \<or> (arg \<in> {''-o'', ''--output'', ''-b'', ''--db-path''}
        \<and> (\<exists>v vs parsed'. rest_args = v # vs \<and> parse_args_from vs parsed' = Ok a \<and> ar_device parsed' = ar_device parsed
             \<and> (if arg \<in> {''-o'', ''--output''}
                then ar_output parsed = None \<and> ar_output parsed' = Some v \<and> ar_db_path parsed' = ar_db_path parsed
                else ar_db_path parsed = None \<and> ar_db_path parsed' = Some v \<and> ar_output parsed' = ar_output parsed)))"
proof (cases "arg \<in> {''-o'', ''--output'', ''-b'', ''--db-path''}")
  case False
  then have "\<not> (arg = ''-o'' \<or> arg = ''--output'' \<or> arg = ''-b'' \<or> arg = ''--db-path'')" by simp
  with assms have "\<exists>parsed'. parse_args_from rest_args parsed' = Ok a \<and> ar_output parsed' = ar_output parsed \<and> ar_db_path parsed' = ar_db_path parsed
      \<and> (ar_device parsed' = ar_device parsed \<or> ar_device parsed = None \<and> ar_device parsed' = Some arg \<and> starts_with ''dev:/dev/'' arg)"
    unfolding parse_args_from.simps by (simp split: if_split_asm) (rule exI, erule conjI, simp)+
  with False show ?thesis by blast
next
  case True
  then have flags: "\<not> (arg = ''-h'' \<or> arg = ''--help'')" "\<not> (arg = ''-V'' \<or> arg = ''--version'')" "arg \<noteq> ''--list''" by auto
  have o: "arg = ''-o'' \<or> arg = ''--output'' \<or> arg = ''-b'' \<or> arg = ''--db-path''" using True by simp
  have "\<exists>v vs parsed'. rest_args = v # vs \<and> parse_args_from vs parsed' = Ok a \<and> ar_device parsed' = ar_device parsed
      \<and> (if arg = ''-o'' \<or> arg = ''--output''
         then ar_output parsed = None \<and> ar_output parsed' = Some v \<and> ar_db_path parsed' = ar_db_path parsed
         else ar_db_path parsed = None \<and> ar_db_path parsed' = Some v \<and> ar_output parsed' = ar_output parsed)"
    using assms flags o unfolding parse_args_from.simps
    by (simp only: if_False if_True split: if_split_asm list.split_asm) (simp_all, (rule exI, erule conjI, simp)+)
  with True show ?thesis by simp
qed

lemma parse_args_asked: "parse_args_from argv parsed = Ok a \<Longrightarrow> asked argv parsed a"
proof (induction argv arbitrary: parsed rule: length_induct)
  case (1 argv)
  show ?case
  proof (cases argv)
    case Nil
    with 1 show ?thesis by (simp add: asked_def asks_Nil asks_device_def split: option.split)
  next
    case (Cons arg rest_args)
    from parse_args_step [OF 1(2) [unfolded Cons]] show ?thesis unfolding Cons
    proof (elim disjE conjE exE)
      fix parsed' assume arg: "arg \<notin> {''-o'', ''--output'', ''-b'', ''--db-path''}" and p: "parse_args_from rest_args parsed' = Ok a"
        and same: "ar_output parsed' = ar_output parsed" "ar_db_path parsed' = ar_db_path parsed" "ar_device parsed' = ar_device parsed"
      have "asked rest_args parsed' a" using 1(1) p Cons by simp
      with arg same show "asked (arg # rest_args) parsed a"
        by (auto simp: asked_def asks_device_def intro!: asks_skip split: if_splits option.splits)
    next
      fix parsed' assume arg: "arg \<notin> {''-o'', ''--output'', ''-b'', ''--db-path''}" and p: "parse_args_from rest_args parsed' = Ok a"
        and same: "ar_output parsed' = ar_output parsed" "ar_db_path parsed' = ar_db_path parsed"
          "ar_device parsed = None" "ar_device parsed' = Some arg" "starts_with ''dev:/dev/'' arg"
      have "asked rest_args parsed' a" using 1(1) p Cons by simp
      with arg same show "asked (arg # rest_args) parsed a"
        by (auto simp: asked_def asks_device_def intro!: asks_skip split: if_splits option.splits)
    next
      fix v vs parsed' assume arg: "arg \<in> {''-o'', ''--output'', ''-b'', ''--db-path''}" and rest: "rest_args = v # vs"
        and p: "parse_args_from vs parsed' = Ok a" and d: "ar_device parsed' = ar_device parsed"
        and one: "if arg \<in> {''-o'', ''--output''}
          then ar_output parsed = None \<and> ar_output parsed' = Some v \<and> ar_db_path parsed' = ar_db_path parsed
          else ar_db_path parsed = None \<and> ar_db_path parsed' = Some v \<and> ar_output parsed' = ar_output parsed"
      have IH: "asked vs parsed' a" using 1(1) p Cons rest by simp
      have dev: "asks_device vs x \<Longrightarrow> asks_device (arg # v # vs) x" for x by (auto simp: asks_device_def split: option.splits)
      show "asked (arg # rest_args) parsed a"
      proof (cases "arg \<in> {''-o'', ''--output''}")
        case True
        then have "arg \<notin> {''-b'', ''--db-path''}" by auto
        with True IH one d dev asks_value [OF _ this arg] asks_here [OF True] show ?thesis
          unfolding rest asked_def by (simp split: if_splits)
      next
        case False
        then have "arg \<in> {''-b'', ''--db-path''}" using arg by simp
        with False IH one d dev asks_value [OF _ False arg] asks_here [OF this] show ?thesis
          unfolding rest asked_def by (simp split: if_splits)
      qed
    qed
  qed
qed

definition args_given :: "string list \<Rightarrow> args \<Rightarrow> bool" where
  "args_given argv a \<longleftrightarrow>
     asks argv {''-o'', ''--output''} (ar_output a) \<and> asks argv {''-b'', ''--db-path''} (ar_db_path a)
     \<and> asks_device argv (ar_device a)"

lemma parse_args_given: "parse_args argv = Ok a \<Longrightarrow> args_given argv a"
  using parse_args_asked [of argv default_args a]
  by (auto simp: parse_args_def asked_def args_given_def default_args_def split: if_splits)

text \<open>The database: the one asked for, else the one built in, else a place that holds one.\<close>

definition database_at :: "'enc surroundings \<Rightarrow> string option \<Rightarrow> string \<Rightarrow> bool" where
  "database_at su explicit path \<longleftrightarrow>
     (case explicit of
        Some p \<Rightarrow> path = p
      | None \<Rightarrow>
          (case su_datadir su of
             Some p \<Rightarrow> path = p
           | None \<Rightarrow> su_is_file su (path_join path ''options.xml'')
               \<and> (path = ''/usr/share/ddccontrol-db''
                  \<or> path = ''/usr/local/share/ddccontrol-db'' \<and> \<not> su_is_file su (path_join ''/usr/share/ddccontrol-db'' ''options.xml''))))"

lemma database_found: "database_path (su_datadir su) (su_is_file su) explicit = Ok path \<Longrightarrow> database_at su explicit path"
  by (auto simp: database_path_def database_at_def split: option.splits if_splits)

section \<open>What a run leaves\<close>

lemma write_new_extends:
  "write_new fate path contents files = (r, files') \<Longrightarrow> files \<subseteq>\<^sub>m files' \<and> (r = Inr () \<longrightarrow> files path = None \<and> files' = files(path \<mapsto> contents))"
  by (auto simp: write_new_def map_le_def split: if_splits write_fate.splits)

lemma write_new_error:
  "write_new fate path contents files = (Inl e, files') \<Longrightarrow>
     files' = files \<or> e = Cannot_write path \<and> files path = None \<and> (\<exists>partial. files' = files(path \<mapsto> partial))"
  by (auto simp: write_new_def split: if_splits write_fate.splits)

lemma scan_addresses_exact:
  "sorted (scan_addresses c options) \<and> distinct (scan_addresses c options)
   \<and> set (scan_addresses c options) = {code. code < 0xe0 \<and> (code \<in> set (vcp_codes c) \<or> code \<in> set (bt_keys options))}"
  by (auto simp: scan_addresses_def)

lemma read_all_codes: "map fst (fst (read_all codes m)) = codes"
proof (induction codes arbitrary: m)
  case (Cons code codes)
  obtain r m' where "om_read code m = (r, m')" by (metis surj_pair)
  moreover obtain rs m'' where "read_all codes m' = (rs, m'')" by (metis surj_pair)
  ultimately show ?case using Cons.IH [of m'] by simp
qed simp

lemma collect_from:
  assumes "distinct (map fst rs)" and "bt_invar acc" and "fst ` set rs \<inter> dom (bt_get acc) = {}"
  shows "bt_invar (fold (\<lambda>(code, r) readings. case r of Inr (Some v) \<Rightarrow> bt_insert code v readings | _ \<Rightarrow> readings) rs acc)
    \<and> (bt_get (fold (\<lambda>(code, r) readings. case r of Inr (Some v) \<Rightarrow> bt_insert code v readings | _ \<Rightarrow> readings) rs acc) code = Some v
        \<longleftrightarrow> (code, Inr (Some v)) \<in> set rs \<or> bt_get acc code = Some v)"
  using assms
proof (induction rs arbitrary: acc)
  case (Cons x rs)
  obtain c r where x: "x = (c, r)" by (metis surj_pair)
  show ?case
  proof (cases "\<exists>w. r = Inr (Some w)")
    case True
    then obtain w where w: "r = Inr (Some w)" by blast
    have "fst ` set rs \<inter> dom (bt_get (bt_insert c w acc)) = {}"
      using Cons.prems(1,3) x by (auto simp: bt_get_insert)
    from Cons.IH [OF _ bt_invar_insert [OF Cons.prems(2)] this] Cons.prems(1,3) x w show ?thesis
      by (auto simp: bt_get_insert image_iff)
  next
    case False
    then have "(case r of Inr (Some v) \<Rightarrow> bt_insert c v acc | _ \<Rightarrow> acc) = acc" by (auto split: sum.splits option.splits)
    with Cons.IH [OF _ Cons.prems(2)] Cons.prems(1,3) x False show ?thesis by auto
  qed
qed simp

lemma collect_exact:
  "distinct (map fst rs) \<Longrightarrow> bt_invar (collect_readings rs)
     \<and> (bt_get (collect_readings rs) code = Some v \<longleftrightarrow> (code, Inr (Some v)) \<in> set rs)"
  using collect_from [of rs "[]" code v] by (simp add: collect_readings_def bt.get_empty)

text \<open>What a scan of an opened monitor is: everything in it was read from that monitor.\<close>

definition scan_from :: "opened_monitor \<Rightarrow> options_index \<Rightarrow> scan \<Rightarrow> bool" where
  "scan_from opened options s \<longleftrightarrow>
     sc_pnp_id s = om_pnp_id opened \<and> is_valid_pnp_id (sc_pnp_id s)
     \<and> sc_name s = (case om_name opened of Some n \<Rightarrow> n | None \<Rightarrow> ''Unknown monitor (edit this name)'')
     \<and> sc_caps s = (case caps_parse (om_capabilities opened) of Inr c \<Rightarrow> c | Inl _ \<Rightarrow> default_caps)
     \<and> sc_readings s \<noteq> [] \<and> bt_invar (sc_readings s)
     \<and> (\<exists>codes rs opened' evs. read_all codes opened = (rs, opened') \<and> map fst rs = codes
          \<and> sorted codes \<and> distinct codes
          \<and> set codes = {code. code < 0xe0 \<and> (code \<in> set (vcp_codes (sc_caps s)) \<or> code \<in> set (bt_keys options))}
          \<and> om_log opened' = om_log opened @ evs
          \<and> (\<forall>code v. bt_get (sc_readings s) code = Some v \<longleftrightarrow> (code, Inr (Some v)) \<in> set rs)
          \<and> (\<forall>code v. bt_get (sc_readings s) code = Some v \<longrightarrow> control_received code (Some v) evs))"

lemma scan_from_read:
  fixes opened options
  defines "c \<equiv> case caps_parse (om_capabilities opened) of Inr c \<Rightarrow> c | Inl _ \<Rightarrow> default_caps"
  defines "readings \<equiv> collect_readings (fst (read_all (scan_addresses c options) opened))"
  assumes "is_valid_pnp_id (om_pnp_id opened)" and "readings \<noteq> []"
  shows "scan_from opened options \<lparr>sc_pnp_id = om_pnp_id opened,
    sc_name = (case om_name opened of Some n \<Rightarrow> n | None \<Rightarrow> ''Unknown monitor (edit this name)''), sc_caps = c, sc_readings = readings\<rparr>"
proof -
  let ?codes = "scan_addresses c options"
  obtain rs opened' where r: "read_all ?codes opened = (rs, opened')" by (metis surj_pair)
  from read_all_harmless [OF r] obtain evs where evs: "om_log opened' = om_log opened @ evs" "values_received rs evs" by blast
  have codes: "map fst rs = ?codes" using read_all_codes [of ?codes opened] r by simp
  then have "distinct (map fst rs)" using scan_addresses_exact [of c options] by simp
  from collect_exact [OF this] have get: "bt_invar readings" "bt_get readings code = Some v \<longleftrightarrow> (code, Inr (Some v)) \<in> set rs" for code v
    unfolding readings_def r by simp_all
  have "control_received code (Some v) evs" if "bt_get readings code = Some v" for code v
    using evs(2) that unfolding get values_received_def by blast
  then have "\<exists>codes rs opened' evs. read_all codes opened = (rs, opened') \<and> map fst rs = codes \<and> sorted codes \<and> distinct codes
      \<and> set codes = {code. code < 0xe0 \<and> (code \<in> set (vcp_codes c) \<or> code \<in> set (bt_keys options))}
      \<and> om_log opened' = om_log opened @ evs \<and> (\<forall>code v. bt_get readings code = Some v \<longleftrightarrow> (code, Inr (Some v)) \<in> set rs)
      \<and> (\<forall>code v. bt_get readings code = Some v \<longrightarrow> control_received code (Some v) evs)"
    using r codes evs(1) get(2) scan_addresses_exact [of c options]
    by (intro exI [of _ ?codes] exI [of _ rs] exI [of _ opened'] exI [of _ evs]) blast
  with assms(3,4) get(1) show ?thesis unfolding scan_from_def c_def [symmetric] by simp
qed

text \<open>The device chosen at the terminal is one of those listed.\<close>

lemma choose_loop_listed: "choose_loop monitors inputs = Ok device \<Longrightarrow> device \<in> mon_device ` set monitors"
  by (induction monitors inputs rule: choose_loop.induct)
    (auto simp: select_monitor_def split: if_splits sum.splits option.splits)

lemma choose_device_listed:
  assumes "choose_device b terminal inputs = Ok device"
  shows "\<exists>monitors. fst (list_devices b) = Ok monitors \<and> device \<in> mon_device ` set monitors"
proof -
  obtain monitors where m: "fst (list_devices b) = Ok monitors"
    using assms by (cases "fst (list_devices b)") (simp_all add: choose_device_def)
  with assms choose_loop_listed [of monitors inputs device] show ?thesis
    by (auto simp: choose_device_def split: list.splits if_splits)
qed

definition run_ok :: "'enc surroundings \<Rightarrow> args \<Rightarrow> (string \<rightharpoonup> string) \<Rightarrow> (report, main_error) result \<times> (string \<rightharpoonup> string) \<Rightarrow> bool" where
  "run_ok su a files result \<longleftrightarrow>
     (case result of (r, files') \<Rightarrow>
        files \<subseteq>\<^sub>m files'
        \<and> (case r of
             Inr (Created path s options) \<Rightarrow>
               \<not> su_seen su path \<and> files path = None \<and> files' = files(path \<mapsto> generate s options)
               \<and> path = (case ar_output a of Some p \<Rightarrow> p | None \<Rightarrow> sc_pnp_id s @ ''.xml'')
               \<and> (\<exists>db_path database. database_at su (ar_db_path a) db_path
                    \<and> options_load (su_readers su) (su_read su) db_path = Ok database \<and> index_options database = Ok options)
               \<and> (\<exists>device opened log. open_monitor (su_bus su) device = (Ok opened, log) \<and> scan_from opened options s
                    \<and> (case ar_device a of
                         Some d \<Rightarrow> device = d
                       | None \<Rightarrow> \<exists>monitors. fst (list_devices (su_bus su)) = Ok monitors \<and> device \<in> mon_device ` set monitors))
           | Inr _ \<Rightarrow> files' = files
           | Inl (Cannot_write path) \<Rightarrow> files' = files \<or> files path = None \<and> (\<exists>partial. files' = files(path \<mapsto> partial))
           | Inl _ \<Rightarrow> files' = files))"

lemma run_ok_same: "run_ok su a files (Inl e, files)" "run_ok su a files (Inr Help, files)" "run_ok su a files (Inr Version, files)"
  "run_ok su a files (Inr (Listing t), files)"
  by (simp_all add: run_ok_def split: main_error.split)

lemma created_ok:
  assumes "\<not> su_seen su path" and "write_new fate path (generate s options) files = (Inr (), files')"
    and "path = (case ar_output a of Some p \<Rightarrow> p | None \<Rightarrow> sc_pnp_id s @ ''.xml'')"
    and "database_at su (ar_db_path a) db_path"
    and "options_load (su_readers su) (su_read su) db_path = Ok database" and "index_options database = Ok options"
    and "case ar_device a of Some d \<Rightarrow> device = d
       | None \<Rightarrow> \<exists>monitors. fst (list_devices (su_bus su)) = Ok monitors \<and> device \<in> mon_device ` set monitors"
    and "open_monitor (su_bus su) device = (Ok opened, log)" and "scan_from opened options s"
  shows "run_ok su a files (Inr (Created path s options), files')"
  using write_new_extends [OF assms(2)] assms(1,3-) unfolding run_ok_def prod.case sum.case report.case by blast

lemma run_scan_ok:
  assumes "database_at su (ar_db_path a) db_path"
    and "options_load (su_readers su) (su_read su) db_path = Ok database" and "index_options database = Ok options"
    and "case ar_device a of Some d \<Rightarrow> device = d
       | None \<Rightarrow> \<exists>monitors. fst (list_devices (su_bus su)) = Ok monitors \<and> device \<in> mon_device ` set monitors"
  shows "run_ok su a files (run_scan su device options (ar_output a) files)"
proof -
  obtain o' log where o: "open_monitor (su_bus su) device = (o', log)" by (metis surj_pair)
  show ?thesis
  proof (cases o')
    case (Inl e)
    with o show ?thesis by (simp add: run_scan_def run_ok_same)
  next
    case (Inr opened)
    let ?path = "case ar_output a of Some p \<Rightarrow> p | None \<Rightarrow> om_pnp_id opened @ ''.xml''"
    let ?c = "case caps_parse (om_capabilities opened) of Inr c \<Rightarrow> c | Inl _ \<Rightarrow> default_caps"
    let ?readings = "collect_readings (fst (read_all (scan_addresses ?c options) opened))"
    let ?s = "\<lparr>sc_pnp_id = om_pnp_id opened, sc_name = (case om_name opened of Some n \<Rightarrow> n | None \<Rightarrow> ''Unknown monitor (edit this name)''),
      sc_caps = ?c, sc_readings = ?readings\<rparr>"
    show ?thesis
    proof (cases "su_seen su ?path \<or> ?readings = []")
      case True
      with o Inr show ?thesis by (auto simp: run_scan_def Let_def run_ok_same)
    next
      case False
      obtain r files' where w: "write_new (su_fate su) ?path (generate ?s options) files = (r, files')" by (metis surj_pair)
      have run: "run_scan su device options (ar_output a) files
          = (case r of Inl e \<Rightarrow> (Inl e, files') | Inr _ \<Rightarrow> (Inr (Created ?path ?s options), files'))"
        using False by (simp add: run_scan_def o Inr Let_def w split: sum.splits)
      have valid: "is_valid_pnp_id (om_pnp_id opened)" using open_monitor_ok o Inr by blast
      have "scan_from opened options ?s" using valid False by (intro scan_from_read) simp_all
      moreover have "?path = (case ar_output a of Some p \<Rightarrow> p | None \<Rightarrow> sc_pnp_id ?s @ ''.xml'')" by (cases "ar_output a") simp_all
      ultimately have "run_ok su a files (Inr (Created ?path ?s options), files')" if "r = Inr ()"
        using False by (intro created_ok [OF _ w [unfolded that] _ assms o [unfolded Inr]]) simp
      moreover have "run_ok su a files (Inl e, files')" if "r = Inl e" for e
        using write_new_extends [OF w] write_new_error [OF w [unfolded that]] by (auto simp: run_ok_def split: main_error.split)
      ultimately show ?thesis unfolding run by (cases r) simp_all
    qed
  qed
qed

lemma run_args_ok: "run_ok su a files (run_args su a files)"
proof -
  have list: "run_ok su a files (and_then (map_err Bus (fst (list_devices (su_bus su)))) (\<lambda>monitors.
      if monitors = [] then Err No_monitors else Ok (Listing (print_monitors monitors))), files)"
    by (cases "fst (list_devices (su_bus su))") (simp_all add: run_ok_same)
  have device: "case ar_device a of Some d \<Rightarrow> device = d
      | None \<Rightarrow> \<exists>monitors. fst (list_devices (su_bus su)) = Ok monitors \<and> device \<in> mon_device ` set monitors"
    if "(case ar_device a of Some device \<Rightarrow> Ok device | None \<Rightarrow> choose_device (su_bus su) (su_terminal su) (su_inputs su)) = Ok device" for device
    using that choose_device_listed by (cases "ar_device a") auto
  show ?thesis
    using list by (auto simp: run_args_def run_ok_same and_then_eq_Inl and_then_eq_Inr map_err_eq_Inr
        intro!: run_scan_ok database_found device split: sum.splits if_splits)
qed

text \<open>
  C4: the scan tool never changes or removes a file that exists when it creates its own, whatever the
  arguments, the devices, the terminal and the disk do, and whatever others did to the files after it
  first looked for its output. Only a run that reports a new profile, or that fails to write one, leaves
  anything, and that one file was found by neither look. A profile that is reported has the name that
  follows the option for it or, without one, the monitor's identifier; it is generated from one monitor that was opened, the one given or one of
  those listed, with the vocabulary of the database asked for, built in or found. Its addresses are exactly those
  below e0 that the capabilities or the vocabulary name, each read once in order, and its readings, at
  least one, are exactly those that the monitor supports and sent in intact replies.
\<close>

theorem scanner_never_overwrites:
  "case main_run su argv files of (r, files') \<Rightarrow>
     files \<subseteq>\<^sub>m files'
     \<and> (case r of
          Inr (Created path s options) \<Rightarrow>
            \<not> su_seen su path \<and> files path = None \<and> files' = files(path \<mapsto> generate s options)
            \<and> (\<exists>a. parse_args argv = Ok a \<and> args_given argv a
                 \<and> path = (case ar_output a of Some p \<Rightarrow> p | None \<Rightarrow> sc_pnp_id s @ ''.xml'')
                 \<and> (\<exists>db_path database. database_at su (ar_db_path a) db_path
                      \<and> options_load (su_readers su) (su_read su) db_path = Ok database \<and> index_options database = Ok options)
                 \<and> (\<exists>device opened log. open_monitor (su_bus su) device = (Ok opened, log) \<and> scan_from opened options s
                      \<and> (case ar_device a of
                           Some d \<Rightarrow> device = d
                         | None \<Rightarrow> \<exists>monitors. fst (list_devices (su_bus su)) = Ok monitors \<and> device \<in> mon_device ` set monitors)))
        | Inr _ \<Rightarrow> files' = files
        | Inl (Cannot_write path) \<Rightarrow> files' = files \<or> files path = None \<and> (\<exists>partial. files' = files(path \<mapsto> partial))
        | Inl _ \<Rightarrow> files' = files)"
proof (cases "parse_args argv")
  case (Inl e)
  then show ?thesis by (simp add: main_run_def split: main_error.split)
next
  case (Inr a)
  obtain r files' where r: "run_args su a files = (r, files')" by (metis surj_pair)
  have "run_ok su a files (r, files')" using run_args_ok [of su a files] r by simp
  then show ?thesis unfolding run_ok_def main_run_def Inr r sum.case prod.case
    using parse_args_given [OF Inr] by (cases r rule: sum.exhaust) (auto split: report.splits main_error.splits)
qed

end
