(* ===== verification/Gen_Node.thy ===== *)
theory Gen_Node
  imports Monitor_Load Xml_Source
begin

text \<open>
  The database generator's conversion of one XML document, \<open>source_integer\<close> and \<open>parse_xml\<close> of
  \<^verbatim>\<open>crates/ddccontrol-dbgen/src/lib.rs\<close>. A document of \<open>roxmltree\<close> is the tree \<open>source_node\<close>,
  with its texts; \<open>element_view\<close> is what the library's own readers see of it. The main lemma compares
  the two ways to a database node: reading back what the generator wrote, and copying the document.
\<close>

section \<open>Documents\<close>

text \<open>The last constructor stands for comments and processing instructions.\<close>

datatype source_node =
    Source_Element (sn_tag: string) (sn_attrs: "(string option \<times> string \<times> string) list")
      (sn_children: "source_node list") (sn_line: nat)
  | Source_Text string
  | Source_Other

definition is_element :: "source_node \<Rightarrow> bool" where
  "is_element n \<longleftrightarrow> (case n of Source_Element _ _ _ _ \<Rightarrow> True | _ \<Rightarrow> False)"

definition node_text :: "source_node \<Rightarrow> string option" where
  "node_text n = (case n of Source_Text t \<Rightarrow> Some t | _ \<Rightarrow> None)"

text \<open>The texts up to the next element.\<close>

definition leading_text :: "source_node list \<Rightarrow> string" where
  "leading_text ns = concat (List.map_filter node_text (takeWhile (\<lambda>n. \<not> is_element n) ns))"

section \<open>Attributes\<close>

definition integer_message :: "integer_error \<Rightarrow> string" where
  "integer_message e =
     (case e of InvalidIntegerSyntax \<Rightarrow> ''invalid integer syntax''
              | IntegerOutOfRange \<Rightarrow> ''integer outside the signed 64-bit range'')"

definition source_integer :: "string \<Rightarrow> string \<Rightarrow> cbor checked" where
  "source_integer raw attr =
     and_then (ok_or (Option.bind (attribute_id attr) attribute_integer_bounds) ''not a numeric source attribute'') (\<lambda>(lo, hi).
       let input = trim_ascii_start raw;
           number = (if attr = ''delay''
                     then map_err (\<lambda>_. ''invalid integer or outside normative range'') (i64_parse input)
                     else map_err integer_message (parse_integer input))
       in and_then (map_err (\<lambda>e. attr @ '' outside normative range or invalid integer: '' @ e) number) (\<lambda>number.
            if \<not> (lo \<le> number \<and> number \<le> hi) then Err (attr @ '' outside normative range'')
            else Ok (CInteger number)))"

text \<open>An attribute of the element: one the runtime executes there, or an inert one.\<close>

definition source_value :: "nat \<Rightarrow> string \<Rightarrow> string \<Rightarrow> cbor checked" where
  "source_value k name raw = (if k \<in> {6, 7, 8, 12} then source_integer raw name else Ok (CText raw))"

definition source_attribute ::
  "nat list \<Rightarrow> string option \<times> string \<times> string \<Rightarrow> (cbor \<times> cbor) list \<times> (cbor \<times> cbor) list
     \<Rightarrow> ((cbor \<times> cbor) list \<times> (cbor \<times> cbor) list) checked" where
  "source_attribute allowed attr st =
     (case attr of (ns, name, raw) \<Rightarrow> case st of (attrs, inert) \<Rightarrow>
        let ident = attribute_id name
        in if ns = None \<and> (case ident of Some k \<Rightarrow> k \<in> set allowed | None \<Rightarrow> False)
           then and_then (source_value (the ident) name raw) (\<lambda>v. Ok (attrs @ [(CInteger (int (the ident)), v)], inert))
           else Ok (attrs, inert @ [(CText (case ns of Some ns \<Rightarrow> ''{'' @ ns @ ''}'' @ name | None \<Rightarrow> name), CText raw)]))"

section \<open>Elements\<close>

definition cbor_object :: "(nat \<times> cbor) list \<Rightarrow> cbor" where
  "cbor_object entries = CMap (map (\<lambda>(k, v). (CInteger (int k), v)) entries)"

definition source_metadata :: "(cbor \<times> cbor) list \<Rightarrow> string \<Rightarrow> nat \<Rightarrow> string \<Rightarrow> string \<Rightarrow> (nat \<times> cbor) list" where
  "source_metadata inert tag kind head tail =
     (let metadata = (if inert \<noteq> [] then [(0, CMap inert)] else [])
            @ (if kind = 255 then [(1, CText tag)] else [])
            @ List.map_filter (\<lambda>(k, v). if str_trim v \<noteq> [] then Some (k, CText v) else None) [(2, head), (3, tail)]
      in if metadata = [] then []
         else metadata @ (if list_ex (\<lambda>(k, _). k = 0) metadata then [] else [(0, CMap [])]))"

definition source_entries :: "nat \<Rightarrow> (cbor \<times> cbor) list \<Rightarrow> cbor list \<Rightarrow> (nat \<times> cbor) list \<Rightarrow> (nat \<times> cbor) list" where
  "source_entries kind attrs children metadata =
     [(0, CInteger (int kind)), (1, CMap attrs), (2, CArray children)]
     @ (if metadata = [] then []
        else [(3, CArray [cbor_object [(0, CText SOURCE_METADATA), (1, CBool False), (2, cbor_object metadata)]])])"

text \<open>The conversion of an element, given the nodes that follow it, and of the elements of a list.\<close>

fun source_element :: "source_node \<Rightarrow> source_node list \<Rightarrow> string \<Rightarrow> bool \<Rightarrow> bool \<Rightarrow> nat \<Rightarrow> cbor checked"
  and source_elements :: "source_node list \<Rightarrow> string \<Rightarrow> bool \<Rightarrow> bool \<Rightarrow> nat \<Rightarrow> cbor list checked" where
  "source_element (Source_Element tag attributes nodes line) following parent in_options ancestor depth =
     (if depth > MAX_DEPTH then Err ''XML element nesting exceeds conversion resource bound''
      else
        (let active = executable_path tag parent in_options ancestor;
             allowed = (if active then executable_attributes tag parent in_options else [])
         in and_then (fold_res (source_attribute allowed) attributes ([], [])) (\<lambda>(attrs, inert).
            let kind = (case kind_id tag of Some k \<Rightarrow> k | None \<Rightarrow> 255)
            in and_then (source_elements nodes tag in_options active (depth + 1)) (\<lambda>children.
               let metadata = source_metadata inert tag kind (leading_text nodes) (leading_text following)
               in Ok (cbor_object (source_entries kind attrs children metadata))))))"
| "source_element (Source_Text t) following parent in_options ancestor depth = Err []"
| "source_element Source_Other following parent in_options ancestor depth = Err []"
| "source_elements [] parent in_options ancestor depth = Ok []"
| "source_elements (n # ns) parent in_options ancestor depth =
     (if is_element n
      then and_then (source_element n ns parent in_options ancestor depth) (\<lambda>v.
           and_then (source_elements ns parent in_options ancestor depth) (\<lambda>vs. Ok (v # vs)))
      else source_elements ns parent in_options ancestor depth)"

text \<open>A parsed document: the root element and the nodes after it.\<close>

type_synonym source_parser = "string \<Rightarrow> (source_node \<times> source_node list) checked"

definition source_error_message :: "source_error \<Rightarrow> string" where
  "source_error_message e =
     (case e of Unsupported_source_encoding label \<Rightarrow> ''unsupported source XML encoding: '' @ utf8_lossy (bytes_str label)
              | Malformed_source_encoding \<Rightarrow> ''malformed source XML encoding'')"

definition source_parse_xml :: "'enc encodings \<Rightarrow> source_parser \<Rightarrow> bytes \<Rightarrow> string \<Rightarrow> cbor checked" where
  "source_parse_xml encs parser bs expected =
     and_then (map_err source_error_message (decode_source encs bs)) (\<lambda>xml.
     and_then (map_err (\<lambda>e. ''XML: '' @ e) (parser xml)) (\<lambda>(root, following).
       if sn_tag root \<noteq> expected then Err (''expected XML root '' @ expected)
       else source_element root following [] (expected = ''options'') True 0))"


section \<open>Canonical order\<close>

text \<open>Putting a value into canonical order changes nothing but the order of its maps.\<close>

definition canonised :: "(cbor \<Rightarrow> bytes) \<Rightarrow> cbor \<Rightarrow> cbor \<Rightarrow> bool" where
  "canonised w v u \<longleftrightarrow> (\<exists>d i j. canonical w v d i = Ok (u, j))"

lemma canonised_scalar:
  "canonised w (CInteger i) u \<Longrightarrow> u = CInteger i" "canonised w (CText t) u \<Longrightarrow> u = CText t"
  "canonised w (CBool b) u \<Longrightarrow> u = CBool b" "canonised w (CBytes bs) u \<Longrightarrow> u = CBytes bs"
  by (auto simp: canonised_def canonical.simps split: if_splits)

lemma canonised_list: "canonical_list w vs d i = Ok (us, j) \<Longrightarrow> list_all2 (canonised w) vs us"
proof (induction vs arbitrary: i us)
  case (Cons v vs)
  then show ?case by (auto simp: canonised_def)
qed auto

lemma canonised_array:
  assumes "canonised w (CArray vs) u"
  obtains us where "u = CArray us" "list_all2 (canonised w) vs us"
  using assms by (auto simp: canonised_def canonical.simps [of w "CArray vs"] split: if_splits dest!: canonised_list)

lemma canonised_key: "is_text k \<or> is_ok (cbor_uint k) \<Longrightarrow> canonised w k k' \<Longrightarrow> k' = k"
  by (cases k) (auto simp: is_text_def cbor_uint_def is_ok_def dest: canonised_scalar)

lemma canonised_entries:
  "canonical_entries w es d i = Ok (res, j)
     \<Longrightarrow> list_all2 (\<lambda>e e'. fst e' = fst e \<and> canonised w (snd e) (snd e')) es (map snd res)"
proof (induction es arbitrary: i res)
  case (Cons e es)
  obtain k v where e: "e = (k, v)" by fastforce
  from Cons.prems obtain k' i1 v' i2 r where k: "is_text k \<or> is_ok (cbor_uint k)" "canonical w k d i = Ok (k', i1)"
    and v: "canonical w v d i1 = Ok (v', i2)" and r: "canonical_entries w es d i2 = Ok (r, j)" "res = (w k', k', v') # r"
    by (auto simp: e split: if_splits)
  then have "k' = k" "canonised w v v'" using canonised_key [of k w k'] by (auto simp: canonised_def)
  with r Cons.IH [OF r(1)] show ?case by (simp add: e)
qed auto

lemma canonised_map:
  assumes "canonised w (CMap es) u"
  obtains es' us where "u = CMap us" "mset us = mset es'"
    "list_all2 (\<lambda>e e'. fst e' = fst e \<and> canonised w (snd e) (snd e')) es es'"
proof -
  from assms obtain d i j res where res: "canonical_entries w es d i = Ok (res, j)"
    and u: "u = CMap (map snd (sort_key fst res))"
    by (auto simp: canonised_def canonical.simps [of w "CMap es"] Let_def split: if_splits)
  have "mset (map snd (sort_key fst res)) = mset (map snd res)" by simp
  from that [OF u this canonised_entries [OF res]] show ?thesis .
qed

lemma canonised_keys:
  assumes "list_all2 (\<lambda>e e'. fst e' = fst e \<and> canonised w (snd e) (snd e')) es es'" and "mset us = mset es'"
  shows "mset (map fst us) = mset (map fst es)"
proof -
  have "map fst es' = map fst es" using assms(1) by (induction rule: list_all2_induct) simp_all
  with assms(2) show ?thesis by (metis mset_map)
qed

lemma cbor_uint_key: "cbor_uint key = Ok k \<longleftrightarrow> key = CInteger (int k) \<and> k < 2 ^ 64"
  by (cases key) (auto simp: cbor_uint_def)

lemma optional_None: "CInteger (int k) \<notin> fst ` set es \<Longrightarrow> cbor_optional (CMap es) k = None"
  by (induction es) (auto simp: cbor_optional_def as_map_def cbor_uint_key)

lemma optional_Some:
  "distinct (map fst es) \<Longrightarrow> k < 2 ^ 64 \<Longrightarrow> (CInteger (int k), v) \<in> set es \<Longrightarrow> cbor_optional (CMap es) k = Some v"
proof (induction es)
  case (Cons e es)
  then show ?case by (cases e) (force simp: cbor_optional_def as_map_def cbor_uint_key)
qed simp

lemma list_all2_member: "list_all2 P xs ys \<Longrightarrow> x \<in> set xs \<Longrightarrow> \<exists>y\<in>set ys. P x y"
  by (induction rule: list_all2_induct) auto

lemma canonised_object:
  assumes "canonised w (cbor_object entries) u" and "distinct (map fst entries)"
  shows "k \<notin> fst ` set entries \<Longrightarrow> cbor_optional u k = None"
    and "(k, v) \<in> set entries \<Longrightarrow> k < 2 ^ 64 \<Longrightarrow> \<exists>v'. cbor_optional u k = Some v' \<and> canonised w v v'"
proof -
  let ?es = "map (\<lambda>(k, v). (CInteger (int k), v)) entries"
  from assms(1) obtain es' us where u: "u = CMap us" and us: "mset us = mset es'"
    and r: "list_all2 (\<lambda>e e'. fst e' = fst e \<and> canonised w (snd e) (snd e')) ?es es'"
    unfolding cbor_object_def by (rule canonised_map)
  note keys = canonised_keys [OF r us]
  have "map fst ?es = map (\<lambda>k. CInteger (int k)) (map fst entries)" by (simp add: comp_def case_prod_unfold)
  then have fst_es: "set (map fst ?es) = (\<lambda>k. CInteger (int k)) ` fst ` set entries" "distinct (map fst ?es)"
    using assms(2) by (simp_all only: set_map distinct_map) (auto simp: inj_on_def)
  then have d: "distinct (map fst us)" "set (map fst us) = (\<lambda>k. CInteger (int k)) ` fst ` set entries"
    using keys by (metis mset_eq_imp_distinct_iff, metis mset_eq_setD)
  show "cbor_optional u k = None" if "k \<notin> fst ` set entries"
  proof -
    have "CInteger (int k) \<notin> (\<lambda>k. CInteger (int k)) ` fst ` set entries" using that by (simp add: image_def)
    with d(2) show ?thesis unfolding u by (intro optional_None) simp
  qed
  show "\<exists>v'. cbor_optional u k = Some v' \<and> canonised w v v'" if "(k, v) \<in> set entries" "k < 2 ^ 64"
  proof -
    from that have "(CInteger (int k), v) \<in> set ?es" by force
    from list_all2_member [OF r this] obtain e' where e': "e' \<in> set es'" "fst e' = CInteger (int k)" "canonised w v (snd e')"
      by auto
    then have "(CInteger (int k), snd e') \<in> set us" using us by (metis mset_eq_setD prod.collapse)
    then show ?thesis using optional_Some [OF d(1) that(2)] u e'(3) by blast
  qed
qed

section \<open>The two ways to an attribute\<close>

text \<open>Two spellings of an attribute that no reader of the number or of the text can tell apart.\<close>

definition same_attribute :: "nat \<Rightarrow> string option \<Rightarrow> string option \<Rightarrow> bool" where
  "same_attribute k a b \<longleftrightarrow>
     (case (a, b) of
        (Some s, Some t) \<Rightarrow>
          if k = 7 then ok (parse_int_decimal s) = ok (parse_int_decimal t)
          else if k \<in> {6, 8, 12} then ok (parse_integer s) = ok (parse_integer t)
          else s = t
      | (None, None) \<Rightarrow> True
      | _ \<Rightarrow> False)"

lemma same_attribute_refl [simp]: "same_attribute k a a"
  by (simp add: same_attribute_def split: option.split)

lemma is_digit_10: "is_digit 10 c \<Longrightarrow> is_ascii_digit c"
  by (auto simp: is_digit_def digit_value_def is_ascii_lowercase_def is_ascii_uppercase_def split: if_splits)

lemma i64_parse_format:
  assumes "- (2 ^ 63) \<le> i" and "i < 2 ^ 63" shows "i64_parse (format_int i) = Ok i" "trim_ascii_start (format_int i) = format_int i"
proof -
  let ?n = "nat \<bar>i\<bar>"
  have f: "format_int i = (if i < 0 then CHR ''-'' # format_dec ?n else format_dec ?n)" by (simp add: format_int_def)
  note h = literal_heads [of ?n]
  note d = digits_of_formatted [of 10 ?n]
  have "split_sign (format_int i) = (i < 0, format_dec ?n)"
    unfolding f using h by (cases "format_dec ?n") (auto simp: split_sign_def)
  moreover have "list_all is_ascii_digit (format_dec ?n)"
    using d(1) is_digit_10 unfolding format_dec_def list_all_iff by simp
  moreover have "i64_from_digits (i < 0) (format_dec ?n) 10 = Ok i"
    using d(2) assms by (simp add: i64_from_digits_def format_dec_def Let_def)
  ultimately show "i64_parse (format_int i) = Ok i" using h by (simp add: i64_parse_def)
  show "trim_ascii_start (format_int i) = format_int i"
    using h by (auto simp: f trim_ascii_start_def dropWhile_eq_self_iff is_ascii_whitespace_def [of "CHR ''-''"])
qed

lemma find_name:
  "distinct (map snd xs) \<Longrightarrow> find_map (\<lambda>(n, a). if a = name then Some n else None) xs = Some k \<longleftrightarrow> (k, name) \<in> set xs"
  by (induction xs) (force split: if_splits)+

lemma tables_distinct:
  "distinct (map fst ATTRIBUTES)" "distinct (map snd ATTRIBUTES)" "distinct (map snd KINDS)" "distinct (map fst KINDS)"
  by (simp_all add: ATTRIBUTES_def KINDS_def)

lemma attribute_id_table: "attribute_id name = Some k \<longleftrightarrow> map_of ATTRIBUTES k = Some name"
  by (simp add: attribute_id_def find_name tables_distinct map_of_eq_Some_iff)

lemma trim_idem [simp]: "trim_ascii_start (trim_ascii_start s) = trim_ascii_start s"
  by (simp add: trim_ascii_start_def)

lemma parse_integer_trim [simp]: "parse_integer (trim_ascii_start s) = parse_integer s"
  by (simp add: parse_integer_def trim_ascii_start_def)

lemma converted_same:
  assumes "attribute_id name = Some k" and "source_value k name raw = Ok v" and "attribute_text k v = Ok t"
  shows "same_attribute k (Some t) (Some raw)"
proof (cases "k \<in> {6, 7, 8, 12}")
  case True
  then obtain lo hi where b: "attribute_integer_bounds k = Some (lo, hi)" "- (2 ^ 63) \<le> lo" "hi < 2 ^ 63"
    by (auto simp: attribute_integer_bounds_def)
  have delay: "name = ''delay'' \<longleftrightarrow> k = 7" using assms(1) by (auto simp: attribute_id_table ATTRIBUTES_def split: if_splits)
  from assms(1,2) True b obtain n where n: "v = CInteger n" "lo \<le> n" "n \<le> hi"
    and parsed: "if k = 7 then i64_parse (trim_ascii_start raw) = Ok n else parse_integer raw = Ok n"
    by (auto simp: source_value_def source_integer_def Let_def delay split: if_splits)
  from assms(3) True n b have t: "t = format_int n" by (simp add: attribute_text_def cbor_integer_def as_integer_def)
  have "- (2 ^ 63) \<le> n" "n < 2 ^ 63" using n b by linarith+
  then have "i64_parse t = Ok n" "trim_ascii_start t = t" "parse_integer t = Ok n"
    using i64_parse_format parse_format_int [of "[]" n] by (simp_all add: t)
  with parsed True show ?thesis by (auto simp: same_attribute_def parse_int_decimal_def split: if_splits)
next
  case False
  with assms show ?thesis
    by (auto simp: source_value_def attribute_text_def cbor_text_def as_text_def same_attribute_def split: if_splits)
qed

text \<open>The attributes that are executed on an element, in their order.\<close>

definition executed :: "nat list \<Rightarrow> (string option \<times> string \<times> string) list \<Rightarrow> (nat \<times> string \<times> string) list" where
  "executed allowed =
     List.map_filter (\<lambda>(ns, name, raw). case attribute_id name of
         Some k \<Rightarrow> if ns = None \<and> k \<in> set allowed then Some (k, name, raw) else None
       | None \<Rightarrow> None)"

lemma executed_simps [simp]:
  "executed allowed [] = []"
  "executed allowed ((ns, name, raw) # as) =
     (case attribute_id name of
        Some k \<Rightarrow> if ns = None \<and> k \<in> set allowed then (k, name, raw) # executed allowed as else executed allowed as
      | None \<Rightarrow> executed allowed as)"
  by (auto simp: executed_def List.map_filter_def split: option.split)

lemma executed_member:
  "(k, name, raw) \<in> set (executed allowed attributes)
     \<longleftrightarrow> (None, name, raw) \<in> set attributes \<and> attribute_id name = Some k \<and> k \<in> set allowed"
  by (induction attributes) (auto split: option.splits if_splits)

lemma executed_distinct:
  "distinct (map (\<lambda>(ns, name, _). (ns, name)) attributes) \<Longrightarrow> distinct (map fst (executed allowed attributes))"
proof (induction attributes)
  case (Cons a attributes)
  obtain ns name raw where a: "a = (ns, name, raw)" by (cases a)
  have "k \<notin> fst ` set (executed allowed attributes)" if "attribute_id name = Some k" "ns = None" for k
  proof
    assume "k \<in> fst ` set (executed allowed attributes)"
    then obtain name' raw' where e: "(None, name', raw') \<in> set attributes" "attribute_id name' = Some k"
      by (auto simp: executed_member)
    then have "name' = name" using that by (simp add: attribute_id_table)
    with e(1) have "(None, name) \<in> (\<lambda>(ns, name, _). (ns, name)) ` set attributes" by force
    with Cons.prems that show False by (simp add: a)
  qed
  with Cons show ?case by (auto simp: a split: option.split)
qed simp

definition executes :: "nat \<times> string \<times> string \<Rightarrow> cbor \<times> cbor \<Rightarrow> bool" where
  "executes x e \<longleftrightarrow> (case x of (k, name, raw) \<Rightarrow> \<exists>v. e = (CInteger (int k), v) \<and> source_value k name raw = Ok v)"

lemma executes_pair [simp]:
  "executes (k, name, raw) (key, v) \<longleftrightarrow> key = CInteger (int k) \<and> source_value k name raw = Ok v"
  by (auto simp: executes_def)

lemma source_attributes:
  "fold_res (source_attribute allowed) attributes (attrs0, inert0) = Ok (attrs, inert)
     \<Longrightarrow> \<exists>new. attrs = attrs0 @ new \<and> list_all2 executes (executed allowed attributes) new"
proof (induction attributes arbitrary: attrs0 inert0)
  case (Cons a attributes)
  obtain ns name raw where a: "a = (ns, name, raw)" by (cases a)
  from Cons.prems obtain attrs1 inert1 where step: "source_attribute allowed a (attrs0, inert0) = Ok (attrs1, inert1)"
    and rec: "fold_res (source_attribute allowed) attributes (attrs1, inert1) = Ok (attrs, inert)"
    by (cases "source_attribute allowed a (attrs0, inert0)") auto
  from Cons.IH [OF rec] obtain new where new: "attrs = attrs1 @ new" "list_all2 executes (executed allowed attributes) new"
    by blast
  show ?case
  proof (cases "\<exists>k. ns = None \<and> attribute_id name = Some k \<and> k \<in> set allowed")
    case True
    then obtain k where k: "ns = None" "attribute_id name = Some k" "k \<in> set allowed" by blast
    with step obtain v where "source_value k name raw = Ok v" "attrs1 = attrs0 @ [(CInteger (int k), v)]"
      by (auto simp: a source_attribute_def)
    with k new show ?thesis
      by (intro exI [of _ "(CInteger (int k), v) # new"]) (simp add: a)
  next
    case False
    then have "attrs1 = attrs0" using step
      by (auto simp: a source_attribute_def Let_def split: if_splits option.splits)
    with False new show ?thesis by (auto simp: a split: option.split)
  qed
qed simp

lemma attribute_table_inj: "map_of ATTRIBUTES k = Some name \<Longrightarrow> map_of ATTRIBUTES k' = Some name \<Longrightarrow> k = k'"
  by (simp flip: attribute_id_table)

text \<open>What the CBOR reader makes of the entries.\<close>

lemma attribute_fold:
  assumes "fold_res (attribute_step tag parent allowed) es m0 = Ok m" and "distinct (map fst es)"
    and "map_of ATTRIBUTES k = Some name" and "k < 2 ^ 64"
  shows "(CInteger (int k), v) \<in> set es \<Longrightarrow> \<exists>t. attribute_text k v = Ok t \<and> bt_get m name = Some t"
    and "CInteger (int k) \<notin> fst ` set es \<Longrightarrow> bt_get m name = bt_get m0 name"
proof -
  have "((CInteger (int k), v) \<in> set es \<longrightarrow> (\<exists>t. attribute_text k v = Ok t \<and> bt_get m name = Some t))
      \<and> (CInteger (int k) \<notin> fst ` set es \<longrightarrow> bt_get m name = bt_get m0 name)"
    using assms(1,2)
  proof (induction es arbitrary: m0)
    case (Cons e es)
    obtain key v' where e: "e = (key, v')" by fastforce
    from Cons.prems obtain m1 where step: "attribute_step tag parent allowed e m0 = Ok m1"
      and rec: "fold_res (attribute_step tag parent allowed) es m1 = Ok m" by auto
    note IH = Cons.IH [OF rec]
    from step obtain k' where k': "key = CInteger (int k')" "k' < 2 ^ 64" by (auto simp: attribute_step_def e cbor_uint_key)
    show ?case
    proof (cases "k' = k")
      case True
      with step assms(3) obtain t where "attribute_text k v' = Ok t" "m1 = bt_insert name t m0"
        by (auto simp: attribute_step_def e k' cbor_uint_def split: if_splits)
      with IH Cons.prems(2) True show ?thesis by (force simp: e k' bt_get_insert)
    next
      case False
      with step have "bt_get m1 name = bt_get m0 name"
        using attribute_table_inj [OF assms(3), of k']
        by (auto simp: attribute_step_def e k' cbor_uint_def bt_get_insert split: if_splits option.splits)
      with IH Cons.prems(2) False show ?thesis by (simp add: e k')
    qed
  qed simp
  then show "(CInteger (int k), v) \<in> set es \<Longrightarrow> \<exists>t. attribute_text k v = Ok t \<and> bt_get m name = Some t"
    and "CInteger (int k) \<notin> fst ` set es \<Longrightarrow> bt_get m name = bt_get m0 name" by blast+
qed

section \<open>The two ways to a node\<close>

text \<open>What the library's own readers see of a document.\<close>

fun element_view :: "source_node \<Rightarrow> xml option" where
  "element_view (Source_Element tag attributes nodes line) = Some (XElement tag attributes (map element_view nodes) line)"
| "element_view _ = None"

text \<open>
  Two nodes with the same tags and children, without required semantics, and with the same attributes
  wherever the runtime executes them.
\<close>

fun agrees :: "string \<Rightarrow> bool \<Rightarrow> bool \<Rightarrow> node \<Rightarrow> node \<Rightarrow> bool" where
  "agrees parent in_options ancestor (Node tag attrs kids line req) m \<longleftrightarrow>
     tag = node_tag m \<and> \<not> req \<and> \<not> node_required m
     \<and> (executable_path tag parent in_options ancestor \<longrightarrow>
          (\<forall>name k. attribute_id name = Some k \<and> k \<in> set (executable_attributes tag parent in_options)
             \<longrightarrow> same_attribute k (bt_get attrs name) (node_attr m name)))
     \<and> list_all2 (agrees tag in_options (executable_path tag parent in_options ancestor)) kids (node_children m)"

lemma extension_lookup:
  assumes "canonised w (CArray [cbor_object [(0, CText SOURCE_METADATA), (1, CBool False), (2, v)]]) x"
  obtains e p where "x = CArray [e]" "cbor_optional e 0 = Some (CText SOURCE_METADATA)"
    "cbor_optional e 1 = Some (CBool False)" "cbor_optional e 2 = Some p" "canonised w v p"
proof -
  from assms obtain e where x: "x = CArray [e]"
    and e: "canonised w (cbor_object [(0, CText SOURCE_METADATA), (1, CBool False), (2, v)]) e"
    by (auto simp: list_all2_Cons1 elim!: canonised_array)
  note look = canonised_object(2) [OF e, simplified]
  from look [of 0] look [of 1] look [of 2] that [OF x] show ?thesis
    by (auto dest: canonised_scalar)
qed

lemma executable_small: "k \<in> set (executable_attributes tag parent in_options) \<Longrightarrow> k < 2 ^ 64"
  by (auto simp: executable_attributes_def split: if_splits)

lemma kind_id_name: "kind_id tag = Some k \<longleftrightarrow> kind_name k = Some tag"
proof -
  have "find_map (\<lambda>(n, name). if n = k then Some name else None) xs = map_of xs k" for xs :: "(nat \<times> string) list"
    by (induction xs) auto
  then show ?thesis
    by (simp add: kind_id_def kind_name_def find_name tables_distinct map_of_eq_Some_iff)
qed

lemma kind_name_255: "kind_name 255 = None"
  by (simp add: kind_name_def KINDS_def)

lemma metadata_distinct: "distinct (map fst (source_metadata inert tag kind head tail))"
  by (auto simp: source_metadata_def List.map_filter_def Let_def)

lemma metadata_tag: "(1, CText tag) \<in> set (source_metadata inert tag 255 head tail)"
  by (auto simp: source_metadata_def Let_def)

lemma metadata_inert: "source_metadata inert tag kind head tail = [] \<Longrightarrow> kind \<noteq> 255"
  by (auto simp: source_metadata_def Let_def split: if_splits)

lemma source_kind_tag:
  assumes u: "canonised w (cbor_object (source_entries kind attrs children (source_metadata inert tag kind head tail))) u"
    and kind: "kind = (case kind_id tag of Some k \<Rightarrow> k | None \<Rightarrow> 255)"
  shows "node_kind_tag u kind = Ok tag' \<Longrightarrow> tag' = tag"
    and "required_extensions u 3 = Ok req \<Longrightarrow> \<not> req"
    and "kind_name kind = None \<Longrightarrow> kind = 255"
proof -
  let ?md = "source_metadata inert tag kind head tail"
  have dist: "distinct (map fst (source_entries kind attrs children ?md))" by (simp add: source_entries_def)
  note look = canonised_object [OF u dist]
  show kn: "kind_name kind = None \<Longrightarrow> kind = 255"
    using kind kind_id_name [of tag kind] by (cases "kind_id tag") simp_all
  have none: "cbor_optional u 3 = None" if "?md = []"
    by (rule look(1)) (simp add: that source_entries_def)
  have ext: "\<exists>e p. cbor_optional u 3 = Some (CArray [e]) \<and> cbor_optional e 0 = Some (CText SOURCE_METADATA)
      \<and> cbor_optional e 1 = Some (CBool False) \<and> cbor_optional e 2 = Some p \<and> canonised w (cbor_object ?md) p" if "?md \<noteq> []"
  proof -
    have "\<exists>v'. cbor_optional u 3 = Some v'
        \<and> canonised w (CArray [cbor_object [(0, CText SOURCE_METADATA), (1, CBool False), (2, cbor_object ?md)]]) v'"
      by (rule look(2)) (simp_all add: that source_entries_def)
    then obtain v' where v': "cbor_optional u 3 = Some v'"
      "canonised w (CArray [cbor_object [(0, CText SOURCE_METADATA), (1, CBool False), (2, cbor_object ?md)]]) v'" by blast
    from v'(2) show ?thesis by (rule extension_lookup) (use v'(1) in blast)
  qed
  show "\<not> req" if "required_extensions u 3 = Ok req"
  proof (cases "?md = []")
    case True
    with none that show ?thesis by (simp add: required_extensions_def)
  next
    case False
    with ext that show ?thesis
      by (auto simp: required_extensions_def cbor_array_def as_array_def extension_step_def cbor_field_def cbor_text_def
          as_text_def as_bool_def split: if_splits)
  qed
  show "tag' = tag" if "node_kind_tag u kind = Ok tag'"
  proof (cases "kind = 255")
    case True
    then have "?md \<noteq> []" using metadata_inert by blast
    with ext obtain e p where e: "cbor_optional u 3 = Some (CArray [e])" "cbor_optional e 0 = Some (CText SOURCE_METADATA)"
      "cbor_optional e 2 = Some p" and p: "canonised w (cbor_object ?md) p" by blast
    have "(1, CText tag) \<in> set ?md" using metadata_tag by (simp add: True)
    from canonised_object(2) [OF p metadata_distinct this] have "cbor_optional p 1 = Some (CText tag)"
      by (auto dest: canonised_scalar)
    with e that True show ?thesis
      by (auto simp: node_kind_tag_def cbor_field_def cbor_array_def as_array_def cbor_text_def as_text_def split: if_splits)
  next
    case False
    then have "kind_name kind = Some tag" using kind kind_id_name [of tag kind] by (cases "kind_id tag") simp_all
    with False that show ?thesis by (simp add: node_kind_tag_def)
  qed
qed

lemma executed_keys: "list_all2 executes xs es \<Longrightarrow> map fst es = map (\<lambda>x. CInteger (int (fst x))) xs"
  by (induction rule: list_all2_induct) (auto simp: executes_def)

lemma source_elementE:
  assumes "source_element (Source_Element tag attributes nodes line) following parent in_options ancestor depth = Ok v"
  obtains active allowed attrs inert children kind where
    "active = executable_path tag parent in_options ancestor"
    "allowed = (if active then executable_attributes tag parent in_options else [])"
    "fold_res (source_attribute allowed) attributes ([], []) = Ok (attrs, inert)"
    "kind = (case kind_id tag of Some k \<Rightarrow> k | None \<Rightarrow> 255)"
    "source_elements nodes tag in_options active (depth + 1) = Ok children" "depth \<le> MAX_DEPTH"
    "v = cbor_object (source_entries kind attrs children
           (source_metadata inert tag kind (leading_text nodes) (leading_text following)))"
  using assms that by (auto simp: Let_def split: if_splits)

text \<open>The attributes that are executed, read back, are those of the document.\<close>

lemma source_attributes_agree:
  assumes "fold_res (source_attribute allowed) attributes ([], []) = Ok (attrs, inert)"
    and "canonised w (CMap attrs) (CMap es)"
    and "fold_res (attribute_step tag parent allowed') es [] = Ok m"
    and unique: "distinct (map (\<lambda>(ns, name, _). (ns, name)) attributes)"
    and k: "attribute_id name = Some k" "k \<in> set allowed" "k < 2 ^ 64"
  shows "same_attribute k (bt_get m name) (x_attribute (XElement tag' attributes nodes line) name)"
proof -
  from source_attributes [OF assms(1)] have ex: "list_all2 executes (executed allowed attributes) attrs" by simp
  from assms(2) obtain es' where es': "mset es = mset es'"
    and r: "list_all2 (\<lambda>e e'. fst e' = fst e \<and> canonised w (snd e) (snd e')) attrs es'"
    by (auto elim: canonised_map)
  have scalar: "snd e' = snd e" if "executes x e" "canonised w (snd e) (snd e')" for x e e'
    using that by (auto simp: executes_def source_value_def source_integer_def Let_def dest!: canonised_scalar split: prod.splits if_splits)
  from ex r have all: "list_all2 executes (executed allowed attributes) es'"
  proof (induction arbitrary: es' rule: list_all2_induct)
    case (Cons x xs y ys)
    then obtain e es where "es' = e # es" "fst e = fst y" "canonised w (snd y) (snd e)"
      "list_all2 (\<lambda>e e'. fst e' = fst e \<and> canonised w (snd e) (snd e')) ys es" by (auto simp: list_all2_Cons1)
    moreover have "e = y" using Cons.hyps(1) calculation scalar by (intro prod_eqI) simp_all
    ultimately show ?case using Cons by simp
  qed simp
  have "map fst es' = map (\<lambda>x. CInteger (int (fst x))) (executed allowed attributes)"
    by (rule executed_keys [OF all])
  moreover have "distinct (map (\<lambda>x. CInteger (int (fst x))) (executed allowed attributes))"
    using executed_distinct [OF unique] by (auto simp: distinct_map inj_on_def)
  ultimately have "distinct (map fst es')" by simp
  then have dist: "distinct (map fst es)" using es' by (metis mset_eq_imp_distinct_iff mset_map)
  have set_es: "set es = set es'" using es' by (metis mset_eq_setD)
  note fold = attribute_fold [OF assms(3) dist k(1) [unfolded attribute_id_table] k(3)]
  show ?thesis
  proof (cases "x_attribute (XElement tag' attributes nodes line) name")
    case (Some raw)
    then have "(None, name, raw) \<in> set attributes"
      by (auto simp: x_attribute_def dest!: find_map_Some split: if_splits)
    then have "(k, name, raw) \<in> set (executed allowed attributes)" using k by (simp add: executed_member)
    from list_all2_member [OF all this] obtain e where e: "e \<in> set es" "executes (k, name, raw) e" unfolding set_es by blast
    from e(2) obtain v where "e = (CInteger (int k), v)" and v2: "source_value k name raw = Ok v" by (cases e) simp
    with e(1) have v: "(CInteger (int k), v) \<in> set es" "source_value k name raw = Ok v" by simp_all
    with fold(1) obtain t where "attribute_text k v = Ok t" "bt_get m name = Some t" by blast
    with converted_same [OF k(1) v(2)] Some show ?thesis by simp
  next
    case None
    have "CInteger (int k) \<notin> fst ` set es"
    proof
      assume "CInteger (int k) \<in> fst ` set es"
      then have "CInteger (int k) \<in> set (map fst es')" using set_es by simp
      then obtain name' raw where m: "(k, name', raw) \<in> set (executed allowed attributes)"
        using \<open>map fst es' = _\<close> by auto
      then have "name' = name" using k(1) by (simp add: executed_member attribute_id_table)
      with m have "(None, name, raw) \<in> set attributes" by (simp add: executed_member)
      with None show False by (induction attributes) (auto simp: x_attribute_def split: if_splits)
    qed
    with fold(2) None show ?thesis by (simp add: bt.get_empty)
  qed
qed

text \<open>What an XML parser guarantees: valid texts, and no attribute given twice to an element.\<close>

fun source_ok :: "source_node \<Rightarrow> bool" where
  "source_ok (Source_Element tag attributes nodes line) \<longleftrightarrow>
     from_utf8 tag
     \<and> list_all (\<lambda>(ns, name, raw). pred_option from_utf8 ns \<and> from_utf8 name \<and> from_utf8 raw) attributes
     \<and> distinct (map (\<lambda>(ns, name, _). (ns, name)) attributes) \<and> list_all source_ok nodes"
| "source_ok (Source_Text t) \<longleftrightarrow> from_utf8 t"
| "source_ok Source_Other \<longleftrightarrow> True"

lemma source_ok_unique: "source_ok d \<Longrightarrow> element_view d = Some x \<Longrightarrow> unique_attrs x"
proof (induction d arbitrary: x)
  case (Source_Element tag attributes nodes line)
  have "unique_attrs_all (map element_view ns)" if "set ns \<subseteq> set nodes" for ns
    using that
  proof (induction ns)
    case (Cons n ns)
    then have "element_view n = Some y \<Longrightarrow> unique_attrs y" for y
      using Source_Element.IH [of n y] Source_Element.prems by (simp add: list_all_iff)
    with Cons show ?case by (cases "element_view n") simp_all
  qed simp
  with Source_Element.prems show ?case by auto
qed simp_all

text \<open>What reading back a generated element gives: the tag, and the attributes and elements as canonised.\<close>

lemma read_back_element:
  assumes u: "canonised w (cbor_object (source_entries kind attrs children
        (source_metadata inert tag kind (leading_text nodes) (leading_text following)))) u"
    and kind: "kind = (case kind_id tag of Some k \<Rightarrow> k | None \<Rightarrow> 255)" and n: "cbor_node u parent in_options = Ok n"
  obtains m ms es us where "n = Node tag m ms 0 False" "canonised w (CMap attrs) (CMap es)" "list_all2 (canonised w) children us"
    "fold_res (attribute_step tag parent (executable_attributes tag parent in_options)) es [] = Ok m"
    "list_all2 (\<lambda>child m. cbor_node child tag in_options = Ok m) us ms"
proof -
  have dist: "distinct (map fst (source_entries kind attrs children
      (source_metadata inert tag kind (leading_text nodes) (leading_text following))))"
    by (simp add: source_entries_def)
  note look = canonised_object(2) [OF u dist]
  from n obtain tag' m ms req es kind' us kv av where
      n': "n = Node tag' m ms 0 (if kind_name kind' = None \<and> kind' \<noteq> 255 then True else req)"
    and kv: "cbor_optional u 0 = Some kv" "cbor_uint kv = Ok kind'" and tag': "node_kind_tag u kind' = Ok tag'"
    and req: "required_extensions u 3 = Ok req"
    and av: "cbor_optional u 1 = Some av" "cbor_fields av = Ok es"
    and m: "fold_res (attribute_step tag' parent (executable_attributes tag' parent in_options)) es [] = Ok m"
    and us: "cbor_optional u 2 = Some (CArray us)"
      "list_all2 (\<lambda>child m. cbor_node child tag' in_options = Ok m) us ms"
    by (rule cbor_nodeE)
  have k: "(0, CInteger (int kind)) \<in> set (source_entries kind attrs children md)"
    "(1, CMap attrs) \<in> set (source_entries kind attrs children md)"
    "(2, CArray children) \<in> set (source_entries kind attrs children md)" for md
    by (simp_all add: source_entries_def)
  have "kind' = kind" using look [OF k(1)] kv by (auto simp: cbor_uint_def dest!: canonised_scalar split: if_splits)
  note tags = source_kind_tag [OF u kind]
  have tag: "tag' = tag" and "\<not> req" using tags(1,2) tag' req \<open>kind' = kind\<close> by simp_all
  then have nn: "n = Node tag m ms 0 False" using tags(3) \<open>kind' = kind\<close> by (auto simp: n')
  from look [OF k(2)] av have av': "canonised w (CMap attrs) av" by simp
  then obtain es0 where "av = CMap es0" by (auto elim: canonised_map)
  then have es: "canonised w (CMap attrs) (CMap es)" using av av'
    by (auto simp: cbor_fields_def cbor_map_def as_map_def)
  from look [OF k(3)] us(1) have "list_all2 (canonised w) children us" by (auto elim: canonised_array)
  with that nn es m us(2) tag show ?thesis by blast
qed

lemma source_elements_agree:
  "source_element d following parent in_options ancestor depth = Ok v \<Longrightarrow> canonised w v u
     \<Longrightarrow> cbor_node u parent in_options = Ok n \<Longrightarrow> source_ok d \<Longrightarrow> element_view d = Some x
     \<Longrightarrow> agrees parent in_options ancestor n (copy x)"
  "source_elements ns parent in_options ancestor depth = Ok vs \<Longrightarrow> list_all2 (canonised w) vs us
     \<Longrightarrow> list_all2 (\<lambda>u n. cbor_node u parent in_options = Ok n) us nodes \<Longrightarrow> list_all source_ok ns
     \<Longrightarrow> list_all2 (agrees parent in_options ancestor) nodes (copies (map element_view ns))"
proof (induction d following parent in_options ancestor depth and ns parent in_options ancestor depth
    arbitrary: v u n x and vs us nodes rule: source_element_source_elements.induct)
  case (1 tag attributes nodes line following parent in_options ancestor depth)
  from 1(2) obtain active allowed attrs inert children kind where
      active: "active = executable_path tag parent in_options ancestor"
    and allowed: "allowed = (if active then executable_attributes tag parent in_options else [])"
    and attrs: "fold_res (source_attribute allowed) attributes ([], []) = Ok (attrs, inert)"
    and kind: "kind = (case kind_id tag of Some k \<Rightarrow> k | None \<Rightarrow> 255)"
    and kids: "source_elements nodes tag in_options active (depth + 1) = Ok children" and depth: "depth \<le> MAX_DEPTH"
    and v: "v = cbor_object (source_entries kind attrs children
           (source_metadata inert tag kind (leading_text nodes) (leading_text following)))"
    by (rule source_elementE)
  obtain m ms es us where n: "n = Node tag m ms 0 False" and es: "canonised w (CMap attrs) (CMap es)"
    and us: "list_all2 (canonised w) children us" "list_all2 (\<lambda>child m. cbor_node child tag in_options = Ok m) us ms"
    and m: "fold_res (attribute_step tag parent (executable_attributes tag parent in_options)) es [] = Ok m"
    by (rule read_back_element [OF 1(3) [unfolded v] kind 1(4)])
  from us(1) have kids_agree: "list_all2 (agrees tag in_options active) ms (copies (map element_view nodes))"
    by (rule 1(1) [OF depth [folded not_less] active allowed attrs refl kind kids]) (use us(2) 1(5) in simp_all)
  from 1(6) have x: "x = XElement tag attributes (map element_view nodes) line" by simp
  have unique: "unique_attrs x" using source_ok_unique 1(5,6) by blast
  have attr: "same_attribute k (bt_get m name) (node_attr (copy x) name)"
    if "active" "attribute_id name = Some k" "k \<in> set (executable_attributes tag parent in_options)" for name k
    unfolding copy_attr [OF unique] unfolding x
    by (rule source_attributes_agree [OF attrs es m _ that(2)])
      (use that 1(5) executable_small allowed in auto)
  from kids_agree attr show ?case by (simp add: n x active node_attr_def)
next
  case (5 d ds parent in_options ancestor depth)
  show ?case
  proof (cases "is_element d")
    case True
    then obtain y where y: "element_view d = Some y" by (cases d) (auto simp: is_element_def)
    from 5(4) True obtain v1 vs1 where v: "vs = v1 # vs1" "source_element d ds parent in_options ancestor depth = Ok v1"
      "source_elements ds parent in_options ancestor depth = Ok vs1" by auto
    from 5(5,6) obtain u1 us1 n1 ns1 where u: "canonised w v1 u1" "list_all2 (canonised w) vs1 us1"
      "cbor_node u1 parent in_options = Ok n1" "list_all2 (\<lambda>u n. cbor_node u parent in_options = Ok n) us1 ns1"
      "nodes = n1 # ns1" by (auto simp: v(1) list_all2_Cons1)
    from 5(7) have "source_ok d" "list_all source_ok ds" by simp_all
    with 5(1) [OF True v(2) u(1,3) _ y] 5(2) [OF True v(2,3) u(2,4)] show ?thesis by (simp add: y u(5))
  next
    case False
    with 5 show ?thesis by (cases d) (simp_all add: is_element_def)
  qed
qed auto

end
