(* ===== verification/Gen_Agree.thy ===== *)
theory Gen_Agree
  imports Gen_Node Monitor_Db
begin

text \<open>
  Whether a database was read from the XML sources or from the file that the generator made of them,
  the library builds the same options and the same monitor trees: a simulation between two contexts
  whose profiles are node pairs that agree. Results may differ in the messages of errors, which give
  the line of an XML source, and in the raw attributes of the options that the library never reads.
\<close>

section \<open>Agreeing nodes\<close>

lemma agrees_simps:
  assumes "agrees parent in_options ancestor n m"
  shows "node_tag m = node_tag n" "\<not> node_required n" "\<not> node_required m"
    and "list_all2 (agrees (node_tag n) in_options (executable_path (node_tag n) parent in_options ancestor))
           (node_children n) (node_children m)"
  using assms by (cases n; auto)+

lemma agrees_attr:
  assumes "agrees parent in_options ancestor n m" and "executable_path (node_tag n) parent in_options ancestor"
    and "attribute_id name = Some k" and "k \<in> set (executable_attributes (node_tag n) parent in_options)"
  shows "same_attribute k (node_attr n name) (node_attr m name)"
  using assms by (cases n) (auto simp: node_attr_def)

lemma same_text: "same_attribute k a b \<Longrightarrow> k \<notin> {6, 7, 8, 12} \<Longrightarrow> a = b"
  by (auto simp: same_attribute_def split: option.splits)

lemma agrees_text:
  assumes "agrees parent in_options ancestor n m" and "executable_path (node_tag n) parent in_options ancestor"
    and "case attribute_id name of Some k \<Rightarrow> k \<in> set (executable_attributes (node_tag n) parent in_options) \<and> k \<notin> {6, 7, 8, 12}
         | None \<Rightarrow> False"
  shows "node_attr n name = node_attr m name"
proof -
  from assms(3) obtain k where k: "attribute_id name = Some k"
    "k \<in> set (executable_attributes (node_tag n) parent in_options)" "k \<notin> {6, 7, 8, 12}"
    by (cases "attribute_id name") auto
  show ?thesis by (rule same_text [OF agrees_attr [OF assms(1,2) k(1,2)] k(3)])
qed

lemma agrees_required: "agrees parent in_options ancestor n m \<Longrightarrow> \<not> has_required n \<and> \<not> has_required m"
proof (induction n arbitrary: m parent ancestor)
  case (Node tag attrs kids line req)
  obtain tag' attrs' kids' line' req' where m: "m = Node tag' attrs' kids' line' req'" by (cases m)
  have "list_all2 (agrees tag in_options (executable_path tag parent in_options ancestor)) kids kids'"
    using Node.prems by (clarsimp simp: m)
  then have "list_all2 (\<lambda>c d. \<not> has_required c \<and> \<not> has_required d) kids kids'"
    by (rule list.rel_mono_strong) (use Node.IH in blast)
  then have "list_all (\<lambda>c. \<not> has_required c) kids" "list_all (\<lambda>c. \<not> has_required c) kids'"
    by (induction rule: list_all2_induct) simp_all
  with Node.prems show ?case by (simp add: m list_ex_iff list_all_iff)
qed

lemma agrees_refl: "\<not> has_required n \<Longrightarrow> agrees parent in_options ancestor n n"
proof (induction n arbitrary: parent ancestor)
  case (Node tag attrs kids line req)
  then have "list_all2 (agrees tag in_options (executable_path tag parent in_options ancestor)) kids kids"
    by (auto simp: list_ex_iff intro!: list.rel_refl_strong)
  with Node.prems show ?case by (simp add: node_attr_def)
qed

lemma agrees_tagged:
  assumes "agrees parent in_options ancestor n m"
  shows "list_all2 (\<lambda>c d. agrees (node_tag n) in_options (executable_path (node_tag n) parent in_options ancestor) c d
     \<and> node_tag c = tag) (tagged tag n) (tagged tag m)"
proof -
  have "list_all2 (\<lambda>c d. agrees t in_options a c d \<and> node_tag c = tag)
      (filter (\<lambda>c. node_tag c = tag) cs) (filter (\<lambda>c. node_tag c = tag) ds)"
    if "list_all2 (agrees t in_options a) cs ds" for t a cs ds
    using that by (induction rule: list_all2_induct) (auto simp: agrees_simps(1))
  with agrees_simps(4) [OF assms] show ?thesis by (simp add: tagged_def)
qed

lemma agrees_level: "agrees parent in_options ancestor n m \<Longrightarrow> \<not> level_required tag n \<and> \<not> level_required tag m"
  using agrees_required [of parent in_options ancestor n m]
  by (cases n; cases m) (auto simp: level_required_def list_ex_iff)

section \<open>Options\<close>

text \<open>The options without the attributes that only the scan tool reads, from the sources.\<close>

definition erase_value :: "option_value \<Rightarrow> option_value" where
  "erase_value v = v\<lparr>ov_raw_value := None\<rparr>"

definition erase_control :: "option_control \<Rightarrow> option_control" where
  "erase_control c = c\<lparr>oc_raw_address := None, oc_values := map erase_value (oc_values c)\<rparr>"

definition erase_subgroup :: "option_subgroup \<Rightarrow> option_subgroup" where
  "erase_subgroup sg = sg\<lparr>os_controls := map erase_control (os_controls sg)\<rparr>"

definition erase_group :: "option_group \<Rightarrow> option_group" where
  "erase_group g = g\<lparr>og_subgroups := map erase_subgroup (og_subgroups g)\<rparr>"

definition erase_options :: "options_db \<Rightarrow> options_db" where
  "erase_options options = options\<lparr>od_groups := map erase_group (od_groups options)\<rparr>"

text \<open>Readers that give the same results on agreeing nodes, up to a projection.\<close>

lemma collect_agree:
  assumes "list_all2 P xs ys" and "\<And>x y b. P x y \<Longrightarrow> g y = Ok b \<Longrightarrow> \<exists>a. f x = Ok a \<and> e a = e b"
    and "collect (map g ys) = Ok bs"
  shows "\<exists>as. collect (map f xs) = Ok as \<and> map e as = map e bs"
  using assms(1,3)
proof (induction arbitrary: bs rule: list_all2_induct)
  case (Cons x xs y ys)
  then show ?case using assms(2) [of x y] by (fastforce simp: Cons_eq_map_conv)
qed simp

lemma tagged_collect:
  assumes "agrees parent in_options ancestor n m"
    and "\<And>c d b. agrees (node_tag n) in_options (executable_path (node_tag n) parent in_options ancestor) c d
           \<Longrightarrow> node_tag c = tag \<Longrightarrow> load d = Ok b \<Longrightarrow> \<exists>a. load c = Ok a \<and> e a = e b"
    and "collect (map load (tagged tag m)) = Ok bs"
  shows "\<exists>as. collect (map load (tagged tag n)) = Ok as \<and> map e as = map e bs"
  by (rule collect_agree [OF agrees_tagged [OF assms(1)] _ assms(3)]) (use assms(2) in blast)

lemma path_simps [simp]:
  "executable_path ''options'' [] True True" "executable_path ''group'' ''options'' True True"
  "executable_path ''subgroup'' ''group'' True True" "executable_path ''control'' ''subgroup'' True True"
  "executable_path ''value'' ''control'' True True"
  "executable_path ''monitor'' [] False True" "executable_path ''controls'' ''monitor'' False True"
  "executable_path ''caps'' ''monitor'' False True" "executable_path ''include'' ''monitor'' False True"
  "executable_path ''control'' ''controls'' False True" "executable_path ''value'' ''control'' False True"
  by (simp_all add: executable_path_def executable_attributes_def)

lemma attribute_ids [simp]:
  "attribute_id ''name'' = Some 0" "attribute_id ''id'' = Some 1" "attribute_id ''type'' = Some 2"
  "attribute_id ''refresh'' = Some 3" "attribute_id ''pattern'' = Some 4" "attribute_id ''init'' = Some 5"
  "attribute_id ''address'' = Some 6" "attribute_id ''delay'' = Some 7" "attribute_id ''value'' = Some 8"
  "attribute_id ''file'' = Some 9" "attribute_id ''add'' = Some 10" "attribute_id ''remove'' = Some 11"
  "attribute_id ''dbversion'' = Some 12" "attribute_id ''date'' = Some 13" "attribute_id ''caps'' = Some 14"
  "attribute_id ''include'' = Some 15"
  by (simp_all add: attribute_id_def ATTRIBUTES_def)

lemma value_agree:
  assumes "agrees ''control'' True True n m" and "node_tag n = ''value''" and "load_value m = Ok b"
  shows "\<exists>a. load_value n = Ok a \<and> erase_value a = erase_value b"
proof -
  have "node_attr n name = node_attr m name" if "name \<in> {''name'', ''id''}" for name
    by (rule agrees_text [OF assms(1)]) (use assms(2) that in \<open>auto simp: executable_attributes_def\<close>)
  then show ?thesis using assms(3) by (auto simp: load_value_def required_attr_def erase_value_def)
qed

lemma control_agree:
  assumes a: "agrees ''subgroup'' True True n m" and tag: "node_tag n = ''control''" and b: "load_control m = Ok b"
  shows "\<exists>a. load_control n = Ok a \<and> erase_control a = erase_control b"
proof -
  have attr: "node_attr n name = node_attr m name" if "name \<in> {''name'', ''id'', ''type'', ''refresh''}" for name
    by (rule agrees_text [OF a]) (use tag that in \<open>auto simp: executable_attributes_def\<close>)
  have req: "\<not> has_required n" "\<not> has_required m" using agrees_required [OF a] by simp_all
  from b req obtain vs where vs: "collect (map load_value (tagged ''value'' m)) = Ok vs" by (auto simp: load_control_def)
  have "\<exists>us. collect (map load_value (tagged ''value'' n)) = Ok us \<and> map erase_value us = map erase_value vs"
    by (rule tagged_collect [OF a _ vs], rule value_agree) (simp_all add: tag)
  then obtain us where us: "collect (map load_value (tagged ''value'' n)) = Ok us" "map erase_value us = map erase_value vs" by blast
  with b req attr vs show ?thesis
    by (auto simp: load_control_def required_attr_def erase_control_def)
qed

lemma subgroup_agree:
  assumes a: "agrees ''group'' True True n m" and tag: "node_tag n = ''subgroup''" and b: "load_subgroup m = Ok b"
  shows "\<exists>a. load_subgroup n = Ok a \<and> erase_subgroup a = erase_subgroup b"
proof -
  have attr: "node_attr n name = node_attr m name" if "name \<in> {''name'', ''pattern''}" for name
    by (rule agrees_text [OF a]) (use tag that in \<open>auto simp: executable_attributes_def\<close>)
  have req: "\<not> level_required ''control'' n" "\<not> level_required ''control'' m" using agrees_level [OF a] by simp_all
  from b req obtain vs where vs: "collect (map load_control (tagged ''control'' m)) = Ok vs" by (auto simp: load_subgroup_def)
  have "\<exists>us. collect (map load_control (tagged ''control'' n)) = Ok us \<and> map erase_control us = map erase_control vs"
    by (rule tagged_collect [OF a _ vs], rule control_agree) (simp_all add: tag)
  then obtain us where "collect (map load_control (tagged ''control'' n)) = Ok us" "map erase_control us = map erase_control vs" by blast
  with b req attr vs show ?thesis by (auto simp: load_subgroup_def required_attr_def erase_subgroup_def)
qed

lemma group_agree:
  assumes a: "agrees ''options'' True True n m" and tag: "node_tag n = ''group''" and b: "load_group m = Ok b"
  shows "\<exists>a. load_group n = Ok a \<and> erase_group a = erase_group b"
proof -
  have attr: "node_attr n ''name'' = node_attr m ''name''"
    by (rule agrees_text [OF a]) (simp_all add: tag executable_attributes_def)
  have req: "\<not> level_required ''subgroup'' n" "\<not> level_required ''subgroup'' m" using agrees_level [OF a] by simp_all
  from b req obtain vs where vs: "collect (map load_subgroup (tagged ''subgroup'' m)) = Ok vs" by (auto simp: load_group_def)
  have "\<exists>us. collect (map load_subgroup (tagged ''subgroup'' n)) = Ok us \<and> map erase_subgroup us = map erase_subgroup vs"
    by (rule tagged_collect [OF a _ vs], rule subgroup_agree) (simp_all add: tag)
  then obtain us where "collect (map load_subgroup (tagged ''subgroup'' n)) = Ok us" "map erase_subgroup us = map erase_subgroup vs" by blast
  with b req attr vs show ?thesis by (auto simp: load_group_def required_attr_def erase_group_def)
qed

lemma same_version: "ok (parse_integer s) = ok (parse_integer t) \<Longrightarrow> check_dbversion s = check_dbversion t"
  by (cases "parse_integer s"; cases "parse_integer t") (auto simp: check_dbversion_def)

lemma options_agree:
  assumes a: "agrees [] True True n m" and b: "load_options_node m = Ok b"
  shows "\<exists>a. load_options_node n = Ok a \<and> erase_options a = erase_options b"
proof -
  have req: "\<not> level_required ''group'' n" "\<not> level_required ''group'' m" using agrees_level [OF a] by simp_all
  with b have tag: "node_tag n = ''options''" "node_tag m = ''options''"
    using agrees_simps(1) [OF a] by (auto simp: load_options_node_def split: if_splits)
  have date: "node_attr n ''date'' = node_attr m ''date''"
    by (rule agrees_text [OF a]) (simp_all add: tag executable_attributes_def)
  have "same_attribute 12 (node_attr n ''dbversion'') (node_attr m ''dbversion'')"
    using agrees_attr [OF a, of "''dbversion''"] tag by (simp add: executable_attributes_def)
  moreover from b req tag obtain t where t: "node_attr m ''dbversion'' = Some t" "check_dbversion t = Ok ()"
    by (auto simp: load_options_node_def)
  ultimately obtain s where "node_attr n ''dbversion'' = Some s" "ok (parse_integer s) = ok (parse_integer t)"
    by (cases "node_attr n ''dbversion''") (simp_all add: same_attribute_def)
  with same_version [of s t] t(2) have s: "node_attr n ''dbversion'' = Some s" "check_dbversion s = Ok ()" by simp_all
  from b req tag obtain vs where vs: "collect (map load_group (tagged ''group'' m)) = Ok vs" by (auto simp: load_options_node_def)
  have "\<exists>us. collect (map load_group (tagged ''group'' n)) = Ok us \<and> map erase_group us = map erase_group vs"
    by (rule tagged_collect [OF a _ vs], rule group_agree) (simp_all add: tag)
  then obtain us where "collect (map load_group (tagged ''group'' n)) = Ok us" "map erase_group us = map erase_group vs" by blast
  with b req tag date s t vs show ?thesis by (auto simp: load_options_node_def erase_options_def)
qed

text \<open>What the loader reads of the options is left by the erasure.\<close>

lemma erase_control_simps [simp]:
  "oc_id (erase_control c) = oc_id c" "oc_name (erase_control c) = oc_name c" "oc_type (erase_control c) = oc_type c"
  "oc_refresh (erase_control c) = oc_refresh c" "oc_unavailable (erase_control c) = oc_unavailable c"
  "oc_values (erase_control c) = map erase_value (oc_values c)"
  by (simp_all add: erase_control_def)

lemma erase_value_simps [simp]: "ov_id (erase_value v) = ov_id v" "ov_name (erase_value v) = ov_name v"
  by (simp_all add: erase_value_def)

lemma controls_erase: "options_controls (erase_options options) = map erase_control (options_controls options)"
  by (simp add: options_controls_def erase_options_def erase_group_def erase_subgroup_def map_concat comp_def)

lemma enumerate_map: "enumerate n (map f xs) = map (\<lambda>(i, x). (i, f x)) (enumerate n xs)"
  by (induction xs arbitrary: n) simp_all

lemma slots_erase: "option_slots (erase_options options) = map (\<lambda>(gi, si, c). (gi, si, erase_control c)) (option_slots options)"
  by (simp add: option_slots_def erase_options_def erase_group_def erase_subgroup_def map_concat comp_def enumerate_map
      case_prod_unfold)

lemma groups_erase: "groups_from_options translate (erase_options options) = groups_from_options translate options"
  by (simp add: groups_from_options_def erase_options_def erase_group_def erase_subgroup_def comp_def)

section \<open>Similar loaders\<close>

text \<open>The same outcome in the same state; errors may differ in their messages.\<close>

definition same_error :: "db_error \<Rightarrow> db_error \<Rightarrow> bool" where
  "same_error e f \<longleftrightarrow>
     de_missing_profile e = de_missing_profile f \<and> de_required_feature e = de_required_feature f"

definition similar :: "('a \<Rightarrow> 'b \<Rightarrow> bool) \<Rightarrow> 'a loader \<Rightarrow> 'b loader \<Rightarrow> bool" where
  "similar R m m' \<longleftrightarrow> (\<forall>s. rel_option (rel_prod (rel_sum same_error R) (=)) (m s) (m' s))"

lemma same_error_refl [simp, intro]: "same_error e e"
  by (simp add: same_error_def)

lemma same_error_messages [simp, intro]:
  "same_error (db_err t) (db_err u)" "same_error (db_err_required t) (db_err_required u)"
  "same_error (db_err_missing t) (db_err_missing u)"
  by (simp_all add: same_error_def db_err_def db_err_required_def db_err_missing_def)

lemma similarI: "(\<And>s. rel_option (rel_prod (rel_sum same_error R) (=)) (m s) (m' s)) \<Longrightarrow> similar R m m'"
  by (simp add: similar_def)

lemma similarD: "similar R m m' \<Longrightarrow> rel_option (rel_prod (rel_sum same_error R) (=)) (m s) (m' s)"
  by (simp add: similar_def)

lemma similar_refl [simp, intro]: "similar (=) m m"
  by (intro similarI option.rel_refl prod.rel_refl sum.rel_refl) simp_all

lemma similar_same: "m = m' \<Longrightarrow> similar (=) m m'"
  by simp

lemma similar_ret [intro]: "R x y \<Longrightarrow> similar R (lret x) (lret y)"
  by (simp add: similar_def lret_def)

lemma similar_fail [intro]: "same_error e f \<Longrightarrow> similar R (lfail e) (lfail f)"
  by (simp add: similar_def lfail_def)

lemma similar_lift [intro]: "rel_sum same_error R r r' \<Longrightarrow> similar R (lift r) (lift r')"
  by (simp add: similar_def lift_def)

lemma similar_bind:
  assumes "similar R m m'" and "\<And>x y. R x y \<Longrightarrow> similar Q (f x) (f' y)"
  shows "similar Q (lbind m f) (lbind m' f')"
proof (rule similarI)
  fix s
  from similarD [OF assms(1), of s] show "rel_option (rel_prod (rel_sum same_error Q) (=)) (lbind m f s) (lbind m' f' s)"
    by (cases rule: option.rel_cases)
      (auto simp: lbind_def rel_prod_sel split: sum.splits intro: similarD [OF assms(2)] elim!: rel_sum.cases)
qed

lemma similar_for:
  assumes "list_all2 P xs ys" and "\<And>x y a. P x y \<Longrightarrow> similar (=) (f x a) (g y a)"
  shows "similar (=) (lfor f xs a) (lfor g ys a)"
  using assms(1)
proof (induction arbitrary: a rule: list_all2_induct)
  case (Cons x xs y ys)
  have "lfor f (x # xs) a = lbind (f x a) (lfor f xs)" "lfor g (y # ys) a = lbind (g y a) (lfor g ys)" for a
    by (simp_all add: fun_eq_iff)
  then show ?case using similar_bind [OF assms(2) [OF Cons.hyps(1)]] Cons.IH by metis
next
  case Nil
  have "lfor f [] a = lfor g [] a" by (rule ext) simp
  then show ?case by simp
qed

section \<open>Similar profiles\<close>

definition same_value :: "monitor_value \<Rightarrow> monitor_value \<Rightarrow> bool" where
  "same_value v w \<longleftrightarrow>
     mv_element_name v = mv_element_name w
     \<and> (mv_element_name w = ''value'' \<longrightarrow>
          mv_id v = mv_id w \<and> same_attribute 8 (mv_raw_value v) (mv_raw_value w))"

definition same_control :: "monitor_control \<Rightarrow> monitor_control \<Rightarrow> bool" where
  "same_control c d \<longleftrightarrow>
     mc_id c = mc_id d \<and> monitor_control_address c = monitor_control_address d
     \<and> monitor_control_delay c = monitor_control_delay d \<and> list_all2 same_value (mc_values c) (mc_values d)
     \<and> mc_child_index c = mc_child_index d \<and> mc_unavailable c = mc_unavailable d"

definition same_controls :: "parsed_monitor_controls \<Rightarrow> parsed_monitor_controls \<Rightarrow> bool" where
  "same_controls p q \<longleftrightarrow>
     list_all2 same_control (pc_controls p) (pc_controls q)
     \<and> map me_unavailable (pc_elements p) = map me_unavailable (pc_elements q)"

lemma find_position_same:
  "list_all2 (\<lambda>x y. P x = Q y) xs ys \<Longrightarrow> find_position P xs = find_position Q ys"
  by (induction rule: list_all2_induct) auto

lemma value_step_same:
  assumes "same_control c d"
  shows "value_step translate (erase_control oc) c (erase_value v) = value_step translate oc d v"
proof -
  let ?P = "\<lambda>mv. mv_element_name mv = ''value'' \<and> mv_id mv = Some (ov_id v)"
  have vals: "list_all2 same_value (mc_values c) (mc_values d)" using assms by (simp add: same_control_def)
  then have "list_all2 (\<lambda>x y. ?P x = ?P y) (mc_values c) (mc_values d)"
    by (rule list_all2_mono) (auto simp: same_value_def)
  then have pos: "find_position ?P (mc_values c) = find_position ?P (mc_values d)" by (rule find_position_same)
  show ?thesis
  proof (cases "find_position ?P (mc_values d)")
    case None
    with pos show ?thesis by (simp add: value_step_def fun_eq_iff)
  next
    case (Some i)
    then have i: "i < length (mc_values d)" "?P (mc_values d ! i)" by (auto simp: find_position_eq_Some)
    then have "same_value (mc_values c ! i) (mc_values d ! i)" using vals by (simp add: list_all2_conv_all_nth)
    with i(2) have raw: "same_attribute 8 (mv_raw_value (mc_values c ! i)) (mv_raw_value (mc_values d ! i))"
      by (simp add: same_value_def)
    show ?thesis
    proof (cases "mv_raw_value (mc_values d ! i)")
      case None
      with raw have "mv_raw_value (mc_values c ! i) = None" by (simp add: same_attribute_def split: option.splits)
      with None Some pos show ?thesis by (simp add: value_step_def fun_eq_iff)
    next
      case r: (Some r)
      with raw obtain q where q: "mv_raw_value (mc_values c ! i) = Some q" "ok (parse_integer q) = ok (parse_integer r)"
        by (cases "mv_raw_value (mc_values c ! i)") (simp_all add: same_attribute_def)
      have name: "option_value_name (erase_control oc) (erase_value v) = option_value_name oc v"
        by (simp add: option_value_name_def cong: option.case_cong)
      show ?thesis
        by (cases "parse_integer r"; cases "parse_integer q")
          (use q r Some pos in \<open>simp_all add: value_step_def fun_eq_iff name\<close>)
    qed
  qed
qed

lemma same_value_list:
  assumes "same_control c d"
  shows "get_value_list translate (erase_control oc) c ft = get_value_list translate oc d ft"
proof -
  have "fold_res (value_step translate (erase_control oc) c) (map erase_value vs) st = fold_res (value_step translate oc d) vs st" for vs st
    by (induction vs arbitrary: st) (simp_all add: value_step_same [OF assms] and_then_def split: sum.split)
  moreover have "length (mc_values c) = length (mc_values d)"
    using assms by (auto simp: same_control_def dest: list_all2_lengthD)
  ultimately show ?thesis by (simp add: get_value_list_def)
qed

lemma same_find:
  assumes "list_all2 same_control cs ds"
  shows "rel_option same_control (find (\<lambda>c. mc_id c = ident) cs) (find (\<lambda>c. mc_id c = ident) ds)"
  using assms by (induction rule: list_all2_induct) (auto simp: same_control_def)

lemma add_control_same:
  assumes "list_all2 same_control cs ds"
  shows "add_control translate mode cs (gi, si, erase_control oc) = add_control translate mode ds (gi, si, oc)"
proof (intro ext)
  fix matched s
  have types: "type_code (oc_type (erase_control oc)) = type_code (oc_type oc)" by simp
  show "add_control translate mode cs (gi, si, erase_control oc) matched s = add_control translate mode ds (gi, si, oc) matched s"
  proof (cases "find (\<lambda>c. mc_id c = oc_id oc) ds")
    case None
    then show ?thesis using same_find [OF assms, of "oc_id oc"] by (simp add: add_control_def)
  next
    case (Some d)
    then obtain c where c: "find (\<lambda>c. mc_id c = oc_id oc) cs = Some c" "same_control c d"
      using same_find [OF assms, of "oc_id oc"] by (cases "find (\<lambda>c. mc_id c = oc_id oc) cs") auto
    have "mc_child_index c = mc_child_index d" "mc_unavailable c = mc_unavailable d"
      "monitor_control_address c = monitor_control_address d" "monitor_control_delay c = monitor_control_delay d"
      using c(2) by (simp_all add: same_control_def)
    with Some c(1) show ?thesis
      unfolding add_control_def by (simp add: same_value_list [OF c(2)] cong: if_cong)
  qed
qed

lemma block_step_same:
  assumes "same_control c d"
  shows "block_step (erase_options options) c = block_step options d"
proof -
  have "mc_id c = mc_id d" "mc_child_index c = mc_child_index d" "monitor_control_address c = monitor_control_address d"
    using assms by (simp_all add: same_control_def)
  moreover have "list_ex (\<lambda>c. oc_id c = t \<and> oc_unavailable c) (map erase_control cs)
      = list_ex (\<lambda>c. oc_id c = t \<and> oc_unavailable c) cs" for t cs by (simp add: list_ex_iff)
  ultimately show ?thesis by (simp add: block_step_def fun_eq_iff controls_erase)
qed

lemma lfor_same: "list_all2 (\<lambda>x y. f x = g y) xs ys \<Longrightarrow> lfor f xs a = lfor g ys a"
proof (induction arbitrary: a rule: list_all2_induct)
  case (Cons x xs y ys)
  have "lfor f (x # xs) a = lbind (f x a) (lfor f xs)" "lfor g (y # ys) a = lbind (g y a) (lfor g ys)" for a
    by (simp_all add: fun_eq_iff)
  moreover have "lfor f xs = lfor g ys" using Cons.IH by (simp add: fun_eq_iff)
  ultimately show ?case using Cons.hyps(1) by simp
qed (simp add: fun_eq_iff)

lemma add_controls_same:
  assumes "same_controls p q" and "erase_options options = erase_options options'"
  shows "add_controls_from_options translate mode options p = add_controls_from_options translate mode options' q"
proof -
  have eq: "add_controls_from_options translate mode (erase_options o1) p = add_controls_from_options translate mode o1 q"
    if "same_controls p q" for o1 p q
  proof -
    from that have cs: "list_all2 same_control (pc_controls p) (pc_controls q)"
      and me: "map me_unavailable (pc_elements p) = map me_unavailable (pc_elements q)" by (simp_all add: same_controls_def)
    have "lfor (block_step (erase_options o1)) (pc_controls p) a = lfor (block_step o1) (pc_controls q) a" for a
      by (rule lfor_same, rule list_all2_mono [OF cs]) (rule block_step_same)
    moreover have "list_all2 (\<lambda>x y. add_control translate mode (pc_controls p) x = add_control translate mode (pc_controls q) y)
        (option_slots (erase_options o1)) (option_slots o1)"
      by (auto simp: slots_erase list.rel_map case_prod_unfold add_control_same [OF cs, simplified] intro!: list.rel_refl)
    then have "lfor (add_control translate mode (pc_controls p)) (option_slots (erase_options o1)) a
        = lfor (add_control translate mode (pc_controls q)) (option_slots o1) a" for a by (rule lfor_same)
    ultimately show ?thesis using me by (simp add: add_controls_from_options_def)
  qed
  have "same_controls p p" by (simp add: same_controls_def same_control_def same_value_def list.rel_refl)
  from eq [OF this, of options] eq [OF assms(1), of options'] assms(2) show ?thesis by simp
qed

lemma same_address:
  assumes "same_attribute 6 (mc_raw_address c) (mc_raw_address d)"
  shows "monitor_control_address c = monitor_control_address d"
proof (cases "mc_raw_address d")
  case (Some t)
  with assms obtain s where "mc_raw_address c = Some s" "ok (parse_integer s) = ok (parse_integer t)"
    by (cases "mc_raw_address c") (simp_all add: same_attribute_def)
  with Some show ?thesis
    by (cases "parse_integer t"; cases "parse_integer s") (simp_all add: monitor_control_address_def)
qed (use assms in \<open>cases "mc_raw_address c"; simp add: same_attribute_def monitor_control_address_def\<close>)

lemma same_delay:
  assumes "same_attribute 7 (mc_raw_delay c) (mc_raw_delay d)"
  shows "monitor_control_delay c = monitor_control_delay d"
proof (cases "mc_raw_delay d")
  case (Some t)
  with assms obtain s where "mc_raw_delay c = Some s" "ok (parse_int_decimal s) = ok (parse_int_decimal t)"
    by (cases "mc_raw_delay c") (simp_all add: same_attribute_def)
  with Some show ?thesis
    by (cases "parse_int_decimal t"; cases "parse_int_decimal s") (simp_all add: monitor_control_delay_def)
qed (use assms in \<open>cases "mc_raw_delay c"; simp add: same_attribute_def monitor_control_delay_def\<close>)

lemma parse_value_same:
  assumes "agrees ''control'' False True n m"
  shows "same_value (parse_monitor_value n) (parse_monitor_value m)"
proof (cases "node_tag n = ''value''")
  case True
  have "same_attribute 8 (node_attr n ''value'') (node_attr m ''value'')" "same_attribute 1 (node_attr n ''id'') (node_attr m ''id'')"
    by (rule agrees_attr [OF assms]; simp add: True executable_attributes_def)+
  with True show ?thesis
    using agrees_simps(1) [OF assms] same_text by (auto simp: same_value_def parse_monitor_value_def)
qed (use agrees_simps(1) [OF assms] in \<open>simp add: same_value_def parse_monitor_value_def\<close>)

lemma parse_control_same:
  assumes a: "agrees ''controls'' False True n m"
  shows "rel_option same_control (parse_monitor_control (i, n)) (parse_monitor_control (i, m))"
proof (cases "node_tag n = ''control''")
  case True
  have attrs: "same_attribute 6 (node_attr n ''address'') (node_attr m ''address'')"
    "same_attribute 7 (node_attr n ''delay'') (node_attr m ''delay'')" "same_attribute 1 (node_attr n ''id'') (node_attr m ''id'')"
    by (rule agrees_attr [OF a]; simp add: True executable_attributes_def)+
  have ident: "node_attr n ''id'' = node_attr m ''id''" by (rule same_text [OF attrs(3)]) simp
  have "list_all2 (agrees ''control'' False True) (node_children n) (node_children m)"
    using agrees_simps(4) [OF a] by (simp add: True)
  then have vals: "list_all2 same_value (map parse_monitor_value (node_children n)) (map parse_monitor_value (node_children m))"
    unfolding list.rel_map by (rule list_all2_mono) (rule parse_value_same)
  have tag: "node_tag m = ''control''" "\<not> has_required n" "\<not> has_required m"
    using agrees_simps(1) [OF a] agrees_required [OF a] True by simp_all
  show ?thesis
  proof (cases "node_attr m ''id''")
    case (Some t)
    with ident True tag attrs vals show ?thesis
      by (auto simp: parse_monitor_control_def same_control_def intro: same_address same_delay)
  qed (use ident True tag in \<open>simp add: parse_monitor_control_def\<close>)
qed (use agrees_simps(1) [OF a] in \<open>simp add: parse_monitor_control_def\<close>)

lemma parse_controls_same:
  assumes a: "agrees ''monitor'' False True n m" and tag: "node_tag n = ''controls''"
  shows "same_controls (parse_monitor_controls n) (parse_monitor_controls m)"
proof -
  have kids: "list_all2 (agrees ''controls'' False True) (node_children n) (node_children m)"
    using agrees_simps(4) [OF a] by (simp add: tag)
  have "list_all2 same_control (List.map_filter parse_monitor_control (enumerate i cs))
      (List.map_filter parse_monitor_control (enumerate i ds))" if "list_all2 (agrees ''controls'' False True) cs ds" for cs ds i
    using that
  proof (induction arbitrary: i rule: list_all2_induct)
    case (Cons c cs d ds)
    then show ?case using parse_control_same [of c d i]
      by (auto simp: List.map_filter_simps split: option.split elim: option.rel_cases)
  qed (simp add: List.map_filter_simps)
  with kids have "list_all2 same_control (pc_controls (parse_monitor_controls n)) (pc_controls (parse_monitor_controls m))"
    by (simp add: parse_monitor_controls_def)
  moreover have "map me_unavailable (map parse_element cs) = map me_unavailable (map parse_element ds)"
    if "list_all2 (agrees ''controls'' False True) cs ds" for cs ds
    using that by (induction rule: list_all2_induct) (auto simp: parse_element_def dest: agrees_required)
  with kids have "map me_unavailable (pc_elements (parse_monitor_controls n)) = map me_unavailable (pc_elements (parse_monitor_controls m))"
    by (simp add: parse_monitor_controls_def)
  ultimately show ?thesis by (simp add: same_controls_def)
qed

section \<open>The simulation\<close>

definition same_profile :: "node checked \<Rightarrow> node checked \<Rightarrow> bool" where
  "same_profile r r' \<longleftrightarrow> (\<exists>n m. r = Ok n \<and> r' = Ok m \<and> agrees [] False True n m \<and> node_tag n = ''monitor'')"

definition same_context :: "db_context \<Rightarrow> db_context \<Rightarrow> bool" where
  "same_context c x \<longleftrightarrow>
     cx_monitor_file c = cx_monitor_file x
     \<and> pred_option (\<lambda>f. \<not> has_required (mf_root f)) (cx_monitor_file x)
     \<and> erase_options (cx_options c) = erase_options (cx_options x)
     \<and> (\<forall>ident. rel_option same_profile (bt_get (cx_profiles c) ident) (bt_get (cx_profiles x) ident))"

lemma no_required_reserve: "\<not> list_ex has_required cs \<Longrightarrow> lfor reserve_required cs u = lret u"
proof (induction cs arbitrary: u)
  case (Cons c cs)
  then have "lfor reserve_required (c # cs) u = lbind (lret ()) (lfor reserve_required cs)"
    by (simp add: fun_eq_iff reserve_required_def)
  with Cons show ?case by (simp add: fun_eq_iff lbind_def lret_def)
qed (simp add: fun_eq_iff)

lemma controls_child_same:
  assumes a: "agrees ''monitor'' False True n m" and "node_tag n = ''controls''" and cx: "same_context c x"
  shows "controls_child translate c mode n = controls_child translate x mode m"
proof -
  have "\<not> list_ex has_required (node_children n)" "\<not> list_ex has_required (node_children m)"
    using agrees_required [OF a] by (cases n; cases m; simp)+
  then have req: "\<not> list_ex (\<lambda>n. node_tag n \<noteq> ''control'' \<and> has_required n) (node_children n)"
    "\<not> list_ex (\<lambda>n. node_tag n \<noteq> ''control'' \<and> has_required n) (node_children m)"
    "lfor reserve_required (node_children n) = lret" "lfor reserve_required (node_children m) = lret"
    by (auto simp: list_ex_iff fun_eq_iff no_required_reserve)
  have "add_controls_from_options translate mode (cx_options c) (parse_monitor_controls n)
      = add_controls_from_options translate mode (cx_options x) (parse_monitor_controls m)"
    using cx by (intro add_controls_same parse_controls_same [OF assms(1,2)]) (simp add: same_context_def)
  with req show ?thesis by (simp add: controls_child_def)
qed

lemma caps_child_similar:
  assumes a: "agrees ''monitor'' False True n m" and tag: "node_tag n = ''caps''"
  shows "similar (=) (caps_child avail n) (caps_child avail m)"
proof -
  have attr: "node_attr n ''add'' = node_attr m ''add''" "node_attr n ''remove'' = node_attr m ''remove''"
    by (rule agrees_text [OF a]; simp add: tag executable_attributes_def)+
  have edits: "similar (=) (apply_caps avail t k e) (apply_caps avail t k f)" if "same_error e f" for t k e f
    using that by (intro similarI) (auto simp: apply_caps_def lfail_def lret_def Let_def split: option.split prod.split)
  show ?thesis
    unfolding caps_child_def attr
    by (auto intro!: similar_bind edits split: option.split simp: node_error_def)
qed

lemma find_root_same:
  assumes "same_context c x"
  shows "rel_sum same_error (agrees [] False True) (find_root c pnpname level) (find_root x pnpname level)"
proof -
  have mf: "cx_monitor_file c = cx_monitor_file x" "pred_option (\<lambda>f. \<not> has_required (mf_root f)) (cx_monitor_file x)"
    and ps: "rel_option same_profile (bt_get (cx_profiles c) pnpname) (bt_get (cx_profiles x) pnpname)"
    using assms by (simp_all add: same_context_def)
  show ?thesis
  proof (cases "\<exists>f. cx_monitor_file x = Some f \<and> level = 0 \<and> mf_pnpid f = pnpname")
    case True
    with mf show ?thesis by (auto simp: find_root_def agrees_refl)
  next
    case False
    then have "find_root y pnpname level = (case bt_get (cx_profiles y) pnpname of
        None \<Rightarrow> Err (db_err_missing (''Monitor profile '' @ pnpname @ '' is unavailable.''))
      | Some root \<Rightarrow> map_err db_err root)" if "cx_monitor_file y = cx_monitor_file x" for y
      using that by (auto simp: find_root_def split: option.splits)
    with mf ps show ?thesis by (auto simp: same_profile_def elim!: option.rel_cases)
  qed
qed

lemma open_root_similar:
  assumes "same_context c x"
  shows "similar (\<lambda>n m. agrees [] False True n m \<and> node_tag n = ''monitor'') (open_root c mode pnpname level) (open_root x mode pnpname level)"
proof -
  have "similar (\<lambda>n m. agrees [] False True n m \<and> node_tag n = ''monitor'')
      (if node_required n then lfail (db_err_required t) else if node_tag n \<noteq> ''monitor'' then lfail (db_err u1)
       else lbind (set_name n) (\<lambda>_. lbind (set_init mode n) (\<lambda>_. lbind (check_deprecated mode n) (\<lambda>_. lret n))))
      (if node_required m then lfail (db_err_required t) else if node_tag m \<noteq> ''monitor'' then lfail (db_err u2)
       else lbind (set_name m) (\<lambda>_. lbind (set_init mode m) (\<lambda>_. lbind (check_deprecated mode m) (\<lambda>_. lret m))))"
    if a: "agrees [] False True n m" for n m t u1 u2
  proof (cases "node_tag n = ''monitor''")
    case True
    have attr: "node_attr n name = node_attr m name" if "name \<in> {''name'', ''init'', ''caps'', ''include''}" for name
      by (rule agrees_text [OF a]) (use that in \<open>auto simp: True executable_attributes_def\<close>)
    have "similar (=) (set_name n) (set_name m)"
      using attr by (intro similarI) (auto simp: set_name_def lfail_def lret_def node_error_def split: option.split)
    moreover have "similar (=) (set_init mode n) (set_init mode m)"
      using attr by (intro similarI) (auto simp: set_init_def lfail_def lret_def node_error_def split: option.split)
    moreover have "check_deprecated mode n = check_deprecated mode m"
      using attr by (simp add: check_deprecated_def)
    ultimately show ?thesis
      using agrees_simps(1-3) [OF a] a True by (auto intro!: similar_bind [where R = "(=)"] similar_ret)
  qed (use agrees_simps(1-3) [OF a] in auto)
  then show ?thesis
    unfolding open_root_def by (intro similar_bind [OF similar_lift [OF find_root_same [OF assms]]])
qed

lemma profile_child_similar:
  assumes a: "agrees ''monitor'' False True n m" and cx: "same_context c x"
    and inc: "\<And>name. similar (=) (f name) (g name)"
  shows "similar (=) (profile_child avail translate c mode f n flags) (profile_child avail translate x mode g m flags)"
proof -
  obtain a1 a2 where flags: "flags = (a1, a2)" by fastforce
  have req: "\<not> node_required n" "\<not> node_required m" "\<not> has_required n" "\<not> has_required m" "node_tag m = node_tag n"
    using agrees_simps(1-3) [OF a] agrees_required [OF a] by simp_all
  consider "node_tag n = ''caps''" | "node_tag n = ''include''" | "node_tag n = ''controls''"
    | "node_tag n \<notin> {''caps'', ''include'', ''controls''}" by blast
  then show ?thesis
  proof cases
    case 1
    with req caps_child_similar [OF a] show ?thesis
      by (auto simp: profile_child_def flags intro!: similar_bind [where R = "(=)"])
  next
    case 2
    have "node_attr n ''file'' = node_attr m ''file''"
      by (rule agrees_text [OF a]) (simp_all add: 2 executable_attributes_def)
    then have "rel_sum same_error (=) (map_err db_err (required_attr n ''file'')) (map_err db_err (required_attr m ''file''))"
      by (cases "node_attr m ''file''") (auto simp: required_attr_def node_error_def)
    with req 2 inc show ?thesis
      by (auto simp: profile_child_def flags intro!: similar_bind [where R = "(=)"])
  next
    case 3
    with req controls_child_same [OF a 3 cx] show ?thesis
      by (auto simp: profile_child_def flags node_error_def intro!: similar_bind [where R = "(=)"])
  next
    case 4
    with req show ?thesis by (auto simp: profile_child_def flags node_error_def)
  qed
qed

lemma create_db_similar:
  assumes cx: "same_context c x"
  shows "similar (=) (create_db_protected avail translate c mode pnpname level)
    (create_db_protected avail translate x mode pnpname level)"
proof (induction "16 - level" arbitrary: level pnpname rule: less_induct)
  case less
  show ?case
  proof (cases "level > 15")
    case True
    then show ?thesis by (simp add: create_db_deep)
  next
    case False
    then have inc: "similar (=) (create_db_protected avail translate c mode name (level + 1))
        (create_db_protected avail translate x mode name (level + 1))" for name
      by (intro less) simp
    have "list_all2 (agrees ''monitor'' False True) (node_children n) (node_children m)"
      if "agrees [] False True n m" "node_tag n = ''monitor''" for n m
      using agrees_simps(4) [OF that(1)] by (simp add: that(2))
    then show ?thesis unfolding create_db_shallow [OF False]
      by (intro similar_bind [OF similar_refl] similar_bind [OF open_root_similar [OF cx]])
        (auto intro!: similar_bind [OF similar_for] profile_child_similar [OF _ cx] simp: inc [simplified])
  qed
qed

text \<open>The requirements are the same: no profile of either database has any, and the shared controls agree.\<close>

lemma unavailable_erase: "shared_unavailable (erase_options options) ident = shared_unavailable options ident"
  by (simp add: shared_unavailable_def controls_erase list_ex_iff)

lemma requirement_here_same:
  assumes a: "agrees [] False True n m" and o: "erase_options options = erase_options options'" and "node_tag n = ''monitor''"
  shows "requirement_here options n = requirement_here options' m"
proof -
  have un: "shared_unavailable options = shared_unavailable options'"
    using unavailable_erase [of options] unavailable_erase [of options'] o by (simp add: fun_eq_iff)
  have kids: "list_all2 (agrees ''monitor'' False True) (node_children n) (node_children m)"
    using agrees_simps(4) [OF a] by (simp add: assms(3))
  have ex: "list_ex P xs = list_ex Q ys" if "list_all2 (\<lambda>x y. P x = Q y) xs ys" for P Q and xs ys :: "node list"
    using that by (induction rule: list_all2_induct) simp_all
  have control: "(node_tag p = ''control'' \<and> (case node_attr p ''id'' of Some ident \<Rightarrow> shared_unavailable options' ident | None \<Rightarrow> False))
     = (node_tag q = ''control'' \<and> (case node_attr q ''id'' of Some ident \<Rightarrow> shared_unavailable options' ident | None \<Rightarrow> False))"
    if p: "agrees ''controls'' False True p q" for p q
  proof (cases "node_tag p = ''control''")
    case True
    have "node_attr p ''id'' = node_attr q ''id''"
      by (rule agrees_text [OF p]) (simp_all add: True executable_attributes_def)
    with True agrees_simps(1) [OF p] show ?thesis by simp
  qed (use agrees_simps(1) [OF p] in simp)
  have child: "(node_tag p \<noteq> ''include'' \<and> node_tag p = ''controls''
        \<and> list_ex (\<lambda>control. node_tag control = ''control''
             \<and> (case node_attr control ''id'' of Some ident \<Rightarrow> shared_unavailable options' ident | None \<Rightarrow> False)) (node_children p))
      = (node_tag q \<noteq> ''include'' \<and> node_tag q = ''controls''
        \<and> list_ex (\<lambda>control. node_tag control = ''control''
             \<and> (case node_attr control ''id'' of Some ident \<Rightarrow> shared_unavailable options' ident | None \<Rightarrow> False)) (node_children q))"
    if p: "agrees ''monitor'' False True p q" for p q
  proof (cases "node_tag p = ''controls''")
    case True
    have "list_all2 (agrees ''controls'' False True) (node_children p) (node_children q)"
      using agrees_simps(4) [OF p] by (simp add: True)
    from ex [OF list_all2_mono [OF this control]] True agrees_simps(1) [OF p] show ?thesis by simp
  qed (use agrees_simps(1) [OF p] in simp)
  show ?thesis
    unfolding requirement_here_def un using agrees_required [OF a] ex [OF list_all2_mono [OF kids child]] by simp
qed

lemma include_files_same:
  assumes a: "agrees [] False True n m" and tag: "node_tag n = ''monitor''"
  shows "include_files n = include_files m"
proof -
  have kids: "list_all2 (agrees ''monitor'' False True) (node_children n) (node_children m)"
    using agrees_simps(4) [OF a] by (simp add: tag)
  have "List.map_filter (\<lambda>child. node_attr child ''file'') (filter (\<lambda>child. node_tag child = ''include'') cs)
      = List.map_filter (\<lambda>child. node_attr child ''file'') (filter (\<lambda>child. node_tag child = ''include'') ds)"
    if "list_all2 (agrees ''monitor'' False True) cs ds" for cs ds
    using that
  proof (induction rule: list_all2_induct)
    case (Cons c cs d ds)
    show ?case
    proof (cases "node_tag c = ''include''")
      case True
      have "node_attr c ''file'' = node_attr d ''file''"
        by (rule agrees_text [OF Cons.hyps(1)]) (simp_all add: True executable_attributes_def)
      with True Cons agrees_simps(1) [OF Cons.hyps(1)] show ?thesis by (simp add: List.map_filter_simps split: option.split)
    qed (use Cons agrees_simps(1) [OF Cons.hyps(1)] in simp)
  qed simp
  with kids show ?thesis by (simp add: include_files_def includes_of_def)
qed

lemma requirement_root_same:
  assumes cx: "same_context c x"
  shows "rel_option (\<lambda>n m. requirement_here (cx_options c) n = requirement_here (cx_options x) m \<and> include_files n = include_files m)
    (requirement_root c item) (requirement_root x item)"
proof -
  obtain ident top where item: "item = (ident, top)" by fastforce
  have o: "erase_options (cx_options c) = erase_options (cx_options x)" and mf: "cx_monitor_file c = cx_monitor_file x"
    and ps: "rel_option same_profile (bt_get (cx_profiles c) ident) (bt_get (cx_profiles x) ident)"
    using cx by (simp_all add: same_context_def)
  have un: "shared_unavailable (cx_options c) = shared_unavailable (cx_options x)"
    using unavailable_erase [of "cx_options c"] unavailable_erase [of "cx_options x"] o by (simp add: fun_eq_iff)
  have here: "requirement_here (cx_options c) n = requirement_here (cx_options x) n" for n
    by (simp only: requirement_here_def un)
  show ?thesis
  proof (cases "\<exists>f. cx_monitor_file x = Some f \<and> top \<and> mf_pnpid f = ident")
    case True
    with mf show ?thesis by (auto simp: requirement_root_def item here)
  next
    case False
    then have "requirement_root y item = Option.bind (bt_get (cx_profiles y) ident) ok" if "cx_monitor_file y = cx_monitor_file x" for y
      using that by (auto simp: requirement_root_def item split: option.splits)
    with mf ps requirement_here_same [OF _ o] include_files_same show ?thesis
      by (auto simp: same_profile_def elim!: option.rel_cases)
  qed
qed

lemma requirements_same:
  assumes cx: "same_context c x"
  shows "profile_has_requirements c pnpname = profile_has_requirements x pnpname"
proof -
  have "requirement_step c st = requirement_step x st" for st
    using requirement_root_same [OF cx, of "last (rq_pending st)"]
    by (cases rule: option.rel_cases) (simp_all add: requirement_step_def Let_def)
  then have "requirement_step c = requirement_step x" by blast
  then show ?thesis by (simp add: profile_has_requirements_def)
qed

lemma create_loaded_same:
  assumes "rel_prod (rel_sum same_error (=)) (=) r r'"
  shows "create_loaded avail req ft caps r = create_loaded avail req ft caps r'"
  using assms by (cases r; cases r') (auto simp: create_loaded_def same_error_def elim!: rel_sum.cases)

lemma create_db_same:
  assumes cx: "same_context c x"
  shows "create_db avail translate c pnpname caps ft h = create_db avail translate x pnpname caps ft h"
proof -
  have o: "groups_from_options translate (cx_options c) = groups_from_options translate (cx_options x)"
    and mf: "overrides c pnpname = overrides x pnpname"
    using cx groups_erase [of translate "cx_options c"] groups_erase [of translate "cx_options x"]
    by (simp_all add: same_context_def overrides_def)
  have start: "start_state translate (cx_options c) = start_state translate (cx_options x)"
    using o by (simp add: start_state_def fun_eq_iff)
  have loaded: "(case create_db_protected avail translate c mode pnpname 0 s of
          None \<Rightarrow> None | Some loaded \<Rightarrow> create_loaded avail req ft' caps loaded)
      = (case create_db_protected avail translate x mode pnpname 0 s of
          None \<Rightarrow> None | Some loaded \<Rightarrow> create_loaded avail req ft' caps loaded)" for mode req ft' s
    using similarD [OF create_db_similar [OF cx], of avail translate mode pnpname 0 s] create_loaded_same
    by (cases rule: option.rel_cases) auto
  show ?thesis
    unfolding create_db_def requirements_same [OF cx] mf start Let_def loaded ..
qed

lemma create_inner_same:
  assumes cx: "same_context c x"
  shows "create_db_inner avail translate (Some c) pnpname caps ft = create_db_inner avail translate (Some x) pnpname caps ft"
proof -
  have "create_db avail translate c name caps ft = create_db avail translate x name caps ft" for name caps
    by (rule ext) (rule create_db_same [OF cx])
  then show ?thesis by (simp add: create_db_inner_def split: option.split)
qed

end
