(* ===== verification/Gen_Convert.thy ===== *)
theory Gen_Convert
  imports Gen_Agree Db_Session
begin

text \<open>
  The conversion of a directory of XML sources, \<open>convert\<close> of \<^verbatim>\<open>crates/ddccontrol-dbgen/src/lib.rs\<close>,
  with the discovery and the bounded reading of its files, and the two reports \<open>diagnostic\<close> and
  \<open>summary\<close>. The files may change at any access, as in the theory of the library's own reader. The
  theorem at the end says that the library gives the same results over the generated database as over
  the sources.
\<close>

section \<open>Paths\<close>

text \<open>
  The components of a path, as \<open>std::path\<close> sees them: without empty ones and without those that name
  the same directory, except at the start. A path is a byte string.
\<close>

fun split_on :: "char \<Rightarrow> string \<Rightarrow> string list" where
  "split_on c [] = [[]]"
| "split_on c (x # xs) =
     (if x = c then [] # split_on c xs
      else case split_on c xs of y # ys \<Rightarrow> (x # y) # ys | [] \<Rightarrow> [[x]])"

definition path_components :: "string \<Rightarrow> string list" where
  [rust_std]: "path_components p =
     (let cs = split_on CHR ''/'' p
      in (if hd cs = ''.'' then [''.''] else []) @ filter (\<lambda>c. c \<noteq> [] \<and> c \<noteq> ''.'') cs)"

definition path_absolute :: "string \<Rightarrow> bool" where
  [rust_std]: "path_absolute p \<longleftrightarrow> starts_with ''/'' p"

definition path_file_name :: "string \<Rightarrow> string option" where
  [rust_std]: "path_file_name p =
     (case rev (path_components p) of [] \<Rightarrow> None | c # _ \<Rightarrow> if c = ''..'' \<or> c = ''.'' then None else Some c)"

definition path_join_components :: "string list \<Rightarrow> string" where
  [rust_std]: "path_join_components cs = (case cs of [] \<Rightarrow> [] | c # cs \<Rightarrow> c @ concat (map (\<lambda>d. CHR ''/'' # d) cs))"

definition path_strip_prefix :: "string \<Rightarrow> string \<Rightarrow> string option" where
  [rust_std]: "path_strip_prefix base p =
     (if path_absolute base = path_absolute p
      then map_option path_join_components (strip_prefix (path_components base) (path_components p))
      else None)"

section \<open>Discovery\<close>

datatype gen_error =
    Gen_io string
  | Gen_listing
  | Gen_too_large string
  | Gen_profile_count
  | Gen_not_inside
  | Gen_not_utf8
  | Gen_unsafe_identifier string
  | Gen_snapshot_too_large
  | Gen_source string string
  | Gen_revision_required
  | Gen_message string
  | Gen_changed

type_synonym 'a gen = "('a, gen_error) file_io"

definition read_bounded :: "string \<Rightarrow> bytes gen" where
  "read_bounded path =
     io_bind (access (\<lambda>v. fv_open v path)) (\<lambda>r. case r of
       Opened h \<Rightarrow>
         io_bind (access (\<lambda>v. fv_read v h)) (\<lambda>r. case r of
           None \<Rightarrow> io_fail (Gen_io path)
         | Some data \<Rightarrow>
             (let bs = take (MAX_FILE + 1) data
              in if length bs > MAX_FILE then io_fail (Gen_too_large path) else io_ret bs))
     | Not_found \<Rightarrow> io_fail (Gen_io path)
     | Open_failed \<Rightarrow> io_fail (Gen_io path))"

definition ends_with :: "string \<Rightarrow> string \<Rightarrow> bool" where
  [rust_std]: "ends_with suffix s \<longleftrightarrow> strip_suffix suffix s \<noteq> None"

definition is_xml_path :: "string \<Rightarrow> bool" where
  "is_xml_path path \<longleftrightarrow> (case path_file_name path of Some name \<Rightarrow> ends_with ''.xml'' name | None \<Rightarrow> False)"

definition source_entry :: "string \<Rightarrow> string option \<Rightarrow> (string, gen_error) result option" where
  "source_entry directory entry =
     (case entry of
        Some name \<Rightarrow>
          (let path = path_join (path_join directory ''monitor'') name
           in if is_xml_path path then Some (Ok path) else None)
      | None \<Rightarrow> Some (Err Gen_listing))"

definition source_paths :: "string \<Rightarrow> (string, gen_error) result list gen" where
  "source_paths directory =
     io_bind (access (\<lambda>v. fv_list v (path_join directory ''monitor''))) (\<lambda>entries.
       io_ret (Ok (path_join directory ''options.xml'')
         # (case entries of
              Some entries \<Rightarrow> List.map_filter (source_entry directory) entries
            | None \<Rightarrow> [Err Gen_listing])))"

text \<open>The path a source has in the manifest, checked before the source is read.\<close>

definition manifest_name :: "string \<Rightarrow> string \<Rightarrow> (string, gen_error) result" where
  "manifest_name directory path =
     and_then (ok_or (path_strip_prefix directory path) Gen_not_inside) (\<lambda>relative.
       if \<not> from_utf8 relative then Err Gen_not_utf8
       else if relative = ''options.xml'' then Ok relative
       else
         and_then (ok_or (path_file_name path) Gen_not_utf8) (\<lambda>name.
           if \<not> from_utf8 name then Err Gen_not_utf8
           else
             and_then (ok_or (strip_suffix ''.xml'' name) Gen_not_utf8) (\<lambda>ident.
               if \<not> profile_id ident then Err (Gen_unsafe_identifier ident) else Ok (''monitor/'' @ name))))"

fun sources_loop :: "string \<Rightarrow> string list \<Rightarrow> nat \<times> snapshot_files \<Rightarrow> snapshot_files gen" where
  "sources_loop directory [] (used, result) = io_ret result"
| "sources_loop directory (path # paths) (used, result) =
     io_bind (io_lift (manifest_name directory path)) (\<lambda>name.
     io_bind (read_bounded path) (\<lambda>bs.
       if used + length bs > MAX_FILE then io_fail Gen_snapshot_too_large
       else sources_loop directory paths (used + length bs, bt_insert name bs result)))"

definition sources :: "string \<Rightarrow> snapshot_files gen" where
  "sources directory =
     io_bind (source_paths directory) (\<lambda>paths.
     io_bind (io_lift (collect paths)) (\<lambda>paths.
       if length paths < 2 \<or> length paths > MAX_PROFILES + 1 then io_fail Gen_profile_count
       else sources_loop directory paths (0, [])))"

section \<open>Conversion\<close>

definition source_revision :: "cbor \<Rightarrow> string option \<Rightarrow> string option" where
  "source_revision options revision =
     (case (case revision of
              Some r \<Rightarrow> Some r
            | None \<Rightarrow> Option.bind (ok (cbor_field options 1)) (\<lambda>attrs. Option.bind (cbor_optional attrs 13) as_text)) of
        Some r \<Rightarrow> if r \<noteq> [] then Some r else None
      | None \<Rightarrow> None)"

fun convert_profiles ::
  "'enc readers \<Rightarrow> source_parser \<Rightarrow> snapshot_files \<Rightarrow> ((cbor \<times> cbor) list, gen_error) result option" where
  "convert_profiles rd parser [] = Some (Ok [])"
| "convert_profiles rd parser ((path, bs) # files) =
     (if path = ''options.xml'' then convert_profiles rd parser files
      else case profile_of_path path of
             None \<Rightarrow> None
           | Some ident \<Rightarrow>
               (case source_parse_xml (rd_encodings rd) parser bs ''monitor'' of
                  Inl e \<Rightarrow> Some (Err (Gen_source path e))
                | Inr n \<Rightarrow>
                    map_option (\<lambda>r. and_then r (\<lambda>profiles. Ok ((CText ident, n) # profiles)))
                      (convert_profiles rd parser files)))"

definition source_manifest :: "'enc readers \<Rightarrow> snapshot_files \<Rightarrow> cbor" where
  "source_manifest rd files = CMap (map (\<lambda>(path, bs). (CText path, CBytes (rd_sha256 rd bs))) files)"

definition database_root :: "string \<Rightarrow> cbor \<Rightarrow> (cbor \<times> cbor) list \<Rightarrow> cbor \<Rightarrow> bytes \<Rightarrow> cbor" where
  "database_root revision options profiles man snapshot =
     cbor_object [(0, CBytes (map byte_of ''DDCDB'')), (1, CInteger 1), (2, CText revision), (3, CInteger 3),
       (4, CText ''ddccontrol-db''), (5, options), (6, CMap profiles), (8, man), (9, CBytes snapshot)]"

definition validated :: "'enc readers \<Rightarrow> cbor \<Rightarrow> (cbor, gen_error) result option" where
  "validated rd root =
     (case encode (rd_into_writer rd) root of
        Inl e \<Rightarrow> Some (Err (Gen_message e))
      | Inr wire \<Rightarrow>
          map_option (map_err Gen_message) (validate (rd_sha256 rd) (rd_into_writer rd) (rd_from_reader rd) wire))"

definition convert_files ::
  "'enc readers \<Rightarrow> source_parser \<Rightarrow> snapshot_files \<Rightarrow> string option \<Rightarrow> (cbor, gen_error) result option" where
  "convert_files rd parser files revision =
     (case bt_get files ''options.xml'' of
        None \<Rightarrow> None
      | Some bs \<Rightarrow>
          (case and_then (map_err (Gen_source ''options.xml'') (source_parse_xml (rd_encodings rd) parser bs ''options'')) (\<lambda>options.
                and_then (ok_or (source_revision options revision) Gen_revision_required) (\<lambda>revision. Ok (options, revision))) of
             Inl e \<Rightarrow> Some (Err e)
           | Inr (options, revision) \<Rightarrow>
               (case convert_profiles rd parser files of
                  None \<Rightarrow> None
                | Some (Inl e) \<Rightarrow> Some (Err e)
                | Some (Inr profiles) \<Rightarrow>
                    (case manifest_digest (rd_sha256 rd) (rd_into_writer rd) (source_manifest rd files) of
                       Inl e \<Rightarrow> Some (Err (Gen_message e))
                     | Inr snapshot \<Rightarrow>
                         validated rd (database_root revision options profiles (source_manifest rd files) snapshot)))))"

definition convert :: "'enc readers \<Rightarrow> source_parser \<Rightarrow> string \<Rightarrow> string option \<Rightarrow> cbor gen" where
  "convert rd parser directory revision =
     io_bind (sources directory) (\<lambda>files.
     io_bind (\<lambda>w n. map_option (\<lambda>r. (r, n)) (convert_files rd parser files revision)) (\<lambda>root.
     io_bind (sources directory) (\<lambda>again.
       if files \<noteq> again then io_fail Gen_changed else io_ret root)))"

section \<open>Reports\<close>

definition diag_char :: "nat \<Rightarrow> string" where
  "diag_char c =
     (if c = 34 then [CHR 0x5C, CHR 0x22]
      else if c = 92 then [CHR 0x5C, CHR 0x5C]
      else if c = 10 then [CHR 0x5C, CHR ''n'']
      else if c = 13 then [CHR 0x5C, CHR ''r'']
      else if c = 9 then [CHR 0x5C, CHR ''t'']
      else if c = 8 then [CHR 0x5C, CHR ''b'']
      else if c = 12 then [CHR 0x5C, CHR ''f'']
      else if c < 32 then CHR 0x5C # CHR ''u'' # zero_pad 4 (format_hex c)
      else utf8_encode c)"

definition diag_string :: "string \<Rightarrow> string" where
  "diag_string s = CHR 0x22 # concat (map diag_char (str_chars s)) @ [CHR 0x22]"

definition diag_line :: "nat \<Rightarrow> string" where
  "diag_line depth = CHR 0x0A # concat (replicate depth ''  '')"

definition hex_bytes :: "bytes \<Rightarrow> string" where
  "hex_bytes bs = concat (map (\<lambda>b. zero_pad 2 (format_hex (unat b))) bs)"

text \<open>The written items of a list, on lines of their own.\<close>

definition diag_list :: "string list \<Rightarrow> nat \<Rightarrow> string" where
  "diag_list items depth =
     ''['' @ concat (map (\<lambda>(i, t). diag_line (depth + 1) @ t @ (if i + 1 < length items then '','' else [])) (enumerate 0 items))
     @ (if items \<noteq> [] then diag_line depth else []) @ '']''"

function (sequential) diag_write :: "cbor \<Rightarrow> nat \<Rightarrow> string checked" where
  "diag_write (CInteger n) depth = Ok (format_int n)"
| "diag_write (CText s) depth = Ok (diag_string s)"
| "diag_write (CBool b) depth = Ok (if b then ''true'' else ''false'')"
| "diag_write CNull depth = Ok ''null''"
| "diag_write (CArray vs) depth =
     and_then (collect (map (\<lambda>v. diag_write v (depth + 1)) vs)) (\<lambda>ts. Ok (diag_list ts depth))"
| "diag_write (CBytes bs) depth =
     Ok (''{'' @ diag_line (depth + 1) @ [CHR 0x22] @ ''$bytes'' @ [CHR 0x22] @ '': '' @ [CHR 0x22] @ hex_bytes bs @ [CHR 0x22]
       @ diag_line depth @ ''}'')"
| "diag_write (CMap es) depth =
     and_then (collect (map (\<lambda>e. and_then (diag_write (fst e) (depth + 3)) (\<lambda>k.
           and_then (diag_write (snd e) (depth + 3)) (\<lambda>v. Ok (diag_list [k, v] (depth + 2))))) es)) (\<lambda>ts.
       Ok (''{'' @ diag_line (depth + 1) @ [CHR 0x22] @ ''$map'' @ [CHR 0x22] @ '': '' @ diag_list ts (depth + 1)
         @ diag_line depth @ ''}''))"
| "diag_write _ depth = Err ''unsupported diagnostic value''"
  by pat_completeness auto
termination
  by (relation "measure (\<lambda>(v, _). size v)")
    (auto simp: less_Suc_eq_le size_list_estimation' dest: map_entry_size [unfolded cbor.size])

definition diagnostic :: "cbor \<Rightarrow> string checked" where
  "diagnostic v = and_then (diag_write v 0) (\<lambda>out. Ok (out @ [CHR 0x0A]))"

definition summary :: "cbor \<Rightarrow> nat \<Rightarrow> string checked" where
  "summary root bytes_len =
     and_then (cbor_field root 9) (\<lambda>v.
     and_then (ok_or (as_bytes v) ''snapshot requires bytes'') (\<lambda>snapshot.
     and_then (and_then (cbor_field root 6) cbor_map) (\<lambda>profiles.
       Ok (format_dec (length profiles) @ '' profiles, '' @ format_dec bytes_len @ '' bytes, snapshot '' @ hex_bytes snapshot))))"

lemma diag_write_ok: "within d v \<Longrightarrow> is_ok (diag_write v depth)"
proof (induction v depth arbitrary: d rule: diag_write.induct)
  case (5 vs depth)
  then have "\<forall>v\<in>set vs. \<exists>t. diag_write v (depth + 1) = Ok t" by (fastforce simp: is_ok_iff)
  then have "\<exists>ts. collect (map (\<lambda>v. diag_write v (depth + 1)) vs) = Ok ts" by (induction vs) auto
  then show ?case by auto
next
  case (7 es depth)
  then have "\<forall>e\<in>set es. (\<exists>t. diag_write (fst e) (depth + 3) = Ok t) \<and> (\<exists>t. diag_write (snd e) (depth + 3) = Ok t)"
    by (fastforce simp: is_ok_iff)
  then have "\<exists>ts. collect (map (\<lambda>e. and_then (diag_write (fst e) (depth + 3)) (\<lambda>k.
           and_then (diag_write (snd e) (depth + 3)) (\<lambda>v. Ok (diag_list [k, v] (depth + 2))))) es) = Ok ts"
    by (induction es) auto
  then show ?case by auto
qed simp_all

section \<open>What conversion writes is a value\<close>

lemma typed_object: "typed (cbor_object entries) \<longleftrightarrow> list_all (\<lambda>(k, v). k < 2 ^ 64 \<and> typed v) entries"
proof -
  have "int k < 2 ^ 64 \<longleftrightarrow> k < 2 ^ 64" for k by (metis of_nat_less_iff of_nat_numeral of_nat_power)
  then show ?thesis by (auto simp: cbor_object_def list_all_iff)
qed

lemma typed_source_value:
  assumes "source_value k name raw = Ok v" and "from_utf8 raw" shows "typed v"
proof -
  have "lo \<le> n \<Longrightarrow> n \<le> hi \<Longrightarrow> attribute_integer_bounds j = Some (lo, hi) \<Longrightarrow> - (2 ^ 64) \<le> n \<and> n < 2 ^ 64" for lo hi j and n :: int
    by (auto simp: attribute_integer_bounds_def split: if_splits)
  with assms show ?thesis
    by (fastforce simp: source_value_def source_integer_def Let_def bind_eq_Some_conv split: if_splits)
qed

definition typed_entries :: "(cbor \<times> cbor) list \<Rightarrow> bool" where
  "typed_entries es \<longleftrightarrow> list_all (\<lambda>(k, v). typed k \<and> typed v) es"

lemma attribute_id_less: "attribute_id name = Some k \<Longrightarrow> k < 16"
  by (auto simp: attribute_id_table ATTRIBUTES_def split: if_splits)

lemma typed_attributes:
  assumes "list_all (\<lambda>(ns, name, raw). pred_option from_utf8 ns \<and> from_utf8 name \<and> from_utf8 raw) attributes"
    and "fold_res (source_attribute allowed) attributes (attrs0, inert0) = Ok (attrs, inert)"
    and "typed_entries attrs0" "typed_entries inert0"
  shows "typed_entries attrs \<and> typed_entries inert"
  using assms
proof (induction attributes arbitrary: attrs0 inert0)
  case (Cons a attributes)
  obtain ns name raw where a: "a = (ns, name, raw)" by (cases a)
  have u: "pred_option from_utf8 ns" "from_utf8 name" "from_utf8 raw" using Cons.prems(1) by (simp_all add: a)
  from Cons.prems(2) obtain attrs1 inert1 where step: "source_attribute allowed a (attrs0, inert0) = Ok (attrs1, inert1)"
    and rec: "fold_res (source_attribute allowed) attributes (attrs1, inert1) = Ok (attrs, inert)"
    by (cases "source_attribute allowed a (attrs0, inert0)") auto
  have "from_utf8 (''{'' @ t @ ''}'' @ name)" if "from_utf8 t" for t
    by (intro from_utf8_append that u) (simp_all add: from_utf8_ascii byte_val_def)
  with u(1,2) have "from_utf8 (case ns of Some ns \<Rightarrow> ''{'' @ ns @ ''}'' @ name | None \<Rightarrow> name)" by (cases ns) auto
  with step u(3) Cons.prems(3,4) have "typed_entries attrs1 \<and> typed_entries inert1"
    using typed_source_value [OF _ u(3)] attribute_id_less
    by (fastforce simp: a source_attribute_def Let_def typed_entries_def split: if_splits option.splits)
  with Cons.IH [OF _ rec] Cons.prems(1) show ?case by simp
qed simp

lemma leading_utf8: "list_all source_ok ns \<Longrightarrow> from_utf8 (leading_text ns)"
proof -
  assume ok: "list_all source_ok ns"
  have "from_utf8 t" if "t \<in> set (List.map_filter node_text (takeWhile (\<lambda>n. \<not> is_element n) ns))" for t
  proof -
    from that obtain n where "n \<in> set ns" "node_text n = Some t"
      by (auto simp: List.map_filter_def dest: set_takeWhileD)
    with ok show ?thesis by (cases n) (auto simp: node_text_def list_all_iff)
  qed
  then show ?thesis unfolding leading_text_def by (intro from_utf8_concat) (simp add: list_all_iff)
qed

lemma metadata_utf8: "from_utf8 SOURCE_METADATA"
  by (rule from_utf8_ascii) (simp add: SOURCE_METADATA_def byte_val_def)

lemma typed_metadata:
  assumes "typed_entries inert" "from_utf8 tag" "from_utf8 head" "from_utf8 tail"
  shows "list_all (\<lambda>(k, v). k < 2 ^ 64 \<and> typed v) (source_metadata inert tag kind head tail)"
  using assms by (auto simp: source_metadata_def Let_def List.map_filter_def typed_entries_def list_all_iff)

lemma typed_source:
  "source_element d following parent in_options ancestor depth = Ok v \<Longrightarrow> source_ok d \<Longrightarrow> list_all source_ok following \<Longrightarrow> typed v"
  "source_elements ns parent in_options ancestor depth = Ok vs \<Longrightarrow> list_all source_ok ns \<Longrightarrow> list_all typed vs"
proof (induction d following parent in_options ancestor depth and ns parent in_options ancestor depth
    arbitrary: v and vs rule: source_element_source_elements.induct)
  case (1 tag attributes nodes line following parent in_options ancestor depth)
  from 1(2) obtain active allowed attrs inert children kind where
      active: "active = executable_path tag parent in_options ancestor"
    and allowed: "allowed = (if active then executable_attributes tag parent in_options else [])"
    and attrs: "fold_res (source_attribute allowed) attributes ([], []) = Ok (attrs, inert)"
    and kind: "kind = (case kind_id tag of Some k \<Rightarrow> k | None \<Rightarrow> 255)"
    and kids: "source_elements nodes tag in_options active (depth + 1) = Ok children" and depth: "depth \<le> MAX_DEPTH"
    and v: "v = cbor_object (source_entries kind attrs children
           (source_metadata inert tag kind (leading_text nodes) (leading_text following)))"
    by (rule source_elementE)
  have children: "list_all typed children"
    by (rule 1(1) [OF depth [folded not_less] active allowed attrs refl kind kids]) (use 1(3) in simp)
  have te: "typed_entries attrs" "typed_entries inert"
    using typed_attributes [OF _ attrs] 1(3) by (simp_all add: typed_entries_def)
  have "kind < 2 ^ 64"
    unfolding kind by (auto simp: kind_id_name kind_name_def KINDS_def split: option.split if_splits)
  moreover have "list_all (\<lambda>(k, v). k < 2 ^ 64 \<and> typed v)
      (source_metadata inert tag kind (leading_text nodes) (leading_text following))"
    using 1(3,4) by (intro typed_metadata te leading_utf8) simp_all
  ultimately show ?case
    using te children metadata_utf8
    by (auto simp: v typed_object source_entries_def typed_entries_def list_all_iff)
next
  case (5 d ds parent in_options ancestor depth)
  show ?case
  proof (cases "is_element d")
    case True
    from 5(4) True obtain v1 vs1 where v: "vs = v1 # vs1" "source_element d ds parent in_options ancestor depth = Ok v1"
      "source_elements ds parent in_options ancestor depth = Ok vs1" by auto
    with 5(1) [OF True v(2)] 5(2) [OF True v(2,3)] 5(5) show ?thesis by (simp add: v(1))
  next
    case False
    with 5 show ?thesis by simp
  qed
qed auto

section \<open>The profiles of the two databases\<close>

lemma profile_of_options [simp]: "profile_of_path ''options.xml'' = None"
  using profile_of_path_eq [of "''options.xml''"] profile_path_not_options(2) by (metis not_None_eq)

text \<open>What the CBOR reader makes of the profiles, whatever their order.\<close>

lemma profile_fold:
  assumes "fold_res (profile_step man) es m0 = Ok ps" and "distinct (map fst es)"
  shows "(CText ident, v) \<in> set es \<Longrightarrow>
      \<exists>p. cbor_node v [] False = Ok p \<and> node_tag p = ''monitor'' \<and> bt_get ps ident = Some p"
    and "CText ident \<notin> fst ` set es \<Longrightarrow> bt_get ps ident = bt_get m0 ident"
proof -
  have "((CText ident, v) \<in> set es \<longrightarrow>
        (\<exists>p. cbor_node v [] False = Ok p \<and> node_tag p = ''monitor'' \<and> bt_get ps ident = Some p))
      \<and> (CText ident \<notin> fst ` set es \<longrightarrow> bt_get ps ident = bt_get m0 ident)"
    using assms
  proof (induction es arbitrary: m0)
    case (Cons e es)
    obtain key w where e: "e = (key, w)" by fastforce
    from Cons.prems obtain m1 where step: "profile_step man e m0 = Ok m1"
      and rec: "fold_res (profile_step man) es m1 = Ok ps" by auto
    from step obtain ident' p where p: "key = CText ident'" "cbor_node w [] False = Ok p" "node_tag p = ''monitor''"
      "m1 = bt_insert ident' p m0"
      by (auto simp: profile_step_def e cbor_text_def as_text_def split: if_splits cbor.splits)
    show ?case
    proof (cases "ident' = ident")
      case True
      with Cons.IH [OF rec] Cons.prems(2) p show ?thesis by (auto simp: e bt_get_insert)
    next
      case False
      with Cons.IH [OF rec] Cons.prems(2) p show ?thesis by (auto simp: e bt_get_insert)
    qed
  qed simp
  then show "(CText ident, v) \<in> set es \<Longrightarrow>
      \<exists>p. cbor_node v [] False = Ok p \<and> node_tag p = ''monitor'' \<and> bt_get ps ident = Some p"
    and "CText ident \<notin> fst ` set es \<Longrightarrow> bt_get ps ident = bt_get m0 ident" by blast+
qed

lemma convert_profiles_Ok:
  assumes "convert_profiles rd parser files = Some (Ok ps)" and "distinct (map fst files)"
  shows "\<And>path bs. (path, bs) \<in> set files \<Longrightarrow> path \<noteq> ''options.xml'' \<Longrightarrow>
      \<exists>ident v. profile_of_path path = Some ident \<and> source_parse_xml (rd_encodings rd) parser bs ''monitor'' = Ok v
        \<and> (CText ident, v) \<in> set ps"
    and "\<And>key v. (key, v) \<in> set ps \<Longrightarrow> \<exists>ident bs. key = CText ident \<and> (profile_path ident, bs) \<in> set files
        \<and> source_parse_xml (rd_encodings rd) parser bs ''monitor'' = Ok v"
    and "distinct (map fst ps)"
proof -
  have "(\<forall>(path, bs)\<in>set files. path \<noteq> ''options.xml'' \<longrightarrow>
        (\<exists>ident v. profile_of_path path = Some ident \<and> source_parse_xml (rd_encodings rd) parser bs ''monitor'' = Ok v
          \<and> (CText ident, v) \<in> set ps))
      \<and> (\<forall>(key, v)\<in>set ps. \<exists>ident bs. key = CText ident \<and> (profile_path ident, bs) \<in> set files
          \<and> source_parse_xml (rd_encodings rd) parser bs ''monitor'' = Ok v)
      \<and> distinct (map fst ps)"
    using assms
  proof (induction files arbitrary: ps)
    case (Cons f files)
    obtain path bs where f: "f = (path, bs)" by fastforce
    show ?case
    proof (cases "path = ''options.xml''")
      case True
      with Cons show ?thesis by (fastforce simp: f)
    next
      case False
      with Cons.prems(1) obtain ident n qs where q: "profile_of_path path = Some ident"
        "source_parse_xml (rd_encodings rd) parser bs ''monitor'' = Ok n" "convert_profiles rd parser files = Some (Ok qs)"
        "ps = (CText ident, n) # qs"
        by (auto simp: f split: option.splits sum.splits)
      have path: "path = profile_path ident" using q(1) by (simp add: profile_of_path_eq)
      have IH: "\<forall>(path, bs)\<in>set files. path \<noteq> ''options.xml'' \<longrightarrow>
          (\<exists>ident v. profile_of_path path = Some ident \<and> source_parse_xml (rd_encodings rd) parser bs ''monitor'' = Ok v
            \<and> (CText ident, v) \<in> set qs)"
        "\<forall>(key, v)\<in>set qs. \<exists>ident bs. key = CText ident \<and> (profile_path ident, bs) \<in> set files
            \<and> source_parse_xml (rd_encodings rd) parser bs ''monitor'' = Ok v" "distinct (map fst qs)"
        using Cons.IH [OF q(3)] Cons.prems(2) by auto
      have "CText ident \<notin> fst ` set qs"
      proof
        assume "CText ident \<in> fst ` set qs"
        then obtain bs' where "(profile_path ident, bs') \<in> set files" using IH(2) by fastforce
        then have "profile_path ident \<in> fst ` set files" by force
        with Cons.prems(2) path show False by (simp add: f)
      qed
      with IH q path show ?thesis by (fastforce simp: f)
    qed
  qed simp
  then show "\<And>path bs. (path, bs) \<in> set files \<Longrightarrow> path \<noteq> ''options.xml'' \<Longrightarrow>
      \<exists>ident v. profile_of_path path = Some ident \<and> source_parse_xml (rd_encodings rd) parser bs ''monitor'' = Ok v
        \<and> (CText ident, v) \<in> set ps"
    and "\<And>key v. (key, v) \<in> set ps \<Longrightarrow> \<exists>ident bs. key = CText ident \<and> (profile_path ident, bs) \<in> set files
        \<and> source_parse_xml (rd_encodings rd) parser bs ''monitor'' = Ok v"
    and "distinct (map fst ps)" by blast+
qed

section \<open>The generated database and its sources\<close>

text \<open>
  What the theorem relies on outside the sources: both programs parse with the same XML parser, of
  which they see different parts, and a decoder of an encoding gives way to a byte order mark.
\<close>

definition reads_same :: "'enc readers \<Rightarrow> source_parser \<Rightarrow> bool" where
  "reads_same rd parser \<longleftrightarrow>
     (\<forall>t root following. parser t = Ok (root, following) \<longrightarrow>
        source_ok root \<and> list_all source_ok following
        \<and> (\<exists>x. element_view root = Some x \<and> rd_document rd t = Ok x))"

definition bom_wins :: "'enc encodings \<Rightarrow> bool" where
  "bom_wins encs \<longleftrightarrow>
     (\<forall>bs e. case for_bom encs bs of
        Some (e', _) \<Rightarrow> enc_decode encs e bs = enc_decode encs e' bs
      | None \<Rightarrow> True)"

lemma decode_source_text:
  assumes "bom_wins (rd_encodings rd)" and "decode_source (rd_encodings rd) bs = Ok t"
  shows "source_text rd bs = t"
proof (cases "for_bom (rd_encodings rd) bs")
  case None
  note bom = this
  show ?thesis
  proof (cases "xml_declared_label bs")
    case None
    with assms(2) bom show ?thesis
      by (simp add: decode_source_def source_text_def decode_xml_bytes_def xml_declared_encoding_def case_prod_beta
          split: if_splits)
  next
    case (Some label)
    with assms(2) bom obtain e where "for_label (rd_encodings rd) label = Some e"
      by (auto simp: decode_source_def ok_or_def split: option.splits)
    with assms(2) bom Some show ?thesis
      by (simp add: decode_source_def source_text_def decode_xml_bytes_def xml_declared_encoding_def ok_or_def case_prod_beta
          split: if_splits)
  qed
next
  case (Some e)
  obtain e1 k where e: "e = (e1, k)" by fastforce
  have same: "enc_decode (rd_encodings rd) e' bs = enc_decode (rd_encodings rd) e1 bs" for e'
    using spec [OF spec [OF assms(1) [unfolded bom_wins_def], of bs], of e'] by (simp add: Some e)
  show ?thesis
    using assms(2) Some same [of "case xml_declared_encoding (rd_encodings rd) bs of Some e \<Rightarrow> e | None \<Rightarrow> enc_utf8 (rd_encodings rd)"]
    by (simp add: decode_source_def source_text_def decode_xml_bytes_def e case_prod_beta split: if_splits)
qed

lemma source_parse_agrees:
  assumes "reads_same rd parser" and "bom_wins (rd_encodings rd)"
    and v: "source_parse_xml (rd_encodings rd) parser bs expected = Ok v"
  shows "typed v"
    and "canonised w v u \<Longrightarrow> cbor_node u [] (expected = ''options'') = Ok n
      \<Longrightarrow> parse_xml (rd_document rd) (source_text rd bs) = Ok m \<Longrightarrow> agrees [] (expected = ''options'') True n m"
proof -
  from v obtain t root following where t: "decode_source (rd_encodings rd) bs = Ok t" and p: "parser t = Ok (root, following)"
    and e: "source_element root following [] (expected = ''options'') True 0 = Ok v"
    by (auto simp: source_parse_xml_def split: if_splits)
  from assms(1) p obtain x where ok: "source_ok root" "list_all source_ok following"
    and x: "element_view root = Some x" "rd_document rd t = Ok x" unfolding reads_same_def by blast
  show "typed v" by (rule typed_source(1) [OF e ok])
  show "agrees [] (expected = ''options'') True n m"
    if "canonised w v u" "cbor_node u [] (expected = ''options'') = Ok n" "parse_xml (rd_document rd) (source_text rd bs) = Ok m"
  proof -
    from that(3) obtain c where "owned x 0 0 = Ok (m, c)"
      using decode_source_text [OF assms(2) t] x(2) by (auto simp: parse_xml_def)
    then have "m = copy x" by (rule owned_copy(1))
    with source_elements_agree(1) [OF e that(1,2) ok(1) x(1)] show ?thesis by simp
  qed
qed

text \<open>A converted root: the canonical form of the root that was built, which decodes for a consumer.\<close>

lemma typed_optional: "typed v \<Longrightarrow> cbor_optional v k = Some u \<Longrightarrow> typed u"
  by (cases v) (auto simp: cbor_optional_def as_map_def split: if_splits dest!: find_map_Some)

lemma source_revision_utf8:
  assumes "typed options" and "pred_option from_utf8 revision" and "source_revision options revision = Some r"
  shows "from_utf8 r"
proof (cases revision)
  case None
  with assms(3) obtain av u where av: "cbor_optional options 1 = Some av" and u: "cbor_optional av 13 = Some u"
    and r: "as_text u = Some r"
    by (auto simp: source_revision_def cbor_field_def bind_eq_Some_conv ok_or_def split: option.splits if_splits)
  have "typed u" by (rule typed_optional [OF typed_optional [OF assms(1) av] u])
  with r show ?thesis by (cases u) (simp_all add: as_text_def)
qed (use assms in \<open>auto simp: source_revision_def split: if_splits\<close>)

lemma validatedE:
  assumes codec: "cbor_codec (rd_from_reader rd) (rd_into_writer rd)" and "typed raw"
    and "validated rd raw = Some (Ok root)"
  obtains wire db where "encode (rd_into_writer rd) root = Ok wire" "canonised (rd_into_writer rd) raw root"
    "cbor_value (rd_from_reader rd) wire = Ok root"
    "decode_body (rd_sha256 rd) (rd_into_writer rd) root False = Ok db"
    "decode_value (rd_sha256 rd) (rd_into_writer rd) root False = Some (Ok db)" "db_profiles db \<noteq> []"
proof -
  let ?d = "decode_value (rd_sha256 rd) (rd_into_writer rd)"
  from assms(3) obtain wire where e: "encode (rd_into_writer rd) raw = Ok wire"
    and v: "validate (rd_sha256 rd) (rd_into_writer rd) (rd_from_reader rd) wire = Some (Ok root)"
    by (auto simp: validated_def split: sum.splits)
  from cbor_codec.encode_Ok [OF codec assms(2) e] obtain v' k where
    c: "canonical (rd_into_writer rd) raw 0 0 = Ok (v', k)" "cbor_value (rd_from_reader rd) wire = Ok v'" .
  from v c(2) have "v' = root" by (auto simp: validate_def split: option.splits sum.splits if_splits)
  with c have canon: "canonised (rd_into_writer rd) raw root" and val: "cbor_value (rd_from_reader rd) wire = Ok root"
    by (auto simp: canonised_def)
  from v val obtain db where db: "?d root False = Some (Ok db)" "db_profiles db \<noteq> []"
    and inv: "invalid_reference_profiles (db_profiles db) True = Some []"
    by (auto simp: validate_def split: option.splits sum.splits if_splits)
  from decode_value_unmarked [OF db(1) inv] cbor_codec.decode_encode [OF codec val] canon val db that
  show ?thesis by blast
qed

text \<open>The pieces of a conversion that succeeds.\<close>

lemma convert_filesE:
  assumes "convert_files rd parser files revision = Some (Ok root)"
  obtains bs options r profiles snapshot where "bt_get files ''options.xml'' = Some bs"
    "source_parse_xml (rd_encodings rd) parser bs ''options'' = Ok options" "source_revision options revision = Some r"
    "convert_profiles rd parser files = Some (Ok profiles)"
    "validated rd (database_root r options profiles (source_manifest rd files) snapshot) = Some (Ok root)"
  using assms
  by (auto simp: convert_files_def ok_or_def split: option.splits sum.splits)

lemma typed_database_root:
  assumes "from_utf8 r" "typed options" "list_all (\<lambda>(k, v). typed k \<and> typed v) profiles" "typed man"
  shows "typed (database_root r options profiles man snapshot)"
proof -
  have "from_utf8 ''ddccontrol-db''" by (rule from_utf8_ascii) (simp add: byte_val_def)
  with assms show ?thesis by (simp add: database_root_def typed_object list_all_iff case_prod_unfold)
qed

lemma decode_bodyE:
  assumes "decode_body sha256 into_writer root consumer = Ok db"
  obtains uo up es man where "check_header root consumer = Ok ()" "cbor_optional root 5 = Some uo" "cbor_node uo [] True = Ok (db_options db)"
    "cbor_optional root 6 = Some up" "cbor_map up = Ok es" "fold_res (profile_step man) es [] = Ok (db_profiles db)"
  using assms by (auto simp: decode_body_def cbor_field_def ok_or_def split: if_splits option.splits)

text \<open>A generated database requires no extension, so a consumer decodes it as its validation did.\<close>

lemma decode_consumer:
  assumes "cbor_optional root 7 = None"
  shows "decode_value sha256 into_writer root True = decode_value sha256 into_writer root False"
proof -
  have "check_header root True = check_header root False"
    using assms by (simp add: check_header_def required_extensions_def cong: if_cong)
  then have "decode_body sha256 into_writer root True = decode_body sha256 into_writer root False"
    by (simp only: decode_body_def)
  then show ?thesis by (simp only: decode_value_def)
qed

text \<open>What \<open>sources\<close> returns: the options, and profiles under their manifest paths.\<close>

definition source_files :: "snapshot_files \<Rightarrow> bool" where
  "source_files files \<longleftrightarrow> bt_invar files \<and> list_all (\<lambda>(path, _). manifest_path path) files \<and> bt_get files ''options.xml'' \<noteq> None"

lemma profile_id_utf8: "profile_id ident \<Longrightarrow> from_utf8 ident"
proof (rule from_utf8_ascii)
  have "byte_val c < 128" if "is_ascii_alphanumeric c \<or> c = CHR ''_'' \<or> c = CHR ''-''" for c
    using that by (auto simp: is_ascii_alphanumeric_def is_ascii_alphabetic_def is_ascii_uppercase_def
        is_ascii_lowercase_def is_ascii_digit_def byte_val_def)
  then show "list_all (\<lambda>c. byte_val c < 128) ident" if "profile_id ident"
    using that by (simp add: profile_id_def list_all_iff)
qed

lemma profile_path_manifest [simp]: "manifest_path (profile_path ident) \<longleftrightarrow> profile_id ident"
proof -
  have "strip_suffix ''.xml'' (ident @ ''.xml'') = Some ident" by (simp only: strip_suffix_eq_Some)
  then show ?thesis by (simp add: manifest_path_def profile_path_def)
qed

lemma manifest_path_utf8: assumes "manifest_path path" shows "from_utf8 path"
proof (cases "path = ''options.xml''")
  case True
  show ?thesis unfolding True by (rule from_utf8_ascii) (simp add: byte_val_def)
next
  case False
  then obtain ident where path: "path = ''monitor/'' @ ident @ ''.xml''" and "profile_id ident"
    using assms by (auto simp: manifest_path_def strip_prefix_eq_Some strip_suffix_eq_Some split: option.splits)
  then have "from_utf8 ident" by (simp add: profile_id_utf8)
  moreover have "from_utf8 ''monitor/''" "from_utf8 ''.xml''" by (rule from_utf8_ascii, simp add: byte_val_def)+
  ultimately show ?thesis unfolding path by (intro from_utf8_append)
qed

lemma typed_manifest: "source_files files \<Longrightarrow> typed (source_manifest rd files)"
  by (auto simp: source_files_def source_manifest_def list_all_iff manifest_path_utf8)

lemma typed_profiles:
  assumes "reads_same rd parser" "bom_wins (rd_encodings rd)" "source_files files"
    and "convert_profiles rd parser files = Some (Ok profiles)"
  shows "list_all (\<lambda>(k, v). typed k \<and> typed v) profiles"
proof -
  have "typed k \<and> typed v" if "(k, v) \<in> set profiles" for k v
  proof -
    from assms(3) have "distinct (map fst files)" by (simp add: source_files_def bt_invar_def strict_sorted_iff)
    from convert_profiles_Ok(2) [OF assms(4) this that] obtain ident bs where k: "k = CText ident" "(profile_path ident, bs) \<in> set files"
      and v: "source_parse_xml (rd_encodings rd) parser bs ''monitor'' = Ok v" by blast
    from k(2) assms(3) have "manifest_path (profile_path ident)" by (auto simp: source_files_def list_all_iff)
    then have "from_utf8 ident" by (simp add: profile_id_utf8)
    with source_parse_agrees(1) [OF assms(1,2) v] k(1) show ?thesis by simp
  qed
  then show ?thesis by (auto simp: list_all_iff)
qed


text \<open>
  The two contexts: the generated database has the options and the profiles of the sources, up to what no
  reader of them can tell apart.
\<close>

lemma profile_of_sources:
  assumes rs: "reads_same rd parser" "bom_wins (rd_encodings rd)" and files: "source_files files"
    and ps: "convert_profiles rd parser files = Some (Ok profiles)" and up: "canonised w (CMap profiles) (CMap es)"
    and es: "fold_res (profile_step man) es [] = Ok db"
    and ok: "pred_option is_ok (bt_get (xml_profiles rd files) ident)"
  shows "rel_option same_profile (map_option Ok (bt_get db ident)) (bt_get (xml_profiles rd files) ident)"
proof -
  from files have inv: "bt_invar files" "distinct (map fst files)" by (auto simp: source_files_def bt_invar_def strict_sorted_iff)
  note parts = convert_profiles_Ok [OF ps inv(2)]
  from up obtain es' where es': "mset es = mset es'"
    "list_all2 (\<lambda>e e'. fst e' = fst e \<and> canonised w (snd e) (snd e')) profiles es'" by (auto elim: canonised_map)
  from canonised_keys [OF es'(2,1)] parts(3) have keys: "distinct (map fst es)" "fst ` set es = fst ` set profiles"
    by (metis mset_eq_imp_distinct_iff, metis mset_eq_setD set_map)
  note fold = profile_fold [OF es keys(1)]
  show ?thesis
  proof (cases "bt_get files (profile_path ident)")
    case None
    have "CText ident \<notin> fst ` set profiles"
    proof
      assume "CText ident \<in> fst ` set profiles"
      then obtain v where "(CText ident, v) \<in> set profiles" by auto
      from parts(2) [OF this] obtain bs where "(profile_path ident, bs) \<in> set files" by auto
      with None show False using bt.get_entry [OF inv(1), of "profile_path ident" bs] by simp
    qed
    then have "bt_get db ident = None" using fold(2) keys(2) by (simp add: bt_get_def)
    with None show ?thesis by (simp add: xml_profiles_get [OF inv(1)])
  next
    case (Some bs)
    then have "(profile_path ident, bs) \<in> set files" using bt.get_entry [OF inv(1)] by simp
    from parts(1) [OF this] obtain v where v: "source_parse_xml (rd_encodings rd) parser bs ''monitor'' = Ok v"
      "(CText ident, v) \<in> set profiles" by (auto simp: profile_of_path_eq profile_path_def)
    from list_all2_member [OF es'(2) v(2)] obtain e where "e \<in> set es'" "fst e = CText ident" "canonised w v (snd e)" by auto
    then have e: "(CText ident, snd e) \<in> set es" using es'(1) by (metis mset_eq_setD prod.collapse)
    from fold(1) [OF e] obtain p where p: "cbor_node (snd e) [] False = Ok p" "node_tag p = ''monitor''" "bt_get db ident = Some p"
      by blast
    from ok Some obtain m where m: "parse_xml (rd_document rd) (source_text rd bs) = Ok m"
      by (auto simp: xml_profiles_get [OF inv(1)] is_ok_iff)
    have "agrees [] False True p m"
      using source_parse_agrees(2) [OF rs v(1) \<open>canonised w v (snd e)\<close> _ m] p(1) by simp
    with Some p m show ?thesis by (simp add: xml_profiles_get [OF inv(1)] same_profile_def)
  qed
qed

lemma convert_files_agree:
  assumes codec: "cbor_codec (rd_from_reader rd) (rd_into_writer rd)"
    and rs: "reads_same rd parser" "bom_wins (rd_encodings rd)" and files: "source_files files"
    and rev: "pred_option from_utf8 revision"
    and c: "convert_files rd parser files revision = Some (Ok root)"
    and x: "xml_context rd files w n = Some (Ok xcx, n')" and ok: "list_all (\<lambda>(_, r). is_ok r) (cx_profiles xcx)"
  obtains wire ccx where "encode (rd_into_writer rd) root = Ok wire" "\<And>w n. cbor_context rd wire w n = Some (Ok ccx, n)"
    "same_context ccx xcx"
proof -
  let ?w = "rd_into_writer rd"
  from c obtain bs options r profiles snapshot where bs: "bt_get files ''options.xml'' = Some bs"
    and options: "source_parse_xml (rd_encodings rd) parser bs ''options'' = Ok options"
    and r: "source_revision options revision = Some r"
    and profiles: "convert_profiles rd parser files = Some (Ok profiles)"
    and v: "validated rd (database_root r options profiles (source_manifest rd files) snapshot) = Some (Ok root)"
    by (rule convert_filesE)
  have to: "typed options" by (rule source_parse_agrees(1) [OF rs options])
  have traw: "typed (database_root r options profiles (source_manifest rd files) snapshot)"
    by (intro typed_database_root source_revision_utf8 [OF to rev r] to typed_profiles [OF rs files profiles] typed_manifest files)
  obtain wire db where e: "encode ?w root = Ok wire"
    and canon: "canonised ?w (database_root r options profiles (source_manifest rd files) snapshot) root"
    and value': "cbor_value (rd_from_reader rd) wire = Ok root"
    and body: "decode_body (rd_sha256 rd) ?w root False = Ok db"
    and dec: "decode_value (rd_sha256 rd) ?w root False = Some (Ok db)"
    by (rule validatedE [OF codec traw v])
  note root = canonised_object [OF canon [unfolded database_root_def]]
  have "cbor_optional root 7 = None" by (rule root(1)) simp_all
  then have d: "decode (rd_sha256 rd) ?w (rd_from_reader rd) wire = Some (Ok db)"
    using value' dec by (simp add: decode_def decode_consumer)
  from body obtain uo up es man where uo: "cbor_optional root 5 = Some uo" "cbor_node uo [] True = Ok (db_options db)"
    and up: "cbor_optional root 6 = Some up" "cbor_map up = Ok es" and es: "fold_res (profile_step man) es [] = Ok (db_profiles db)"
    by (rule decode_bodyE)
  have "canonised ?w options uo" using root(2) [of 5 options] uo(1) by simp
  have "up = CMap es" using up(2) by (cases up) (simp_all add: cbor_map_def as_map_def)
  then have cp: "canonised ?w (CMap profiles) (CMap es)" using root(2) [of 6 "CMap profiles"] up(1) by simp
  from files xml_context_ok [OF x] have fx: "from_xml rd files xcx" and none: "cx_monitor_file xcx = None"
    by (simp_all add: source_files_def)
  have xp: "cx_profiles xcx = xml_profiles rd files"
    using x bs by (auto simp: xml_context_def io_bind_def io_lift_def io_ret_def split: sum.splits)
  from fx bs obtain m where m: "parse_xml (rd_document rd) (source_text rd bs) = Ok m" "load_options_node m = Ok (cx_options xcx)"
    by (auto simp: from_xml_def)
  have "agrees [] True True (db_options db) m"
    using source_parse_agrees(2) [OF rs options \<open>canonised ?w options uo\<close> _ m(1)] uo(2) by simp
  from options_agree [OF this m(2)] obtain a where a: "load_options_node (db_options db) = Ok a"
    "erase_options a = erase_options (cx_options xcx)" by blast
  let ?ccx = "\<lparr>cx_profiles = map (\<lambda>(ident, node). (ident, Ok node)) (db_profiles db), cx_options = a, cx_monitor_file = None\<rparr>"
  have "cbor_context rd wire w n = Some (Ok ?ccx, n)" for w n
    by (simp add: cbor_context_def d a(1) io_bind_def io_lift_def io_ret_def)
  moreover have "same_context ?ccx xcx"
  proof -
    have get: "bt_get (map (\<lambda>(ident, node). (ident, Ok node)) (db_profiles db)) ident = map_option Ok (bt_get (db_profiles db) ident)"
      for ident by (simp add: bt_get_def map_of_map comp_def)
    have "pred_option is_ok (bt_get (xml_profiles rd files) ident)" for ident
      using ok by (auto simp: xp bt_get_def list_all_iff option.pred_set dest!: map_of_SomeD)
    from profile_of_sources [OF rs files profiles cp es this] show ?thesis
      using a(2) none by (simp add: same_context_def get xp)
  qed
  ultimately show ?thesis using that e by blast
qed

section \<open>The discovered sources\<close>

lemma split_on_not_Nil [simp]: "split_on c s \<noteq> []"
  by (induction s) (auto split: list.split)

lemma split_on_append: "split_on c (a @ c # b) = split_on c a @ split_on c b"
  by (induction a) (auto split: list.split)

lemma split_on_plain: "c \<notin> set s \<Longrightarrow> split_on c s = [s]"
  by (induction s) auto

text \<open>Joining a name to a directory adds one component.\<close>

lemma path_components_join:
  assumes "CHR ''/'' \<notin> set name" "name \<noteq> []" "name \<noteq> ''.''"
  shows "path_components (path_join directory name) = path_components directory @ [name]"
    and "path_absolute (path_join directory name) = path_absolute directory"
proof -
  have plain: "split_on CHR ''/'' name = [name]" by (rule split_on_plain [OF assms(1)])
  show "path_components (path_join directory name) = path_components directory @ [name]"
  proof (cases "directory = [] \<or> last directory = CHR ''/''")
    case True
    show ?thesis
    proof (cases "directory = []")
      case True
      with plain assms(2,3) show ?thesis by (simp add: path_components_def path_join_def Let_def)
    next
      case False
      with True obtain d where d: "directory = d @ ''/''" by (metis append_butlast_last_id)
      have "split_on CHR ''/'' (d @ ''/'' @ name) = split_on CHR ''/'' d @ [name]"
        "split_on CHR ''/'' (d @ ''/'') = split_on CHR ''/'' d @ [[]]"
        using split_on_append [of "CHR ''/''" d name] split_on_append [of "CHR ''/''" d "[]"] plain by simp_all
      with assms(2,3) show ?thesis by (simp add: path_components_def path_join_def Let_def d)
    qed
  next
    case False
    have "split_on CHR ''/'' (directory @ ''/'' @ name) = split_on CHR ''/'' directory @ [name]"
      using split_on_append [of "CHR ''/''" directory name] plain by simp
    with False assms(2,3) show ?thesis by (simp add: path_components_def path_join_def Let_def)
  qed
  show "path_absolute (path_join directory name) = path_absolute directory"
  proof (cases directory)
    case Nil
    with assms(1,2) show ?thesis by (cases name) (auto simp: path_absolute_def starts_with_def path_join_def)
  qed (simp add: path_absolute_def starts_with_def path_join_def)
qed

lemma options_name [simp]: "manifest_name directory (path_join directory ''options.xml'') = Ok ''options.xml''"
proof -
  have "path_components (path_join directory ''options.xml'') = path_components directory @ [''options.xml'']"
    "path_absolute (path_join directory ''options.xml'') = path_absolute directory"
    by (rule path_components_join; simp)+
  then have "path_strip_prefix directory (path_join directory ''options.xml'') = Some ''options.xml''"
    by (simp add: path_strip_prefix_def path_join_components_def)
  moreover have "from_utf8 ''options.xml''" by (rule manifest_path_utf8) (simp add: manifest_path_def)
  ultimately show ?thesis by (simp add: manifest_name_def)
qed

lemma manifest_name_Ok: assumes "manifest_name directory path = Ok name" shows "manifest_path name"
proof (cases "name = ''options.xml''")
  case False
  with assms obtain ident where "name = profile_path ident" "profile_id ident"
    by (auto simp: manifest_name_def ok_or_def strip_suffix_eq_Some profile_path_def split: if_splits option.splits)
  then show ?thesis by simp
qed (simp add: manifest_path_def)

lemma sources_loop_Ok:
  assumes "sources_loop directory paths (used, files) w n = Some (Ok result, n')"
    and "bt_invar files" "list_all (\<lambda>(path, _). manifest_path path) files"
  shows "bt_invar result" "list_all (\<lambda>(path, _). manifest_path path) result"
    and "bt_get files name \<noteq> None \<or> (\<exists>path\<in>set paths. manifest_name directory path = Ok name) \<Longrightarrow> bt_get result name \<noteq> None"
proof -
  have "bt_invar result \<and> list_all (\<lambda>(path, _). manifest_path path) result
      \<and> (bt_get files name \<noteq> None \<or> (\<exists>path\<in>set paths. manifest_name directory path = Ok name) \<longrightarrow> bt_get result name \<noteq> None)"
    using assms
  proof (induction paths arbitrary: used files n)
    case (Cons path paths)
    from Cons.prems(1) obtain key where key: "manifest_name directory path = Ok key"
      by (cases "manifest_name directory path") (simp_all add: io_bind_def io_lift_def)
    with Cons.prems(1) obtain bs k where "sources_loop directory paths (used + length bs, bt_insert key bs files) w k = Some (Ok result, n')"
      by (auto simp: io_lift_def io_fail_def elim!: io_bind_Ok split: if_splits)
    from Cons.IH [OF this] Cons.prems(2,3) key manifest_name_Ok [OF key] show ?case
      by (auto simp: bt_invar_insert list_all_bt_insert bt_get_insert split: if_splits)
  qed (auto simp: io_ret_def)
  then show "bt_invar result" "list_all (\<lambda>(path, _). manifest_path path) result"
    and "bt_get files name \<noteq> None \<or> (\<exists>path\<in>set paths. manifest_name directory path = Ok name) \<Longrightarrow> bt_get result name \<noteq> None"
    by blast+
qed

lemma sources_Ok:
  assumes "sources directory w n = Some (Ok files, n')"
  shows "source_files files"
proof -
  from assms obtain k paths k' ps where "source_paths directory w n = Some (Ok paths, k)" "collect paths = Ok ps"
    and l: "sources_loop directory ps (0, []) w k' = Some (Ok files, n')"
    by (auto simp: sources_def io_lift_def io_fail_def elim!: io_bind_Ok split: if_splits)
  then have "path_join directory ''options.xml'' \<in> set ps"
    by (auto simp: source_paths_def io_ret_def elim!: io_bind_Ok)
  with sources_loop_Ok(1,2) [OF l] sources_loop_Ok(3) [OF l, of "''options.xml''"] show ?thesis
    by (force simp: source_files_def)
qed

text \<open>Conversion always returns: none of the \<open>unwrap\<close>s of the code can fail.\<close>

lemma runs_read_bounded: "runs (read_bounded path)"
  unfolding read_bounded_def Let_def by (auto intro!: runs_bind split: opened.splits option.splits)

lemma runs_sources_loop: "runs (sources_loop directory paths st)"
  by (induction directory paths st rule: sources_loop.induct) (auto intro!: runs_bind runs_read_bounded)

lemma runs_sources: "runs (sources directory)"
  unfolding sources_def source_paths_def by (auto intro!: runs_bind runs_sources_loop)

lemma convert_profiles_total:
  "list_all (\<lambda>(path, _). manifest_path path) files \<Longrightarrow> convert_profiles rd parser files \<noteq> None"
proof (induction files)
  case (Cons f files)
  obtain path bs where f: "f = (path, bs)" by fastforce
  have "profile_of_path path \<noteq> None" if "path \<noteq> ''options.xml''"
    using Cons.prems that by (auto simp: f manifest_path_def profile_of_path_def split: option.splits)
  with Cons show ?case by (cases "path = ''options.xml''") (auto simp: f split: option.splits sum.splits)
qed simp

lemma validate_total: "validate sha256 into_writer from_reader bs \<noteq> None"
proof (cases "cbor_value from_reader bs")
  case (Inr root)
  then show ?thesis using decode_value_total [of sha256 into_writer root False]
    by (auto simp: validate_def invalid_reference_profiles_eq split: option.splits sum.splits)
qed (simp add: validate_def)

lemma validated_total: "validated rd raw \<noteq> None"
  using validate_total [of "rd_sha256 rd"] by (simp add: validated_def split: sum.split)

lemma convert_files_total: "source_files files \<Longrightarrow> convert_files rd parser files revision \<noteq> None"
  using convert_profiles_total [of files rd parser] validated_total [of rd]
  by (auto simp: source_files_def convert_files_def split: option.splits sum.splits prod.splits)

lemma runs_convert: "runs (convert rd parser directory revision)"
  unfolding runs_def
proof (intro allI)
  fix w n
  obtain r k where r: "sources directory w n = Some (r, k)" "n \<le> k" using runs_sources unfolding runs_def by blast
  show "\<exists>r n'. convert rd parser directory revision w n = Some (r, n') \<and> n \<le> n'"
  proof (cases r)
    case (Inr files)
    with r(1) have "source_files files" using sources_Ok by blast
    then obtain c where c: "convert_files rd parser files revision = Some c" using convert_files_total by blast
    obtain r' k' where r': "sources directory w k = Some (r', k')" "k \<le> k'" using runs_sources unfolding runs_def by blast
    with r Inr c show ?thesis
      by (cases c; cases r') (auto simp: convert_def io_bind_def io_ret_def io_fail_def)
  qed (use r in \<open>simp add: convert_def io_bind_def\<close>)
qed

text \<open>
  C9: The generated database and the XML sources are two forms of one database. If the generator converts
  a directory, and the library can read the files it converted as XML sources, every profile included,
  then the library reads the generated file too, and loading any monitor gives the same result, the same
  changed capabilities and the same memory over the one as over the other. The XML parser and the decoder of the encodings are
  shared by both programs.
\<close>

theorem generated_database_same:
  assumes "cbor_codec (rd_from_reader rd) (rd_into_writer rd)"
    and "reads_same rd parser" and "bom_wins (rd_encodings rd)" and "pred_option from_utf8 revision"
    and conv: "convert rd parser directory revision w n = Some (Ok root, n')"
    and src: "sources directory w n = Some (Ok files, k)"
    and "xml_context rd files w' m = Some (Ok xcx, m')" and "list_all (\<lambda>(_, r). is_ok r) (cx_profiles xcx)"
  shows "\<exists>wire ccx. encode (rd_into_writer rd) root = Ok wire
     \<and> (\<forall>w n. cbor_context rd wire w n = Some (Ok ccx, n))
     \<and> (\<forall>avail translate pnpname caps ft.
          create_db_inner avail translate (Some ccx) pnpname caps ft = create_db_inner avail translate (Some xcx) pnpname caps ft)"
proof -
  from conv src have c: "convert_files rd parser files revision = Some (Ok root)"
    by (auto simp: convert_def io_ret_def io_fail_def elim!: io_bind_Ok split: if_splits)
  show ?thesis
    by (rule convert_files_agree [OF assms(1,2,3) sources_Ok [OF src] assms(4) c assms(7,8)])
      (use create_inner_same in blast)
qed

section \<open>A directory with one profile\<close>

definition sample_sources :: fs_view where
  "sample_sources =
     \<lparr>fv_open = \<lambda>path. if path = ''/s/options.xml'' then Opened 0 else if path = ''/s/monitor/M.xml'' then Opened 1 else Not_found,
      fv_stat = \<lambda>_. None, fv_metadata = \<lambda>_. None, fv_read = \<lambda>h. Some [if h = 0 then 79 else 77],
      fv_list = \<lambda>_. Some [Some ''M.xml'']\<rparr>"

definition sample_generator :: "unit readers" where
  "sample_generator = sample_readers\<lparr>rd_sha256 := \<lambda>_. replicate 32 0, rd_into_writer := enc, rd_from_reader := read_value\<rparr>"

definition sample_parser :: source_parser where
  "sample_parser t =
     (if t = ''O'' then Ok (Source_Element ''options'' [(None, ''dbversion'', ''3''), (None, ''date'', ''1'')] [] 1, [])
      else Ok (Source_Element ''monitor'' [(None, ''name'', ''M''), (None, ''init'', ''standard'')]
        [Source_Element ''controls'' [] [] 1] 1, []))"

definition sample_files :: snapshot_files where
  "sample_files = [(''monitor/M.xml'', [77]), (''options.xml'', [79])]"

lemma sample_stem: "strip_suffix ''.xml'' ''M.xml'' = Some ''M''"
  by (simp add: strip_suffix_def)

lemma sample_utf8: "from_utf8 ''M''" "from_utf8 ''M.xml''" "from_utf8 ''monitor/M.xml''" "from_utf8 ''1''" "from_utf8 ''3''"
    "from_utf8 ''options''" "from_utf8 ''monitor''" "from_utf8 ''controls''" "from_utf8 ''name''" "from_utf8 ''init''"
    "from_utf8 ''standard''" "from_utf8 ''dbversion''" "from_utf8 ''date''"
  by (rule from_utf8_ascii, simp add: byte_val_def)+

lemma sample_path: "manifest_name ''/s'' ''/s/monitor/M.xml'' = Ok ''monitor/M.xml''"
  by (simp add: manifest_name_def path_strip_prefix_def path_absolute_def starts_with_def path_join_components_def
      path_components_def path_file_name_def sample_utf8 sample_stem profile_id_def
      is_ascii_alphanumeric_def is_ascii_alphabetic_def is_ascii_uppercase_def byte_val_def)

lemma sample_xml: "is_xml_path ''/s/monitor/M.xml''"
  by (simp add: is_xml_path_def path_file_name_def path_components_def ends_with_def sample_stem)

lemma sample_sources_read: "sources ''/s'' (\<lambda>_. sample_sources) n = Some (Ok sample_files, n + 5)"
proof -
  have "manifest_name ''/s'' ''/s/options.xml'' = Ok ''options.xml''"
    using options_name [of "''/s''"] by (simp add: path_join_def)
  then show ?thesis
    by (simp add: sources_def source_paths_def io_bind_def access_def io_ret_def io_lift_def path_join_def sample_sources_def
        List.map_filter_def source_entry_def sample_xml sample_path MAX_PROFILES_def read_bounded_def MAX_FILE_def sample_files_def)
qed

lemma sample_xml_context:
  "xml_context sample_generator sample_files w m
     = Some (Ok \<lparr>cx_profiles = [(''M'', Ok sample_root)], cx_options = \<lparr>od_groups = []\<rparr>, cx_monitor_file = None\<rparr>, m)"
proof -
  have t: "source_text sample_generator bs = source_text sample_readers bs" for bs
    by (simp add: source_text_def sample_generator_def)
  have d: "rd_document sample_generator = rd_document sample_readers" by (simp add: sample_generator_def)
  have "profile_of_path ''monitor/M.xml'' = Some ''M''" by (simp add: profile_of_path_eq profile_path_def)
  then show ?thesis
    by (simp add: xml_context_def sample_files_def bt_get_def io_bind_def io_lift_def io_ret_def xml_profiles_def t d
        sample_texts sample_documents)
qed

lemma sample_reads_same: "reads_same sample_generator sample_parser"
proof -
  have "rd_document sample_generator = rd_document sample_readers" by (simp add: sample_generator_def)
  then show ?thesis
    by (simp add: reads_same_def sample_parser_def sample_readers_def sample_utf8)
qed

text \<open>The generated database.\<close>

definition sample_element :: "nat \<Rightarrow> (nat \<times> cbor) list \<Rightarrow> cbor list \<Rightarrow> cbor" where
  "sample_element kind attrs children = cbor_object [(0, CInteger (int kind)), (1, cbor_object attrs), (2, CArray children)]"

abbreviation sample_options_element :: cbor where
  "sample_options_element \<equiv> sample_element 0 [(12, CInteger 3), (13, CText ''1'')] []"

abbreviation sample_profile_element :: cbor where
  "sample_profile_element \<equiv> sample_element 5 [(0, CText ''M''), (5, CText ''standard'')] [sample_element 8 [] []]"

definition sample_database :: "cbor \<Rightarrow> cbor" where
  "sample_database man = database_root ''1'' sample_options_element [(CText ''M'', sample_profile_element)] man (replicate 32 0)"

lemma sample_elements:
  "source_element (Source_Element ''options'' [(None, ''dbversion'', ''3''), (None, ''date'', ''1'')] [] 1) [] [] True True 0
     = Ok sample_options_element"
  "source_element (Source_Element ''monitor'' [(None, ''name'', ''M''), (None, ''init'', ''standard'')]
       [Source_Element ''controls'' [] [] 1] 1) [] [] False True 0 = Ok sample_profile_element"
  by code_simp+

lemma sample_parsed:
  "source_parse_xml (rd_encodings sample_generator) sample_parser [79] ''options'' = Ok sample_options_element"
  "source_parse_xml (rd_encodings sample_generator) sample_parser [77] ''monitor'' = Ok sample_profile_element"
proof -
  have "xml_declared_label [79] = None" "xml_declared_label [77] = None" by code_simp+
  then have "decode_source (rd_encodings sample_generator) [79] = Ok ''O''" "decode_source (rd_encodings sample_generator) [77] = Ok ''M''"
    by (simp_all add: decode_source_def sample_generator_def sample_readers_def normalize_single bytes_str_def sample_chars)
  then show "source_parse_xml (rd_encodings sample_generator) sample_parser [79] ''options'' = Ok sample_options_element"
    "source_parse_xml (rd_encodings sample_generator) sample_parser [77] ''monitor'' = Ok sample_profile_element"
    by (simp_all add: source_parse_xml_def sample_parser_def sample_elements [unfolded One_nat_def] del: source_element.simps)
qed

lemma sample_converted:
  "convert_profiles sample_generator sample_parser sample_files = Some (Ok [(CText ''M'', sample_profile_element)])"
proof -
  have "profile_of_path ''monitor/M.xml'' = Some ''M''" by (simp add: profile_of_path_eq profile_path_def)
  then show ?thesis by (simp add: sample_files_def sample_parsed)
qed

text \<open>The manifest of a generated database is in the order of the encoded keys.\<close>

definition sample_manifest :: cbor where
  "sample_manifest = CMap [(CText ''options.xml'', CBytes (replicate 32 0)), (CText ''monitor/M.xml'', CBytes (replicate 32 0))]"

lemmas sample_enc = canonical.simps cbor_limits enc_head_def is_text_def cbor_uint_def str_bytes_def byte_of_def Let_def

lemma sample_canonical:
  "and_then (canonical enc (source_manifest sample_generator sample_files) 0 0) (\<lambda>(v, _). Ok v) = Ok sample_manifest"
  "and_then (canonical enc (sample_database (source_manifest sample_generator sample_files)) 0 0) (\<lambda>(v, _). Ok v) = Ok (sample_database sample_manifest)"
  by (simp_all add: source_manifest_def sample_files_def sample_manifest_def sample_generator_def sample_database_def database_root_def
      cbor_object_def sample_element_def sample_enc)
lemma sample_lengths: "length (enc sample_manifest) \<le> MAX_FILE" "length (enc (sample_database sample_manifest)) \<le> MAX_FILE"
  by (simp_all add: sample_manifest_def sample_database_def database_root_def cbor_object_def sample_element_def sample_enc)

lemma sample_encoded: "encode enc (sample_database sample_manifest) = Ok (enc (sample_database sample_manifest))"
proof -
  have "and_then (canonical enc (sample_database sample_manifest) 0 0) (\<lambda>(v, _). Ok v) = Ok (sample_database sample_manifest)"
    by (simp add: sample_manifest_def sample_database_def database_root_def cbor_object_def sample_element_def sample_enc)
  then obtain k where "canonical enc (sample_database sample_manifest) 0 0 = Ok (sample_database sample_manifest, k)" by auto
  with sample_lengths(2) show ?thesis by (simp add: encode_def Let_def)
qed

lemma sample_optional:
  "cbor_optional (sample_database man) 0 = Some (CBytes (map byte_of ''DDCDB''))"
  "cbor_optional (sample_database man) 1 = Some (CInteger 1)"
  "cbor_optional (sample_database man) 2 = Some (CText ''1'')"
  "cbor_optional (sample_database man) 3 = Some (CInteger 3)"
  "cbor_optional (sample_database man) 4 = Some (CText ''ddccontrol-db'')"
  "cbor_optional (sample_database man) 5 = Some sample_options_element"
  "cbor_optional (sample_database man) 6 = Some (CMap [(CText ''M'', sample_profile_element)])"
  "cbor_optional (sample_database man) 7 = None"
  "cbor_optional (sample_database man) 8 = Some man"
  "cbor_optional (sample_database man) 9 = Some (CBytes (replicate 32 0))"
  "is_ok (cbor_fields (sample_database man))"
  by (simp_all add: sample_database_def database_root_def cbor_object_def cbor_optional_def as_map_def cbor_uint_def is_ok_def
      cbor_fields_def cbor_map_def)

lemma sample_manifest_read:
  "manifest sample_manifest = Ok [(''monitor/M.xml'', replicate 32 0), (''options.xml'', replicate 32 0)]"
proof -
  have "manifest_path ''monitor/M.xml''" using profile_path_manifest [of "''M''"]
    by (simp add: profile_path_def profile_id_def is_ascii_alphanumeric_def is_ascii_alphabetic_def is_ascii_uppercase_def byte_val_def)
  moreover have "manifest_path ''options.xml''" by (simp add: manifest_path_def)
  ultimately show ?thesis
    by (simp add: manifest_def sample_manifest_def cbor_map_def as_map_def manifest_step_def cbor_text_def as_text_def bytes32_def
        as_bytes_def bt_get_def MAX_PROFILES_def)
qed

lemma sample_element_parts:
  "cbor_optional (sample_element kind attrs children) 0 = Some (CInteger (int kind))"
  "cbor_optional (sample_element kind attrs children) 1 = Some (cbor_object attrs)"
  "cbor_optional (sample_element kind attrs children) 2 = Some (CArray children)"
  "cbor_optional (sample_element kind attrs children) 3 = None"
  "is_ok (cbor_fields (sample_element kind attrs children))"
  by (simp_all add: sample_element_def cbor_object_def cbor_optional_def as_map_def cbor_uint_def is_ok_def cbor_fields_def cbor_map_def)

lemma sample_node:
  "kind < 2 ^ 64 \<Longrightarrow> cbor_node (sample_element kind attrs children) parent in_options =
     and_then (node_kind_tag (sample_element kind attrs children) kind) (\<lambda>tag.
     and_then (cbor_fields (cbor_object attrs)) (\<lambda>entries.
     and_then (fold_res (attribute_step tag parent (executable_attributes tag parent in_options)) entries []) (\<lambda>as.
     and_then (collect (map (\<lambda>child. cbor_node child tag in_options) children)) (\<lambda>kids.
       Ok (Node tag as kids 0 (kind_name kind = None \<and> kind \<noteq> 255))))))"
  using sample_element_parts [of kind attrs children]
  by (auto simp: cbor_node.simps [of "sample_element kind attrs children"] cbor_field_def cbor_uint_def required_extensions_def
      cbor_array_def as_array_def is_ok_iff Let_def)

lemma sample_three: "format_int 3 = ''3''"
  by code_simp

lemma sample_nodes:
  "cbor_node sample_options_element [] True = Ok (Node ''options'' [(''date'', ''1''), (''dbversion'', ''3'')] [] 0 False)"
  "cbor_node sample_profile_element [] False
     = Ok (Node ''monitor'' [(''init'', ''standard''), (''name'', ''M'')] [Node ''controls'' [] [] 0 False] 0 False)"
  by (simp_all add: sample_node node_kind_tag_def kind_name_def KINDS_def cbor_object_def cbor_fields_def cbor_map_def as_map_def
      cbor_uint_def attribute_step_def ATTRIBUTES_def executable_attributes_def attribute_text_def cbor_integer_def as_integer_def
      attribute_integer_bounds_def cbor_text_def as_text_def sample_three)

lemma sample_digest: "manifest_digest (\<lambda>_. replicate 32 0) enc sample_manifest = Ok (replicate 32 0)"
proof -
  have "and_then (canonical enc sample_manifest 0 0) (\<lambda>(v, _). Ok v) = Ok sample_manifest"
    by (simp add: sample_manifest_def sample_enc)
  then obtain k where "canonical enc sample_manifest 0 0 = Ok (sample_manifest, k)" by auto
  with sample_lengths(1) show ?thesis by (simp add: manifest_digest_def encode_def Let_def)
qed

abbreviation sample_decoded :: database where
  "sample_decoded \<equiv>
     \<lparr>db_options = Node ''options'' [(''date'', ''1''), (''dbversion'', ''3'')] [] 0 False,
      db_profiles = [(''M'', Node ''monitor'' [(''init'', ''standard''), (''name'', ''M'')] [Node ''controls'' [] [] 0 False] 0 False)],
      db_manifest = [(''monitor/M.xml'', replicate 32 0), (''options.xml'', replicate 32 0)], db_snapshot = replicate 32 0\<rparr>"

lemma sample_body: "decode_body (\<lambda>_. replicate 32 0) enc (sample_database sample_manifest) False = Ok sample_decoded"
proof -
  have "profile_id ''M''"
    by (simp add: profile_id_def is_ascii_alphanumeric_def is_ascii_alphabetic_def is_ascii_uppercase_def byte_val_def)
  moreover obtain u where "cbor_fields (sample_database sample_manifest) = Ok u"
    using sample_optional(11) by (auto simp: is_ok_iff)
  ultimately show ?thesis
    by (simp add: decode_body_def check_header_def cbor_field_def sample_optional sample_optional(2) [unfolded One_nat_def] sample_manifest_read sample_digest sample_nodes
        as_bytes_def cbor_uint_def cbor_text_def as_text_def required_extensions_def bytes32_def cbor_map_def as_map_def
        MAX_PROFILES_def profile_step_def profile_path_def bt_get_def)
qed

lemma sample_references: "invalid_reference_profiles (db_profiles sample_decoded) b = Some []"
proof -
  let ?profile = "Node ''monitor'' [(''init'', ''standard''), (''name'', ''M'')] [Node ''controls'' [] [] 0 False] 0 False"
  have "includes_of ?profile = []" by (simp add: includes_of_def)
  then have "include_good (db_profiles sample_decoded) b ''M'' 1 1"
    by (intro include_goodI [where subs = "[]" and profile = ?profile])
      (simp_all add: bt_get_def MAX_INCLUDE_DEPTH_def cbor_limits)
  moreover have "bt_invar (db_profiles sample_decoded)" by (simp add: bt_invar_def)
  ultimately show ?thesis by (auto simp: invalid_reference_profiles_eq bt_keys_def)
qed

lemma sample_validated_node:
  "kind < 2 ^ 64 \<Longrightarrow> executable_path (kind_tag kind) parent in_options ancestor \<Longrightarrow>
     validate_node (sample_element kind attrs children) parent in_options ancestor
       = try_for_each (\<lambda>child. validate_node child (kind_tag kind) in_options True) children"
  using sample_element_parts [of kind attrs children]
  by (auto simp: validate_node.simps [of "sample_element kind attrs children"] cbor_field_def cbor_uint_def extensions_at_def
      cbor_array_def as_array_def is_ok_iff Let_def)

lemma sample_rest: "validate_rest (sample_database man) = Ok ()"
  by (simp add: validate_rest_def extensions_at_def cbor_field_def sample_optional cbor_map_def as_map_def sample_validated_node
      kind_tag_def kind_name_def KINDS_def executable_path_def executable_attributes_def try_for_each_Ok)

lemma sample_validate:
  "validate (\<lambda>_. replicate 32 0) enc read_value (enc (sample_database sample_manifest)) = Some (Ok (sample_database sample_manifest))"
proof -
  let ?raw = "sample_database (source_manifest sample_generator sample_files)"
  obtain k where c: "canonical enc ?raw 0 0 = Ok (sample_database sample_manifest, k)" using sample_canonical(2) by auto
  then have e: "encode enc ?raw = Ok (enc (sample_database sample_manifest))"
    using sample_lengths(2) by (simp add: encode_def Let_def)
  have "typed ?raw"
    unfolding sample_database_def
    by (intro typed_database_root typed_manifest sources_Ok [OF sample_sources_read [of 0]])
      (simp_all add: sample_utf8 sample_element_def typed_object)
  from cbor_codec.encode_Ok [OF model_codec.cbor_codec_axioms this e] c
  have "cbor_value read_value (enc (sample_database sample_manifest)) = Ok (sample_database sample_manifest)" by auto
  moreover have "decode_value (\<lambda>_. replicate 32 0) enc (sample_database sample_manifest) False = Some (Ok sample_decoded)"
    using sample_references [of False] by (simp add: decode_value_def sample_body)
  ultimately show ?thesis using sample_references [of True] by (simp add: validate_def sample_rest)
qed

lemma sample_validated:
  "validated sample_generator (sample_database (source_manifest sample_generator sample_files)) = Some (Ok (sample_database sample_manifest))"
proof -
  obtain k where "canonical enc (sample_database (source_manifest sample_generator sample_files)) 0 0 = Ok (sample_database sample_manifest, k)"
    using sample_canonical(2) by auto
  then have "encode enc (sample_database (source_manifest sample_generator sample_files)) = Ok (enc (sample_database sample_manifest))"
    using sample_lengths(2) by (simp add: encode_def Let_def)
  then show ?thesis using sample_validate by (simp add: validated_def sample_generator_def)
qed

lemma sample_convert:
  "convert sample_generator sample_parser ''/s'' (Some ''1'') (\<lambda>_. sample_sources) n
     = Some (Ok (sample_database sample_manifest), n + 10)"
proof -
  have "manifest_digest (rd_sha256 sample_generator) (rd_into_writer sample_generator) (source_manifest sample_generator sample_files)
      = Ok (replicate 32 0)"
  proof -
    obtain k where "canonical enc (source_manifest sample_generator sample_files) 0 0 = Ok (sample_manifest, k)"
      using sample_canonical(1) by auto
    moreover have "rd_into_writer sample_generator = enc" "rd_sha256 sample_generator = (\<lambda>_. replicate 32 0)"
      by (simp_all add: sample_generator_def)
    ultimately show ?thesis using sample_lengths(1) by (simp add: manifest_digest_def encode_def Let_def)
  qed
  moreover have "bt_get sample_files ''options.xml'' = Some [79]" by (simp add: sample_files_def bt_get_def)
  ultimately have "convert_files sample_generator sample_parser sample_files (Some ''1'') = Some (Ok (sample_database sample_manifest))"
    using sample_validated by (simp add: convert_files_def sample_parsed sample_converted source_revision_def sample_database_def)
  then show ?thesis by (simp add: convert_def io_bind_def sample_sources_read io_ret_def)
qed

theorem generated_database_same_witness:
  "\<exists>wire ccx. encode enc (sample_database sample_manifest) = Ok wire
     \<and> (\<forall>w n. cbor_context sample_generator wire w n = Some (Ok ccx, n))
     \<and> (\<forall>avail translate pnpname caps ft. create_db_inner avail translate (Some ccx) pnpname caps ft
          = create_db_inner avail translate
              (Some \<lparr>cx_profiles = [(''M'', Ok sample_root)], cx_options = \<lparr>od_groups = []\<rparr>, cx_monitor_file = None\<rparr>) pnpname caps ft)"
proof -
  have g: "rd_into_writer sample_generator = enc" "rd_from_reader sample_generator = read_value"
    by (simp_all add: sample_generator_def)
  have "bom_wins (rd_encodings sample_generator)"
    by (simp add: bom_wins_def sample_generator_def sample_readers_def)
  then show ?thesis
    using generated_database_same [of sample_generator sample_parser "Some ''1''" "''/s''" "\<lambda>_. sample_sources" 0
        "sample_database sample_manifest" "0 + 10" sample_files 5, OF _ sample_reads_same _ _ sample_convert _ sample_xml_context]
      model_codec.cbor_codec_axioms sample_sources_read [of 0]
    by (simp add: g sample_utf8)
qed

end
