(* ===== verification/Gen_Main.thy ===== *)
theory Gen_Main
  imports Gen_Convert
begin

text \<open>
  The command line of the database generator, \<^verbatim>\<open>crates/ddccontrol-dbgen/src/main.rs\<close>: the arguments,
  the checks that keep a destination from being a source, the atomic writing of a file, and a run. What a
  run does to the file system and to its standard output is a sequence of effects; the record \<open>host\<close>
  holds what it finds there. The links of the file system are taken not to change during a run.
\<close>

section \<open>The host\<close>

text \<open>How the writing of a file ends: the temporary file may exist, or filling or renaming it may fail.\<close>

datatype write_fate = Cannot_open | Cannot_fill | Cannot_rename | Written


datatype effect =
    Create_temporary string
  | Remove_temporary string
  | Replace string bytes
  | Remove string
  | Print string

datatype run_error =
    Usage
  | Not_text string
  | Missing string
  | Unexpected string
  | Rewrite_in_place
  | Not_distinct
  | Overwrites_source
  | No_file_name
  | Write_failed string
  | Failed gen_error

text \<open>A step that may fail, with what it did.\<close>

type_synonym 'a effects = "('a, run_error) result \<times> effect list"


section \<open>Paths\<close>






section \<open>Writing\<close>



section \<open>Arguments\<close>






section \<open>A run\<close>











definition exit_code :: "unit effects \<Rightarrow> nat" where
  "exit_code m = (if is_ok (fst m) then 0 else 1)"

section \<open>What a run touches\<close>

definition target :: "effect \<Rightarrow> string option" where
  "target e = (case e of Replace p _ \<Rightarrow> Some p | Remove p \<Rightarrow> Some p | _ \<Rightarrow> None)"

definition targets :: "effect list \<Rightarrow> string set" where
  "targets did = {p. \<exists>e\<in>set did. target e = Some p}"



lemma targets_simps [simp]:
  "targets [] = {}" "targets (did @ did2) = targets did \<union> targets did2" "targets (Replace p bs # did) = insert p (targets did)"
  "targets (Remove p # did) = insert p (targets did)" "targets (Create_temporary t # did) = targets did"
  "targets (Remove_temporary t # did) = targets did" "targets (Print t # did) = targets did"
  by (auto simp: targets_def target_def)

lemma targets_removed [simp]: "targets (map Remove ps) = set ps"
  by (induction ps) simp_all













section \<open>Every run\<close>














section \<open>A run over the sample\<close>








end
