(* ===== verification/Spec2Isabelle.thy ===== *)
theory Spec2Isabelle
  imports Edid_Ffi Monitor_Db User_Profile Monitor_List Db_Session Scan_Main Gen_Main
begin

text \<open>
  Verification of the Rust crates of ddccontrol, a program that controls monitors over DDC/CI.

  \<^bold>\<open>The program.\<close> A monitor is an I2C device. The crate \<^verbatim>\<open>ddccontrol-protocol\<close> builds the frames sent to it
  and parses its replies, \<^verbatim>\<open>ddccontrol-edid\<close> parses the block that identifies it and \<^verbatim>\<open>ddccontrol-caps\<close>
  the capability string that it reports. The database of monitor profiles is a directory of XML files
  or one CBOR file made of them: \<^verbatim>\<open>ddccontrol-db-format\<close> decodes and validates that file,
  \<^verbatim>\<open>ddccontrol-db\<close> gives a C program a session over either form and builds the tree of controls of one
  monitor, \<^verbatim>\<open>ddccontrol-dbgen\<close> converts the one form into the other, and \<^verbatim>\<open>ddccontrol-scanmonitor\<close>
  writes a first profile for an unknown monitor. \<^verbatim>\<open>ddccontrol-profile\<close> and \<^verbatim>\<open>ddccontrol-monitorlist\<close> are two
  file formats with C interfaces in \<^verbatim>\<open>ddccontrol-db\<close>, and \<^verbatim>\<open>ddccontrol-xml\<close> has the helpers they share.
  All paths below are under \<^verbatim>\<open>src/crates\<close>.

  \<^bold>\<open>Shared vocabulary.\<close> \<open>Prelude\<close> has \<open>Result\<close> as a sum (\<open>Ok\<close> is \<open>Inr\<close>, \<open>Err\<close> is \<open>Inl\<close>), the operator \<open>?\<close> as
  \<open>and_then\<close>, fallible loops with the locale \<open>fallible_loop\<close>, strings as byte strings, numerals, and the
  collection \<open>rust_std\<close> of the standard library functions that the sources call. \<open>Utf8\<close> has the
  characters of a \<open>str\<close>, \<open>Btree_Map\<close> the ordered maps with their contract \<open>ordered_map\<close>, \<open>C_Memory\<close> the C
  allocator: a heap of live blocks whose requests may fail, freeing a dead block as a fault (\<open>None\<close>), and the contract
  \<open>c_owner\<close> of a pair of an allocating and a releasing function, which every structure of the C
  interfaces instantiates, from a string up to the monitor tree. \<open>Xml_Support\<close> is \<^verbatim>\<open>ddccontrol-xml/src/lib.rs\<close>,
  integers in the three notations and the writer of attributes. \<open>Xml_Document\<close> has the writers and
  readers of small XML files with their round trip.

  \<^bold>\<open>The wire.\<close> \<open>Protocol\<close>: \<^verbatim>\<open>ddccontrol-protocol/src/lib.rs\<close>, frames over 8-bit words and the exclusive-or sum with
  its contract \<open>byte_checksum\<close>; \<open>Protocol_Ffi\<close>: \<^verbatim>\<open>ddccontrol-db/src/protocol.rs\<close>, the entry points with their pointers,
  capacities and status codes. Shown: what is built, that exactly the well-formed replies are accepted,
  that one damaged byte is detected, and that nothing is written outside the caller's buffer.

  \<^bold>\<open>Identification.\<close> \<open>Edid\<close>: \<^verbatim>\<open>ddccontrol-edid/src/lib.rs\<close>; \<open>Edid_Ffi\<close>: its C interface in \<^verbatim>\<open>ddccontrol-db/src/lib.rs\<close>. \<open>Caps_Parser\<close>
  and \<open>Caps\<close>: \<^verbatim>\<open>ddccontrol-caps/src/lib.rs\<close>, the recursive parser and the two edits; \<open>Caps_Ffi\<close>: their C interface, as
  a refinement in which every block has one owner and a failed call changes nothing.

  \<^bold>\<open>The CBOR database.\<close> In \<^verbatim>\<open>ddccontrol-db-format/src\<close>: \<open>Cbor_Value\<close> and \<open>Cbor_Preflight\<close> (the byte check before decoding, which accepts exactly the
  deterministic encodings within the limits), \<open>Cbor_Codec\<close> (the canonical encoder, the decoder and their
  round trip under the contract \<open>cbor_codec\<close> of the external reader and writer, which a reader of the
  theory meets), \<open>Cbor_Format\<close> (tables, accessors and nodes), \<open>Include_Graph\<close> (the worklist over the
  includes, against an inductive definition of a good profile), \<open>Db_Decode\<close> (the database body and the
  manifests), \<open>Descriptors\<close> (\<^verbatim>\<open>descriptors.rs\<close>, against the register of descriptive fields as an inductive definition),
  \<open>Db_Writing\<close> (\<^verbatim>\<open>writing.rs\<close>: strict validation and the fallback manifest) and
  \<open>Xml_Source\<close> (\<^verbatim>\<open>xml.rs\<close>: declared encodings and what may precede a document).

  \<^bold>\<open>The library.\<close> In \<^verbatim>\<open>ddccontrol-db/src\<close>: \<open>Options_Db\<close> (\<^verbatim>\<open>options.rs\<close>, \<^verbatim>\<open>xml.rs\<close> and the second reader of the options in
  \<^verbatim>\<open>lib.rs\<close>, which agree), \<open>Monitor_Tree\<close> (allocation and release of the tree of controls), \<open>Monitor_Load\<close>
  and \<open>Monitor_Db\<close> (the interpretation of a profile with its includes, reserved addresses, required
  semantics and staged capabilities, up to \<open>ddcci_create_db\<close>), \<open>Db_Files\<close> (reading the directory), \<open>Db_Session\<close> (the
  global context and the calls that change it), \<open>User_Profile\<close> and \<open>Monitor_List\<close> (with \<^verbatim>\<open>ddccontrol-profile\<close>
  and \<^verbatim>\<open>ddccontrol-monitorlist\<close>). A load is a state monad with errors and faults; the contract
  \<open>load_invariant\<close> carries an invariant of the single steps to whole loads, and is interpreted for the
  ownership of the staged capabilities, for distinct addresses and for sealed addresses. Shown: the
  ownership of every block on every path, no two controls with one address, no control on a reserved
  address, the flag that forbids a generic replacement, consistent loading of a directory that changes,
  round trips of both file formats through memory, and that an accepted override always loads.

  \<^bold>\<open>The generator.\<close> In \<^verbatim>\<open>ddccontrol-dbgen/src\<close>: \<open>Gen_Node\<close> (one document to one value), \<open>Gen_Convert\<close>
  (discovery, reading, conversion and the reports of \<^verbatim>\<open>lib.rs\<close>), \<open>Gen_Main\<close> (\<^verbatim>\<open>main.rs\<close>: arguments, checks, atomic writing,
  cleaning up). \<open>Gen_Agree\<close> is the simulation between a session over the sources and one over the
  generated file; its relation \<open>agrees\<close> compares two nodes where the library executes them. Shown: both
  forms give the same monitors, the sources are never damaged, and what a run leaves at its outputs.

  \<^bold>\<open>The scan tool.\<close> In \<^verbatim>\<open>ddccontrol-scanmonitor/src\<close>: \<open>Scan_Backend\<close> (\<^verbatim>\<open>backend.rs\<close>), \<open>Scan_Xml\<close> (\<^verbatim>\<open>xml.rs\<close>) and
  \<open>Scan_Main\<close> (\<^verbatim>\<open>main.rs\<close>). The history of transfers is kept on every way out, also where a monitor
  cannot be identified and in the listing of all devices; the check for an existing output and its
  creation, which are minutes apart, see different states of the files. Shown: only reads are sent to
  any device, in a bounded number of transfers; an advertised control with a side effect stays commented
  out; no existing file is changed, and a new profile holds what was read from one opened monitor.

  \<^bold>\<open>Conventions.\<close> A panic and a memory fault are \<open>None\<close> in functions that return options of results; the theorems
  of these functions include that they do not occur. Machine integers are words or have their range
  written out, memory is a heap passed along, and a changing file system is a \<^emph>\<open>world\<close>, the view that each
  access sees. Structural recursion and measures give termination almost everywhere. Loops over a
  worklist or a chain are \<open>while_option\<close>, with the theorem that they return: the include check because
  every edge is released once, the search for requirements because no name is visited twice. The
  nesting of includes is bounded by the code's own depth of 16 levels for loading and 256 for validation. The retries
  of the scan tool are bounded by the constants of the code. No fuel is used in a definition that models
  code; the reader that witnesses \<open>cbor_codec\<close> has the nesting limit of the format as its fuel.

  \<^bold>\<open>Parameters.\<close> Code outside the repository is an argument of the definitions that use it: the XML parser
  (\<^verbatim>\<open>roxmltree\<close>), the character encodings (\<^verbatim>\<open>encoding_rs\<close>), the CBOR reader and writer (\<^verbatim>\<open>ciborium\<close>), the
  digest (\<^verbatim>\<open>sha2\<close>), translation (\<open>dgettext\<close>), the C allocator's decisions, the file system and the I2C
  device. Where a theorem needs a law of one of them it is a named hypothesis: \<open>cbor_codec\<close>, \<open>reads_same\<close> (the two
  programs use one XML parser, of which they see different parts), \<open>reads_documents\<close> (an XML parser reads the
  documents the two file formats write, which use no namespaces), \<open>bom_wins\<close> (a decoder gives way to a byte order mark)
  and the like, with a witness for each.

  \<^bold>\<open>Not modelled.\<close> The catching of panics at the C boundary (no modelled function panics there), the
  mutex around the session (the session is one thread's), diagnostics on standard error, pauses
  between transfers, the \<open>ioctl\<close> itself, thread-local copies of the load flag, the synchronisation of a
  written file with its disk, changes of symbolic links while the generator checks its destinations, tests, examples and benchmarks, and
  \<^verbatim>\<open>ddccontrol-db/src/cbor.rs\<close>, which only re-exports the format crate.
\<close>

end
